(* ===== verification/Prelude.thy ===== *)
theory Prelude
  imports Main "HOL-Library.Word" "HOL-Library.Monad_Syntax"
begin

text \<open>
  Shared vocabulary of the development: machine integers at their C width, a byte-addressed
  memory with little-endian typed accesses, and the lemmas every component uses about them.
\<close>

unbundle bit_operations_syntax

section \<open>Machine integers and memory\<close>

type_synonym u8 = "8 word"
type_synonym u16 = "16 word"
type_synonym u32 = "32 word"
type_synonym u64 = "64 word"
type_synonym mem = "nat \<Rightarrow> u8"

named_theorems mem_simps \<open>reads over writes\<close>

definition rd16 :: "mem \<Rightarrow> nat \<Rightarrow> u16" where
  "rd16 m a = ucast (m a) OR push_bit 8 (ucast (m (a + 1)))"

definition wr16 :: "mem \<Rightarrow> nat \<Rightarrow> u16 \<Rightarrow> mem" where
  "wr16 m a v = m(a := ucast v, a + 1 := ucast (drop_bit 8 v))"

definition rd32 :: "mem \<Rightarrow> nat \<Rightarrow> u32" where
  "rd32 m a = ucast (m a) OR push_bit 8 (ucast (m (a + 1)))
     OR push_bit 16 (ucast (m (a + 2))) OR push_bit 24 (ucast (m (a + 3)))"

definition wr32 :: "mem \<Rightarrow> nat \<Rightarrow> u32 \<Rightarrow> mem" where
  "wr32 m a v = m(a := ucast v, a + 1 := ucast (drop_bit 8 v),
     a + 2 := ucast (drop_bit 16 v), a + 3 := ucast (drop_bit 24 v))"

text \<open>\<open>bzero\<close> and \<open>memcpy\<close>.\<close>

definition zero_range :: "mem \<Rightarrow> nat \<Rightarrow> nat \<Rightarrow> mem" where
  "zero_range m a n = (\<lambda>x. if a \<le> x \<and> x < a + n then 0 else m x)"

definition wr_bytes :: "mem \<Rightarrow> nat \<Rightarrow> u8 list \<Rightarrow> mem" where
  "wr_bytes m a bs = (\<lambda>x. if a \<le> x \<and> x < a + length bs then bs ! (x - a) else m x)"

definition rd_bytes :: "mem \<Rightarrow> nat \<Rightarrow> nat \<Rightarrow> u8 list" where
  "rd_bytes m a n = map m [a..<a + n]"

definition same_on :: "nat set \<Rightarrow> mem \<Rightarrow> mem \<Rightarrow> bool" where
  "same_on A m m' \<longleftrightarrow> (\<forall>x\<in>A. m' x = m x)"

lemma rd16_wr16_same [simp]: "rd16 (wr16 m a v) a = v"
  unfolding rd16_def wr16_def
  by (rule bit_word_eqI) (auto simp: bit_simps)

lemma rd32_wr32_same [simp]: "rd32 (wr32 m a v) a = v"
proof (rule bit_word_eqI)
  fix n :: nat
  assume "n < LENGTH(32)"
  then consider "n < 8" | "8 \<le> n" "n < 16" | "16 \<le> n" "n < 24" | "24 \<le> n" "n < 32"
    by fastforce
  then show "bit (rd32 (wr32 m a v) a) n = bit v n"
    by cases (auto simp: rd32_def wr32_def bit_simps)
qed

lemma wr32_outside: "x < a \<or> a + 4 \<le> x \<Longrightarrow> wr32 m a v x = m x"
  by (auto simp: wr32_def)

lemma wr16_outside: "x < a \<or> a + 2 \<le> x \<Longrightarrow> wr16 m a v x = m x"
  by (auto simp: wr16_def)

lemma zero_range_outside: "x < a \<or> a + n \<le> x \<Longrightarrow> zero_range m a n x = m x"
  by (auto simp: zero_range_def)

lemma zero_range_inside: "a \<le> x \<Longrightarrow> x < a + n \<Longrightarrow> zero_range m a n x = 0"
  by (simp add: zero_range_def)

lemma wr_bytes_outside: "x < a \<or> a + length bs \<le> x \<Longrightarrow> wr_bytes m a bs x = m x"
  by (auto simp: wr_bytes_def)

lemma rd32_cong:
  assumes "\<And>x. a \<le> x \<Longrightarrow> x < a + 4 \<Longrightarrow> m' x = m x"
  shows "rd32 m' a = rd32 m a"
  using assms by (simp add: rd32_def)

lemma rd16_cong:
  assumes "\<And>x. a \<le> x \<Longrightarrow> x < a + 2 \<Longrightarrow> m' x = m x"
  shows "rd16 m' a = rd16 m a"
  using assms by (simp add: rd16_def)

lemma rd32_wr32_other [mem_simps]: "b + 4 \<le> a \<or> a + 4 \<le> b \<Longrightarrow> rd32 (wr32 m a v) b = rd32 m b"
  by (rule rd32_cong) (auto intro!: wr32_outside)

lemma rd32_wr16_other [mem_simps]: "b + 4 \<le> a \<or> a + 2 \<le> b \<Longrightarrow> rd32 (wr16 m a v) b = rd32 m b"
  by (rule rd32_cong) (auto intro!: wr16_outside)

lemma rd16_wr32_other [mem_simps]: "b + 2 \<le> a \<or> a + 4 \<le> b \<Longrightarrow> rd16 (wr32 m a v) b = rd16 m b"
  by (rule rd16_cong) (auto intro!: wr32_outside)

lemma rd16_wr16_other [mem_simps]: "b + 2 \<le> a \<or> a + 2 \<le> b \<Longrightarrow> rd16 (wr16 m a v) b = rd16 m b"
  by (rule rd16_cong) (auto intro!: wr16_outside)

lemma rd32_zero: "(\<And>x. a \<le> x \<Longrightarrow> x < a + 4 \<Longrightarrow> m x = 0) \<Longrightarrow> rd32 m a = 0"
  by (simp add: rd32_def)

lemma rd_bytes_cong:
  "(\<And>x. a \<le> x \<Longrightarrow> x < a + n \<Longrightarrow> m' x = m x) \<Longrightarrow> rd_bytes m' a n = rd_bytes m a n"
  by (simp add: rd_bytes_def)

lemma rd_wr_bytes_same [simp]: "rd_bytes (wr_bytes m a bs) a (length bs) = bs"
  by (rule nth_equalityI) (auto simp: rd_bytes_def wr_bytes_def)

lemma same_on_refl [simp, intro]: "same_on A m m"
  by (simp add: same_on_def)

lemma same_onI [intro?]: "(\<And>x. x \<in> A \<Longrightarrow> m' x = m x) \<Longrightarrow> same_on A m m'"
  by (simp add: same_on_def)

lemma same_onD: "same_on A m m' \<Longrightarrow> x \<in> A \<Longrightarrow> m' x = m x"
  by (simp add: same_on_def)

lemma same_on_trans: "same_on A m m' \<Longrightarrow> same_on A m' m'' \<Longrightarrow> same_on A m m''"
  by (simp add: same_on_def)

lemma same_on_subset: "same_on B m m' \<Longrightarrow> A \<subseteq> B \<Longrightarrow> same_on A m m'"
  by (auto simp: same_on_def)

lemma same_on_rd32: "same_on A m m' \<Longrightarrow> {a..<a + 4} \<subseteq> A \<Longrightarrow> rd32 m' a = rd32 m a"
  by (rule rd32_cong) (auto simp: same_on_def)

lemma same_on_rd16: "same_on A m m' \<Longrightarrow> {a..<a + 2} \<subseteq> A \<Longrightarrow> rd16 m' a = rd16 m a"
  by (rule rd16_cong) (auto simp: same_on_def)


section \<open>Word arithmetic as natural numbers\<close>

lemma unat_add_less:
  fixes a b :: "'a::len word"
  assumes "unat a + unat b < 2 ^ LENGTH('a)"
  shows "unat (a + b) = unat a + unat b"
  using assms unat_add_lem [of a b] by simp

lemma unat_mult_less:
  fixes a b :: "'a::len word"
  assumes "unat a * unat b < 2 ^ LENGTH('a)"
  shows "unat (a * b) = unat a * unat b"
  using assms unat_mult_lem [of a b] by simp

lemma unat_Suc_less:
  fixes i j :: "'a::len word"
  assumes "i < j"
  shows "unat (i + 1) = unat i + 1"
proof -
  have "unat i < unat j" using assms by (simp add: word_less_nat_alt)
  also have "unat j < 2 ^ LENGTH('a)" by (rule unsigned_less)
  finally have "unat i + 1 < 2 ^ LENGTH('a)"
    using \<open>unat i < unat j\<close> unsigned_less [of j, where 'a = nat] by linarith
  then show ?thesis using unat_add_less [of i 1] by simp
qed

lemma unat_and_mask:
  fixes x :: "'a::len word"
  assumes "n < LENGTH('a)"
  shows "unat (x AND (2 ^ n - 1)) = unat x mod 2 ^ n"
proof -
  have "x AND (2 ^ n - 1) = take_bit n x"
    by (simp add: take_bit_eq_mask mask_eq_exp_minus_1)
  then show ?thesis by (simp only: unsigned_take_bit_eq take_bit_eq_mod [where 'a = nat])
qed

lemma unat_drop_bit_div:
  fixes x :: "'a::len word"
  shows "unat (drop_bit n x) = unat x div 2 ^ n"
  by (simp only: unat_drop_bit_eq drop_bit_eq_div [where 'a = nat])

lemma unat_push_bit_less:
  fixes x :: "'a::len word"
  assumes "unat x * 2 ^ n < 2 ^ LENGTH('a)"
  shows "unat (push_bit n x) = unat x * 2 ^ n"
  using assms by (subst unsigned_push_bit_eq) (simp add: push_bit_eq_mult take_bit_nat_eq_self)

lemma unat_ucast_up:
  fixes x :: "'a::len word"
  assumes "LENGTH('a) \<le> LENGTH('b::len)"
  shows "unat (ucast x :: 'b word) = unat x"
proof -
  have "unat x < 2 ^ LENGTH('a)" by (rule unsigned_less)
  also have "\<dots> \<le> 2 ^ LENGTH('b)" using assms by (intro power_increasing) auto
  finally show ?thesis by (simp add: unsigned_ucast_eq take_bit_nat_eq_self)
qed

section \<open>Total correctness of a fallible computation\<close>

text \<open>The computation has a result, and the result has a property.\<close>

definition ok_with :: "'a option \<Rightarrow> ('a \<Rightarrow> bool) \<Rightarrow> bool" where
  "ok_with m P \<longleftrightarrow> (case m of None \<Rightarrow> False | Some x \<Rightarrow> P x)"

lemma ok_with_simps [simp]:
  "ok_with (Some x) P \<longleftrightarrow> P x"
  "\<not> ok_with None P"
  "ok_with (Option.bind m f) P \<longleftrightarrow> ok_with m (\<lambda>x. ok_with (f x) P)"
  "ok_with (map_option g m) P \<longleftrightarrow> ok_with m (\<lambda>x. P (g x))"
  by (cases m; simp add: ok_with_def)+

lemma ok_with_if [simp]: "ok_with (if b then m else n) P \<longleftrightarrow> (if b then ok_with m P else ok_with n P)"
  by simp

lemma ok_with_mono: "ok_with m P \<Longrightarrow> (\<And>x. m = Some x \<Longrightarrow> P x \<Longrightarrow> Q x) \<Longrightarrow> ok_with m Q"
  by (cases m) auto

lemma ok_with_iff: "ok_with m P \<longleftrightarrow> (\<exists>x. m = Some x \<and> P x)"
  by (cases m) auto

end
