(* ===== verification/Pacommon.thy ===== *)
theory Pacommon
  imports Prelude
begin

text \<open>
  The shared helpers of \<^verbatim>\<open>parrotdb/pacommon.h\<close>: rounding on \<^verbatim>\<open>uint32_t\<close> and the conversions between an
  atom number and an address.
\<close>

section \<open>Rounding\<close>

definition pa_roundup_shift32 :: "u32 \<Rightarrow> u8 \<Rightarrow> u32" where
  "pa_roundup_shift32 val shift =
     (val + push_bit (unat shift) 1 - 1) AND NOT (push_bit (unat shift) 1 - 1)"

definition pa_roundup32 :: "u32 \<Rightarrow> u32 \<Rightarrow> u32" where
  "pa_roundup32 val rnd = (val + rnd - 1) AND NOT (rnd - 1)"

definition pa_items_shift32 :: "u32 \<Rightarrow> u8 \<Rightarrow> u32" where
  "pa_items_shift32 val shift = drop_bit (unat shift) (val + push_bit (unat shift) 1 - 1)"

text \<open>The atom number is shifted as a \<^verbatim>\<open>uint32_t\<close>, before the pointer arithmetic.\<close>

definition pa_pointer :: "nat \<Rightarrow> u32 \<Rightarrow> u8 \<Rightarrow> nat" where
  "pa_pointer base atom shift = base + unat (push_bit (unat shift) atom)"

definition pa_atom :: "nat \<Rightarrow> nat \<Rightarrow> u8 \<Rightarrow> u32" where
  "pa_atom base cur shift = word_of_int ((int cur - int base) div 2 ^ unat shift)"

lemma unat_exp:
  assumes "n < LENGTH('a)"
  shows "unat (2 ^ n :: 'a::len word) = 2 ^ n"
proof -
  have "unat (push_bit n 1 :: 'a word) = 2 ^ n"
    using assms by (subst unsigned_push_bit_eq) (simp add: take_bit_nat_eq_self push_bit_eq_mult)
  then show ?thesis by simp
qed

lemma unat_exp_u32 [simp]: "n < 32 \<Longrightarrow> unat (2 ^ n :: u32) = 2 ^ n"
  by (simp add: unat_exp)

lemma exp_u32_pos: "n < 32 \<Longrightarrow> (0 :: u32) < 2 ^ n"
  by (simp add: word_less_nat_alt)

lemma unat_plus_minus_1:
  fixes a b :: u32
  assumes "0 < b" and "unat a + unat b \<le> 2 ^ 32"
  shows "unat (a + b - 1) = unat a + unat b - 1"
proof -
  have eq: "a + b - 1 = a + (b - 1)" by simp
  have b1: "unat (b - 1) = unat b - 1"
    using assms(1) by (metis One_nat_def unat_minus_one word_gt_0)
  have "0 < unat b" using assms(1) by (simp add: word_less_nat_alt)
  with assms(2) have "unat a + unat (b - 1) < 2 ^ 32" unfolding b1 by simp
  then have "unat (a + (b - 1)) = unat a + unat (b - 1)"
    using unat_add_lem [of a "b - 1"] by simp
  with \<open>0 < unat b\<close> show ?thesis unfolding eq b1 by simp
qed

lemma unat_and_not_mask:
  fixes x :: "'a::len word"
  shows "unat (x AND NOT (2 ^ n - 1)) = (unat x div 2 ^ n) * 2 ^ n"
proof -
  have eq: "x AND NOT (2 ^ n - 1) = push_bit n (drop_bit n x)"
    by (rule bit_word_eqI) (auto simp: bit_simps simp flip: mask_eq_exp_minus_1)
  have "unat x div 2 ^ n * 2 ^ n \<le> unat x" by simp
  then have "unat x div 2 ^ n * 2 ^ n < 2 ^ LENGTH('a)"
    using unsigned_less [of x] by (rule le_less_trans)
  moreover have "unat (drop_bit n x) = unat x div 2 ^ n"
    by (simp only: unat_drop_bit_eq drop_bit_eq_div [where 'a = nat])
  ultimately show ?thesis
    unfolding eq by (subst unsigned_push_bit_eq) (simp add: push_bit_eq_mult take_bit_nat_eq_self)
qed

lemma pa_roundup_shift32_nat:
  assumes "unat shift < 32" and "unat val + 2 ^ unat shift \<le> 2 ^ 32"
  shows "unat (pa_roundup_shift32 val shift)
    = (unat val + 2 ^ unat shift - 1) div 2 ^ unat shift * 2 ^ unat shift"
  using assms exp_u32_pos [OF assms(1)]
  by (simp add: pa_roundup_shift32_def unat_and_not_mask unat_plus_minus_1)

lemma pa_items_shift32_nat:
  assumes "unat shift < 32" and "unat val + 2 ^ unat shift \<le> 2 ^ 32"
  shows "unat (pa_items_shift32 val shift) = (unat val + 2 ^ unat shift - 1) div 2 ^ unat shift"
  using assms exp_u32_pos [OF assms(1)]
  by (simp add: pa_items_shift32_def unat_div unat_plus_minus_1 drop_bit_eq_div)

lemma pa_roundup32_nat:
  assumes "n < 32" and "unat val + 2 ^ n \<le> 2 ^ 32"
  shows "unat (pa_roundup32 val (2 ^ n)) = (unat val + 2 ^ n - 1) div 2 ^ n * 2 ^ n"
  using assms exp_u32_pos [OF assms(1)]
  by (simp add: pa_roundup32_def unat_and_not_mask unat_plus_minus_1)

end
