(* ===== verification/Clib.thy ===== *)
theory Clib
  imports Prelude
begin

text \<open>
  The parts of the C library the code under \<^verbatim>\<open>src/\<close> calls on strings, in the C locale and on
  an LP64 machine: \<^verbatim>\<open>isspace\<close> and \<^verbatim>\<open>strtoul\<close>/\<^verbatim>\<open>strtoull\<close>. A C string is the list of its
  characters before the terminating NUL.
\<close>

definition c_isspace :: "char \<Rightarrow> bool" where
  "c_isspace c \<longleftrightarrow> c = CHR '' '' \<or> (9 \<le> (of_char c :: nat) \<and> (of_char c :: nat) \<le> 13)"

definition c_digit :: "char \<Rightarrow> nat" where
  "c_digit c =
     (let n = of_char c :: nat in
      if 48 \<le> n \<and> n \<le> 57 then n - 48
      else if 97 \<le> n \<and> n \<le> 122 then n - 87
      else if 65 \<le> n \<and> n \<le> 90 then n - 55
      else 36)"

fun c_digits :: "nat \<Rightarrow> nat \<Rightarrow> string \<Rightarrow> nat" where
  "c_digits base acc [] = acc"
| "c_digits base acc (c # cs) =
     (if c_digit c < base then c_digits base (acc * base + c_digit c) cs else acc)"

definition c_hex_prefix :: "string \<Rightarrow> bool" where
  "c_hex_prefix s \<longleftrightarrow>
     (case s of a # b # d # _ \<Rightarrow> a = CHR ''0'' \<and> (b = CHR ''x'' \<or> b = CHR ''X'') \<and> c_digit d < 16
      | _ \<Rightarrow> False)"

definition c_base :: "nat \<Rightarrow> string \<Rightarrow> nat \<times> string" where
  "c_base base s =
     (if (base = 0 \<or> base = 16) \<and> c_hex_prefix s then (16, drop 2 s)
      else if base = 0 then (if take 1 s = ''0'' then (8, s) else (10, s))
      else (base, s))"

text \<open>\<^verbatim>\<open>strtoul\<close>: \<^verbatim>\<open>ULONG_MAX\<close> on overflow; a minus sign negates as an unsigned number.\<close>

definition c_strtoul :: "string \<Rightarrow> nat \<Rightarrow> nat" where
  "c_strtoul str base =
     (let s = dropWhile c_isspace str;
          neg = (take 1 s = ''-'');
          s = (if take 1 s = ''-'' \<or> take 1 s = ''+'' then drop 1 s else s);
          (b, s) = c_base base s;
          v = c_digits b 0 s
      in if 2 ^ 64 \<le> v then 2 ^ 64 - 1
         else if neg then (2 ^ 64 - v) mod 2 ^ 64 else v)"

definition ULONG_MAX :: nat where
  "ULONG_MAX = 2 ^ 64 - 1"

lemma c_strtoul_less: "c_strtoul s b < 2 ^ 64"
  by (simp add: c_strtoul_def Let_def split: prod.splits)

text \<open>Printing a number in a base, to state that parsing inverts it.\<close>

definition digit_char :: "nat \<Rightarrow> char" where
  "digit_char d = (char_of (if d < 10 then 48 + d else 87 + d) :: char)"

lemma c_digit_char: "d < 36 \<Longrightarrow> c_digit (digit_char d) = d"
  by (auto simp: c_digit_def digit_char_def of_char_of Let_def)

fun print_base :: "nat \<Rightarrow> nat \<Rightarrow> string" where
  "print_base b n = (if b < 2 \<or> n < b then [digit_char n] else print_base b (n div b) @ [digit_char (n mod b)])"

declare print_base.simps [simp del]

lemma c_digits_append:
  assumes "\<forall>c\<in>set xs. c_digit c < b"
  shows "c_digits b acc (xs @ ys) = c_digits b (c_digits b acc xs) ys"
  using assms by (induction xs arbitrary: acc) auto

lemma c_digit_mod:
  assumes "2 \<le> b" "b \<le> 36"
  shows "c_digit (digit_char (n mod b)) = n mod b" "n mod b < b"
proof -
  show "n mod b < b" using assms by simp
  with assms have "n mod b < 36" by linarith
  then show "c_digit (digit_char (n mod b)) = n mod b" by (rule c_digit_char)
qed

lemma print_base_digits:
  assumes "2 \<le> b" "b \<le> 36"
  shows "\<forall>c\<in>set (print_base b n). c_digit c < b"
  using assms
proof (induction b n rule: print_base.induct)
  case (1 b n)
  show ?case
  proof (cases "n < b")
    case True
    with "1.prems" show ?thesis by (simp add: print_base.simps [of b n] c_digit_char)
  next
    case False
    with 1 c_digit_mod [OF "1.prems", of n] show ?thesis
      by (simp add: print_base.simps [of b n])
  qed
qed

lemma c_digits_print_base:
  assumes "2 \<le> b" "b \<le> 36"
  shows "c_digits b 0 (print_base b n) = n"
  using assms
proof (induction b n rule: print_base.induct)
  case (1 b n)
  show ?case
  proof (cases "n < b")
    case True
    with "1.prems" show ?thesis by (simp add: print_base.simps [of b n] c_digit_char)
  next
    case False
    with 1 c_digit_mod [OF "1.prems", of n] print_base_digits [OF "1.prems", of "n div b"]
    show ?thesis
      by (simp add: print_base.simps [of b n] c_digits_append)
  qed
qed

lemma print_base_digit_chars: "2 \<le> b \<Longrightarrow> b \<le> 36 \<Longrightarrow> \<forall>c\<in>set (print_base b n). \<exists>d<b. c = digit_char d"
proof (induction b n rule: print_base.induct)
  case (1 b n)
  show ?case
  proof (cases "n < b")
    case True
    with "1.prems" show ?thesis by (auto simp: print_base.simps [of b n])
  next
    case False
    moreover have "n mod b < b" using "1.prems" by simp
    then have "\<exists>d<b. digit_char (n mod b) = digit_char d" by blast
    ultimately show ?thesis using 1 by (auto simp: print_base.simps [of b n])
  qed
qed

lemma print_base_nonempty: "print_base b n \<noteq> []"
  by (simp add: print_base.simps)

text \<open>Parsing what \<^verbatim>\<open>printf\<close> writes for \<^verbatim>\<open>0x%qx\<close>.\<close>

lemma c_strtoul_hex:
  assumes "n < 2 ^ 64"
  shows "c_strtoul (''0x'' @ print_base 16 n) 0 = n"
proof -
  obtain d ds where p: "print_base 16 n = d # ds" using print_base_nonempty [of 16 n] by (cases "print_base 16 n") auto
  then have "c_digit d < 16" using print_base_digits [of 16 n] by simp
  then have "c_base 0 (''0x'' @ print_base 16 n) = (16, print_base 16 n)"
    by (simp add: c_base_def c_hex_prefix_def p)
  moreover have "dropWhile c_isspace (''0x'' @ print_base 16 n) = ''0x'' @ print_base 16 n"
    by (simp add: c_isspace_def)
  ultimately show ?thesis
    using assms c_digits_print_base [of 16 n] by (simp add: c_strtoul_def)
qed

end
