(* ===== verification/Paconfig.thy ===== *)
theory Paconfig
  imports Clib
begin

text \<open>
  \<^verbatim>\<open>parrotdb/paconfig.c\<close> and \<^verbatim>\<open>paconfig.h\<close>: the list of configuration variables, read line by line
  from a file and looked up under \<open>base.name\<close>. A line is the buffer one \<^verbatim>\<open>fgets\<close> fills. \<open>mem\<close> tells
  whether memory of a size is found.
\<close>

record pa_config_variable =
  xcv_name :: string
  xcv_value :: string

definition pa_config_extract :: "string \<Rightarrow> (string \<times> string) option" where
  "pa_config_extract buf =
     (let bp = dropWhile c_isspace buf in
      if bp = [] then None
      else
        let name = takeWhile (\<lambda>c. \<not> c_isspace c) bp;
            ep = dropWhile (\<lambda>c. \<not> c_isspace c) bp in
        if ep = [] then None
        else
          let vp = dropWhile (\<lambda>c. c_isspace c \<or> c = CHR ''='') (tl ep) in
          if vp = [] then None
          else
            let value = takeWhile (\<lambda>c. \<not> (c_isspace c \<or> c = CHR '';'')) vp in
            if dropWhile (\<lambda>c. \<not> (c_isspace c \<or> c = CHR '';'')) vp = [] then None
            else Some (name, value))"

text \<open>A variable is one allocation: the struct of three pointers, the name and the value. When there is no memory
  for it the line is skipped.\<close>

definition sizeof_pa_config_variable :: nat where "sizeof_pa_config_variable = 24"

fun pa_config_read_file :: "(nat \<Rightarrow> bool) \<Rightarrow> pa_config_variable list \<Rightarrow> string list \<Rightarrow> pa_config_variable list" where
  "pa_config_read_file mem vars [] = vars"
| "pa_config_read_file mem vars (buf # bufs) =
     (if take 1 buf = ''#'' \<or> take 1 buf = '';'' then pa_config_read_file mem vars bufs
      else case pa_config_extract buf of
        None \<Rightarrow> pa_config_read_file mem vars bufs
      | Some (name, value) \<Rightarrow>
          (let nlen = length name + 1; vlen = length value + 1 in
           if \<not> mem (sizeof_pa_config_variable + nlen + vlen) then pa_config_read_file mem vars bufs
           else pa_config_read_file mem (vars @ [\<lparr>xcv_name = name, xcv_value = value\<rparr>]) bufs))"

text \<open>\<^verbatim>\<open>pa_config_read\<close> does nothing when the file cannot be opened.\<close>

definition pa_config_read :: "(nat \<Rightarrow> bool) \<Rightarrow> pa_config_variable list \<Rightarrow> string list option \<Rightarrow> pa_config_variable list" where
  "pa_config_read mem vars file =
     (case file of None \<Rightarrow> vars | Some bufs \<Rightarrow> pa_config_read_file mem vars bufs)"

definition pa_config_value_internal ::
  "pa_config_variable list \<Rightarrow> string \<Rightarrow> string \<Rightarrow> string option" where
  "pa_config_value_internal vars base name =
     (let namebuf = base @ ''.'' @ name in
      map_option xcv_value (find (\<lambda>v. xcv_name v = namebuf) vars))"

definition pa_config_value :: "pa_config_variable list \<Rightarrow> string \<Rightarrow> string \<Rightarrow> string option" where
  "pa_config_value vars base name = pa_config_value_internal vars base name"

definition pa_config_value32 :: "pa_config_variable list \<Rightarrow> string \<Rightarrow> string \<Rightarrow> u32 \<Rightarrow> u32" where
  "pa_config_value32 vars base name def =
     (case pa_config_value_internal vars base name of
        None \<Rightarrow> def
      | Some value \<Rightarrow>
          if take 3 value = ''1<<'' then
            let ival = c_strtoul (drop 3 value) 0 in
            if ival = ULONG_MAX \<or> 32 < ival then def else word_of_nat (2 ^ ival)
          else if take 4 value = ''1 <<'' then
            let ival = c_strtoul (drop 4 value) 0 in
            if ival = ULONG_MAX \<or> 32 < ival then def else word_of_nat (2 ^ ival)
          else
            let ival = c_strtoul value 0 in
            if ival = ULONG_MAX then def else word_of_nat ival)"

definition pa_config_value32_min :: "pa_config_variable list \<Rightarrow> string \<Rightarrow> string \<Rightarrow> u32 \<Rightarrow> u32" where
  "pa_config_value32_min vars base name def =
     (let val = pa_config_value32 vars base name def in
      if def = 0 \<or> def < val then val else def)"

text \<open>\<^verbatim>\<open>snprintf\<close> into a buffer of \<open>bufsiz\<close> bytes.\<close>

definition pa_config_name :: "nat \<Rightarrow> string \<Rightarrow> string \<Rightarrow> string" where
  "pa_config_name bufsiz base name = take (bufsiz - 1) (base @ ''.'' @ name)"


end
