(* ===== verification/Pammap.thy ===== *)
theory Pammap
  imports Pacommon Paconfig
begin

text \<open>
  \<^verbatim>\<open>parrotdb/pammap.c\<close> and \<^verbatim>\<open>pammap.h\<close>: the segment of memory every other allocator is built
  on. The segment is a byte memory; an address is an offset from \<^verbatim>\<open>pm_addr\<close>. Page 0 holds the
  header (\<^verbatim>\<open>pa_mmap_info_t\<close>) and the named headers that follow it; the free list is a chain of
  \<^verbatim>\<open>pa_mmap_free_t\<close> blocks stored in the free pages themselves. A result \<open>None\<close> of a
  function of type \<open>option\<close> means that the call does not return.
\<close>

section \<open>The segment and its header\<close>

record pa_mmap =
  pm_fd :: int
  pm_flags :: u32
  pm_addr :: nat
  pm_len :: nat
  pm_record :: "(nat \<times> nat) list"
  pm_mem :: mem

text \<open>What the operating system answers: documented behaviour of calls outside \<^verbatim>\<open>src/\<close>.\<close>

datatype mmap_result = Mapped | MapFailed | MapMoved

record pa_os =
  os_ftruncate :: "nat \<Rightarrow> bool"
  os_mmap :: "nat \<Rightarrow> nat \<Rightarrow> mmap_result"
  os_calloc :: bool

definition PA_MMAP_ATOM_SHIFT :: u8 where "PA_MMAP_ATOM_SHIFT = 12"
definition PA_MMAP_ATOM_SIZE :: nat where "PA_MMAP_ATOM_SIZE = 4096"
definition PA_DEFAULT_COUNT :: u32 where "PA_DEFAULT_COUNT = 32"
definition PA_DEFAULT_SIZE :: u32 where "PA_DEFAULT_SIZE = 131072"
definition PA_MMAP_FREE_MAGIC :: u32 where "PA_MMAP_FREE_MAGIC = 0xCABB1E16"
definition PA_MAGIC_NUMBER :: u16 where "PA_MAGIC_NUMBER = 0xBE1E"
definition PA_MAGIC_WRONG :: u16 where "PA_MAGIC_WRONG = 0x1EBE"
definition PA_VERS_MAJOR :: u8 where "PA_VERS_MAJOR = 1"
definition PA_VERS_MINOR :: u8 where "PA_VERS_MINOR = 0"

text \<open>Field offsets of \<^verbatim>\<open>struct pa_mmap_info_s\<close>, \<^verbatim>\<open>pa_mmap_free_t\<close> and \<^verbatim>\<open>pa_mmap_header_t\<close>.\<close>

definition pmi_max_size :: "mem \<Rightarrow> u32" where "pmi_max_size m = rd32 m 4"
definition pmi_num_headers :: "mem \<Rightarrow> u32" where "pmi_num_headers m = rd32 m 8"
definition pmi_len :: "mem \<Rightarrow> nat" where
  "pmi_len m = unat (rd32 m 16) + 2 ^ 32 * unat (rd32 m 20)"
definition pmi_free_at :: nat where "pmi_free_at = 24"
definition pmi_free :: "mem \<Rightarrow> u32" where "pmi_free m = rd32 m pmi_free_at"
definition sizeof_pa_mmap_info :: nat where "sizeof_pa_mmap_info = 32"
definition sizeof_pa_mmap_header :: nat where "sizeof_pa_mmap_header = 72"

definition pmf_magic :: "mem \<Rightarrow> nat \<Rightarrow> u32" where "pmf_magic m p = rd32 m p"
definition pmf_size :: "mem \<Rightarrow> nat \<Rightarrow> u32" where "pmf_size m p = rd32 m (p + 4)"
definition pmf_next_at :: "nat \<Rightarrow> nat" where "pmf_next_at p = p + 8"
definition pmf_next :: "mem \<Rightarrow> nat \<Rightarrow> u32" where "pmf_next m p = rd32 m (pmf_next_at p)"

definition pa_mmap_addr :: "u32 \<Rightarrow> nat option" where
  "pa_mmap_addr atom = (if atom = 0 then None else Some (pa_pointer 0 atom PA_MMAP_ATOM_SHIFT))"

text \<open>The address of a block whose atom is known not to be null.\<close>

definition pa_page :: "u32 \<Rightarrow> nat" where
  "pa_page atom = pa_pointer 0 atom PA_MMAP_ATOM_SHIFT"

section \<open>Free list\<close>

partial_function (option) pa_mmap_list_find :: "mem \<Rightarrow> u32 \<Rightarrow> nat \<Rightarrow> nat option" where
  "pa_mmap_list_find m sz lastp =
     (let fa = rd32 m lastp in
      if fa = 0 then Some lastp
      else if sz \<le> pmf_size m (pa_page fa) then Some lastp
      else pa_mmap_list_find m sz (pmf_next_at (pa_page fa)))"

definition pa_mmap_list_add :: "pa_mmap \<Rightarrow> u32 \<Rightarrow> u32 \<Rightarrow> pa_mmap option" where
  "pa_mmap_list_add pmp atom sz = do {
     let m = pm_mem pmp;
     lastp \<leftarrow> pa_mmap_list_find m sz pmi_free_at;
     let pmfp = pa_page atom;
     let m = wr32 m pmfp PA_MMAP_FREE_MAGIC;
     let m = wr32 m (pmfp + 4) sz;
     let m = wr32 m (pmf_next_at pmfp) (rd32 m lastp);
     let m = wr32 m lastp atom;
     Some (pmp\<lparr>pm_mem := m\<rparr>)
   }"

datatype pa_mmap_scan = ScanHit nat u32 | ScanEnd nat

partial_function (option) pa_mmap_alloc_scan :: "mem \<Rightarrow> u32 \<Rightarrow> nat \<Rightarrow> pa_mmap_scan option" where
  "pa_mmap_alloc_scan m count lastp =
     (let fa = rd32 m lastp in
      if fa = 0 then Some (ScanEnd lastp)
      else if count \<le> pmf_size m (pa_page fa) then Some (ScanHit lastp fa)
      else pa_mmap_alloc_scan m count (pmf_next_at (pa_page fa)))"

text \<open>The new pages of a grown segment read as zero, whether from a file or anonymous.\<close>

definition pa_mmap_grow :: "pa_os \<Rightarrow> pa_mmap \<Rightarrow> nat \<Rightarrow> pa_mmap option" where
  "pa_mmap_grow os pmp new_len =
     (let old_len = pm_len pmp;
          grown = pmp\<lparr>pm_len := new_len, pm_mem := zero_range (pm_mem pmp) old_len (new_len - old_len)\<rparr> in
      if 0 < pm_fd pmp then
        (if \<not> os_ftruncate os new_len then None
         else case os_mmap os 0 new_len of Mapped \<Rightarrow> Some grown | _ \<Rightarrow> None)
      else
        (case os_mmap os old_len (new_len - old_len) of
           Mapped \<Rightarrow> Some (if os_calloc os
                           then grown\<lparr>pm_record := (old_len, new_len - old_len) # pm_record pmp\<rparr>
                           else grown)
         | _ \<Rightarrow> None))"

definition pa_mmap_new_count :: "u32 \<Rightarrow> u32" where
  "pa_mmap_new_count count =
     (if count < PA_DEFAULT_COUNT then PA_DEFAULT_COUNT else pa_roundup32 count PA_DEFAULT_COUNT)"

definition pa_mmap_alloc :: "pa_os \<Rightarrow> pa_mmap \<Rightarrow> nat \<Rightarrow> (pa_mmap \<times> u32) option" where
  "pa_mmap_alloc os pmp sz =
     (if sz = 0 then Some (pmp, 0)
      else do {
        let m = pm_mem pmp;
        let count = (word_of_nat ((sz + PA_MMAP_ATOM_SIZE - 1) mod 2 ^ 64 div PA_MMAP_ATOM_SIZE) :: u32);
        scan \<leftarrow> pa_mmap_alloc_scan m count pmi_free_at;
        case scan of
          ScanHit lastp fa \<Rightarrow>
            (let pmfp = pa_page fa in
             if count < pmf_size m pmfp then
               (let left = pmf_size m pmfp - count in
                Some (pmp\<lparr>pm_mem := wr32 m (pmfp + 4) left\<rparr>, fa + left))
             else Some (pmp\<lparr>pm_mem := wr32 m lastp (pmf_next m pmfp)\<rparr>, fa))
        | ScanEnd lastp \<Rightarrow>
            (let new_count = pa_mmap_new_count count;
                 new_len = (pm_len pmp + unat (push_bit 12 new_count)) mod 2 ^ 64 in
             if pmi_max_size m \<noteq> 0 \<and> unat (pmi_max_size m) < new_len then Some (pmp, 0)
             else case pa_mmap_grow os pmp new_len of
               None \<Rightarrow> Some (pmp, 0)
             | Some pmp' \<Rightarrow>
                 (let fa = (word_of_nat (pm_len pmp div PA_MMAP_ATOM_SIZE) :: u32) in
                  if count < new_count then
                    (let na = fa + count;
                         pmfp = pa_page na;
                         m = wr32 (pm_mem pmp') pmfp PA_MMAP_FREE_MAGIC;
                         m = wr32 m (pmfp + 4) (new_count - count);
                         m = wr32 m (pmf_next_at pmfp) 0;
                         m = wr32 m lastp na in
                     Some (pmp'\<lparr>pm_mem := m\<rparr>, fa))
                  else Some (pmp', fa)))
      })"

definition pa_mmap_free :: "pa_mmap \<Rightarrow> u32 \<Rightarrow> u32 \<Rightarrow> pa_mmap option" where
  "pa_mmap_free pmp atom sz =
     (if atom = 0 then Some pmp
      else
        let count = pa_items_shift32 sz PA_MMAP_ATOM_SHIFT in
        if count = 0 then Some pmp else pa_mmap_list_add pmp atom count)"

section \<open>Invariant of the segment\<close>

definition ext :: "u32 \<times> u32 \<Rightarrow> nat set" where
  "ext e = {unat (fst e) ..< unat (fst e) + unat (snd e)}"

definition ext_bytes :: "u32 \<times> u32 \<Rightarrow> nat set" where
  "ext_bytes e = {unat (fst e) * 4096 ..< (unat (fst e) + unat (snd e)) * 4096}"

definition ext_ok :: "nat \<Rightarrow> u32 \<times> u32 \<Rightarrow> bool" where
  "ext_ok len e \<longleftrightarrow> 0 < unat (snd e) \<and> 0 < unat (fst e)
     \<and> (unat (fst e) + unat (snd e)) * 4096 \<le> len"

definition disj_exts :: "(u32 \<times> u32) list \<Rightarrow> bool" where
  "disj_exts es \<longleftrightarrow> sorted_wrt (\<lambda>e f. ext e \<inter> ext f = {}) es"

definition live_bytes :: "(u32 \<times> u32) list \<Rightarrow> nat set" where
  "live_bytes L = (\<Union>e\<in>set L. ext_bytes e)"

text \<open>Page 0 outside the head of the free list belongs to the named headers.\<close>

definition header_bytes :: "nat set" where
  "header_bytes = {..<4096} - {24..<28}"

fun mm_path :: "mem \<Rightarrow> nat \<Rightarrow> (u32 \<times> u32) list \<Rightarrow> bool" where
  "mm_path m p [] \<longleftrightarrow> True"
| "mm_path m p ((a, n) # xs) \<longleftrightarrow> rd32 m p = a \<and> a \<noteq> 0 \<and> pmf_magic m (pa_page a) = PA_MMAP_FREE_MAGIC
     \<and> pmf_size m (pa_page a) = n \<and> mm_path m (pmf_next_at (pa_page a)) xs"

fun mm_last :: "nat \<Rightarrow> (u32 \<times> u32) list \<Rightarrow> nat" where
  "mm_last p [] = p"
| "mm_last p ((a, n) # xs) = mm_last (pmf_next_at (pa_page a)) xs"

definition mm_chain :: "mem \<Rightarrow> nat \<Rightarrow> (u32 \<times> u32) list \<Rightarrow> bool" where
  "mm_chain m p xs \<longleftrightarrow> mm_path m p xs \<and> rd32 m (mm_last p xs) = 0"

definition mm_wf :: "pa_mmap \<Rightarrow> (u32 \<times> u32) list \<Rightarrow> (u32 \<times> u32) list \<Rightarrow> bool" where
  "mm_wf pmp xs L \<longleftrightarrow> mm_chain (pm_mem pmp) pmi_free_at xs
     \<and> (\<forall>e\<in>set (xs @ L). ext_ok (pm_len pmp) e) \<and> disj_exts (xs @ L)
     \<and> 4096 dvd pm_len pmp \<and> 4096 \<le> pm_len pmp \<and> pm_len pmp \<le> 2 ^ 32"

lemma pa_page_nat: "unat a < 2 ^ 20 \<Longrightarrow> pa_page a = unat a * 4096"
proof -
  assume "unat a < 2 ^ 20"
  then have "unat a * unat (4096 :: u32) < 2 ^ LENGTH(32)" by simp
  then have "unat (a * 4096) = unat a * 4096" by (subst (asm) unat_mult_lem) simp
  then show ?thesis
    by (simp add: pa_page_def pa_pointer_def PA_MMAP_ATOM_SHIFT_def push_bit_eq_mult)
qed

lemma ext_ok_fst: "ext_ok len e \<Longrightarrow> len \<le> 2 ^ 32 \<Longrightarrow> unat (fst e) < 2 ^ 20"
  by (auto simp: ext_ok_def)

lemma ext_ok_page: "ext_ok len e \<Longrightarrow> len \<le> 2 ^ 32 \<Longrightarrow> pa_page (fst e) = unat (fst e) * 4096"
  by (rule pa_page_nat) (rule ext_ok_fst)

lemma ext_disj_bytes: "ext e \<inter> ext f = {} \<Longrightarrow> ext_bytes e \<inter> ext_bytes f = {}"
proof (rule ccontr)
  assume d: "ext e \<inter> ext f = {}" and "ext_bytes e \<inter> ext_bytes f \<noteq> {}"
  then obtain x where x: "x \<in> ext_bytes e" "x \<in> ext_bytes f" by blast
  have "x div 4096 \<in> ext e" using x(1) by (auto simp: ext_bytes_def ext_def)
  moreover have "x div 4096 \<in> ext f" using x(2) by (auto simp: ext_bytes_def ext_def)
  ultimately show False using d by blast
qed

lemma ext_fst_in: "ext_ok len e \<Longrightarrow> unat (fst e) \<in> ext e"
  by (auto simp: ext_ok_def ext_def)

lemma disj_exts_append:
  "disj_exts (xs @ ys) \<longleftrightarrow> disj_exts xs \<and> disj_exts ys \<and> (\<forall>e\<in>set xs. \<forall>f\<in>set ys. ext e \<inter> ext f = {})"
  by (auto simp: disj_exts_def sorted_wrt_append)

lemma disj_exts_Cons:
  "disj_exts (e # ys) \<longleftrightarrow> disj_exts ys \<and> (\<forall>f\<in>set ys. ext e \<inter> ext f = {})"
  by (auto simp: disj_exts_def)

lemma disj_exts_Nil [simp]: "disj_exts []"
  by (simp add: disj_exts_def)

subsection \<open>The chain of free blocks under writes\<close>

definition heads_ok :: "(u32 \<times> u32) list \<Rightarrow> bool" where
  "heads_ok xs \<longleftrightarrow> distinct (map fst xs) \<and> (\<forall>e\<in>set xs. 0 < unat (fst e) \<and> unat (fst e) < 2 ^ 20)"

lemma disj_exts_distinct:
  assumes "disj_exts xs" and "\<forall>e\<in>set xs. ext_ok len e"
  shows "distinct (map fst xs)"
  using assms
proof (induction xs)
  case (Cons e xs)
  have "fst f \<noteq> fst e" if "f \<in> set xs" for f
  proof -
    have "unat (fst e) \<in> ext e" "unat (fst f) \<in> ext f" "ext e \<inter> ext f = {}"
      using Cons.prems that by (auto simp: disj_exts_Cons intro: ext_fst_in)
    then show ?thesis by auto
  qed
  then have "fst e \<notin> fst ` set xs" by force
  with Cons show ?case by (simp add: disj_exts_Cons)
qed simp

lemma heads_okI:
  assumes "disj_exts xs" and "\<forall>e\<in>set xs. ext_ok len e" and "len \<le> 2 ^ 32"
  shows "heads_ok xs"
  using assms disj_exts_distinct [OF assms(1,2)] ext_ok_fst
  by (auto simp: heads_ok_def ext_ok_def)

lemma heads_ok_Nil [simp]: "heads_ok []"
  by (simp add: heads_ok_def)

lemma heads_ok_Cons: "heads_ok (e # xs) \<longleftrightarrow> heads_ok xs \<and> 0 < unat (fst e) \<and> unat (fst e) < 2 ^ 20
   \<and> fst e \<notin> fst ` set xs"
  by (auto simp: heads_ok_def)

lemma heads_ok_append: "heads_ok (xs @ ys) \<longleftrightarrow> heads_ok xs \<and> heads_ok ys \<and> fst ` set xs \<inter> fst ` set ys = {}"
  by (auto simp: heads_ok_def)

lemma mm_path_append: "mm_path m p (xs @ ys) \<longleftrightarrow> mm_path m p xs \<and> mm_path m (mm_last p xs) ys"
  by (induction m p xs rule: mm_path.induct) auto

lemma mm_last_append: "mm_last p (xs @ ys) = mm_last (mm_last p xs) ys"
  by (induction p xs rule: mm_last.induct) auto

lemma mm_chain_append: "mm_chain m p (xs @ ys) \<longleftrightarrow> mm_path m p xs \<and> mm_chain m (mm_last p xs) ys"
  by (auto simp: mm_chain_def mm_path_append mm_last_append)

lemma mm_last_cases: "mm_last p xs = p \<or> (\<exists>e\<in>set xs. mm_last p xs = pmf_next_at (pa_page (fst e)))"
  by (induction p xs rule: mm_last.induct) auto

definition cells :: "nat \<Rightarrow> (u32 \<times> u32) list \<Rightarrow> nat set" where
  "cells p xs = {p..<p + 4} \<union> (\<Union>e\<in>set xs. {pa_page (fst e)..<pa_page (fst e) + 12})"

lemma mm_path_frame:
  assumes "same_on (cells p xs) m m'"
  shows "mm_path m' p xs = mm_path m p xs"
  using assms
proof (induction m p xs rule: mm_path.induct)
  case (2 m p a n xs)
  have "same_on (cells (pmf_next_at (pa_page a)) xs) m m'"
    by (rule same_on_subset [OF "2.prems"]) (auto simp: cells_def pmf_next_at_def)
  moreover have "rd32 m' p = rd32 m p"
    by (rule same_on_rd32 [OF "2.prems"]) (auto simp: cells_def)
  moreover have "pmf_magic m' (pa_page a) = pmf_magic m (pa_page a)"
    unfolding pmf_magic_def by (rule same_on_rd32 [OF "2.prems"]) (auto simp: cells_def)
  moreover have "pmf_size m' (pa_page a) = pmf_size m (pa_page a)"
    unfolding pmf_size_def by (rule same_on_rd32 [OF "2.prems"]) (auto simp: cells_def)
  ultimately show ?case using "2.IH" by simp
qed simp

lemma mm_chain_frame:
  assumes "same_on (cells p xs) m m'"
  shows "mm_chain m' p xs = mm_chain m p xs"
proof -
  have "{mm_last p xs..<mm_last p xs + 4} \<subseteq> cells p xs"
    using mm_last_cases [of p xs] by (auto simp: cells_def pmf_next_at_def)
  then show ?thesis
    using mm_path_frame [OF assms] same_on_rd32 [OF assms] by (simp add: mm_chain_def)
qed


text \<open>A link cell clear of the blocks of a list.\<close>

definition sep :: "nat \<Rightarrow> (u32 \<times> u32) list \<Rightarrow> bool" where
  "sep q xs \<longleftrightarrow> (\<forall>e\<in>set xs. q + 4 \<le> pa_page (fst e) \<or> pa_page (fst e) + 12 \<le> q)"

lemma sep_root: "heads_ok xs \<Longrightarrow> p + 4 \<le> 4096 \<Longrightarrow> sep p xs"
  by (auto simp: sep_def heads_ok_def pa_page_nat)

lemma page_dist:
  assumes "unat a < 2 ^ 20" "unat b < 2 ^ 20" "a \<noteq> b"
  shows "pa_page a + 4096 \<le> pa_page b \<or> pa_page b + 4096 \<le> pa_page a"
proof -
  have "unat a \<noteq> unat b" using assms(3) by (simp add: word_unat_eq_iff)
  then show ?thesis using assms(1,2) by (auto simp: pa_page_nat)
qed

lemma sep_next:
  assumes "heads_ok (e # xs)"
  shows "sep (pmf_next_at (pa_page (fst e))) xs"
proof -
  have "pa_page (fst e) + 4096 \<le> pa_page (fst f) \<or> pa_page (fst f) + 4096 \<le> pa_page (fst e)"
    if "f \<in> set xs" for f
    using assms that by (intro page_dist) (auto simp: heads_ok_def)
  then show ?thesis by (fastforce simp: sep_def pmf_next_at_def)
qed

lemma sep_Cons: "sep q (e # xs) \<longleftrightarrow>
    (q + 4 \<le> pa_page (fst e) \<or> pa_page (fst e) + 12 \<le> q) \<and> sep q xs"
  by (auto simp: sep_def)

lemma sep_append: "sep q (xs @ ys) \<longleftrightarrow> sep q xs \<and> sep q ys"
  by (auto simp: sep_def)

lemma mm_last_sep:
  assumes "heads_ok (xs @ ys)" "sep p ys"
  shows "sep (mm_last p xs) ys"
  using assms
proof (induction p xs rule: mm_last.induct)
  case (2 p a n xs)
  then show ?case using sep_next [of "(a, n)" "xs @ ys"] by (auto simp: heads_ok_Cons sep_append)
qed simp

text \<open>The path to a link does not read the link itself.\<close>

lemma mm_path_frame_last:
  assumes "heads_ok xs" "sep p xs"
    and "same_on (cells p xs - {mm_last p xs..<mm_last p xs + 4}) m m'"
  shows "mm_path m' p xs = mm_path m p xs"
  using assms
proof (induction m p xs rule: mm_path.induct)
  case (2 m p a n xs)
  let ?q = "pmf_next_at (pa_page a)" and ?l = "mm_last p ((a, n) # xs)"
  have sepq: "sep ?q xs" using sep_next [OF "2.prems"(1)] by simp
  have hx: "heads_ok xs" using "2.prems"(1) by (simp add: heads_ok_Cons)
  have l: "?l = ?q \<or> (\<exists>e\<in>set xs. ?l = pmf_next_at (pa_page (fst e)))"
    using mm_last_cases [of ?q xs] by simp
  have far: "pa_page a + 4096 \<le> pa_page (fst e) \<or> pa_page (fst e) + 4096 \<le> pa_page a"
    if "e \<in> set xs" for e
    using "2.prems"(1) that by (intro page_dist) (auto simp: heads_ok_def)
  have p_l: "{p..<p + 4} \<inter> {?l..<?l + 4} = {}"
    using l "2.prems"(2) by (auto simp: sep_def pmf_next_at_def)
  have hd_l: "{pa_page a..<pa_page a + 8} \<inter> {?l..<?l + 4} = {}"
  proof (rule ccontr)
    assume "{pa_page a..<pa_page a + 8} \<inter> {?l..<?l + 4} \<noteq> {}"
    then obtain y where y: "pa_page a \<le> y" "y < pa_page a + 8" "?l \<le> y" "y < ?l + 4"
      by (meson atLeastLessThan_iff disjoint_iff)
    from l show False
    proof
      assume "?l = ?q" then show False using y by (simp add: pmf_next_at_def)
    next
      assume "\<exists>e\<in>set xs. ?l = pmf_next_at (pa_page (fst e))"
      then obtain e where "e \<in> set xs" "?l = pa_page (fst e) + 8" by (auto simp: pmf_next_at_def)
      then show False using y far [of e] by auto
    qed
  qed
  have "same_on (cells ?q xs - {mm_last ?q xs..<mm_last ?q xs + 4}) m m'"
    by (rule same_on_subset [OF "2.prems"(3)]) (auto simp: cells_def pmf_next_at_def)
  then have IH: "mm_path m' ?q xs = mm_path m ?q xs" by (rule "2.IH" [OF hx sepq])
  have "rd32 m' p = rd32 m p"
    by (rule same_on_rd32 [OF "2.prems"(3)]) (use p_l in \<open>auto simp: cells_def\<close>)
  moreover have "pmf_magic m' (pa_page a) = pmf_magic m (pa_page a)"
    unfolding pmf_magic_def
    by (rule same_on_rd32 [OF "2.prems"(3)]) (use hd_l in \<open>auto simp: cells_def\<close>)
  moreover have "pmf_size m' (pa_page a) = pmf_size m (pa_page a)"
    unfolding pmf_size_def
    by (rule same_on_rd32 [OF "2.prems"(3)]) (use hd_l in \<open>auto simp: cells_def\<close>)
  ultimately show ?case using IH by simp
qed simp

definition blocks :: "(u32 \<times> u32) list \<Rightarrow> nat set" where
  "blocks xs = (\<Union>e\<in>set xs. {pa_page (fst e)..<pa_page (fst e) + 12})"

lemma sep_blocks:
  assumes "sep q xs" "x \<in> blocks xs"
  shows "x < q \<or> q + 4 \<le> x"
proof -
  from assms(2) obtain e where "e \<in> set xs" "pa_page (fst e) \<le> x" "x < pa_page (fst e) + 12"
    by (auto simp: blocks_def)
  with assms(1) show ?thesis by (auto simp: sep_def dest!: bspec)
qed

lemma mm_chain_relink:
  assumes "mm_chain m q zs" and "rd32 m' q' = rd32 m q" and "same_on (blocks zs) m m'"
  shows "mm_chain m' q' zs"
proof (cases zs)
  case Nil
  with assms show ?thesis by (simp add: mm_chain_def)
next
  case (Cons e zs')
  obtain b k where e: "e = (b, k)" by fastforce
  let ?r = "pmf_next_at (pa_page b)"
  have "same_on (cells ?r zs') m m'"
    by (rule same_on_subset [OF assms(3)]) (auto simp: Cons e blocks_def cells_def pmf_next_at_def)
  then have "mm_chain m' ?r zs' = mm_chain m ?r zs'" by (rule mm_chain_frame)
  moreover have "pmf_magic m' (pa_page b) = pmf_magic m (pa_page b)"
    unfolding pmf_magic_def by (rule same_on_rd32 [OF assms(3)]) (auto simp: Cons e blocks_def)
  moreover have "pmf_size m' (pa_page b) = pmf_size m (pa_page b)"
    unfolding pmf_size_def by (rule same_on_rd32 [OF assms(3)]) (auto simp: Cons e blocks_def)
  ultimately show ?thesis using assms(1,2) by (simp add: Cons e mm_chain_def)
qed


subsection \<open>Searching the free list\<close>

lemma pa_mmap_list_find_spec:
  assumes "mm_chain m p xs"
  shows "\<exists>ys zs. xs = ys @ zs \<and> pa_mmap_list_find m sz p = Some (mm_last p ys)
     \<and> (\<forall>e\<in>set ys. snd e < sz) \<and> (zs \<noteq> [] \<longrightarrow> sz \<le> snd (hd zs))"
  using assms
proof (induction xs arbitrary: p)
  case Nil
  then show ?case by (simp add: mm_chain_def pa_mmap_list_find.simps)
next
  case (Cons e xs)
  obtain a n where e: "e = (a, n)" by fastforce
  from Cons.prems have hd: "rd32 m p = a" "a \<noteq> 0" "pmf_size m (pa_page a) = n"
    and tl: "mm_chain m (pmf_next_at (pa_page a)) xs"
    by (auto simp: mm_chain_def e)
  show ?case
  proof (cases "sz \<le> n")
    case True
    with hd e show ?thesis
      by (intro exI [of _ "[]"] exI [of _ "e # xs"]) (simp add: pa_mmap_list_find.simps)
  next
    case False
    from Cons.IH [OF tl] obtain ys zs where
      "xs = ys @ zs" "pa_mmap_list_find m sz (pmf_next_at (pa_page a)) = Some (mm_last (pmf_next_at (pa_page a)) ys)"
      "\<forall>e\<in>set ys. snd e < sz" "zs \<noteq> [] \<longrightarrow> sz \<le> snd (hd zs)" by blast
    with hd False e show ?thesis
      by (intro exI [of _ "e # ys"] exI [of _ zs]) (simp add: pa_mmap_list_find.simps [of m sz p])
  qed
qed

lemma pa_mmap_alloc_scan_spec:
  assumes "mm_chain m p xs"
  shows "(\<exists>ys a n zs. xs = ys @ (a, n) # zs \<and> count \<le> n \<and> (\<forall>e\<in>set ys. snd e < count)
       \<and> pa_mmap_alloc_scan m count p = Some (ScanHit (mm_last p ys) a))
    \<or> (\<forall>e\<in>set xs. snd e < count) \<and> pa_mmap_alloc_scan m count p = Some (ScanEnd (mm_last p xs))"
  using assms
proof (induction xs arbitrary: p)
  case Nil
  then show ?case by (simp add: mm_chain_def pa_mmap_alloc_scan.simps)
next
  case (Cons e xs)
  obtain a n where e: "e = (a, n)" by fastforce
  from Cons.prems have hd: "rd32 m p = a" "a \<noteq> 0" "pmf_size m (pa_page a) = n"
    and tl: "mm_chain m (pmf_next_at (pa_page a)) xs"
    by (auto simp: mm_chain_def e)
  show ?case
  proof (cases "count \<le> n")
    case True
    with hd e show ?thesis
      by (intro disjI1 exI [of _ "[]"] exI [of _ a] exI [of _ n] exI [of _ xs])
        (simp add: pa_mmap_alloc_scan.simps)
  next
    case False
    then have step: "pa_mmap_alloc_scan m count p = pa_mmap_alloc_scan m count (pmf_next_at (pa_page a))"
      using hd by (simp add: pa_mmap_alloc_scan.simps [of m count p])
    from Cons.IH [OF tl] show ?thesis
    proof (elim disjE exE conjE)
      fix ys b k zs
      assume "xs = ys @ (b, k) # zs" "count \<le> k" "\<forall>e\<in>set ys. snd e < count"
        "pa_mmap_alloc_scan m count (pmf_next_at (pa_page a)) = Some (ScanHit (mm_last (pmf_next_at (pa_page a)) ys) b)"
      with step False e show ?thesis
        by (intro disjI1 exI [of _ "e # ys"] exI [of _ b] exI [of _ k] exI [of _ zs]) simp
    next
      assume "\<forall>e\<in>set xs. snd e < count"
        "pa_mmap_alloc_scan m count (pmf_next_at (pa_page a)) = Some (ScanEnd (mm_last (pmf_next_at (pa_page a)) xs))"
      with step False e show ?thesis by simp
    qed
  qed
qed


subsection \<open>Edits of the chain\<close>

lemma heads_ok_mid:
  assumes "heads_ok (ys @ (a, n) # zs)"
  shows "heads_ok (ys @ zs)" "heads_ok (ys @ (a, k) # zs)" "heads_ok ys" "heads_ok zs"
    "unat a < 2 ^ 20" "0 < unat a" "a \<notin> fst ` set ys" "a \<notin> fst ` set zs"
  using assms by (auto simp: heads_ok_append heads_ok_Cons)

lemma far_blocks:
  assumes "unat a < 2 ^ 20" "a \<notin> fst ` set xs" "heads_ok xs" "e \<in> set xs"
  shows "pa_page a + 4096 \<le> pa_page (fst e) \<or> pa_page (fst e) + 4096 \<le> pa_page a"
  using assms by (intro page_dist) (auto simp: heads_ok_def)

lemma mm_chain_shrink:
  assumes "mm_chain m p (ys @ (a, n) # zs)" "heads_ok (ys @ (a, n) # zs)" "p + 4 \<le> 4096"
  shows "mm_chain (wr32 m (pa_page a + 4) k) p (ys @ (a, k) # zs)"
proof -
  let ?m = "wr32 m (pa_page a + 4) k" and ?q = "mm_last p ys"
  note h = heads_ok_mid [OF assms(2)]
  have pa: "4096 \<le> pa_page a" using h(5,6) by (simp add: pa_page_nat)
  have out: "?m x = m x" if "x < pa_page a + 4 \<or> pa_page a + 8 \<le> x" for x
    using that by (intro wr32_outside) auto
  have fy: "same_on (cells p ys) m ?m"
    using far_blocks [OF h(5,7,3)] pa assms(3)
    by (intro same_onI out) (fastforce simp: cells_def)
  have fz: "same_on (blocks zs) m ?m"
    using far_blocks [OF h(5,8,4)]
    by (intro same_onI out) (fastforce simp: blocks_def)
  have split: "mm_path m p ys" "mm_chain m ?q ((a, n) # zs)"
    using assms(1) by (auto simp: mm_chain_append)
  have q: "?q + 4 \<le> pa_page a \<or> pa_page a + 12 \<le> ?q"
    using mm_last_sep [of ys "[(a, n)]" p] h(2,3,5,6,7) assms(3) pa
    by (auto simp: sep_def heads_ok_append heads_ok_Cons)
  have "mm_path ?m p ys" using split(1) mm_path_frame [OF fy] by simp
  moreover have "rd32 ?m ?q = rd32 m ?q" using q by (intro rd32_wr32_other) auto
  moreover have "mm_chain ?m (pmf_next_at (pa_page a)) zs"
    using split(2) by (intro mm_chain_relink [OF _ _ fz])
      (auto simp: mm_chain_def pmf_next_at_def intro!: rd32_wr32_other)
  moreover have "pmf_magic ?m (pa_page a) = pmf_magic m (pa_page a)"
    unfolding pmf_magic_def by (intro rd32_wr32_other) auto
  ultimately show ?thesis
    using split(2) by (simp add: mm_chain_append) (simp add: mm_chain_def pmf_size_def)
qed

lemma mm_chain_unlink:
  assumes "mm_chain m p (ys @ (a, n) # zs)" "heads_ok (ys @ (a, n) # zs)" "p + 4 \<le> 4096"
  shows "mm_chain (wr32 m (mm_last p ys) (pmf_next m (pa_page a))) p (ys @ zs)"
proof -
  let ?q = "mm_last p ys"
  let ?m = "wr32 m ?q (pmf_next m (pa_page a))"
  note h = heads_ok_mid [OF assms(2)]
  have split: "mm_path m p ys" "mm_chain m ?q ((a, n) # zs)"
    using assms(1) by (auto simp: mm_chain_append)
  have "same_on (cells p ys - {?q..<?q + 4}) m ?m"
    by (intro same_onI wr32_outside) auto
  from mm_path_frame_last [OF h(3) sep_root [OF h(3) assms(3)] this] split(1)
  have "mm_path ?m p ys" by blast
  moreover have "sep ?q zs"
    by (rule mm_last_sep [OF h(1) sep_root [OF h(4) assms(3)]])
  then have bz: "same_on (blocks zs) m ?m"
    by (intro same_onI wr32_outside) (rule sep_blocks)
  have "mm_chain m (pmf_next_at (pa_page a)) zs" "rd32 ?m ?q = rd32 m (pmf_next_at (pa_page a))"
    using split(2) by (auto simp: mm_chain_def pmf_next_def)
  then have "mm_chain ?m ?q zs" using bz by (rule mm_chain_relink)
  ultimately show ?thesis by (simp add: mm_chain_append)
qed

definition free_block :: "mem \<Rightarrow> nat \<Rightarrow> u32 \<Rightarrow> u32 \<Rightarrow> mem" where
  "free_block m p k v = wr32 (wr32 (wr32 m p PA_MMAP_FREE_MAGIC) (p + 4) k) (pmf_next_at p) v"

lemma free_block_outside: "x < p \<or> p + 12 \<le> x \<Longrightarrow> free_block m p k v x = m x"
  by (auto simp: free_block_def pmf_next_at_def wr32_outside)

lemma mm_chain_insert:
  assumes "mm_chain m p (ys @ zs)" "heads_ok (ys @ (a, k) # zs)" "p + 4 \<le> 4096"
  shows "mm_chain (wr32 (free_block m (pa_page a) k (rd32 m (mm_last p ys))) (mm_last p ys) a)
     p (ys @ (a, k) # zs)"
proof -
  let ?q = "mm_last p ys" and ?b = "pa_page a"
  let ?f = "free_block m ?b k (rd32 m ?q)"
  let ?m = "wr32 ?f ?q a"
  note h = heads_ok_mid [OF assms(2)]
  have pb: "4096 \<le> ?b" using h(5,6) by (simp add: pa_page_nat)
  have split: "mm_path m p ys" "mm_chain m ?q zs"
    using assms(1) by (auto simp: mm_chain_append)
  have "heads_ok ((a, k) # zs)" using assms(2) by (simp add: heads_ok_append)
  then have "sep ?q ((a, k) # zs)"
    using assms(2,3) by (intro mm_last_sep sep_root)
  then have q: "?q + 4 \<le> ?b \<or> ?b + 12 \<le> ?q" and qz: "sep ?q zs" by (auto simp: sep_Cons)
  have out: "?m x = m x" if "x < ?b \<or> ?b + 12 \<le> x" "x < ?q \<or> ?q + 4 \<le> x" for x
    using that by (simp add: wr32_outside free_block_outside)
  have "same_on (cells p ys - {?q..<?q + 4}) m ?m"
    using far_blocks [OF h(5,7,3)] pb assms(3)
    by (intro same_onI out) (fastforce simp: cells_def)+
  from mm_path_frame_last [OF h(3) sep_root [OF h(3) assms(3)] this] split(1)
  have path: "mm_path ?m p ys" by blast
  have "same_on (blocks zs) m ?m"
    using far_blocks [OF h(5,8,4)] sep_blocks [OF qz]
    by (intro same_onI out) (fastforce simp: blocks_def, blast)
  moreover have "rd32 ?m (pmf_next_at ?b) = rd32 m ?q"
    using q by (elim disjE) (simp_all add: rd32_wr32_other free_block_def pmf_next_at_def)
  ultimately have "mm_chain ?m (pmf_next_at ?b) zs"
    using mm_chain_relink [OF split(2)] by blast
  moreover have "pmf_magic ?m ?b = PA_MMAP_FREE_MAGIC" "pmf_size ?m ?b = k"
    using q by (auto simp: pmf_magic_def pmf_size_def free_block_def pmf_next_at_def rd32_wr32_other)
  ultimately show ?thesis
    using path h(6) by (auto simp: mm_path_append mm_last_append mm_chain_def)
qed


section \<open>Allocating\<close>

definition pa_count :: "nat \<Rightarrow> nat" where
  "pa_count sz = (sz + 4095) div 4096"

lemma same_on_wr32: "A \<inter> {a..<a + 4} = {} \<Longrightarrow> same_on A m (wr32 m a v)"
  by (intro same_onI wr32_outside) force

lemma same_on_free_block: "A \<inter> {p..<p + 12} = {} \<Longrightarrow> same_on A m (free_block m p k v)"
  by (intro same_onI free_block_outside) force

lemma block_in_ext:
  assumes "ext_ok len e" "len \<le> 2 ^ 32"
  shows "{pa_page (fst e)..<pa_page (fst e) + 4096} \<subseteq> ext_bytes e"
  using assms by (auto simp: ext_ok_page ext_bytes_def ext_ok_def)

lemma ext_bytes_bounds: "ext_ok len e \<Longrightarrow> x \<in> ext_bytes e \<Longrightarrow> 4096 \<le> x \<and> x < len"
  by (auto simp: ext_ok_def ext_bytes_def)

text \<open>A link of the free list lies in the root cell or in a free block.\<close>

lemma mm_last_bytes:
  assumes "\<forall>e\<in>set ys. ext_ok len e" "len \<le> 2 ^ 32"
  shows "{mm_last pmi_free_at ys..<mm_last pmi_free_at ys + 4} \<subseteq> {24..<28} \<union> live_bytes ys"
proof -
  consider "mm_last pmi_free_at ys = pmi_free_at"
    | e where "e \<in> set ys" "mm_last pmi_free_at ys = pmf_next_at (pa_page (fst e))"
    using mm_last_cases [of pmi_free_at ys] by blast
  then show ?thesis
  proof cases
    case 1 then show ?thesis by (auto simp: pmi_free_at_def)
  next
    case 2
    then have "{mm_last pmi_free_at ys..<mm_last pmi_free_at ys + 4} \<subseteq> {pa_page (fst e)..<pa_page (fst e) + 4096}"
      by (auto simp: pmf_next_at_def)
    also have "\<dots> \<subseteq> ext_bytes e" using assms 2(1) by (intro block_in_ext) auto
    finally show ?thesis using 2(1) by (auto simp: live_bytes_def)
  qed
qed

lemma live_disj:
  assumes "disj_exts (xs @ L)"
  shows "live_bytes xs \<inter> live_bytes L = {}"
proof (rule ccontr)
  assume "live_bytes xs \<inter> live_bytes L \<noteq> {}"
  then obtain e f where "e \<in> set xs" "f \<in> set L" "ext_bytes e \<inter> ext_bytes f \<noteq> {}"
    unfolding live_bytes_def by blast
  then show False using assms ext_disj_bytes [of e f] by (auto simp: disj_exts_append)
qed

lemma live_header:
  assumes "\<forall>e\<in>set xs. ext_ok len e"
  shows "live_bytes xs \<inter> {..<4096} = {}"
  using assms by (fastforce simp: live_bytes_def dest: ext_bytes_bounds)

text \<open>Bytes the segment itself never writes: the named headers and the live extents.\<close>

definition client_bytes :: "(u32 \<times> u32) list \<Rightarrow> nat set" where
  "client_bytes L = header_bytes \<union> live_bytes L"

lemma client_sep:
  assumes "disj_exts (xs @ L)" "\<forall>e\<in>set (xs @ L). ext_ok len e"
  shows "client_bytes L \<inter> ({24..<28} \<union> live_bytes xs) = {}"
  using live_disj [OF assms(1)] live_header [of xs len] live_header [of L len] assms(2)
  by (auto simp: client_bytes_def header_bytes_def)

lemma mm_wfD:
  assumes "mm_wf pmp xs L"
  shows "mm_chain (pm_mem pmp) pmi_free_at xs" "\<forall>e\<in>set (xs @ L). ext_ok (pm_len pmp) e"
    "disj_exts (xs @ L)" "4096 dvd pm_len pmp" "4096 \<le> pm_len pmp" "pm_len pmp \<le> 2 ^ 32"
    "heads_ok xs"
  using assms heads_okI [of "xs @ L" "pm_len pmp"] by (auto simp: mm_wf_def heads_ok_append)

lemma pa_mmap_new_count_nat:
  assumes "unat count + 32 \<le> 2 ^ 32"
  shows "unat (pa_mmap_new_count count) = (if unat count < 32 then 32 else (unat count + 31) div 32 * 32)"
  using assms pa_roundup32_nat [of 5 count]
  by (auto simp: pa_mmap_new_count_def PA_DEFAULT_COUNT_def word_less_nat_alt)


lemma mm_wf_shrink:
  assumes wf: "mm_wf pmp (ys @ (a, n) # zs) L" and c: "0 < unat count" "count < n"
    and m': "m' = wr32 (pm_mem pmp) (pa_page a + 4) (n - count)"
  shows "mm_wf (pmp\<lparr>pm_mem := m'\<rparr>) (ys @ (a, n - count) # zs) ((a + (n - count), count) # L)"
    and "same_on (client_bytes L) (pm_mem pmp) m'" and "a + (n - count) \<noteq> 0"
proof -
  note w = mm_wfD [OF wf]
  have lt: "unat count < unat n" using c(2) by (simp add: word_less_nat_alt)
  have okn: "ext_ok (pm_len pmp) (a, n)" using w(2) by simp
  have an: "unat a + unat n \<le> 2 ^ 20" "0 < unat a" using okn w(6) by (auto simp: ext_ok_def)
  have left: "unat (n - count) = unat n - unat count"
    using c(2) by (intro unat_sub) simp
  have ua: "unat (a + (n - count)) = unat a + (unat n - unat count)"
  proof -
    have "unat a + unat (n - count) < 2 ^ LENGTH(32)" using an left by simp
    then show ?thesis using left by (simp only: unat_add_lem [THEN iffD1])
  qed
  have un: "ext (a, n) = ext (a, n - count) \<union> ext (a + (n - count), count)"
    and di: "ext (a, n - count) \<inter> ext (a + (n - count), count) = {}"
    using lt ua left by (auto simp: ext_def)
  have ok: "ext_ok (pm_len pmp) (a, n - count)" "ext_ok (pm_len pmp) (a + (n - count), count)"
    using okn lt ua left c(1) by (auto simp: ext_ok_def)
  have chain: "mm_chain m' pmi_free_at (ys @ (a, n - count) # zs)"
    unfolding m' using w(1,7) by (rule mm_chain_shrink) (simp add: pmi_free_at_def)
  have "disj_exts (ys @ (a, n - count) # zs @ (a + (n - count), count) # L)"
    using w(3) un di by (simp add: disj_exts_append disj_exts_Cons) blast
  then show "mm_wf (pmp\<lparr>pm_mem := m'\<rparr>) (ys @ (a, n - count) # zs) ((a + (n - count), count) # L)"
    using chain w(2,4-6) ok by (simp add: mm_wf_def)
  have "{pa_page a + 4..<pa_page a + 4 + 4} \<subseteq> ext_bytes (a, n)"
    using block_in_ext [OF okn w(6)] by auto
  also have "\<dots> \<subseteq> live_bytes (ys @ (a, n) # zs)" by (auto simp: live_bytes_def)
  finally show "same_on (client_bytes L) (pm_mem pmp) m'"
    unfolding m' using client_sep [OF w(3,2)] by (intro same_on_wr32) blast
  show "a + (n - count) \<noteq> 0" using ua an(2) by auto
qed

lemma mm_wf_unlink:
  assumes wf: "mm_wf pmp (ys @ (a, n) # zs) L"
    and m': "m' = wr32 (pm_mem pmp) (mm_last pmi_free_at ys) (pmf_next (pm_mem pmp) (pa_page a))"
  shows "mm_wf (pmp\<lparr>pm_mem := m'\<rparr>) (ys @ zs) ((a, n) # L)"
    and "same_on (client_bytes L) (pm_mem pmp) m'" and "a \<noteq> 0"
proof -
  note w = mm_wfD [OF wf]
  have chain: "mm_chain m' pmi_free_at (ys @ zs)"
    unfolding m' using w(1,7) by (rule mm_chain_unlink) (simp add: pmi_free_at_def)
  have "disj_exts (ys @ zs @ (a, n) # L)"
    using w(3) by (simp add: disj_exts_append disj_exts_Cons) blast
  then show "mm_wf (pmp\<lparr>pm_mem := m'\<rparr>) (ys @ zs) ((a, n) # L)"
    using chain w(2,4-6) by (auto simp: mm_wf_def)
  have "{mm_last pmi_free_at ys..<mm_last pmi_free_at ys + 4} \<subseteq> {24..<28} \<union> live_bytes ys"
    using w(2,6) by (intro mm_last_bytes) auto
  also have "\<dots> \<subseteq> {24..<28} \<union> live_bytes (ys @ (a, n) # zs)" by (auto simp: live_bytes_def)
  finally show "same_on (client_bytes L) (pm_mem pmp) m'"
    unfolding m' using client_sep [OF w(3,2)] by (intro same_on_wr32) blast
  show "a \<noteq> 0" using w(2) by (auto simp: ext_ok_def)
qed

lemma mm_wf_insert:
  assumes wf: "mm_wf pmp (ys @ zs) ((a, k) # L)"
    and m': "m' = wr32 (free_block (pm_mem pmp) (pa_page a) k (rd32 (pm_mem pmp) (mm_last pmi_free_at ys)))
      (mm_last pmi_free_at ys) a"
  shows "mm_wf (pmp\<lparr>pm_mem := m'\<rparr>) (ys @ (a, k) # zs) L"
    and "same_on (client_bytes L) (pm_mem pmp) m'"
proof -
  note w = mm_wfD [OF wf]
  have dis: "disj_exts ((ys @ (a, k) # zs) @ L)"
    using w(3) by (simp add: disj_exts_append disj_exts_Cons) blast
  have ok: "\<forall>e\<in>set ((ys @ (a, k) # zs) @ L). ext_ok (pm_len pmp) e" using w(2) by auto
  have "heads_ok ((ys @ (a, k) # zs) @ L)" using dis ok w(6) by (rule heads_okI)
  then have h: "heads_ok (ys @ (a, k) # zs)" unfolding heads_ok_append [of "ys @ (a, k) # zs"] by blast
  have "mm_chain m' pmi_free_at (ys @ (a, k) # zs)"
    unfolding m' using w(1) h by (rule mm_chain_insert) (simp add: pmi_free_at_def)
  then show "mm_wf (pmp\<lparr>pm_mem := m'\<rparr>) (ys @ (a, k) # zs) L"
    using dis ok w(4-6) by (simp add: mm_wf_def)
  have "{mm_last pmi_free_at ys..<mm_last pmi_free_at ys + 4} \<subseteq> {24..<28} \<union> live_bytes ys"
    using w(2,6) by (intro mm_last_bytes) auto
  then have 1: "{mm_last pmi_free_at ys..<mm_last pmi_free_at ys + 4} \<subseteq> {24..<28} \<union> live_bytes (ys @ (a, k) # zs)"
    by (auto simp: live_bytes_def)
  have "{pa_page a..<pa_page a + 12} \<subseteq> ext_bytes (a, k)"
    using block_in_ext [of "pm_len pmp" "(a, k)"] w(2,6) by auto
  then have 2: "{pa_page a..<pa_page a + 12} \<subseteq> live_bytes (ys @ (a, k) # zs)"
    by (auto simp: live_bytes_def)
  have c: "client_bytes L \<inter> ({24..<28} \<union> live_bytes (ys @ (a, k) # zs)) = {}"
    using dis ok by (rule client_sep)
  show "same_on (client_bytes L) (pm_mem pmp) m'"
    unfolding m' by (rule same_on_trans [OF same_on_free_block same_on_wr32]) (use 1 2 c in blast)+
qed


lemma mm_wf_split:
  assumes wf: "mm_wf pmp xs ((a, n) # L)" and c: "0 < unat c" "c < n"
  shows "mm_wf pmp xs ((a + c, n - c) # (a, c) # L)"
proof -
  note w = mm_wfD [OF wf]
  have lt: "unat c < unat n" using c(2) by (simp add: word_less_nat_alt)
  have okn: "ext_ok (pm_len pmp) (a, n)" using w(2) by simp
  have an: "unat a + unat n \<le> 2 ^ 20" "0 < unat a" using okn w(6) by (auto simp: ext_ok_def)
  have left: "unat (n - c) = unat n - unat c"
    using c(2) by (intro unat_sub) simp
  have "unat a + unat c < 2 ^ LENGTH(32)" using an lt by simp
  then have ua: "unat (a + c) = unat a + unat c" by (simp only: unat_add_lem [THEN iffD1])
  have un: "ext (a, n) = ext (a, c) \<union> ext (a + c, n - c)"
    and di: "ext (a, c) \<inter> ext (a + c, n - c) = {}"
    using lt ua left by (auto simp: ext_def)
  have ok: "ext_ok (pm_len pmp) (a, c)" "ext_ok (pm_len pmp) (a + c, n - c)"
    using okn lt ua left c(1) by (auto simp: ext_ok_def)
  have "disj_exts (xs @ (a + c, n - c) # (a, c) # L)"
    using w(3) un di by (simp add: disj_exts_append disj_exts_Cons) blast
  then show ?thesis using w(1,2,4-6) ok by (simp add: mm_wf_def)
qed

lemma mm_wf_grow:
  assumes wf: "mm_wf pmp xs L" and g: "pa_mmap_grow os pmp new_len = Some pmp'"
    and new: "new_len = pm_len pmp + unat k * 4096" "0 < unat k" "new_len \<le> 2 ^ 32"
  shows "mm_wf pmp' xs ((word_of_nat (pm_len pmp div 4096), k) # L)"
    and "same_on (client_bytes L) (pm_mem pmp) (pm_mem pmp')"
    and "pm_len pmp' = new_len"
proof -
  note w = mm_wfD [OF wf]
  let ?m = "zero_range (pm_mem pmp) (pm_len pmp) (new_len - pm_len pmp)"
    and ?a = "word_of_nat (pm_len pmp div 4096) :: u32"
  have mem': "pm_mem pmp' = ?m" and len': "pm_len pmp' = new_len"
    using g by (auto simp: pa_mmap_grow_def Let_def split: if_splits mmap_result.splits)
  show "pm_len pmp' = new_len" by (fact len')
  have live: "live_bytes (xs @ L) \<subseteq> {..<pm_len pmp}"
    using w(2) by (auto simp: live_bytes_def dest: ext_bytes_bounds)
  have low: "same_on {..<pm_len pmp} (pm_mem pmp) ?m"
    by (intro same_onI zero_range_outside) auto
  have "cells pmi_free_at xs \<subseteq> {24..<28} \<union> live_bytes xs"
  proof -
    have "{pa_page (fst e)..<pa_page (fst e) + 12} \<subseteq> live_bytes xs" if "e \<in> set xs" for e
    proof -
      have "{pa_page (fst e)..<pa_page (fst e) + 4096} \<subseteq> ext_bytes e"
        using w(2,6) that by (intro block_in_ext) auto
      then show ?thesis using that by (fastforce simp: live_bytes_def)
    qed
    then show ?thesis by (auto simp: cells_def pmi_free_at_def)
  qed
  also have "\<dots> \<subseteq> {..<pm_len pmp}" using live w(5) by (auto simp: live_bytes_def)
  finally have "mm_chain ?m pmi_free_at xs"
    using w(1) mm_chain_frame same_on_subset [OF low] by blast
  moreover have a: "unat ?a = pm_len pmp div 4096"
    using w(6) by (simp add: unat_of_nat div_less_iff_less_mult order.strict_trans1)
  have inside: "ext e \<subseteq> {..<pm_len pmp div 4096}" if "e \<in> set (xs @ L)" for e
  proof -
    have "(unat (fst e) + unat (snd e)) * 4096 \<le> pm_len pmp" using w(2) that by (simp add: ext_ok_def)
    then have "unat (fst e) + unat (snd e) \<le> pm_len pmp div 4096"
      by (simp add: less_eq_div_iff_mult_less_eq)
    then show ?thesis by (auto simp: ext_def)
  qed
  have "ext (?a, k) \<inter> {..<pm_len pmp div 4096} = {}" using a by (auto simp: ext_def)
  then have "\<forall>e\<in>set (xs @ L). ext (?a, k) \<inter> ext e = {}" using inside by blast
  then have "disj_exts (xs @ (?a, k) # L)"
    using w(3) by (simp add: disj_exts_append disj_exts_Cons) blast
  moreover have "ext_ok new_len e" if "e \<in> set (xs @ (?a, k) # L)" for e
  proof -
    have "ext_ok new_len (?a, k)" using a w(4,5) new by (auto simp: ext_ok_def algebra_simps div_greater_zero_iff)
    moreover have "ext_ok new_len e" if "e \<in> set (xs @ L)" for e
      using w(2) that new by (force simp: ext_ok_def)
    ultimately show ?thesis using that by (cases e) auto
  qed
  ultimately show "mm_wf pmp' xs ((?a, k) # L)"
    using w(4,5) new by (simp add: mm_wf_def mem' len')
  have "client_bytes L \<subseteq> {..<pm_len pmp}"
    using live w(5) by (auto simp: client_bytes_def header_bytes_def live_bytes_def)
  then show "same_on (client_bytes L) (pm_mem pmp) (pm_mem pmp')"
    unfolding mem' by (rule same_on_subset [OF low])
qed


text \<open>What a call of the allocator may do to a segment, whatever it answers.\<close>

definition alloc_post ::
  "pa_mmap \<Rightarrow> (u32 \<times> u32) list \<Rightarrow> u32 \<Rightarrow> pa_mmap \<Rightarrow> u32 \<Rightarrow> (u32 \<times> u32) list \<Rightarrow> bool" where
  "alloc_post pmp L count pmp' a xs' \<longleftrightarrow>
     a \<noteq> 0 \<and> mm_wf pmp' xs' ((a, count) # L)
     \<and> same_on (client_bytes L) (pm_mem pmp) (pm_mem pmp') \<and> pm_len pmp \<le> pm_len pmp'"

lemma pa_mmap_alloc_cases:
  assumes wf: "mm_wf pmp xs L" and sz: "0 < sz" "pm_len pmp + sz + 131072 \<le> 2 ^ 32"
  defines "count \<equiv> word_of_nat (pa_count sz) :: u32"
  shows "(\<exists>pmp' a xs'. pa_mmap_alloc os pmp sz = Some (pmp', a) \<and> alloc_post pmp L count pmp' a xs')
    \<or> pa_mmap_alloc os pmp sz = Some (pmp, 0) \<and> (\<forall>e\<in>set xs. snd e < count)"
proof -
  note w = mm_wfD [OF wf]
  have cn: "pa_count sz \<le> 2 ^ 20" and "0 < pa_count sz" using sz by (auto simp: pa_count_def)
  then have uc: "unat count = pa_count sz" "0 < unat count" by (auto simp: count_def unat_of_nat)
  have "(sz + PA_MMAP_ATOM_SIZE - 1) mod 2 ^ 64 div PA_MMAP_ATOM_SIZE = pa_count sz"
    using sz(2) by (simp add: pa_count_def PA_MMAP_ATOM_SIZE_def)
  then have cnt: "word_of_nat ((sz + PA_MMAP_ATOM_SIZE - Suc 0) mod 18446744073709551616
      div PA_MMAP_ATOM_SIZE) = count"
    by (simp add: count_def)
  have "pm_len pmp div PA_MMAP_ATOM_SIZE = pm_len pmp div 4096" by (simp add: PA_MMAP_ATOM_SIZE_def)
  note unfold = pa_mmap_alloc_def [of os pmp sz] cnt this Let_def
  from pa_mmap_alloc_scan_spec [OF w(1), of count] show ?thesis
  proof (elim disjE exE conjE)
    fix ys a n zs
    assume xs: "xs = ys @ (a, n) # zs" and fits: "count \<le> n"
      and scan: "pa_mmap_alloc_scan (pm_mem pmp) count pmi_free_at = Some (ScanHit (mm_last pmi_free_at ys) a)"
    have n: "pmf_size (pm_mem pmp) (pa_page a) = n"
      using w(1) by (simp add: xs mm_chain_append) (simp add: mm_chain_def)
    show ?thesis
    proof (cases "count < n")
      case True
      note sh = mm_wf_shrink [OF wf [unfolded xs] uc(2) True refl]
      have "pa_mmap_alloc os pmp sz =
        Some (pmp\<lparr>pm_mem := wr32 (pm_mem pmp) (pa_page a + 4) (n - count)\<rparr>, a + (n - count))"
        using sz(1) True by (simp add: unfold scan n)
      with sh show ?thesis by (auto simp: alloc_post_def)
    next
      case False
      with fits have nc: "n = count" by simp
      note un = mm_wf_unlink [OF wf [unfolded xs] refl]
      have "pa_mmap_alloc os pmp sz =
        Some (pmp\<lparr>pm_mem := wr32 (pm_mem pmp) (mm_last pmi_free_at ys) (pmf_next (pm_mem pmp) (pa_page a))\<rparr>, a)"
        using sz(1) by (simp add: unfold scan n nc)
      with un show ?thesis by (auto simp: alloc_post_def nc)
    qed
  next
    let ?last = "mm_last pmi_free_at xs"
    let ?k = "pa_mmap_new_count count"
    let ?new = "(pm_len pmp + unat (push_bit 12 ?k)) mod 2 ^ 64"
    let ?fa = "word_of_nat (pm_len pmp div 4096) :: u32"
    assume small: "\<forall>e\<in>set xs. snd e < count"
      and scan: "pa_mmap_alloc_scan (pm_mem pmp) count pmi_free_at = Some (ScanEnd ?last)"
    have k: "unat count \<le> unat ?k" "unat ?k \<le> unat count + 31 + 1" "0 < unat ?k"
      "unat ?k * 4096 \<le> sz + 131072"
      using pa_mmap_new_count_nat [of count] uc cn by (auto simp: pa_count_def)
    have "unat ?k * unat (4096 :: u32) < 2 ^ LENGTH(32)" using k(4) sz(2) w(5) by simp
    then have "unat (?k * 4096) = unat ?k * 4096" by (subst (asm) unat_mult_lem) simp
    then have new: "?new = pm_len pmp + unat ?k * 4096"
      using k(4) sz(2) by (simp add: push_bit_eq_mult)
    show ?thesis
    proof (cases "pmi_max_size (pm_mem pmp) \<noteq> 0 \<and> unat (pmi_max_size (pm_mem pmp)) < ?new
        \<or> pa_mmap_grow os pmp ?new = None")
      case True
      then have "pa_mmap_alloc os pmp sz = Some (pmp, 0)"
        using sz(1) scan by (auto simp: unfold)
      with small show ?thesis by blast
    next
      case False
      then obtain g where g: "pa_mmap_grow os pmp ?new = Some g" by auto
      have new32: "?new \<le> 2 ^ 32" using new k(4) sz(2) by linarith
      note gr = mm_wf_grow [OF wf g new k(3) new32]
      have fa0: "?fa \<noteq> 0" using mm_wfD(2) [OF gr(1)] by (auto simp: ext_ok_def)
      show ?thesis
      proof (cases "count < ?k")
        case True
        let ?m = "wr32 (free_block (pm_mem g) (pa_page (?fa + count)) (?k - count) 0) ?last (?fa + count)"
        have "mm_wf g (xs @ []) ((?fa + count, ?k - count) # (?fa, count) # L)"
          using mm_wf_split [OF gr(1) uc(2) True] by simp
        moreover have "rd32 (pm_mem g) ?last = 0"
          using mm_wfD(1) [OF gr(1)] by (simp add: mm_chain_def)
        ultimately have ins: "mm_wf (g\<lparr>pm_mem := ?m\<rparr>) (xs @ [(?fa + count, ?k - count)]) ((?fa, count) # L)"
          "same_on (client_bytes ((?fa, count) # L)) (pm_mem g) ?m"
          using mm_wf_insert [of g xs "[]" "?fa + count" "?k - count" "(?fa, count) # L" ?m] by auto
        have "same_on (client_bytes L) (pm_mem g) ?m"
          by (rule same_on_subset [OF ins(2)]) (auto simp: client_bytes_def live_bytes_def)
        with gr(2) have "same_on (client_bytes L) (pm_mem pmp) ?m" by (rule same_on_trans)
        moreover have "pa_mmap_alloc os pmp sz = Some (g\<lparr>pm_mem := ?m\<rparr>, ?fa)"
          using sz(1) scan False g True by (auto simp: unfold free_block_def)
        ultimately show ?thesis using ins(1) fa0 gr(3) new by (auto simp: alloc_post_def)
      next
        case kc: False
        with k(1) have kc': "?k = count" by (simp add: word_less_nat_alt word_unat_eq_iff)
        have "pa_mmap_alloc os pmp sz = Some (g, ?fa)"
          using sz(1) scan False g kc by (auto simp: unfold)
        then show ?thesis using gr fa0 new kc' by (auto simp: alloc_post_def)
      qed
    qed
  qed
qed

lemma pa_mmap_free_ok:
  assumes wf: "mm_wf pmp xs ((a, k) # L)" and k: "pa_items_shift32 sz PA_MMAP_ATOM_SHIFT = k"
  shows "\<exists>pmp' xs'. pa_mmap_free pmp a sz = Some pmp' \<and> mm_wf pmp' xs' L
     \<and> set xs' = insert (a, k) (set xs)
     \<and> same_on (client_bytes L) (pm_mem pmp) (pm_mem pmp') \<and> pm_len pmp' = pm_len pmp"
proof -
  note w = mm_wfD [OF wf]
  have nz: "a \<noteq> 0" "k \<noteq> 0" using w(2) by (auto simp: ext_ok_def)
  from pa_mmap_list_find_spec [OF w(1), of k] obtain ys zs where
    xs: "xs = ys @ zs" and f: "pa_mmap_list_find (pm_mem pmp) k pmi_free_at = Some (mm_last pmi_free_at ys)"
    by blast
  let ?q = "mm_last pmi_free_at ys"
  let ?m = "wr32 (free_block (pm_mem pmp) (pa_page a) k (rd32 (pm_mem pmp) ?q)) ?q a"
  note ins = mm_wf_insert [OF wf [unfolded xs] refl]
  have "{?q..<?q + 4} \<subseteq> {24..<28} \<union> live_bytes ys"
    using w(2,6) by (intro mm_last_bytes) (auto simp: xs)
  moreover have "{pa_page a..<pa_page a + 8} \<subseteq> live_bytes [(a, k)]"
    using block_in_ext [of "pm_len pmp" "(a, k)"] w(2,6) by (auto simp: live_bytes_def)
  moreover have "live_bytes ys \<inter> live_bytes [(a, k)] = {}"
    using w(3) by (intro live_disj) (auto simp: xs disj_exts_append disj_exts_Cons)
  moreover have "4096 \<le> pa_page a" using w(2,6) by (auto simp: ext_ok_page [of "pm_len pmp" "(a, k)", simplified] ext_ok_def)
  ultimately have q: "rd32 (wr32 (wr32 (pm_mem pmp) (pa_page a) PA_MMAP_FREE_MAGIC) (pa_page a + 4) k) ?q
      = rd32 (pm_mem pmp) ?q"
    by (intro rd32_cong) (subst wr32_outside | fastforce)+
  have "pa_mmap_free pmp a sz = Some (pmp\<lparr>pm_mem := ?m\<rparr>)"
    using nz k by (simp add: pa_mmap_free_def pa_mmap_list_add_def f Let_def q free_block_def)
  with ins show ?thesis by (intro exI [of _ "pmp\<lparr>pm_mem := ?m\<rparr>"] exI [of _ "ys @ (a, k) # zs"]) (simp add: xs)
qed

end
