(* ===== verification/Paopen.thy ===== *)
theory Paopen
  imports Pammap
begin

text \<open>
  The rest of \<^verbatim>\<open>parrotdb/pammap.c\<close>: the named headers of page 0, and opening and closing a
  segment. A header name is the list of the bytes of a C string.
\<close>

section \<open>Named headers\<close>

definition PA_MMAP_HEADER_NAME_LEN :: nat where "PA_MMAP_HEADER_NAME_LEN = 64"

text \<open>\<^verbatim>\<open>strncmp(name, p, n) == 0\<close> for the bytes at \<open>p\<close>; a C string holds no zero byte.\<close>

definition c_strncmp_eq :: "mem \<Rightarrow> u8 list \<Rightarrow> nat \<Rightarrow> nat \<Rightarrow> bool" where
  "c_strncmp_eq m name p n \<longleftrightarrow>
     (let s = take n name in
      rd_bytes m p (length s) = s \<and> (length s < n \<longrightarrow> m (p + length s) = 0))"

definition pmh_type :: "mem \<Rightarrow> nat \<Rightarrow> u16" where "pmh_type m p = rd16 m (p + 64)"
definition pmh_flags :: "mem \<Rightarrow> nat \<Rightarrow> u16" where "pmh_flags m p = rd16 m (p + 66)"
definition pmh_size :: "mem \<Rightarrow> nat \<Rightarrow> u32" where "pmh_size m p = rd32 m (p + 68)"

datatype pa_header_scan = HeaderAt nat | HeaderEnd nat

fun pa_mmap_header_find :: "mem \<Rightarrow> u8 list \<Rightarrow> nat \<Rightarrow> nat \<Rightarrow> pa_header_scan" where
  "pa_mmap_header_find m name base 0 = HeaderEnd base"
| "pa_mmap_header_find m name base (Suc n) =
     (if c_strncmp_eq m name base PA_MMAP_HEADER_NAME_LEN
      then HeaderAt (base + sizeof_pa_mmap_header)
      else pa_mmap_header_find m name
        (base + sizeof_pa_mmap_header + unat (pmh_size m base)) n)"

definition pa_mmap_header ::
  "pa_mmap \<Rightarrow> u8 list \<Rightarrow> u16 \<Rightarrow> u16 \<Rightarrow> nat \<Rightarrow> pa_mmap \<times> nat option" where
  "pa_mmap_header pmp name type flags sz =
     (let m = pm_mem pmp;
          sz = unat (pa_roundup32 (word_of_nat sz) 8) in
      case pa_mmap_header_find m name sizeof_pa_mmap_info (unat (pmi_num_headers m)) of
        HeaderAt p \<Rightarrow> (pmp, Some p)
      | HeaderEnd base \<Rightarrow>
          if sz = 0 then (pmp, None)
          else if PA_MMAP_ATOM_SIZE < base + sizeof_pa_mmap_header + sz then (pmp, None)
          else
            (let m = wr_bytes m base (take (PA_MMAP_HEADER_NAME_LEN - 1) name @ [0]);
                 m = wr32 m (base + 68) (word_of_nat sz);
                 m = wr16 m (base + 64) type;
                 m = wr16 m (base + 66) flags;
                 m = wr32 m 8 (pmi_num_headers m + 1) in
             (pmp\<lparr>pm_mem := m\<rparr>, Some (base + sizeof_pa_mmap_header))))"

text \<open>
  The scan starts one header before the first: the size field of that header falls on the
  padding of \<^verbatim>\<open>pa_mmap_info_t\<close>. The cursor here is the address of the content.
\<close>

fun pa_mmap_next_header_find :: "mem \<Rightarrow> nat option \<Rightarrow> nat \<Rightarrow> nat \<Rightarrow> nat \<Rightarrow> nat option" where
  "pa_mmap_next_header_find m header c i 0 = None"
| "pa_mmap_next_header_find m header c i (Suc n) =
     (let c' = c + unat (rd32 m (c - 4)) + sizeof_pa_mmap_header in
      if (header = None \<or> header = Some c) \<and> word_of_nat i < pmi_num_headers m - 1
      then Some c'
      else pa_mmap_next_header_find m header c' (Suc i) n)"

definition pa_mmap_next_header :: "pa_mmap \<Rightarrow> nat option \<Rightarrow> nat option" where
  "pa_mmap_next_header pmp header =
     pa_mmap_next_header_find (pm_mem pmp) header sizeof_pa_mmap_info 0
       (unat (pmi_num_headers (pm_mem pmp)))"

section \<open>Opening and closing\<close>

text \<open>The answers of the calls outside \<^verbatim>\<open>src/\<close> that \<^verbatim>\<open>pa_mmap_open\<close> depends on.\<close>

datatype mmap_answer = MapAt nat | MapErr bool

record pa_file_env =
  fe_fd :: int
  fe_open :: bool
  fe_create :: bool
  fe_fstat :: bool
  fe_size :: nat
  fe_bytes :: mem
  fe_ftruncate :: bool
  fe_mmap :: "nat \<Rightarrow> nat \<Rightarrow> mmap_answer"
  fe_calloc :: bool
  fe_calloc_record :: bool

datatype pa_open_error = OpenReadOnly | CreateFailed | ExtendFailed | StatFailed
  | AddressesExhausted | MmapFailed | MmapWrongAddress | WrongEndian | MagicMismatch
  | MajorMismatch | NoMemory

definition PMF_READ_ONLY :: u32 where "PMF_READ_ONLY = 1"
definition PA_ADDR_DEFAULT :: nat where "PA_ADDR_DEFAULT = 0x200000000000"
definition PA_ADDR_DEFAULT_INCR :: nat where "PA_ADDR_DEFAULT_INCR = 0x020000000000"
definition PA_ADDR_MAX :: nat where "PA_ADDR_MAX = 0x600000000000"

text \<open>\<open>MapErr True\<close> is a failure with \<^verbatim>\<open>EINVAL\<close>: the next address is tried.\<close>

function pa_mmap_open_addr :: "(nat \<Rightarrow> mmap_answer) \<Rightarrow> nat \<Rightarrow> (pa_open_error + nat) \<times> nat" where
  "pa_mmap_open_addr mm next =
     (if PA_ADDR_MAX < next then (Inl AddressesExhausted, next)
      else case mm next of
        MapAt addr \<Rightarrow> if addr = next then (Inr addr, next + PA_ADDR_DEFAULT_INCR)
                      else if addr = 0 then (Inl MmapFailed, next)
                      else (Inl MmapWrongAddress, next)
      | MapErr einval \<Rightarrow>
          if \<not> einval then (Inl MmapFailed, next)
          else pa_mmap_open_addr mm (next + PA_ADDR_DEFAULT_INCR))"
  by pat_completeness auto
termination
  by (relation "measure (\<lambda>(mm, next). Suc PA_ADDR_MAX - next)")
    (auto simp: PA_ADDR_MAX_def PA_ADDR_DEFAULT_INCR_def)

declare pa_mmap_open_addr.simps [simp del]

definition pa_mmap_create_header :: "mem \<Rightarrow> u32 \<Rightarrow> u32 \<Rightarrow> mem" where
  "pa_mmap_create_header m len max_size =
     (let m = wr16 m 0 PA_MAGIC_NUMBER;
          m = m(2 := PA_VERS_MAJOR);
          m = m(3 := PA_VERS_MINOR);
          m = wr32 (wr32 m 16 len) 20 0;
          m = wr32 m 4 max_size;
          m = wr32 m pmi_free_at 1;
          m = wr32 m 4096 PA_MMAP_FREE_MAGIC;
          m = wr32 m (4096 + 4) (drop_bit 12 len - 1) in m)"

definition pa_mmap_check_header :: "mem \<Rightarrow> pa_open_error option" where
  "pa_mmap_check_header m =
     (if rd16 m 0 \<noteq> PA_MAGIC_NUMBER then
        (if rd16 m 0 \<noteq> PA_MAGIC_WRONG then Some WrongEndian else Some MagicMismatch)
      else if m 2 \<noteq> PA_VERS_MAJOR then Some MajorMismatch
      else None)"

text \<open>The file, when there is one: its descriptor, its length as an \<^verbatim>\<open>unsigned\<close>, its bytes and
  whether it was created.\<close>

definition pa_mmap_open_file ::
  "pa_file_env \<Rightarrow> pa_config_variable list \<Rightarrow> bool \<Rightarrow> string \<Rightarrow> u32
     \<Rightarrow> pa_open_error + (int \<times> u32 \<times> mem \<times> bool)" where
  "pa_mmap_open_file env vars filename base flags =
     (if filename then
        (if fe_open env then
           (if fe_fstat env
            then Inr (fe_fd env, word_of_nat (fe_size env), fe_bytes env, False)
            else Inl StatFailed)
         else if flags AND PMF_READ_ONLY \<noteq> 0 then Inl OpenReadOnly
         else if \<not> fe_create env then Inl CreateFailed
         else if fe_ftruncate env
         then Inr (fe_fd env, pa_config_value32 vars base ''size'' PA_DEFAULT_SIZE, (\<lambda>_. 0), True)
         else Inl ExtendFailed)
      else Inr (- 1, PA_DEFAULT_SIZE, (\<lambda>_. 0), True))"

definition pa_mmap_open ::
  "pa_file_env \<Rightarrow> pa_config_variable list \<Rightarrow> nat \<Rightarrow> bool \<Rightarrow> string \<Rightarrow> u32
     \<Rightarrow> (pa_open_error + pa_mmap) \<times> nat" where
  "pa_mmap_open env vars next filename base flags =
     (case pa_mmap_open_file env vars filename base flags of
        Inl e \<Rightarrow> (Inl e, next)
      | Inr (fd, len, bytes, created) \<Rightarrow>
         (case pa_mmap_open_addr (\<lambda>a. fe_mmap env a (unat len)) next of
            (Inl e, next') \<Rightarrow> (Inl e, next')
          | (Inr addr, next') \<Rightarrow>
             (let m = (if created
                       then pa_mmap_create_header bytes len (pa_config_value32 vars base ''max-size'' 0)
                       else bytes) in
              case (if created then None else pa_mmap_check_header m) of
                Some e \<Rightarrow> (Inl e, next')
              | None \<Rightarrow>
                 if \<not> fe_calloc env then (Inl NoMemory, next')
                 else (Inr \<lparr>pm_fd = fd, pm_flags = flags, pm_addr = addr, pm_len = unat len,
                            pm_record = (if fd < 0 \<and> fe_calloc_record env then [(0, unat len)] else []),
                            pm_mem = m\<rparr>, next'))))"

text \<open>What \<^verbatim>\<open>pa_mmap_close\<close> hands to \<^verbatim>\<open>munmap\<close> (offset and length), and the descriptor it closes.\<close>

definition pa_mmap_close :: "pa_mmap \<Rightarrow> (nat \<times> nat) list \<times> int option" where
  "pa_mmap_close pmp =
     (if pm_record pmp \<noteq> [] then pm_record pmp else [(0, pm_len pmp)],
      if 0 < pm_fd pmp then Some (pm_fd pmp) else None)"

section \<open>Header lemmas\<close>

subsection \<open>Scanning the headers\<close>

lemma header_find_end_bound:
  "pa_mmap_header_find m name b n = HeaderEnd e \<Longrightarrow> b + 72 * n \<le> e"
  by (induction m name b n rule: pa_mmap_header_find.induct)
    (auto simp: sizeof_pa_mmap_header_def split: if_splits)

lemma rd_bytes_same:
  assumes "same_on A m m'" "{p..<p + n} \<subseteq> A"
  shows "rd_bytes m' p n = rd_bytes m p n"
  using assms by (intro rd_bytes_cong) (auto simp: same_on_def)

lemma strncmp_same:
  assumes "same_on A m m'" "{p..<p + n} \<subseteq> A"
  shows "c_strncmp_eq m' name p n = c_strncmp_eq m name p n"
proof -
  have l: "length (take n name) \<le> n" by simp
  then have "{p..<p + length (take n name)} \<subseteq> {p..<p + n}" by auto
  then have "{p..<p + length (take n name)} \<subseteq> A" using assms(2) by (rule subset_trans)
  then have "rd_bytes m' p (length (take n name)) = rd_bytes m p (length (take n name))"
    by (rule rd_bytes_same [OF assms(1)])
  moreover have "length (take n name) < n \<Longrightarrow> m' (p + length (take n name)) = m (p + length (take n name))"
    using assms by (intro same_onD [OF assms(1)]) auto
  ultimately show ?thesis by (auto simp: c_strncmp_eq_def Let_def)
qed

text \<open>A scan that ran off the end of the headers passes over them again after a later write.\<close>

lemma header_find_resume:
  assumes "pa_mmap_header_find m name b n = HeaderEnd e" and "same_on {b..<e} m m'"
  shows "pa_mmap_header_find m' name b (n + k) = pa_mmap_header_find m' name e k"
  using assms
proof (induction m name b n rule: pa_mmap_header_find.induct)
  case (2 m name b n)
  let ?b = "b + sizeof_pa_mmap_header + unat (pmh_size m b)"
  from "2.prems"(1) have no: "\<not> c_strncmp_eq m name b PA_MMAP_HEADER_NAME_LEN"
    and rest: "pa_mmap_header_find m name ?b n = HeaderEnd e" by (auto split: if_splits)
  have "b + 72 \<le> e" using header_find_end_bound [OF rest] by (simp add: sizeof_pa_mmap_header_def)
  then have "c_strncmp_eq m' name b 64 = c_strncmp_eq m name b 64"
    and "pmh_size m' b = pmh_size m b"
    by (auto intro!: strncmp_same [OF "2.prems"(2)] same_on_rd32 [OF "2.prems"(2)] simp: pmh_size_def)
  moreover have "same_on {?b..<e} m m'"
    by (rule same_on_subset [OF "2.prems"(2)]) auto
  ultimately show ?case
    using no "2.IH" [OF no rest] by (simp add: PA_MMAP_HEADER_NAME_LEN_def)
qed simp

lemma header_find_hit_same:
  assumes "pa_mmap_header_find m name b n = HeaderAt p" and "same_on {b..<e} m m'"
    and "pa_mmap_header_find m other b n = HeaderEnd e"
  shows "pa_mmap_header_find m' name b (n + k) = HeaderAt p"
  using assms
proof (induction m name b n rule: pa_mmap_header_find.induct)
  case (2 m name b n)
  let ?b = "b + sizeof_pa_mmap_header + unat (pmh_size m b)"
  from "2.prems"(3) have rest: "pa_mmap_header_find m other ?b n = HeaderEnd e" by (auto split: if_splits)
  have "b + 72 \<le> e" using header_find_end_bound [OF rest] by (simp add: sizeof_pa_mmap_header_def)
  then have eq: "c_strncmp_eq m' name b 64 = c_strncmp_eq m name b 64" "pmh_size m' b = pmh_size m b"
    by (auto intro!: strncmp_same [OF "2.prems"(2)] same_on_rd32 [OF "2.prems"(2)] simp: pmh_size_def)
  have s: "same_on {?b..<e} m m'" by (rule same_on_subset [OF "2.prems"(2)]) auto
  show ?case
  proof (cases "c_strncmp_eq m name b 64")
    case True
    with "2.prems"(1) eq show ?thesis by (simp add: PA_MMAP_HEADER_NAME_LEN_def)
  next
    case False
    with "2.prems"(1) have "pa_mmap_header_find m name ?b n = HeaderAt p"
      by (simp add: PA_MMAP_HEADER_NAME_LEN_def)
    with "2.IH" False s rest eq show ?thesis by (simp add: PA_MMAP_HEADER_NAME_LEN_def)
  qed
qed simp

text \<open>The memory after a header is appended.\<close>

definition header_written :: "mem \<Rightarrow> nat \<Rightarrow> u8 list \<Rightarrow> u16 \<Rightarrow> u16 \<Rightarrow> u32 \<Rightarrow> mem" where
  "header_written m base name type flags sz =
     (let m = wr_bytes m base (take 63 name @ [0]);
          m = wr32 m (base + 68) sz;
          m = wr16 m (base + 64) type;
          m = wr16 m (base + 66) flags
      in wr32 m 8 (pmi_num_headers m + 1))"

lemma header_written_outside:
  "x < 8 \<or> (12 \<le> x \<and> x < base) \<or> base + 72 \<le> x \<Longrightarrow> 32 \<le> base
     \<Longrightarrow> header_written m base name type flags sz x = m x"
  by (auto simp: header_written_def Let_def wr32_outside wr16_outside wr_bytes_outside min_def)

lemma header_written_name:
  assumes "32 \<le> base" "length name < 64" "0 \<notin> set name"
  shows "c_strncmp_eq (header_written m base name type flags sz) name base 64"
proof -
  let ?m' = "header_written m base name type flags sz" and ?w = "wr_bytes m base (name @ [0])"
  have same: "?m' x = ?w x" if "base \<le> x" "x < base + 64" for x
    using that assms(1,2) by (auto simp: header_written_def Let_def wr32_outside wr16_outside)
  have "rd_bytes ?m' base (length (name @ [0])) = rd_bytes ?w base (length (name @ [0]))"
    using assms(2) by (intro rd_bytes_cong same) auto
  then have "rd_bytes ?m' base (length (name @ [0])) = name @ [0]"
    by (simp only: rd_wr_bytes_same)
  then have "rd_bytes ?m' base (length name) = name" "?m' (base + length name) = 0"
    by (simp_all add: rd_bytes_def)
  with assms(2) show ?thesis by (simp add: c_strncmp_eq_def)
qed

lemma header_written_count:
  assumes "32 \<le> base"
  shows "pmi_num_headers (header_written m base name type flags sz) = pmi_num_headers m + 1"
proof -
  let ?w = "wr16 (wr16 (wr32 (wr_bytes m base (take 63 name @ [0])) (base + 68) sz) (base + 64) type) (base + 66) flags"
  have "pmi_num_headers ?w = pmi_num_headers m"
    unfolding pmi_num_headers_def using assms
    by (intro rd32_cong) (auto simp: wr32_outside wr16_outside wr_bytes_outside)
  then show ?thesis by (simp add: header_written_def Let_def pmi_num_headers_def)
qed

lemma pa_mmap_header_new:
  assumes "pa_mmap_header_find (pm_mem pmp) name 32 (unat (pmi_num_headers (pm_mem pmp))) = HeaderEnd base"
    and "pa_mmap_header pmp name type flags sz = (pmp', Some p)"
  shows "\<exists>s. p = base + 72 \<and> pmp' = pmp\<lparr>pm_mem := header_written (pm_mem pmp) base name type flags s\<rparr>
     \<and> base + 72 + unat s \<le> 4096"
  using assms
  by (auto simp: pa_mmap_header_def Let_def sizeof_pa_mmap_info_def sizeof_pa_mmap_header_def
      header_written_def PA_MMAP_HEADER_NAME_LEN_def PA_MMAP_ATOM_SIZE_def split: if_splits)

lemma header_lookup:
  assumes "pa_mmap_header_find (pm_mem pmp) name 32 (unat (pmi_num_headers (pm_mem pmp))) = HeaderAt p"
  shows "pa_mmap_header pmp name type flags sz = (pmp, Some p)"
  using assms by (simp add: pa_mmap_header_def sizeof_pa_mmap_info_def)

lemma header_roundtrip:
  assumes "pa_mmap_header pmp name type flags sz = (pmp', Some p)"
    and "length name < 64" and "0 \<notin> set name"
  shows "pa_mmap_header pmp' name type2 flags2 sz2 = (pmp', Some p)
    \<and> (\<forall>other q. pa_mmap_header pmp other t3 f3 0 = (pmp, Some q)
          \<longrightarrow> pa_mmap_header pmp' other t4 f4 s4 = (pmp', Some q))"
proof (cases "pa_mmap_header_find (pm_mem pmp) name 32 (unat (pmi_num_headers (pm_mem pmp)))")
  case (HeaderAt q)
  with assms(1) header_lookup [OF HeaderAt] have "pmp' = pmp" "p = q" by auto
  with HeaderAt show ?thesis
    by (auto simp: header_lookup)
      (auto simp: pa_mmap_header_def Let_def pa_roundup32_def split: pa_header_scan.splits)
next
  case (HeaderEnd base)
  let ?n = "unat (pmi_num_headers (pm_mem pmp))"
  from pa_mmap_header_new [OF HeaderEnd assms(1)] obtain s where p: "p = base + 72"
    and pmp': "pmp' = pmp\<lparr>pm_mem := header_written (pm_mem pmp) base name type flags s\<rparr>"
    and fit: "base + 72 + unat s \<le> 4096" by blast
  let ?m' = "header_written (pm_mem pmp) base name type flags s"
  have b: "32 + 72 * ?n \<le> base" by (rule header_find_end_bound [OF HeaderEnd])
  have "?n + 1 < 2 ^ LENGTH(32)" using b fit by simp
  then have "unat (pmi_num_headers (pm_mem pmp)) + unat (1 :: u32) < 2 ^ LENGTH(32)" by simp
  then have "unat (pmi_num_headers (pm_mem pmp) + 1) = ?n + 1"
    by (simp only: unat_add_lem [THEN iffD1]) simp
  then have n': "unat (pmi_num_headers ?m') = ?n + 1"
    using b by (simp add: header_written_count)
  have same: "same_on {32..<base} (pm_mem pmp) ?m'"
    using b by (intro same_onI header_written_outside) auto
  have "pa_mmap_header_find ?m' name 32 (?n + 1) = HeaderAt p"
    using header_find_resume [OF HeaderEnd same, of 1] header_written_name [of base name] assms(2,3) b
    by (simp add: p PA_MMAP_HEADER_NAME_LEN_def sizeof_pa_mmap_header_def)
  then have new: "pa_mmap_header pmp' name type2 flags2 sz2 = (pmp', Some p)"
    by (intro header_lookup) (simp add: pmp' n')
  have "pa_mmap_header pmp' other t4 f4 s4 = (pmp', Some q)"
    if "pa_mmap_header pmp other t3 f3 0 = (pmp, Some q)" for other q
  proof (rule header_lookup)
    have "pa_mmap_header_find (pm_mem pmp) other 32 ?n = HeaderAt q"
      using that by (auto simp: pa_mmap_header_def Let_def pa_roundup32_def sizeof_pa_mmap_info_def
          split: pa_header_scan.splits)
    from header_find_hit_same [OF this same HeaderEnd, of 1]
    show "pa_mmap_header_find (pm_mem pmp') other 32 (unat (pmi_num_headers (pm_mem pmp'))) = HeaderAt q"
      by (simp add: pmp' n')
  qed
  with new show ?thesis by blast
qed

end
