(* ===== verification/Pasegment.thy ===== *)
theory Pasegment
  imports Paopen
begin

text \<open>
  What a segment of \<^verbatim>\<open>parrotdb/pammap.c\<close> promises its clients: a new segment is well formed, every
  sequence of allocations, frees, named headers and writes into owned blocks keeps it so, and the
  contract of the page allocator as an interface that the allocators above it use.
\<close>

section \<open>A new segment\<close>

lemma create_header_reads:
  fixes len mx :: u32
  assumes "\<And>x. m x = 0"
  defines "m' \<equiv> pa_mmap_create_header m len mx"
  shows "rd32 m' 24 = 1" "rd32 m' 4096 = PA_MMAP_FREE_MAGIC" "rd32 m' 4100 = drop_bit 12 len - 1"
    "rd32 m' 4104 = 0" "rd16 m' 0 = PA_MAGIC_NUMBER" "m' 2 = PA_VERS_MAJOR" "rd32 m' 4 = mx"
    "pmi_num_headers m' = 0"
proof -
  note d = m'_def pa_mmap_create_header_def Let_def pmi_free_at_def
  show "rd32 m' 4104 = 0"
    by (rule rd32_zero) (simp add: d wr32_outside wr16_outside assms(1))
  show "m' 2 = PA_VERS_MAJOR" by (simp add: d wr32_outside)
  have fresh: "rd32 (f(2 := a, 3 := b)) 4 = rd32 f 4" for f a b
    by (rule rd32_cong) auto
  show "rd32 m' 24 = 1" "rd32 m' 4096 = PA_MMAP_FREE_MAGIC" "rd32 m' 4100 = drop_bit 12 len - 1"
    "rd32 m' 4 = mx"
    by (simp_all add: d mem_simps)
  have "pmi_num_headers m' = rd32 (\<lambda>_. 0) 8"
    unfolding pmi_num_headers_def
    by (rule rd32_cong) (simp add: d wr32_outside wr16_outside assms(1))
  then show "pmi_num_headers m' = 0" by (simp add: rd32_zero)
  have "rd16 m' 0 = rd16 (wr16 m 0 PA_MAGIC_NUMBER) 0"
    by (rule rd16_cong) (simp add: d wr32_outside)
  then show "rd16 m' 0 = PA_MAGIC_NUMBER" by simp
qed

lemma created_wf:
  assumes "\<And>x. m x = 0" and "4096 dvd unat len" "8192 \<le> unat len"
    and "pm_mem pmp = pa_mmap_create_header m len mx" "pm_len pmp = unat len"
  shows "mm_wf pmp [(1, drop_bit 12 len - 1)] []"
proof -
  note r = create_header_reads [of m len mx, folded assms(4), OF assms(1)]
  have pg: "pa_page 1 = 4096" by (simp add: pa_page_nat)
  have "unat (drop_bit 12 len) = unat len div 4096"
    by (simp add: unat_div drop_bit_eq_div)
  moreover have "2 \<le> unat len div 4096" using assms(3) by simp
  ultimately have n: "unat (drop_bit 12 len - 1) = unat len div 4096 - 1"
    by (subst unat_sub) (auto simp: word_le_nat_alt)
  have "(1 + unat (drop_bit 12 len - 1)) * 4096 = unat len"
    using n assms(2) \<open>2 \<le> unat len div 4096\<close> by simp
  then have "ext_ok (pm_len pmp) (1, drop_bit 12 len - 1)"
    using n assms(5) \<open>2 \<le> unat len div 4096\<close> by (simp add: ext_ok_def)
  moreover have "unat len < 2 ^ LENGTH(32)" by (rule unsigned_less)
  ultimately show ?thesis
    using r pg assms(2,3,5)
    by (auto simp: mm_wf_def mm_chain_def pmf_magic_def pmf_size_def pmf_next_at_def pmi_free_at_def
        disj_exts_Cons)
qed

lemma pa_mmap_created:
  assumes "pa_mmap_open env vars next filename base flags = (Inr pmp, next')"
    and "\<not> (filename \<and> fe_open env)" and "4096 dvd pm_len pmp" "8192 \<le> pm_len pmp"
  shows "mm_wf pmp [(1, drop_bit 12 (word_of_nat (pm_len pmp)) - 1)] []"
    and "pa_mmap_check_header (pm_mem pmp) = None" and "pmi_num_headers (pm_mem pmp) = 0"
proof -
  from assms(1,2) obtain len mx where m: "pm_mem pmp = pa_mmap_create_header (\<lambda>_. 0) len mx"
    and l: "pm_len pmp = unat len"
    by (auto simp: pa_mmap_open_def pa_mmap_open_file_def split: prod.splits sum.splits if_splits)
  show "mm_wf pmp [(1, drop_bit 12 (word_of_nat (pm_len pmp)) - 1)] []"
    using created_wf [of "\<lambda>_. 0" len pmp mx] assms(3,4) by (simp add: m l)
  show "pa_mmap_check_header (pm_mem pmp) = None" "pmi_num_headers (pm_mem pmp) = 0"
    unfolding m by (simp_all add: pa_mmap_check_header_def create_header_reads)
qed

lemma pa_mmap_open_addr_fresh:
  assumes "pa_mmap_open_addr mm next = (Inr a, next')"
  shows "next \<le> a \<and> a \<le> PA_ADDR_MAX \<and> next' = a + PA_ADDR_DEFAULT_INCR \<and> mm a = MapAt a"
  using assms
proof (induction mm "next" rule: pa_mmap_open_addr.induct)
  case (1 mm "next")
  from "1.prems" show ?case
    by (subst (asm) pa_mmap_open_addr.simps)
      (auto split: if_splits mmap_answer.splits dest!: "1.IH" simp: PA_ADDR_DEFAULT_INCR_def)
qed


section \<open>Runs of a segment\<close>

text \<open>
  What a program may do to an open segment: allocate, free a block with the size it was
  allocated for, add a named header and write into the blocks it holds. \<open>L\<close> is the list of
  the blocks it holds, as pairs of the first page and the number of pages. A request is such that the
  segment stays below 4 GB even when it grows for it, by \<open>sz\<close> bytes rounded up to 128 KB: beyond, the
  32-bit address of \<^verbatim>\<open>pa_pointer\<close> wraps.
\<close>

inductive mm_step :: "pa_mmap \<times> (u32 \<times> u32) list \<Rightarrow> pa_mmap \<times> (u32 \<times> u32) list \<Rightarrow> bool" where
  step_alloc: "0 < sz \<Longrightarrow> pm_len pmp + sz + 131072 \<le> 2 ^ 32 \<Longrightarrow> pa_mmap_alloc os pmp sz = Some (pmp', a)
    \<Longrightarrow> mm_step (pmp, L) (pmp', if a = 0 then L else (a, word_of_nat (pa_count sz)) # L)"
| step_free: "(a, pa_items_shift32 sz PA_MMAP_ATOM_SHIFT) \<in> set L \<Longrightarrow> pa_mmap_free pmp a sz = Some pmp'
    \<Longrightarrow> mm_step (pmp, L) (pmp', remove1 (a, pa_items_shift32 sz PA_MMAP_ATOM_SHIFT) L)"
| step_header: "pa_mmap_header pmp name type flags sz = (pmp', r) \<Longrightarrow> mm_step (pmp, L) (pmp', L)"
| step_write: "same_on (- live_bytes L) (pm_mem pmp) m \<Longrightarrow> mm_step (pmp, L) (pmp\<lparr>pm_mem := m\<rparr>, L)"

inductive_cases mm_stepE: "mm_step (pmp, L) (pmp', L')"

inductive mm_run :: "pa_mmap \<times> (u32 \<times> u32) list \<Rightarrow> pa_mmap \<times> (u32 \<times> u32) list \<Rightarrow> bool" where
  run_refl: "mm_run s s"
| run_step: "mm_run s t \<Longrightarrow> mm_step t u \<Longrightarrow> mm_run s u"

lemma mm_wf_remove1:
  assumes "mm_wf pmp xs L" "e \<in> set L"
  shows "mm_wf pmp xs (e # remove1 e L)"
proof -
  from split_list_first [OF assms(2)] obtain ys zs where "L = ys @ e # zs" "e \<notin> set ys" by blast
  then have L: "L = ys @ e # zs" "remove1 e L = ys @ zs" by (auto simp: remove1_append)
  note w = mm_wfD [OF assms(1)]
  have "disj_exts (xs @ e # ys @ zs)"
    using w(3) unfolding L by (simp add: disj_exts_append disj_exts_Cons) blast
  with w show ?thesis unfolding L(2) by (auto simp: mm_wf_def L(1))
qed

lemma mm_wf_frame:
  assumes wf: "mm_wf pmp xs L" and s: "same_on ({24..<28} \<union> live_bytes xs) (pm_mem pmp) m"
  shows "mm_wf (pmp\<lparr>pm_mem := m\<rparr>) xs L"
proof -
  note w = mm_wfD [OF wf]
  have "{pa_page (fst e)..<pa_page (fst e) + 12} \<subseteq> live_bytes xs" if "e \<in> set xs" for e
    using block_in_ext [of "pm_len pmp" e] w(2,6) that by (fastforce simp: live_bytes_def)
  then have "cells pmi_free_at xs \<subseteq> {24..<28} \<union> live_bytes xs"
    by (auto simp: cells_def pmi_free_at_def)
  then have "mm_chain m pmi_free_at xs"
    using w(1) mm_chain_frame same_on_subset [OF s] by blast
  with w show ?thesis by (simp add: mm_wf_def)
qed

lemma pa_mmap_header_frame:
  assumes "pa_mmap_header pmp name type flags sz = (pmp', r)"
  shows "\<exists>m. pmp' = pmp\<lparr>pm_mem := m\<rparr> \<and> same_on (- ({8..<12} \<union> {32..<4096})) (pm_mem pmp) m"
proof (cases "pa_mmap_header_find (pm_mem pmp) name 32 (unat (pmi_num_headers (pm_mem pmp)))")
  case (HeaderAt p)
  from header_lookup [OF this] assms show ?thesis by (intro exI [of _ "pm_mem pmp"]) auto
next
  case (HeaderEnd base)
  show ?thesis
  proof (cases r)
    case None
    with assms HeaderEnd show ?thesis
      by (intro exI [of _ "pm_mem pmp"])
        (auto simp: pa_mmap_header_def Let_def sizeof_pa_mmap_info_def split: if_splits)
  next
    case (Some p)
    with pa_mmap_header_new [OF HeaderEnd] assms obtain s where
      p: "pmp' = pmp\<lparr>pm_mem := header_written (pm_mem pmp) base name type flags s\<rparr>"
        "base + 72 + unat s \<le> 4096" by blast
    have "32 \<le> base" using header_find_end_bound [OF HeaderEnd] by simp
    with p show ?thesis by (auto intro!: same_onI header_written_outside)
  qed
qed

definition mm_inv :: "pa_mmap \<times> (u32 \<times> u32) list \<Rightarrow> bool" where
  "mm_inv s \<longleftrightarrow> (\<exists>xs. mm_wf (fst s) xs (snd s)) \<and> pa_mmap_check_header (pm_mem (fst s)) = None"

lemma check_header_frame:
  "same_on {..<4} m m' \<Longrightarrow> pa_mmap_check_header m' = pa_mmap_check_header m"
proof -
  assume s: "same_on {..<4} m m'"
  have "rd16 m' 0 = rd16 m 0" by (rule same_on_rd16 [OF s]) auto
  then show ?thesis using s by (simp add: pa_mmap_check_header_def same_on_def)
qed

lemma mm_invI:
  assumes "mm_wf pmp' xs L'" "same_on {..<4} (pm_mem pmp) (pm_mem pmp')" "mm_inv (pmp, L)"
  shows "mm_inv (pmp', L')"
  using assms check_header_frame [OF assms(2)] by (auto simp: mm_inv_def)

lemma client_low: "{..<4} \<subseteq> client_bytes L"
  by (auto simp: client_bytes_def header_bytes_def)

lemma live_high:
  assumes "mm_wf pmp xs L"
  shows "live_bytes (xs @ L) \<inter> {..<4096} = {}"
proof -
  have "4096 \<le> x" if "e \<in> set (xs @ L)" "x \<in> ext_bytes e" for e x
    using mm_wfD(2) [OF assms] ext_bytes_bounds that by blast
  then show ?thesis by (fastforce simp: live_bytes_def)
qed

lemma mm_step_inv:
  assumes "mm_step s t" "mm_inv s"
  shows "mm_inv t"
  using assms
proof (cases rule: mm_step.cases)
  case (step_alloc sz pmp os pmp' a L)
  from assms(2) obtain xs where wf: "mm_wf pmp xs L" by (auto simp: step_alloc mm_inv_def)
  from pa_mmap_alloc_cases [OF wf step_alloc(3,4), of os] step_alloc(5)
  consider xs' where "alloc_post pmp L (word_of_nat (pa_count sz)) pmp' a xs'" | "pmp' = pmp" "a = 0"
    by auto
  then show ?thesis
  proof cases
    case 1
    then have "a \<noteq> 0" "mm_wf pmp' xs' ((a, word_of_nat (pa_count sz)) # L)"
      "same_on {..<4} (pm_mem pmp) (pm_mem pmp')"
      using client_low same_on_subset by (auto simp: alloc_post_def)
    with mm_invI assms(2) show ?thesis by (simp add: step_alloc)
  next
    case 2
    with assms(2) show ?thesis by (simp add: step_alloc)
  qed
next
  case (step_free a sz L pmp pmp')
  let ?L = "remove1 (a, pa_items_shift32 sz PA_MMAP_ATOM_SHIFT) L"
  from assms(2) obtain xs where wf: "mm_wf pmp xs L" by (auto simp: step_free mm_inv_def)
  from pa_mmap_free_ok [OF mm_wf_remove1 [OF wf step_free(3)] refl] step_free(4)
  obtain xs' where "mm_wf pmp' xs' ?L" "same_on (client_bytes ?L) (pm_mem pmp) (pm_mem pmp')" by auto
  with mm_invI [of pmp' xs' ?L pmp L] assms(2) client_low same_on_subset show ?thesis
    by (auto simp: step_free)
next
  case (step_header pmp name type flags sz pmp' r L)
  from assms(2) obtain xs where wf: "mm_wf pmp xs L" by (auto simp: step_header mm_inv_def)
  from pa_mmap_header_frame [OF step_header(3)] obtain m where
    m: "pmp' = pmp\<lparr>pm_mem := m\<rparr>" "same_on (- ({8..<12} \<union> {32..<4096})) (pm_mem pmp) m" by blast
  have "mm_wf (pmp\<lparr>pm_mem := m\<rparr>) xs L"
    by (rule mm_wf_frame [OF wf], rule same_on_subset [OF m(2)])
      (use live_high [OF wf] in \<open>auto simp: live_bytes_def\<close>)
  moreover have "same_on {..<4} (pm_mem pmp) m" by (rule same_on_subset [OF m(2)]) auto
  ultimately show ?thesis using mm_invI [of pmp' xs L pmp L] assms(2) m(1) by (simp add: step_header)
next
  case (step_write L pmp m)
  from assms(2) obtain xs where wf: "mm_wf pmp xs L" by (auto simp: step_write mm_inv_def)
  have h: "live_bytes L \<inter> {..<4096} = {}" using live_high [OF wf] by (auto simp: live_bytes_def)
  have "live_bytes xs \<inter> live_bytes L = {}"
    using mm_wfD(3) [OF wf] by (intro live_disj) (auto simp: disj_exts_append)
  with h have "mm_wf (pmp\<lparr>pm_mem := m\<rparr>) xs L"
    by (intro mm_wf_frame [OF wf] same_on_subset [OF step_write(3)]) auto
  moreover have "same_on {..<4} (pm_mem pmp) m"
    using h by (intro same_on_subset [OF step_write(3)]) auto
  ultimately show ?thesis using mm_invI [of _ xs L pmp L] assms(2) by (simp add: step_write)
qed

lemma mm_run_inv: "mm_run s t \<Longrightarrow> mm_inv s \<Longrightarrow> mm_inv t"
  by (induction rule: mm_run.induct) (auto intro: mm_step_inv)


lemma pa_mmap_created_inv:
  assumes "pa_mmap_open env vars next filename base flags = (Inr pmp, next')"
    and "\<not> (filename \<and> fe_open env)" and "4096 dvd pm_len pmp" "8192 \<le> pm_len pmp"
  shows "mm_inv (pmp, [])"
  using pa_mmap_created [OF assms] by (auto simp: mm_inv_def)

lemma live_bytes_range:
  assumes "mm_wf pmp xs L" shows "live_bytes L \<subseteq> {4096..<pm_len pmp}"
proof -
  have "x \<in> {4096..<pm_len pmp}" if "e \<in> set L" "x \<in> ext_bytes e" for e x
    using mm_wfD(2) [OF assms] ext_bytes_bounds [of "pm_len pmp" e x] that by simp
  then show ?thesis by (auto simp: live_bytes_def)
qed

lemma disj_exts_bytes: "disj_exts L \<Longrightarrow> sorted_wrt (\<lambda>e f. ext_bytes e \<inter> ext_bytes f = {}) L"
  unfolding disj_exts_def by (rule sorted_wrt_mono_rel) (auto dest: ext_disj_bytes)

lemma alloc_post_bytes:
  assumes "alloc_post pmp L (word_of_nat (pa_count sz)) pmp' a xs'" "sz < 2 ^ 32"
  shows "{unat a * 4096..<unat a * 4096 + sz} \<subseteq> {4096..<pm_len pmp'}"
    and "live_bytes L \<inter> {unat a * 4096..<unat a * 4096 + sz} = {}"
    and "same_on (live_bytes L) (pm_mem pmp) (pm_mem pmp')"
proof -
  let ?e = "(a, word_of_nat (pa_count sz)) :: u32 \<times> u32"
  from assms(1) have wf: "mm_wf pmp' xs' (?e # L)"
    and f: "same_on (client_bytes L) (pm_mem pmp) (pm_mem pmp')" by (auto simp: alloc_post_def)
  show "same_on (live_bytes L) (pm_mem pmp) (pm_mem pmp')"
    by (rule same_on_subset [OF f]) (auto simp: client_bytes_def)
  have "unat (word_of_nat (pa_count sz) :: u32) = pa_count sz"
    using assms(2) by (simp add: unat_of_nat pa_count_def)
  moreover have "sz \<le> pa_count sz * 4096" by (simp add: pa_count_def)
  ultimately have sub: "{unat a * 4096..<unat a * 4096 + sz} \<subseteq> ext_bytes ?e"
    by (auto simp: ext_bytes_def algebra_simps)
  have "ext_bytes ?e \<subseteq> {4096..<pm_len pmp'}"
    using live_bytes_range [OF wf] by (auto simp: live_bytes_def)
  with sub show "{unat a * 4096..<unat a * 4096 + sz} \<subseteq> {4096..<pm_len pmp'}"
    by (rule subset_trans)
  have "live_bytes L \<inter> live_bytes [?e] = {}"
    using mm_wfD(3) [OF wf] by (intro live_disj) (auto simp: disj_exts_append disj_exts_Cons)
  with sub show "live_bytes L \<inter> {unat a * 4096..<unat a * 4096 + sz} = {}"
    by (auto simp: live_bytes_def)
qed

section \<open>The page allocator as an interface\<close>

text \<open>
  A client sees the set \<open>S\<close> of the blocks in use, as pairs of the first page and the number of
  pages, and the bytes it may rely on: those blocks and page 0.
\<close>

definition owned :: "(u32 \<times> u32) set \<Rightarrow> nat set" where
  "owned S = header_bytes \<union> (\<Union>e\<in>S. ext_bytes e)"

lemma header_owned: "header_bytes \<subseteq> owned S"
  by (auto simp: owned_def)

locale page_alloc =
  fixes alloc :: "'s \<Rightarrow> nat \<Rightarrow> ('s \<times> u32) option"
    and mem_of :: "'s \<Rightarrow> mem"
    and put_mem :: "'s \<Rightarrow> mem \<Rightarrow> 's"
    and valid :: "'s \<Rightarrow> (u32 \<times> u32) set \<Rightarrow> bool"
    and room :: "'s \<Rightarrow> nat \<Rightarrow> bool"
  assumes alloc_total: "valid s S \<Longrightarrow> 0 < sz \<Longrightarrow> room s sz \<Longrightarrow>
      alloc s sz = Some (s, 0) \<or>
      (\<exists>s' a. alloc s sz = Some (s', a) \<and> a \<noteq> 0 \<and> (a, word_of_nat (pa_count sz)) \<notin> S
         \<and> valid s' (insert (a, word_of_nat (pa_count sz)) S)
         \<and> same_on (owned S) (mem_of s) (mem_of s'))"
    and disjoint: "valid s S \<Longrightarrow> e \<in> S \<Longrightarrow> f \<in> S \<Longrightarrow> e \<noteq> f \<Longrightarrow> ext e \<inter> ext f = {}"
    and in_range: "valid s S \<Longrightarrow> e \<in> S \<Longrightarrow> ext_ok (2 ^ 32) e"
    and write_ok: "valid s S \<Longrightarrow> same_on (- owned S) (mem_of s) m \<Longrightarrow> valid (put_mem s m) S"
    and mem_put: "mem_of (put_mem s m) = m"
begin

lemma page_addr:
  assumes "valid s S" "(a, n) \<in> S"
  shows "pa_page a = unat a * 4096" and "0 < unat a" and "unat a * 4096 + unat n * 4096 \<le> 2 ^ 32"
  using in_range [OF assms] ext_ok_page [OF in_range [OF assms]] by (auto simp: ext_ok_def)

lemma bytes_disjoint:
  assumes "valid s S" "e \<in> S" "f \<in> S" "e \<noteq> f"
  shows "ext_bytes e \<inter> ext_bytes f = {}"
  using disjoint [OF assms] by (rule ext_disj_bytes)

lemma first_page_inj:
  assumes "valid s S" "(a, n) \<in> S" "(a, k) \<in> S"
  shows "n = k"
  using disjoint [OF assms] in_range [OF assms(1,2)] in_range [OF assms(1,3)]
  by (auto simp: ext_def ext_ok_def)

lemma block_not_header:
  assumes "valid s S" "e \<in> S"
  shows "ext_bytes e \<inter> header_bytes = {}"
  using in_range [OF assms] ext_bytes_bounds by (fastforce simp: header_bytes_def)

lemma write_inside:
  assumes "valid s S" "B \<subseteq> owned S" "same_on (- B) (mem_of s) m"
  shows "valid (put_mem s m) S"
  by (rule write_ok [OF assms(1)], rule same_on_subset [OF assms(3)]) (use assms(2) in blast)

end

definition mm_valid :: "pa_mmap \<Rightarrow> (u32 \<times> u32) set \<Rightarrow> bool" where
  "mm_valid pmp S \<longleftrightarrow> (\<exists>xs L. mm_wf pmp xs L \<and> set L = S)"

definition mm_room :: "pa_mmap \<Rightarrow> nat \<Rightarrow> bool" where
  "mm_room pmp sz \<longleftrightarrow> pm_len pmp + sz + 131072 \<le> 2 ^ 32"

lemma owned_client: "owned (set L) = client_bytes L"
  by (simp add: owned_def client_bytes_def live_bytes_def)

lemma disj_exts_set:
  "disj_exts L \<Longrightarrow> e \<in> set L \<Longrightarrow> f \<in> set L \<Longrightarrow> e \<noteq> f \<Longrightarrow> ext e \<inter> ext f = {}"
  by (induction L) (auto simp: disj_exts_Cons)

lemma ext_ok_mono: "ext_ok n e \<Longrightarrow> n \<le> k \<Longrightarrow> ext_ok k e"
  by (auto simp: ext_ok_def)

lemma mm_valid_alloc:
  assumes "mm_valid pmp S" "0 < sz" "mm_room pmp sz"
  shows "pa_mmap_alloc os pmp sz = Some (pmp, 0) \<or>
      (\<exists>pmp' a. pa_mmap_alloc os pmp sz = Some (pmp', a) \<and> a \<noteq> 0 \<and> (a, word_of_nat (pa_count sz)) \<notin> S
         \<and> mm_valid pmp' (insert (a, word_of_nat (pa_count sz)) S)
         \<and> same_on (owned S) (pm_mem pmp) (pm_mem pmp'))"
proof -
  from assms(1) obtain xs L where wf: "mm_wf pmp xs L" and S: "set L = S"
    unfolding mm_valid_def by blast
  from pa_mmap_alloc_cases [OF wf assms(2), of os] assms(3)
  consider pmp' a xs' where "pa_mmap_alloc os pmp sz = Some (pmp', a)"
      "alloc_post pmp L (word_of_nat (pa_count sz)) pmp' a xs'"
    | "pa_mmap_alloc os pmp sz = Some (pmp, 0)"
    unfolding mm_room_def by blast
  then show ?thesis
  proof cases
    case 1
    let ?e = "(a, word_of_nat (pa_count sz)) :: u32 \<times> u32"
    from 1(2) have wf': "mm_wf pmp' xs' (?e # L)" and f: "same_on (client_bytes L) (pm_mem pmp) (pm_mem pmp')"
      and a: "a \<noteq> 0" by (auto simp: alloc_post_def)
    have "?e \<notin> S"
    proof
      assume "?e \<in> S"
      then have "ext ?e \<inter> ext ?e = {}"
        using mm_wfD(3) [OF wf'] S by (auto simp: disj_exts_append disj_exts_Cons)
      then show False using ext_fst_in [of "pm_len pmp'" ?e] mm_wfD(2) [OF wf'] by auto
    qed
    moreover have "mm_valid pmp' (insert ?e S)"
      unfolding mm_valid_def using wf' S by (intro exI [of _ xs'] exI [of _ "?e # L"]) simp
    ultimately show ?thesis using 1(1) a f by (auto simp: owned_client simp flip: S)
  qed simp
qed

lemma mm_valid_write:
  assumes "mm_valid pmp S" "same_on (- owned S) (pm_mem pmp) m"
  shows "mm_valid (pmp\<lparr>pm_mem := m\<rparr>) S"
proof -
  from assms(1) obtain xs L where wf: "mm_wf pmp xs L" and S: "set L = S"
    unfolding mm_valid_def by blast
  have "({24..<28} \<union> live_bytes xs) \<inter> client_bytes L = {}"
    using client_sep [OF mm_wfD(3,2) [OF wf]] by blast
  then have "same_on ({24..<28} \<union> live_bytes xs) (pm_mem pmp) m"
    by (intro same_on_subset [OF assms(2)]) (auto simp: S [symmetric] owned_client)
  with mm_wf_frame [OF wf] S show ?thesis unfolding mm_valid_def by blast
qed

text \<open>The segment of the code provides the interface, whatever the operating system answers.\<close>

interpretation mm: page_alloc "pa_mmap_alloc os" pm_mem "\<lambda>pmp m. pmp\<lparr>pm_mem := m\<rparr>" mm_valid mm_room
  for os
proof (unfold_locales, goal_cases)
  case (1 s S sz)
  then show ?case by (rule mm_valid_alloc)
next
  case (2 s S e f)
  then show ?case
    using disj_exts_set mm_wfD(3) unfolding mm_valid_def disj_exts_append by blast
next
  case (3 s S e)
  then obtain xs L where "mm_wf s xs L" "set L = S" unfolding mm_valid_def by blast
  with 3(2) have "ext_ok (pm_len s) e" "pm_len s \<le> 2 ^ 32" using mm_wfD(2,6) by auto
  then show ?case by (rule ext_ok_mono)
next
  case (4 s S m)
  then show ?case by (rule mm_valid_write)
qed simp

text \<open>A client that also gives blocks back, with the size it asked for.\<close>

locale page_pool = page_alloc +
  fixes free :: "'s \<Rightarrow> u32 \<Rightarrow> nat \<Rightarrow> 's option"
  assumes free_total: "valid s S \<Longrightarrow> (a, word_of_nat (pa_count sz)) \<in> S \<Longrightarrow> 0 < sz \<Longrightarrow> sz + 4096 \<le> 2 ^ 32 \<Longrightarrow>
      \<exists>s'. free s a sz = Some s' \<and> valid s' (S - {(a, word_of_nat (pa_count sz))})
        \<and> same_on (owned (S - {(a, word_of_nat (pa_count sz))})) (mem_of s) (mem_of s')"

lemma mm_valid_free:
  assumes "mm_valid pmp S" "(a, k) \<in> S" "pa_items_shift32 sz PA_MMAP_ATOM_SHIFT = k"
  shows "\<exists>pmp'. pa_mmap_free pmp a sz = Some pmp' \<and> mm_valid pmp' (S - {(a, k)})
    \<and> same_on (owned (S - {(a, k)})) (pm_mem pmp) (pm_mem pmp')"
proof -
  from assms(1) obtain xs L where wf: "mm_wf pmp xs L" and S: "set L = S"
    unfolding mm_valid_def by blast
  with assms(2) have mem: "(a, k) \<in> set L" by simp
  note wf' = mm_wf_remove1 [OF wf mem]
  note w = mm_wfD [OF wf']
  have "(a, k) \<notin> set (remove1 (a, k) L)"
  proof
    assume "(a, k) \<in> set (remove1 (a, k) L)"
    then have "ext (a, k) \<inter> ext (a, k) = {}" using w(3) by (auto simp: disj_exts_append disj_exts_Cons)
    then show False using ext_fst_in [of "pm_len pmp" "(a, k)"] w(2) by auto
  qed
  moreover have "e \<in> set (remove1 (a, k) L)" if "e \<in> S - {(a, k)}" for e
    using that S in_set_remove1 [of e "(a, k)" L] by simp
  moreover have "set (remove1 (a, k) L) \<subseteq> S" using set_remove1_subset S by fast
  ultimately have R: "set (remove1 (a, k) L) = S - {(a, k)}" by blast
  from pa_mmap_free_ok [OF wf' assms(3)] R owned_client [of "remove1 (a, k) L"]
  show ?thesis unfolding mm_valid_def by auto
qed

lemma pa_items_count:
  assumes "0 < sz" "sz + 4096 \<le> 2 ^ 32"
  shows "pa_items_shift32 (word_of_nat sz) PA_MMAP_ATOM_SHIFT = word_of_nat (pa_count sz)"
proof -
  have "unat (word_of_nat sz :: u32) = sz" using assms(2) by (simp add: unat_of_nat)
  moreover have "pa_count sz < 2 ^ 32" using assms by (simp add: pa_count_def)
  ultimately have "unat (pa_items_shift32 (word_of_nat sz) PA_MMAP_ATOM_SHIFT) = unat (word_of_nat (pa_count sz) :: u32)"
    using assms by (subst pa_items_shift32_nat) (simp_all add: PA_MMAP_ATOM_SHIFT_def pa_count_def unat_of_nat)
  then show ?thesis by (simp add: word_unat_eq_iff)
qed

interpretation mmp: page_pool "pa_mmap_alloc os" pm_mem "\<lambda>pmp m. pmp\<lparr>pm_mem := m\<rparr>" mm_valid mm_room
    "\<lambda>pmp a sz. pa_mmap_free pmp a (word_of_nat sz)"
  for os
proof (unfold_locales, goal_cases)
  case (1 s S a sz)
  with mm_valid_free [OF 1(1,2) pa_items_count [OF 1(3,4)]] show ?case by blast
qed

end
