(* ===== verification/Paarb.thy ===== *)
theory Paarb
  imports Pasegment
begin

text \<open>
  \<^verbatim>\<open>parrotdb/paarb.h\<close>, \<^verbatim>\<open>paarb.c\<close> and \<^verbatim>\<open>palog2.h\<close>: allocations of any size on top of the segment.
  Small requests get a chunk of a power of two of atoms of 16 bytes from a list per power (the
  slot); larger ones get pages of their own. A header of four bytes precedes the bytes of the
  client; the link to the next free chunk lies where those bytes start. The handle keeps the
  address of \<^verbatim>\<open>pa_arb_info_t\<close>, the heads of the lists. A result \<open>None\<close> of a function of type
  \<open>option\<close> means that the call does not return.
\<close>

section \<open>Constants and headers\<close>

record pa_arb =
  pr_infop :: "nat option"

definition PA_TYPE_ARB :: u16 where "PA_TYPE_ARB = 3"
definition PA_ARB_ATOM_SHIFT :: nat where "PA_ARB_ATOM_SHIFT = 4"
definition PA_ARB_OFFSET_SHIFT :: nat where "PA_ARB_OFFSET_SHIFT = 8"
definition PA_ARB_MAX_POW2 :: u32 where "PA_ARB_MAX_POW2 = 12"
definition PA_ARB_MAX_LARGE :: nat where "PA_ARB_MAX_LARGE = 2 ^ 28"
definition PRH_MAGIC_SMALL_INUSE :: u16 where "PRH_MAGIC_SMALL_INUSE = 0x5ea1"
definition PRH_MAGIC_SMALL_FREE :: u16 where "PRH_MAGIC_SMALL_FREE = 0x5eb2"
definition PRH_MAGIC_LARGE_INUSE :: u16 where "PRH_MAGIC_LARGE_INUSE = 0xb161"
definition PRH_MAGIC_LARGE_FREE :: u16 where "PRH_MAGIC_LARGE_FREE = 0xb172"
definition sizeof_pa_arb_header :: nat where "sizeof_pa_arb_header = 4"
definition sizeof_pa_arb_info :: nat where "sizeof_pa_arb_info = 52"

definition prh_magic :: "mem \<Rightarrow> nat \<Rightarrow> u16" where "prh_magic m p = rd16 m p"
definition prh_slot :: "mem \<Rightarrow> nat \<Rightarrow> u8" where "prh_slot m p = m (p + 2)"
definition prh_size :: "mem \<Rightarrow> nat \<Rightarrow> u16" where "prh_size m p = rd16 m (p + 2)"
definition prh_next_free :: "mem \<Rightarrow> nat \<Rightarrow> u32" where "prh_next_free m p = rd32 m (p + 4)"
definition pri_free_at :: "nat \<Rightarrow> nat \<Rightarrow> nat" where "pri_free_at infop slot = infop + 4 * slot"

text \<open>\<^verbatim>\<open>pa_log2\<close> counts the bits of its argument; the instruction used on x86 answers the same, except for 0,
  where its result is undefined.\<close>

function pa_log2_loop :: "u32 \<Rightarrow> u32 \<Rightarrow> u32" where
  "pa_log2_loop msk idx = (if msk = 0 then idx else pa_log2_loop (drop_bit 1 msk) (idx + 1))"
  by pat_completeness auto
termination
  by (relation "measure (\<lambda>(msk, idx). unat msk)") (auto simp: unat_drop_bit_div unat_gt_0)

declare pa_log2_loop.simps [simp del]

definition pa_log2 :: "u32 \<Rightarrow> u32" where "pa_log2 sz = pa_log2_loop sz 0"

text \<open>The size is a \<^verbatim>\<open>size_t\<close>; \<^verbatim>\<open>pa_log2\<close> takes its low 32 bits.\<close>

definition pa_arb_slot :: "nat \<Rightarrow> u32" where
  "pa_arb_slot sz =
     (if sz < 2 ^ PA_ARB_ATOM_SHIFT then 0
      else pa_log2 (word_of_nat (sz - 1)) - word_of_nat PA_ARB_ATOM_SHIFT)"

definition pa_arb_chunks_per_page :: "u32 \<Rightarrow> u32" where
  "pa_arb_chunks_per_page slot =
     (let val = drop_bit (unat slot) (push_bit PA_ARB_OFFSET_SHIFT 1) in if val = 0 then 1 else val)"

definition pa_arb_slot_to_size :: "u32 \<Rightarrow> nat" where
  "pa_arb_slot_to_size slot =
     (let val = unat (push_bit (unat slot + PA_ARB_ATOM_SHIFT) 1 :: u32) in
      if val < PA_MMAP_ATOM_SIZE then PA_MMAP_ATOM_SIZE else val)"

definition pa_arb_build_atom :: "u32 \<Rightarrow> u8 \<Rightarrow> u8 \<Rightarrow> u32" where
  "pa_arb_build_atom matom slot chunk =
     (if matom = 0 then 0
      else push_bit PA_ARB_OFFSET_SHIFT matom OR push_bit (unat slot) 1 * ucast chunk)"

definition pa_arb_header :: "u32 \<Rightarrow> nat option" where
  "pa_arb_header atom =
     (let off = atom AND (push_bit PA_ARB_OFFSET_SHIFT 1 - 1);
          matom = drop_bit PA_ARB_OFFSET_SHIFT atom in
      case pa_mmap_addr matom of
        None \<Rightarrow> None
      | Some addr \<Rightarrow> Some (addr + unat (push_bit PA_ARB_ATOM_SHIFT off)))"

definition pa_arb_atom_addr :: "u32 \<Rightarrow> nat option" where
  "pa_arb_atom_addr atom =
     (case pa_arb_header atom of None \<Rightarrow> None | Some prhp \<Rightarrow> Some (prhp + sizeof_pa_arb_header))"

section \<open>Allocation\<close>

text \<open>The loop over the chunks of a new page; the last argument is the number of chunks left.\<close>

fun pa_arb_chunks :: "mem \<Rightarrow> u32 \<Rightarrow> u32 \<Rightarrow> u32 \<Rightarrow> nat \<Rightarrow> nat \<Rightarrow> mem option" where
  "pa_arb_chunks m matom slot atom i 0 = Some m"
| "pa_arb_chunks m matom slot atom i (Suc n) =
     (case pa_arb_header atom of
        None \<Rightarrow> None
      | Some prhp \<Rightarrow>
          (let m = wr16 m prhp PRH_MAGIC_SMALL_FREE;
               m = m(prhp + 2 := ucast slot);
               m = m(prhp + 3 := word_of_nat i);
               atom = (if n = 0 then 0 else pa_arb_build_atom matom (ucast slot) (word_of_nat (i + 1)));
               m = wr32 m (prhp + 4) atom in
           pa_arb_chunks m matom slot atom (i + 1) n))"

definition pa_arb_make_page :: "pa_os \<Rightarrow> pa_mmap \<Rightarrow> nat \<Rightarrow> u32 \<Rightarrow> pa_mmap option" where
  "pa_arb_make_page os pmp infop slot = do {
     (pmp, matom) \<leftarrow> pa_mmap_alloc os pmp (pa_arb_slot_to_size slot);
     if matom = 0 then Some pmp
     else do {
       let atom = pa_arb_build_atom matom (ucast slot) 0;
       m \<leftarrow> pa_arb_chunks (pm_mem pmp) matom slot atom 0 (unat (pa_arb_chunks_per_page slot));
       Some (pmp\<lparr>pm_mem := wr32 m (pri_free_at infop (unat slot)) atom\<rparr>)
     }
   }"

text \<open>A handle without an info block faults at the first small request.\<close>

definition pa_arb_alloc :: "pa_os \<Rightarrow> pa_mmap \<Rightarrow> pa_arb \<Rightarrow> nat \<Rightarrow> (pa_mmap \<times> u32) option" where
  "pa_arb_alloc os pmp prp sz =
     (let full_size = (sz + sizeof_pa_arb_header) mod 2 ^ 64;
          slot = pa_arb_slot full_size in
      if slot \<le> PA_ARB_MAX_POW2 then do {
        infop \<leftarrow> pr_infop prp;
        let cell = pri_free_at infop (unat slot);
        pmp \<leftarrow> (if rd32 (pm_mem pmp) cell = 0 then pa_arb_make_page os pmp infop slot else Some pmp);
        let atom = rd32 (pm_mem pmp) cell;
        if atom = 0 then Some (pmp, 0)
        else do {
          prhp \<leftarrow> pa_arb_header atom;
          let m = wr32 (pm_mem pmp) cell (prh_next_free (pm_mem pmp) prhp);
          let m = wr16 m prhp PRH_MAGIC_SMALL_INUSE;
          Some (pmp\<lparr>pm_mem := m\<rparr>, atom)
        }
      }
      else if full_size < PA_ARB_MAX_LARGE then do {
        let full_size = unat (pa_roundup32 (word_of_nat full_size) (word_of_nat PA_MMAP_ATOM_SIZE));
        (pmp, matom) \<leftarrow> pa_mmap_alloc os pmp full_size;
        if matom = 0 then Some (pmp, 0)
        else do {
          let atom = push_bit PA_ARB_OFFSET_SHIFT matom;
          prhp \<leftarrow> pa_arb_header atom;
          let m = wr16 (pm_mem pmp) prhp PRH_MAGIC_LARGE_INUSE;
          let m = wr16 m (prhp + 2) (word_of_nat (full_size div 2 ^ unat PA_MMAP_ATOM_SHIFT));
          Some (pmp\<lparr>pm_mem := m\<rparr>, atom)
        }
      }
      else Some (pmp, 0))"

definition pa_arb_free_atom_addr :: "pa_mmap \<Rightarrow> pa_arb \<Rightarrow> u32 \<Rightarrow> nat \<Rightarrow> pa_mmap option" where
  "pa_arb_free_atom_addr pmp prp atom addr =
     (let prhp = addr - sizeof_pa_arb_header;
          m = pm_mem pmp;
          magic = prh_magic m prhp in
      if magic = PRH_MAGIC_SMALL_INUSE then do {
        infop \<leftarrow> pr_infop prp;
        let cell = pri_free_at infop (unat (prh_slot m prhp));
        let m = wr32 m (prhp + 4) (rd32 m cell);
        let m = wr32 m cell atom;
        let m = wr16 m prhp PRH_MAGIC_SMALL_FREE;
        Some (pmp\<lparr>pm_mem := m\<rparr>)
      }
      else if magic = PRH_MAGIC_SMALL_FREE then Some pmp
      else if magic = PRH_MAGIC_LARGE_INUSE then
        pa_mmap_free pmp (drop_bit PA_ARB_OFFSET_SHIFT atom)
          (push_bit (unat PA_MMAP_ATOM_SHIFT) (ucast (prh_size m prhp)))
      else Some pmp)"

definition pa_arb_free_atom :: "pa_mmap \<Rightarrow> pa_arb \<Rightarrow> u32 \<Rightarrow> pa_mmap option" where
  "pa_arb_free_atom pmp prp atom =
     (if atom = 0 then Some pmp
      else case pa_arb_atom_addr atom of
        None \<Rightarrow> Some pmp
      | Some addr \<Rightarrow> pa_arb_free_atom_addr pmp prp atom addr)"

text \<open>A C string is the list of its bytes before the terminating zero.\<close>

definition pa_arb_alloc_string :: "pa_os \<Rightarrow> pa_mmap \<Rightarrow> pa_arb \<Rightarrow> u8 list \<Rightarrow> (pa_mmap \<times> u32) option" where
  "pa_arb_alloc_string os pmp prp val = do {
     let len = length val + 1;
     (pmp, atom) \<leftarrow> pa_arb_alloc os pmp prp (len + 1);
     if atom = 0 then Some (pmp, 0)
     else case pa_arb_atom_addr atom of
       None \<Rightarrow> Some (pmp, 0)
     | Some dest \<Rightarrow> Some (pmp\<lparr>pm_mem := wr_bytes (pm_mem pmp) dest (val @ [0])\<rparr>, atom)
   }"

section \<open>Setting up\<close>

definition pa_arb_setup :: "bool \<Rightarrow> nat option \<Rightarrow> pa_arb option" where
  "pa_arb_setup calloc prip = (if calloc then Some \<lparr>pr_infop = prip\<rparr> else None)"

definition pa_arb_open :: "bool \<Rightarrow> pa_mmap \<Rightarrow> u8 list option \<Rightarrow> pa_mmap \<times> pa_arb option" where
  "pa_arb_open calloc pmp name =
     (case name of
        None \<Rightarrow> (pmp, pa_arb_setup calloc None)
      | Some name \<Rightarrow>
          (case pa_mmap_header pmp name PA_TYPE_ARB 0 sizeof_pa_arb_info of
             (pmp, None) \<Rightarrow> (pmp, None)
           | (pmp, Some prip) \<Rightarrow> (pmp, pa_arb_setup calloc (Some prip))))"

section \<open>Arithmetic of slots and atoms\<close>

lemma pa_log2_loop_spec:
  assumes "unat msk < 2 ^ 32" "unat idx + k < 2 ^ 32" "unat msk < 2 ^ k"
  shows "unat idx \<le> unat (pa_log2_loop msk idx)
    \<and> unat msk < 2 ^ (unat (pa_log2_loop msk idx) - unat idx)
    \<and> (msk \<noteq> 0 \<longrightarrow> 2 ^ (unat (pa_log2_loop msk idx) - unat idx) \<le> 2 * unat msk)"
  using assms
proof (induction k arbitrary: msk idx)
  case 0
  then have "unat msk = 0" by simp
  then have "msk = 0" by (simp add: unat_eq_0)
  then show ?case by (subst (1 2 3) pa_log2_loop.simps) simp
next
  case (Suc k)
  show ?case
  proof (cases "msk = 0")
    case True
    then show ?thesis by (subst (1 2 3) pa_log2_loop.simps) simp
  next
    case False
    let ?m = "drop_bit 1 msk" and ?i = "idx + 1"
    have m: "unat ?m = unat msk div 2" by (simp add: unat_drop_bit_div)
    have i: "unat ?i = unat idx + 1" using Suc.prems(2) by (simp add: unat_add_less)
    have pos: "0 < unat msk" using False by (simp add: unat_gt_0)
    let ?r = "pa_log2_loop ?m ?i"
    have eq: "pa_log2_loop msk idx = ?r" using False by (subst pa_log2_loop.simps) simp
    have "unat ?m < 2 ^ 32" "unat ?i + k < 2 ^ 32" "unat ?m < 2 ^ k"
      using Suc.prems i m by auto
    from Suc.IH [OF this] have r: "unat idx + 1 \<le> unat ?r" "unat msk div 2 < 2 ^ (unat ?r - (unat idx + 1))"
      "?m \<noteq> 0 \<longrightarrow> 2 ^ (unat ?r - (unat idx + 1)) \<le> 2 * (unat msk div 2)"
      unfolding i m by blast+
    obtain d where d: "unat ?r = unat idx + 1 + d" using r(1) by (auto simp: le_iff_add)
    have "2 ^ Suc d \<le> 2 * unat msk"
    proof (cases "?m = 0")
      case True
      then have "?r = ?i" by (subst pa_log2_loop.simps) simp
      with d i have "d = 0" by simp
      with pos show ?thesis by simp
    next
      case False
      with r(3) d have "2 ^ d \<le> 2 * (unat msk div 2)" by simp
      then show ?thesis by simp
    qed
    with r(1,2) d show ?thesis unfolding eq by simp
  qed
qed

lemma pa_log2_spec:
  assumes "v \<noteq> 0"
  shows "unat v < 2 ^ unat (pa_log2 v)" "2 ^ unat (pa_log2 v) \<le> 2 * unat v"
proof -
  have "unat v < 2 ^ 32" using unsigned_less [of v, where 'a = nat] by simp
  with pa_log2_loop_spec [of v 0 32] assms
  show "unat v < 2 ^ unat (pa_log2 v)" "2 ^ unat (pa_log2 v) \<le> 2 * unat v"
    by (simp_all add: pa_log2_def)
qed

text \<open>The chunk of a request: the smallest power of two of atoms that holds it.\<close>

lemma pa_arb_slot_spec:
  assumes "0 < sz" "sz \<le> 2 ^ 32"
  shows "sz \<le> 2 ^ (unat (pa_arb_slot sz) + 4)" "unat (pa_arb_slot sz) \<le> 28"
    and "16 < sz \<Longrightarrow> 2 ^ (unat (pa_arb_slot sz) + 4) < 2 * sz"
    and "sz \<le> 16 \<Longrightarrow> pa_arb_slot sz = 0"
proof -
  have "sz \<le> 2 ^ (unat (pa_arb_slot sz) + 4) \<and> unat (pa_arb_slot sz) \<le> 28
    \<and> (16 < sz \<longrightarrow> 2 ^ (unat (pa_arb_slot sz) + 4) < 2 * sz) \<and> (sz \<le> 16 \<longrightarrow> pa_arb_slot sz = 0)"
  proof (cases "sz < 16")
    case True
    then show ?thesis by (simp add: pa_arb_slot_def PA_ARB_ATOM_SHIFT_def)
  next
    case False
    define v where "v = (word_of_nat (sz - 1) :: u32)"
    have v: "unat v = sz - 1"
      using assms unfolding v_def by (simp only: unsigned_of_nat) (simp add: take_bit_nat_eq_self)
    with False have "v \<noteq> 0" by (intro notI) simp
    note l = pa_log2_spec [OF this, unfolded v]
    have sl: "pa_arb_slot sz = pa_log2 v - 4"
      using False by (simp add: pa_arb_slot_def PA_ARB_ATOM_SHIFT_def v_def)
    let ?l = "unat (pa_log2 v)"
    have lo: "4 \<le> ?l"
    proof (rule ccontr)
      assume "\<not> 4 \<le> ?l"
      then have "(2 :: nat) ^ ?l \<le> 2 ^ 3" by (intro power_increasing) simp_all
      with l(1) False show False by simp
    qed
    have hi: "?l \<le> 32"
    proof (rule ccontr)
      assume "\<not> ?l \<le> 32"
      then have "(2 :: nat) ^ 33 \<le> 2 ^ ?l" by (intro power_increasing) simp_all
      with l(2) assms(2) False show False by simp
    qed
    have s: "unat (pa_arb_slot sz) = ?l - 4"
      using lo unfolding sl by (simp add: unat_sub word_le_nat_alt)
    then have e: "unat (pa_arb_slot sz) + 4 = ?l" using lo by simp
    have "sz \<le> 16 \<longrightarrow> pa_arb_slot sz = 0"
    proof
      assume "sz \<le> 16"
      with l(2) False have "(2 :: nat) ^ ?l < 2 ^ 5" by simp
      then have "?l < 5" by (rule power_less_imp_less_exp [rotated]) simp
      with s lo have "unat (pa_arb_slot sz) = 0" by simp
      then show "pa_arb_slot sz = 0" by (simp add: unat_eq_0)
    qed
    moreover have "sz \<le> 2 ^ ?l" "2 ^ ?l < 2 * sz" using l False by simp_all
    ultimately show ?thesis using hi s unfolding e by simp
  qed
  then show "sz \<le> 2 ^ (unat (pa_arb_slot sz) + 4)" "unat (pa_arb_slot sz) \<le> 28"
    "16 < sz \<Longrightarrow> 2 ^ (unat (pa_arb_slot sz) + 4) < 2 * sz" "sz \<le> 16 \<Longrightarrow> pa_arb_slot sz = 0"
    by blast+
qed

lemma pa_arb_slot_small:
  assumes "0 < sz" "sz \<le> 2 ^ 32"
  shows "pa_arb_slot sz \<le> PA_ARB_MAX_POW2 \<longleftrightarrow> sz \<le> 2 ^ 16"
proof
  note sp = pa_arb_slot_spec [OF assms]
  assume "pa_arb_slot sz \<le> PA_ARB_MAX_POW2"
  then have "unat (pa_arb_slot sz) + 4 \<le> 16" by (simp add: PA_ARB_MAX_POW2_def word_le_nat_alt)
  then have "(2 :: nat) ^ (unat (pa_arb_slot sz) + 4) \<le> 2 ^ 16" by (intro power_increasing) simp_all
  with sp(1) show "sz \<le> 2 ^ 16" by (rule le_trans)
next
  note sp = pa_arb_slot_spec [OF assms]
  assume le: "sz \<le> 2 ^ 16"
  show "pa_arb_slot sz \<le> PA_ARB_MAX_POW2"
  proof (cases "16 < sz")
    case True
    with sp(3) le have "(2 :: nat) ^ (unat (pa_arb_slot sz) + 4) < 2 ^ 17" by simp
    then have "unat (pa_arb_slot sz) + 4 < 17" by (rule power_less_imp_less_exp [rotated]) simp
    then show ?thesis by (simp add: PA_ARB_MAX_POW2_def word_le_nat_alt)
  qed (use sp(4) in simp)
qed

text \<open>An atom is the address of its header in units of 16 bytes.\<close>

lemma pa_arb_header_nat:
  assumes "256 \<le> unat a" "unat a < 2 ^ 28"
  shows "pa_arb_header a = Some (unat a * 16)"
proof -
  have d: "unat (drop_bit 8 a) = unat a div 256" by (simp add: unat_drop_bit_div)
  have "0 < unat a div 256" using assms(1) by simp
  then have "drop_bit 8 a \<noteq> 0"
    unfolding d [symmetric] using unat_eq_0 [of "drop_bit 8 a"] by linarith
  moreover have p: "pa_page (drop_bit 8 a) = unat a div 256 * 4096"
    using assms(2) by (subst pa_page_nat, unfold d) (simp_all only: less_mult_imp_div_less, simp_all)
  ultimately have "pa_mmap_addr (drop_bit 8 a) = Some (unat a div 256 * 4096)"
    by (simp add: pa_mmap_addr_def pa_page_def)
  moreover have o: "unat (a AND 255) = unat a mod 256" using unat_and_mask [of 8 a] by simp
  moreover have "unat (push_bit 4 (a AND 255)) = unat a mod 256 * 16"
  proof -
    have "unat (a AND 255) * 2 ^ 4 < 2 ^ LENGTH(32)"
      using mod_less_divisor [of 256 "unat a"] unfolding o by simp
    then show ?thesis using unat_push_bit_less [of "a AND 255" 4] o by simp
  qed
  moreover have "unat a div 256 * 4096 + unat a mod 256 * 16 = unat a * 16"
    using div_mult_mod_eq [of "unat a" 256] by linarith
  ultimately show ?thesis
    by (simp add: pa_arb_header_def PA_ARB_OFFSET_SHIFT_def PA_ARB_ATOM_SHIFT_def)
qed

lemma pa_arb_atom_addr_nat:
  assumes "256 \<le> unat a" "unat a < 2 ^ 28"
  shows "pa_arb_atom_addr a = Some (unat a * 16 + 4)"
  by (simp add: pa_arb_atom_addr_def pa_arb_header_nat [OF assms] sizeof_pa_arb_header_def)

lemma pa_arb_build_atom_nat:
  assumes "0 < unat m" "unat m < 2 ^ 20" "2 ^ unat s * unat c < (256 :: nat)"
  shows "unat (pa_arb_build_atom m s c) = unat m * 256 + 2 ^ unat s * unat c"
proof -
  have nz: "m \<noteq> 0" using assms(1) by (simp add: unat_gt_0)
  let ?o = "push_bit (unat s) 1 * ucast c :: u32"
  have o: "unat ?o = 2 ^ unat s * unat c"
  proof (cases "c = 0")
    case False
    then have "0 < unat c" by (simp add: unat_gt_0)
    then have "2 ^ unat s * 1 \<le> (2 :: nat) ^ unat s * unat c" by (intro mult_le_mono2) simp
    also note assms(3)
    finally have "2 ^ unat s < (2 :: nat) ^ 8" by simp
    then have s: "unat s < 8" by (rule power_less_imp_less_exp [rotated]) simp
    then have "unat (push_bit (unat s) 1 :: u32) = 2 ^ unat s" by simp
    then show ?thesis using assms(3) by (subst unat_mult_less) (simp_all add: unat_ucast_up)
  qed simp
  have small: "bit ?o n \<Longrightarrow> n < 8" for n
  proof (rule ccontr)
    assume b: "bit ?o n" "\<not> n < 8"
    have "take_bit 8 ?o = ?o"
      by (subst word_unat_eq_iff) (use o assms(3) in \<open>simp add: unsigned_take_bit_eq take_bit_nat_eq_self\<close>)
    then show False using b by (metis bit_take_bit_iff)
  qed
  have "push_bit 8 m OR ?o = push_bit 8 m + ?o"
  proof (rule disjunctive_add [symmetric])
    show "\<not> bit (push_bit 8 m) n \<or> \<not> bit ?o n" for n
      using small [of n] by (cases "bit ?o n") (simp_all add: bit_push_bit_iff)
  qed
  moreover have "unat (push_bit 8 m) = unat m * 256" using assms(2) by (subst unat_push_bit_less) simp_all
  ultimately show ?thesis
    using nz o assms(2,3)
    by (simp add: pa_arb_build_atom_def PA_ARB_OFFSET_SHIFT_def unat_add_less)
qed

lemma pa_arb_slot_to_size_nat:
  assumes "unat s \<le> 12"
  shows "pa_arb_slot_to_size s = (if unat s < 8 then 4096 else 2 ^ (unat s + 4))"
proof -
  have "unat (push_bit (unat s + 4) 1 :: u32) = 2 ^ (unat s + 4)" using assms by simp
  moreover have "(2 :: nat) ^ (unat s + 4) < 2 ^ 12 \<longleftrightarrow> unat s + 4 < 12"
    by (rule power_strict_increasing_iff) simp
  ultimately show ?thesis
    by (simp add: pa_arb_slot_to_size_def Let_def PA_ARB_ATOM_SHIFT_def PA_MMAP_ATOM_SIZE_def)
qed

lemma pa_arb_chunks_per_page_nat:
  assumes "unat s \<le> 12"
  shows "unat (pa_arb_chunks_per_page s) = (if unat s < 8 then 2 ^ (8 - unat s) else 1)"
proof -
  have d: "unat (drop_bit (unat s) (256 :: u32)) = 256 div 2 ^ unat s"
    by (simp add: unat_drop_bit_div)
  show ?thesis
  proof (cases "unat s \<le> 8")
    case True
    have "(256 :: nat) = 2 ^ (8 - unat s) * 2 ^ unat s" using True by (simp flip: power_add)
    then have e: "256 div 2 ^ unat s = (2 :: nat) ^ (8 - unat s)" by (metis nonzero_mult_div_cancel_right power_not_zero zero_neq_numeral)
    then have "drop_bit (unat s) (256 :: u32) \<noteq> 0" using d by (intro notI) simp
    then show ?thesis using True d e
      by (auto simp: pa_arb_chunks_per_page_def Let_def PA_ARB_OFFSET_SHIFT_def)
  next
    case False
    then have "(2 :: nat) ^ 9 \<le> 2 ^ unat s" by (intro power_increasing) simp_all
    then have "256 div 2 ^ unat s = (0 :: nat)" by (intro div_less) simp
    with d have "drop_bit (unat s) (256 :: u32) = 0" by (simp add: unat_eq_0)
    then show ?thesis using False by (simp add: pa_arb_chunks_per_page_def Let_def PA_ARB_OFFSET_SHIFT_def)
  qed
qed

text \<open>The chunks of a page tile the block it asks for.\<close>

lemma pa_arb_tile:
  assumes "unat s \<le> 12"
  shows "unat (pa_arb_chunks_per_page s) * 2 ^ (unat s + 4) = pa_arb_slot_to_size s"
proof (cases "unat s < 8")
  case True
  then have "(2 :: nat) ^ (8 - unat s) * 2 ^ (unat s + 4) = 2 ^ 12" by (simp flip: power_add)
  with True show ?thesis by (simp add: pa_arb_chunks_per_page_nat [OF assms] pa_arb_slot_to_size_nat [OF assms])
qed (simp add: pa_arb_chunks_per_page_nat [OF assms] pa_arb_slot_to_size_nat [OF assms])

end
