(* ===== verification/Paarb_Pool.thy ===== *)
theory Paarb_Pool
  imports Paarb
begin

text \<open>
  The invariant of the arbitrary-size allocator: the pieces its blocks are cut into never overlap,
  the lists hold the free ones of their size, and the header of a piece in use tells how it is to
  be freed. From it, what \<^verbatim>\<open>pa_arb_alloc\<close> and \<^verbatim>\<open>pa_arb_free_atom\<close> do.
\<close>

section \<open>Requests\<close>

text \<open>A request of \<open>n\<close> bytes, with its header: whether it gets a chunk, of which slot, and the
  number of bytes of its piece. Above \<open>arb_max\<close> the size field of the header overflows.\<close>

definition arb_small :: "nat \<Rightarrow> bool" where "arb_small n \<longleftrightarrow> n + 4 \<le> 2 ^ 16"
definition arb_slot :: "nat \<Rightarrow> nat" where "arb_slot n = unat (pa_arb_slot (n + 4))"
definition arb_max :: nat where "arb_max = 2 ^ 28 - 4100"

definition arb_len :: "nat \<Rightarrow> nat" where
  "arb_len n = (if arb_small n then 2 ^ (arb_slot n + 4) else pa_count (n + 4) * 4096)"

lemma arb_slot_le: "arb_small n \<Longrightarrow> arb_slot n \<le> 12"
  using pa_arb_slot_small [of "n + 4"]
  by (simp add: arb_small_def arb_slot_def PA_ARB_MAX_POW2_def word_le_nat_alt)

lemma arb_len_bounds:
  assumes "n \<le> arb_max"
  shows "n + 4 \<le> arb_len n" "16 \<le> arb_len n" "arb_len n \<le> 2 * n + 8192"
proof -
  have le: "n + 4 \<le> 2 ^ 32" using assms by (simp add: arb_max_def)
  note sp = pa_arb_slot_spec [OF _ le, folded arb_slot_def]
  have "(2 :: nat) ^ 4 \<le> 2 ^ (arb_slot n + 4)" by (intro power_increasing) simp_all
  then have 16: "(16 :: nat) \<le> 2 ^ (arb_slot n + 4)" by simp
  have up: "2 ^ (arb_slot n + 4) \<le> 2 * n + 8192"
  proof (cases "16 < n + 4")
    case False
    then have "arb_slot n = 0" using sp(4) by (simp add: arb_slot_def)
    then show ?thesis by simp
  qed (use sp(3) in simp)
  have "n + 4 \<le> pa_count (n + 4) * 4096" "pa_count (n + 4) * 4096 \<le> n + 4 + 4095"
    unfolding pa_count_def by linarith+
  moreover have "\<not> arb_small n \<Longrightarrow> 16 \<le> n" by (simp add: arb_small_def)
  ultimately show "n + 4 \<le> arb_len n" "16 \<le> arb_len n" "arb_len n \<le> 2 * n + 8192"
    using sp(1) 16 up by (auto simp: arb_len_def)
qed

section \<open>The invariant\<close>

definition arb_piece :: "u32 \<Rightarrow> nat \<Rightarrow> nat set" where
  "arb_piece a k = {unat a * 16..<unat a * 16 + k}"

text \<open>The blocks of the allocator, the lists of the slots and the length of the piece at an atom.\<close>

record arb =
  arb_blocks :: "(u32 \<times> u32) set"
  arb_lists :: "nat \<Rightarrow> u32 list"
  arb_pieces :: "u32 \<rightharpoonup> nat"

fun arb_chain :: "mem \<Rightarrow> nat \<Rightarrow> u32 list \<Rightarrow> bool" where
  "arb_chain m cell [] \<longleftrightarrow> rd32 m cell = 0"
| "arb_chain m cell (x # xs) \<longleftrightarrow> rd32 m cell = x \<and> x \<noteq> 0 \<and> arb_chain m (unat x * 16 + 4) xs"

definition arb_free_piece :: "mem \<Rightarrow> arb \<Rightarrow> nat \<Rightarrow> u32 \<Rightarrow> bool" where
  "arb_free_piece m g s a \<longleftrightarrow> arb_pieces g a = Some (2 ^ (s + 4))
     \<and> prh_magic m (unat a * 16) = PRH_MAGIC_SMALL_FREE \<and> prh_slot m (unat a * 16) = word_of_nat s"

definition arb_live_piece :: "mem \<Rightarrow> arb \<Rightarrow> u32 \<Rightarrow> nat \<Rightarrow> bool" where
  "arb_live_piece m g a n \<longleftrightarrow> n \<le> arb_max \<and> arb_pieces g a = Some (arb_len n)
     \<and> (if arb_small n
        then prh_magic m (unat a * 16) = PRH_MAGIC_SMALL_INUSE
          \<and> prh_slot m (unat a * 16) = word_of_nat (arb_slot n)
        else prh_magic m (unat a * 16) = PRH_MAGIC_LARGE_INUSE
          \<and> unat (prh_size m (unat a * 16)) = pa_count (n + 4)
          \<and> (\<exists>p. unat a = unat p * 256 \<and> (p, word_of_nat (pa_count (n + 4))) \<in> arb_blocks g))"

definition arb_geo :: "(u32 \<times> u32) set \<Rightarrow> arb \<Rightarrow> bool" where
  "arb_geo S g \<longleftrightarrow> arb_blocks g \<subseteq> S
     \<and> (\<forall>a k. arb_pieces g a = Some k \<longrightarrow> 16 \<le> k \<and> arb_piece a k \<subseteq> (\<Union>e\<in>arb_blocks g. ext_bytes e))
     \<and> (\<forall>a b k l. arb_pieces g a = Some k \<longrightarrow> arb_pieces g b = Some l \<longrightarrow> a \<noteq> b
          \<longrightarrow> arb_piece a k \<inter> arb_piece b l = {})"

definition arb_list :: "mem \<Rightarrow> nat \<Rightarrow> arb \<Rightarrow> (u32 \<rightharpoonup> nat) \<Rightarrow> nat \<Rightarrow> bool" where
  "arb_list m info g A s \<longleftrightarrow> arb_chain m (pri_free_at info s) (arb_lists g s) \<and> distinct (arb_lists g s)
     \<and> (\<forall>a\<in>set (arb_lists g s). arb_free_piece m g s a \<and> A a = None)"

definition arb_ok :: "pa_mmap \<Rightarrow> (u32 \<times> u32) set \<Rightarrow> nat \<Rightarrow> arb \<Rightarrow> (u32 \<rightharpoonup> nat) \<Rightarrow> bool" where
  "arb_ok pmp S info g A \<longleftrightarrow> mm_valid pmp S \<and> {info..<info + 52} \<subseteq> header_bytes \<and> arb_geo S g
     \<and> (\<forall>s\<le>12. arb_list (pm_mem pmp) info g A s)
     \<and> (\<forall>a n. A a = Some n \<longrightarrow> arb_live_piece (pm_mem pmp) g a n)"

lemma arb_okD:
  assumes "arb_ok pmp S info g A"
  shows "mm_valid pmp S" "{info..<info + 52} \<subseteq> header_bytes" "arb_geo S g"
    and "s \<le> 12 \<Longrightarrow> arb_list (pm_mem pmp) info g A s"
    and "A a = Some n \<Longrightarrow> arb_live_piece (pm_mem pmp) g a n"
  using assms by (auto simp: arb_ok_def)

lemma arb_geoD:
  assumes "arb_geo S g"
  shows "arb_blocks g \<subseteq> S"
    and "arb_pieces g a = Some k \<Longrightarrow> 16 \<le> k"
    and "arb_pieces g a = Some k \<Longrightarrow> arb_piece a k \<subseteq> (\<Union>e\<in>arb_blocks g. ext_bytes e)"
    and "arb_pieces g a = Some k \<Longrightarrow> arb_pieces g b = Some l \<Longrightarrow> a \<noteq> b \<Longrightarrow> arb_piece a k \<inter> arb_piece b l = {}"
  using assms by (auto simp: arb_geo_def)

lemma arb_block_bytes:
  assumes v: "mm_valid pmp S" and T: "T \<subseteq> S" and x: "x \<in> (\<Union>e\<in>T. ext_bytes e)"
  shows "x \<in> owned S" "x \<notin> header_bytes" "4096 \<le> x" "x < 2 ^ 32"
proof -
  from x obtain e where e: "e \<in> S" "x \<in> ext_bytes e" using T by blast
  then show "x \<in> owned S" by (auto simp: owned_def)
  show "x \<notin> header_bytes" using mm.block_not_header [OF v e(1)] e(2) by blast
  show "4096 \<le> x" "x < 2 ^ 32" using ext_bytes_bounds [OF mm.in_range [OF v e(1)] e(2)] by simp_all
qed

lemma arb_piece_props:
  assumes v: "mm_valid pmp S" and g: "arb_geo S g" and k: "arb_pieces g a = Some k"
  shows "arb_piece a k \<subseteq> owned S" "arb_piece a k \<inter> header_bytes = {}"
    and "256 \<le> unat a" "unat a < 2 ^ 28" "a \<noteq> 0" "16 \<le> k"
proof -
  note g = arb_geoD [OF g]
  note bl = arb_block_bytes [OF v g(1)]
  show "arb_piece a k \<subseteq> owned S" "arb_piece a k \<inter> header_bytes = {}"
    using g(3) [OF k] bl(1,2) by blast+
  show "16 \<le> k" by (rule g(2) [OF k])
  then have "unat a * 16 \<in> arb_piece a k" by (simp add: arb_piece_def)
  then have "unat a * 16 \<in> (\<Union>e\<in>arb_blocks g. ext_bytes e)" using g(3) [OF k] by blast
  from bl(3,4) [OF this] show b: "256 \<le> unat a" "unat a < 2 ^ 28" by simp_all
  show "a \<noteq> 0" using b(1) by (intro notI) simp
qed

section \<open>What the invariant reads\<close>

lemma arb_chain_frame:
  assumes "arb_chain m cell xs" "rd32 m' cell' = rd32 m cell"
    and "\<And>x. x \<in> set xs \<Longrightarrow> rd32 m' (unat x * 16 + 4) = rd32 m (unat x * 16 + 4)"
  shows "arb_chain m' cell' xs"
  using assms
proof (induction xs arbitrary: cell cell')
  case (Cons x xs)
  then have "arb_chain m' (unat x * 16 + 4) xs" by (intro Cons.IH [of "unat x * 16 + 4"]) auto
  with Cons.prems show ?case by simp
qed simp

lemma arb_header_frame:
  assumes "same_on (arb_piece a k) m m'" "16 \<le> k"
  shows "prh_magic m' (unat a * 16) = prh_magic m (unat a * 16)"
    "prh_slot m' (unat a * 16) = prh_slot m (unat a * 16)"
    "prh_size m' (unat a * 16) = prh_size m (unat a * 16)"
    "rd32 m' (unat a * 16 + 4) = rd32 m (unat a * 16 + 4)"
proof -
  show "prh_magic m' (unat a * 16) = prh_magic m (unat a * 16)"
    "prh_size m' (unat a * 16) = prh_size m (unat a * 16)"
    unfolding prh_magic_def prh_size_def
    using assms(2) by (auto intro!: same_on_rd16 [OF assms(1)] simp: arb_piece_def)
  show "prh_slot m' (unat a * 16) = prh_slot m (unat a * 16)"
    unfolding prh_slot_def using assms(2) by (intro same_onD [OF assms(1)]) (simp add: arb_piece_def)
  show "rd32 m' (unat a * 16 + 4) = rd32 m (unat a * 16 + 4)"
    using assms(2) by (auto intro!: same_on_rd32 [OF assms(1)] simp: arb_piece_def)
qed

lemma arb_free_frame:
  assumes "arb_free_piece m g s a" "arb_pieces g' a = arb_pieces g a" "same_on (arb_piece a (2 ^ (s + 4))) m m'"
  shows "arb_free_piece m' g' s a"
proof -
  have "(2 :: nat) ^ 4 \<le> 2 ^ (s + 4)" by (intro power_increasing) simp_all
  then have "(16 :: nat) \<le> 2 ^ (s + 4)" by simp
  with assms arb_header_frame [OF assms(3)] show ?thesis by (simp add: arb_free_piece_def)
qed

lemma pri_free_range: "s \<le> 12 \<Longrightarrow> {pri_free_at info s..<pri_free_at info s + 4} \<subseteq> {info..<info + 52}"
  by (auto simp: pri_free_at_def)

lemma pri_free_apart:
  "r \<noteq> s \<Longrightarrow> {pri_free_at info r..<pri_free_at info r + 4} \<inter> {pri_free_at info s..<pri_free_at info s + 4} = {}"
  by (auto simp: pri_free_at_def)

text \<open>A list whose head and pieces keep their bytes.\<close>

lemma arb_list_frame:
  assumes ok: "arb_ok pmp S info g A" and r: "r \<le> 12"
    and same: "same_on (owned S - Z) (pm_mem pmp) m'"
    and Z: "Z \<inter> {pri_free_at info r..<pri_free_at info r + 4} = {}"
      "\<And>x. x \<in> set (arb_lists g r) \<Longrightarrow> Z \<inter> arb_piece x (2 ^ (r + 4)) = {}"
    and g': "arb_lists g' r = arb_lists g r"
      "\<And>x. x \<in> set (arb_lists g r) \<Longrightarrow> arb_pieces g' x = arb_pieces g x \<and> A' x = A x"
  shows "arb_list m' info g' A' r"
proof -
  note o = arb_okD [OF ok]
  from o(4) [OF r] have old: "arb_chain (pm_mem pmp) (pri_free_at info r) (arb_lists g r)" "distinct (arb_lists g r)"
    "\<forall>a\<in>set (arb_lists g r). arb_free_piece (pm_mem pmp) g r a \<and> A a = None" by (auto simp: arb_list_def)
  have cell: "rd32 m' (pri_free_at info r) = rd32 (pm_mem pmp) (pri_free_at info r)"
    by (rule same_on_rd32 [OF same])
      (use pri_free_range [OF r, of info] o(2) Z(1) header_owned [of S] in blast)
  have x: "arb_pieces g x = Some (2 ^ (r + 4))" "arb_free_piece (pm_mem pmp) g r x" "A x = None"
    "same_on (arb_piece x (2 ^ (r + 4))) (pm_mem pmp) m'" if "x \<in> set (arb_lists g r)" for x
  proof -
    show k: "arb_pieces g x = Some (2 ^ (r + 4))" "arb_free_piece (pm_mem pmp) g r x" "A x = None"
      using old(3) that by (auto simp: arb_free_piece_def)
    show "same_on (arb_piece x (2 ^ (r + 4))) (pm_mem pmp) m'"
      by (rule same_on_subset [OF same]) (use arb_piece_props(1) [OF o(1,3) k(1)] Z(2) [OF that] in blast)
  qed
  have "rd32 m' (unat x * 16 + 4) = rd32 (pm_mem pmp) (unat x * 16 + 4)" if "x \<in> set (arb_lists g r)" for x
    using arb_header_frame(4) [OF x(4) [OF that] arb_geoD(2) [OF o(3) x(1) [OF that]]] .
  then have "arb_chain m' (pri_free_at info r) (arb_lists g r)" by (rule arb_chain_frame [OF old(1) cell])
  moreover have "arb_free_piece m' g' r x \<and> A' x = None" if "x \<in> set (arb_lists g r)" for x
    using arb_free_frame [OF x(2) [OF that] _ x(4) [OF that], of g'] g'(2) [OF that] x(3) [OF that] by simp
  ultimately show ?thesis using g'(1) old(2) by (simp add: arb_list_def)
qed

text \<open>A change to the head of one list and to some pieces leaves the others as they are.\<close>

lemma arb_update:
  assumes ok: "arb_ok pmp S info g A"
    and v': "mm_valid pmp' S'" and geo': "arb_geo S' g'" and s: "s \<le> 12"
    and same: "same_on (owned S - ({pri_free_at info s..<pri_free_at info s + 4} \<union> D)) (pm_mem pmp) (pm_mem pmp')"
    and D: "D \<inter> {info..<info + 52} = {}" "\<And>b k. arb_pieces g b = Some k \<Longrightarrow> b \<notin> X \<Longrightarrow> D \<inter> arb_piece b k = {}"
    and list: "arb_list (pm_mem pmp') info g' A' s"
    and lists: "\<And>r. r \<le> 12 \<Longrightarrow> r \<noteq> s \<Longrightarrow> arb_lists g' r = arb_lists g r \<and> set (arb_lists g r) \<inter> X = {}"
    and out: "\<And>b. b \<notin> X \<Longrightarrow> A' b = A b \<and> arb_pieces g' b = arb_pieces g b"
    and new: "\<And>b n. b \<in> X \<Longrightarrow> A' b = Some n \<Longrightarrow> arb_live_piece (pm_mem pmp') g' b n"
    and bl: "\<And>p k. (p, k) \<in> arb_blocks g \<Longrightarrow> (p, k) \<in> arb_blocks g' \<or> (\<exists>x\<in>X. unat x = unat p * 256)"
  shows "arb_ok pmp' S' info g' A'"
proof -
  note o = arb_okD [OF ok]
  let ?m = "pm_mem pmp" and ?m' = "pm_mem pmp'"
  let ?C = "{pri_free_at info s..<pri_free_at info s + 4}"
  have C: "?C \<subseteq> header_bytes" using pri_free_range [OF s, of info] o(2) by blast
  have piece: "same_on (arb_piece b k) ?m ?m'" if "arb_pieces g b = Some k" "b \<notin> X" for b k
    by (rule same_on_subset [OF same])
      (use arb_piece_props(1,2) [OF o(1,3) that(1)] D(2) [OF that] C in blast)
  have "arb_list ?m' info g' A' r" if r: "r \<le> 12" "r \<noteq> s" for r
  proof (rule arb_list_frame [OF ok r(1) same])
    note l = lists [OF r]
    show "arb_lists g' r = arb_lists g r" using l by blast
    show "(?C \<union> D) \<inter> {pri_free_at info r..<pri_free_at info r + 4} = {}"
      using pri_free_range [OF r(1), of info] pri_free_apart [OF r(2), of info] D(1) by blast
    show "(?C \<union> D) \<inter> arb_piece x (2 ^ (r + 4)) = {}" "arb_pieces g' x = arb_pieces g x \<and> A' x = A x"
      if "x \<in> set (arb_lists g r)" for x
    proof -
      have x: "arb_pieces g x = Some (2 ^ (r + 4))" "x \<notin> X"
        using o(4) [OF r(1)] l that by (auto simp: arb_list_def arb_free_piece_def)
      show "(?C \<union> D) \<inter> arb_piece x (2 ^ (r + 4)) = {}"
        using arb_piece_props(2) [OF o(1,3) x(1)] C D(2) [OF x] by blast
      show "arb_pieces g' x = arb_pieces g x \<and> A' x = A x" using out [OF x(2)] by simp
    qed
  qed
  with list have all: "\<forall>r\<le>12. arb_list ?m' info g' A' r" by metis
  have "arb_live_piece ?m' g' b n" if b: "A' b = Some n" for b n
  proof (cases "b \<in> X")
    case False
    with out b have "A b = Some n" by simp
    from o(5) [OF this] have lv: "arb_live_piece ?m g b n" .
    then have k: "arb_pieces g b = Some (arb_len n)" by (simp add: arb_live_piece_def)
    note h = arb_header_frame [OF piece [OF k False] arb_geoD(2) [OF o(3) k]]
    have "(p, q) \<in> arb_blocks g'" if "unat b = unat p * 256" "(p, q) \<in> arb_blocks g" for p q
      using bl [OF that(2)] that(1) False by (metis word_unat_eq_iff)
    with lv k out [OF False] h show ?thesis
      unfolding arb_live_piece_def by (auto split: if_splits)
  qed (use new b in blast)
  with v' o(2) geo' all show ?thesis unfolding arb_ok_def by blast
qed

end
