(* ===== verification/Paarb_Alloc.thy ===== *)
theory Paarb_Alloc
  imports Paarb_Pool
begin

text \<open>
  Each step of \<^verbatim>\<open>parrotdb/paarb.c\<close> on an allocator that satisfies the invariant: taking a chunk off
  its list, cutting a new page into chunks, giving a large request its pages, and the two frees.
\<close>

section \<open>Taking a chunk and giving it back\<close>

definition arb_popped :: "mem \<Rightarrow> nat \<Rightarrow> u32 \<Rightarrow> mem" where
  "arb_popped m cell x =
     wr16 (wr32 m cell (prh_next_free m (unat x * 16))) (unat x * 16) PRH_MAGIC_SMALL_INUSE"

lemma arb_piece_16: "(16 :: nat) \<le> 2 ^ (s + 4)"
proof -
  have "(2 :: nat) ^ 4 \<le> 2 ^ (s + 4)" by (intro power_increasing) simp_all
  then show ?thesis by simp
qed

lemma arb_in_list:
  assumes "arb_ok pmp S info g A" "s \<le> 12" "x \<in> set (arb_lists g s)"
  shows "arb_pieces g x = Some (2 ^ (s + 4))" "arb_free_piece (pm_mem pmp) g s x" "A x = None"
    and "256 \<le> unat x" "unat x < 2 ^ 28" "x \<noteq> 0"
    and "r \<le> 12 \<Longrightarrow> x \<in> set (arb_lists g r) \<Longrightarrow> r = s"
proof -
  note o = arb_okD [OF assms(1)]
  have fp: "arb_free_piece (pm_mem pmp) g r x \<and> A x = None" if "r \<le> 12" "x \<in> set (arb_lists g r)" for r
    using o(4) [OF that(1)] that(2) by (auto simp: arb_list_def)
  show k: "arb_pieces g x = Some (2 ^ (s + 4))" "arb_free_piece (pm_mem pmp) g s x" "A x = None"
    using fp [OF assms(2,3)] by (auto simp: arb_free_piece_def)
  show "256 \<le> unat x" "unat x < 2 ^ 28" "x \<noteq> 0"
    using arb_piece_props(3-5) [OF o(1,3) k(1)] .
  show "r = s" if "r \<le> 12" "x \<in> set (arb_lists g r)"
  proof -
    have "(2 :: nat) ^ (r + 4) = 2 ^ (s + 4)" using fp [OF that] k(1) by (simp add: arb_free_piece_def)
    then have "r + 4 = s + 4" by (rule power_inject_exp [THEN iffD1, rotated]) simp
    then show ?thesis by simp
  qed
qed

text \<open>The rest of a list survives a change to the head of the list and to one piece off it.\<close>

lemma arb_list_rest:
  assumes ok: "arb_ok pmp S info g A" and s: "s \<le> 12"
    and xs: "arb_chain (pm_mem pmp) c xs" "set xs \<subseteq> set (arb_lists g s)" "x \<notin> set xs"
    and k: "arb_pieces g x = Some k"
    and same: "same_on (- ({pri_free_at info s..<pri_free_at info s + 4} \<union> arb_piece x k)) (pm_mem pmp) m'"
    and g': "arb_pieces g' = arb_pieces g" and A': "\<And>b. b \<noteq> x \<Longrightarrow> A' b = A b"
  shows "rd32 m' c' = rd32 (pm_mem pmp) c \<Longrightarrow> arb_chain m' c' xs"
    and "\<forall>a\<in>set xs. arb_free_piece m' g' s a \<and> A' a = None"
proof -
  note o = arb_okD [OF ok]
  have C: "{pri_free_at info s..<pri_free_at info s + 4} \<subseteq> header_bytes"
    using pri_free_range [OF s, of info] o(2) by blast
  have piece: "same_on (arb_piece b (2 ^ (s + 4))) (pm_mem pmp) m'"
    and old: "arb_free_piece (pm_mem pmp) g s b" "A b = None" "b \<noteq> x" if "b \<in> set xs" for b
  proof -
    have b: "b \<in> set (arb_lists g s)" "b \<noteq> x" using that xs(2,3) by blast+
    note bp = arb_in_list [OF ok s b(1)]
    show "arb_free_piece (pm_mem pmp) g s b" "A b = None" "b \<noteq> x" using bp b by auto
    show "same_on (arb_piece b (2 ^ (s + 4))) (pm_mem pmp) m'"
      by (rule same_on_subset [OF same])
        (use arb_piece_props(2) [OF o(1,3) bp(1)] C arb_geoD(4) [OF o(3) bp(1) k b(2)] in blast)
  qed
  show "\<forall>a\<in>set xs. arb_free_piece m' g' s a \<and> A' a = None"
    using arb_free_frame [OF old(1) _ piece, of _ g'] old A' g' by simp
  show "arb_chain m' c' xs" if "rd32 m' c' = rd32 (pm_mem pmp) c"
    by (rule arb_chain_frame [OF xs(1) that]) (rule arb_header_frame(4) [OF piece arb_piece_16])
qed

lemma arb_pop:
  assumes ok: "arb_ok pmp S info g A" and l: "arb_lists g (arb_slot n) = x # xs"
    and n: "arb_small n" "n \<le> arb_max"
  defines "s \<equiv> arb_slot n"
  defines "m' \<equiv> arb_popped (pm_mem pmp) (pri_free_at info s) x"
  shows "arb_ok (pmp\<lparr>pm_mem := m'\<rparr>) S info (g\<lparr>arb_lists := (arb_lists g)(s := xs)\<rparr>) (A(x \<mapsto> n))"
    and "same_on (- ({pri_free_at info s..<pri_free_at info s + 4} \<union> arb_piece x (2 ^ (s + 4)))) (pm_mem pmp) m'"
proof -
  note o = arb_okD [OF ok]
  have s: "s \<le> 12" using arb_slot_le [OF n(1)] by (simp add: s_def)
  note l = l [folded s_def]
  have lst: "arb_list (pm_mem pmp) info g A s" by (rule o(4) [OF s])
  then have ch: "rd32 (pm_mem pmp) (pri_free_at info s) = x" "arb_chain (pm_mem pmp) (unat x * 16 + 4) xs"
    "x \<notin> set xs" "distinct xs" by (simp_all add: arb_list_def l)
  have mem: "x \<in> set (arb_lists g s)" by (simp add: l)
  note x = arb_in_list [OF ok s mem]
  let ?m = "pm_mem pmp" and ?c = "pri_free_at info s" and ?p = "unat x * 16"
  let ?P = "arb_piece x (2 ^ (s + 4))"
  have P: "{?p..<?p + 16} \<subseteq> ?P" using arb_piece_16 [of s] by (auto simp: arb_piece_def)
  have C: "{?c..<?c + 4} \<inter> ?P = {}"
    using pri_free_range [OF s, of info] o(2) arb_piece_props(2) [OF o(1,3) x(1)] by blast
  show same: "same_on (- ({?c..<?c + 4} \<union> ?P)) ?m m'"
  proof (rule same_onI)
    fix y
    assume "y \<in> - ({?c..<?c + 4} \<union> ?P)"
    then have "y \<notin> {?c..<?c + 4}" "y \<notin> {?p..<?p + 16}" using P by blast+
    then have "y < ?c \<or> ?c + 4 \<le> y" "y < ?p \<or> ?p + 2 \<le> y" by auto
    then show "m' y = ?m y" by (simp add: m'_def arb_popped_def wr16_outside wr32_outside)
  qed
  have sub: "B \<subseteq> - {?p..<?p + 2} \<Longrightarrow> same_on B (wr32 ?m ?c (prh_next_free ?m ?p)) m'" for B
    by (auto simp: m'_def arb_popped_def same_on_def intro!: wr16_outside)
  have "rd32 m' ?c = rd32 (wr32 ?m ?c (prh_next_free ?m ?p)) ?c"
    by (rule same_on_rd32 [OF sub [of "{?c..<?c + 4}"]]) (use P C in fastforce)+
  then have cell: "rd32 m' ?c = rd32 ?m (?p + 4)" by (simp add: prh_next_free_def)
  have mag: "prh_magic m' ?p = PRH_MAGIC_SMALL_INUSE" by (simp add: m'_def arb_popped_def prh_magic_def)
  have "?p + 2 \<notin> {?c..<?c + 4}" using P C by fastforce
  then have "?p + 2 < ?c \<or> ?c + 4 \<le> ?p + 2" by auto
  then have "prh_slot m' ?p = prh_slot ?m ?p"
    by (simp add: prh_slot_def m'_def arb_popped_def wr16_outside wr32_outside)
  then have live: "arb_live_piece m' (g\<lparr>arb_lists := (arb_lists g)(s := xs)\<rparr>) x n"
    using x(1,2) mag n by (simp add: arb_live_piece_def arb_free_piece_def arb_len_def s_def)
  have "set xs \<subseteq> set (arb_lists g s)" by (auto simp: l)
  note rest = arb_list_rest [OF ok s ch(2) this ch(3) x(1) same, of "g\<lparr>arb_lists := (arb_lists g)(s := xs)\<rparr>" "A(x \<mapsto> n)"]
  have "arb_list m' info (g\<lparr>arb_lists := (arb_lists g)(s := xs)\<rparr>) (A(x \<mapsto> n)) s"
    using rest(1) [OF _ _ cell] rest(2) ch(4) by (simp add: arb_list_def)
  moreover have "arb_geo S (g\<lparr>arb_lists := (arb_lists g)(s := xs)\<rparr>)" using o(3) by (simp add: arb_geo_def)
  moreover have "mm_valid (pmp\<lparr>pm_mem := m'\<rparr>) S"
    by (rule mm.write_inside [OF o(1) _ same])
      (use pri_free_range [OF s, of info] o(2) header_owned [of S] arb_piece_props(1) [OF o(1,3) x(1)] in blast)
  moreover have "same_on (owned S - ({?c..<?c + 4} \<union> ?P)) ?m m'" by (rule same_on_subset [OF same]) blast
  moreover have "x \<notin> set (arb_lists g r)" if "r \<le> 12" "r \<noteq> s" for r using x(7) [OF that(1)] that(2) by blast
  ultimately show "arb_ok (pmp\<lparr>pm_mem := m'\<rparr>) S info (g\<lparr>arb_lists := (arb_lists g)(s := xs)\<rparr>) (A(x \<mapsto> n))"
    using live arb_piece_props(2) [OF o(1,3) x(1)] o(2) arb_geoD(4) [OF o(3) x(1)]
    by (intro arb_update [OF ok _ _ s, where D = ?P and X = "{x}"]) auto
qed

definition arb_pushed :: "mem \<Rightarrow> nat \<Rightarrow> u32 \<Rightarrow> mem" where
  "arb_pushed m cell a = wr16 (wr32 (wr32 m (unat a * 16 + 4) (rd32 m cell)) cell a) (unat a * 16) PRH_MAGIC_SMALL_FREE"

lemma arb_push:
  assumes ok: "arb_ok pmp S info g A" and a: "A a = Some n" and n: "arb_small n"
  defines "s \<equiv> arb_slot n"
  defines "m' \<equiv> arb_pushed (pm_mem pmp) (pri_free_at info s) a"
  shows "arb_ok (pmp\<lparr>pm_mem := m'\<rparr>) S info (g\<lparr>arb_lists := (arb_lists g)(s := a # arb_lists g s)\<rparr>) (A(a := None))"
    and "same_on (- ({pri_free_at info s..<pri_free_at info s + 4} \<union> arb_piece a (2 ^ (s + 4)))) (pm_mem pmp) m'"
proof -
  note o = arb_okD [OF ok]
  have s: "s \<le> 12" using arb_slot_le [OF n] by (simp add: s_def)
  have lst: "arb_chain (pm_mem pmp) (pri_free_at info s) (arb_lists g s)" "distinct (arb_lists g s)"
    using o(4) [OF s] by (simp_all add: arb_list_def)
  have k: "arb_pieces g a = Some (2 ^ (s + 4))" "prh_slot (pm_mem pmp) (unat a * 16) = word_of_nat s"
    using o(5) [OF a] n by (simp_all add: arb_live_piece_def arb_len_def s_def)
  have notin: "a \<notin> set (arb_lists g r)" if "r \<le> 12" for r
    using arb_in_list(3) [OF ok that] a by fastforce
  note pp = arb_piece_props [OF o(1,3) k(1)]
  let ?m = "pm_mem pmp" and ?c = "pri_free_at info s" and ?p = "unat a * 16"
  let ?P = "arb_piece a (2 ^ (s + 4))" and ?g = "g\<lparr>arb_lists := (arb_lists g)(s := a # arb_lists g s)\<rparr>"
  have P: "{?p..<?p + 16} \<subseteq> ?P" using arb_piece_16 [of s] by (auto simp: arb_piece_def)
  have C: "{?c..<?c + 4} \<inter> ?P = {}" using pri_free_range [OF s, of info] o(2) pp(2) by blast
  then have far: "?c + 4 \<le> ?p \<or> ?p + 16 \<le> ?c"
  proof -
    have "{?c..<?c + 4} \<inter> {?p..<?p + 16} = {}" using C P by blast
    then show ?thesis by (auto simp: disjoint_iff dest: spec [of _ ?c] spec [of _ ?p])
  qed
  show same: "same_on (- ({?c..<?c + 4} \<union> ?P)) ?m m'"
  proof (rule same_onI)
    fix y
    assume "y \<in> - ({?c..<?c + 4} \<union> ?P)"
    then have "y \<notin> {?c..<?c + 4}" "y \<notin> {?p..<?p + 16}" using P by blast+
    then have "y < ?c \<or> ?c + 4 \<le> y" "y < ?p \<or> ?p + 16 \<le> y" by auto
    then show "m' y = ?m y" by (auto simp: m'_def arb_pushed_def wr16_outside wr32_outside)
  qed
  have cell: "rd32 m' ?c = a" using far by (auto simp: m'_def arb_pushed_def mem_simps)
  have nxt: "rd32 m' (?p + 4) = rd32 ?m ?c" using far by (auto simp: m'_def arb_pushed_def mem_simps)
  have mag: "prh_magic m' ?p = PRH_MAGIC_SMALL_FREE" by (simp add: m'_def arb_pushed_def prh_magic_def)
  have "prh_slot m' ?p = prh_slot ?m ?p"
    using far by (auto simp: prh_slot_def m'_def arb_pushed_def wr16_outside wr32_outside)
  then have free: "arb_free_piece m' ?g s a" using k mag by (simp add: arb_free_piece_def)
  note rest = arb_list_rest [OF ok s lst(1) order_refl notin [OF s] k(1) same, of ?g "A(a := None)"]
  have "arb_chain m' (?p + 4) (arb_lists g s)" by (rule rest(1)) (use nxt in simp_all)
  then have "arb_list m' info ?g (A(a := None)) s"
    using rest(2) lst(2) notin [OF s] cell free pp(5) by (simp add: arb_list_def)
  moreover have "arb_geo S ?g" using o(3) by (simp add: arb_geo_def)
  moreover have "mm_valid (pmp\<lparr>pm_mem := m'\<rparr>) S"
    by (rule mm.write_inside [OF o(1) _ same])
      (use pri_free_range [OF s, of info] o(2) header_owned [of S] pp(1) in blast)
  moreover have "same_on (owned S - ({?c..<?c + 4} \<union> ?P)) ?m m'" by (rule same_on_subset [OF same]) blast
  ultimately show "arb_ok (pmp\<lparr>pm_mem := m'\<rparr>) S info ?g (A(a := None))"
    using pp(2) o(2) arb_geoD(4) [OF o(3) k(1)] notin
    by (intro arb_update [OF ok _ _ s, where D = ?P and X = "{a}"]) auto
qed

end
