(* ===== verification/Paarb_Page.thy ===== *)
theory Paarb_Page
  imports Paarb_Alloc
begin

text \<open>
  New pages: \<^verbatim>\<open>pa_arb_make_page\<close> cuts a block into chunks and leaves them on the list of their slot, a
  large request gets a block of its own, and freeing it returns the block to the segment.
\<close>

section \<open>The chunks of a page\<close>

definition chunk_atom :: "u32 \<Rightarrow> nat \<Rightarrow> nat \<Rightarrow> u32" where
  "chunk_atom p s j = word_of_nat (unat p * 256 + 2 ^ s * j)"

definition chunk_list :: "u32 \<Rightarrow> nat \<Rightarrow> nat \<Rightarrow> nat \<Rightarrow> u32 list" where
  "chunk_list p s i n = map (chunk_atom p s) [i..<i + n]"

lemma chunk_list_simps [simp]:
  "chunk_list p s i 0 = []"
  "chunk_list p s i (Suc n) = chunk_atom p s i # chunk_list p s (Suc i) n"
  by (simp_all add: chunk_list_def upt_conv_Cons del: upt_Suc)

lemma chunk_atom_nat:
  assumes "unat p < 2 ^ 20" "2 ^ s * j < (256 :: nat)"
  shows "unat (chunk_atom p s j) = unat p * 256 + 2 ^ s * j"
proof -
  have "unat p * 256 + 2 ^ s * j < 2 ^ LENGTH(32)" using assms by simp
  then show ?thesis by (simp only: chunk_atom_def unsigned_of_nat take_bit_nat_eq_self of_nat_id)
qed

lemma chunk_atom_range:
  assumes "0 < unat p" "unat p < 2 ^ 20" "2 ^ s * j < (256 :: nat)"
  shows "256 \<le> unat (chunk_atom p s j)" "unat (chunk_atom p s j) < 2 ^ 28" "chunk_atom p s j \<noteq> 0"
proof -
  note n = chunk_atom_nat [OF assms(2,3)]
  show a: "256 \<le> unat (chunk_atom p s j)" "unat (chunk_atom p s j) < 2 ^ 28" using assms unfolding n by simp_all
  show "chunk_atom p s j \<noteq> 0" using a(1) by (intro notI) simp
qed

lemma build_chunk_atom:
  assumes "0 < unat p" "unat p < 2 ^ 20" "2 ^ unat slot * j < (256 :: nat)" "unat slot \<le> 12"
  shows "pa_arb_build_atom p (ucast slot) (word_of_nat j) = chunk_atom p (unat slot) j"
proof -
  have s: "unat (ucast slot :: u8) = unat slot"
    using assms(4) by (simp only: unsigned_ucast_eq) (simp add: take_bit_nat_eq_self)
  have "j \<le> 2 ^ unat slot * j" by simp
  then have "j < 256" using assms(3) by linarith
  then have j: "unat (word_of_nat j :: u8) = j" by (simp only: unsigned_of_nat) (simp add: take_bit_nat_eq_self)
  have "unat (pa_arb_build_atom p (ucast slot) (word_of_nat j)) = unat (chunk_atom p (unat slot) j)"
    using assms by (subst pa_arb_build_atom_nat) (simp_all add: s j chunk_atom_nat)
  then show ?thesis by (simp only: word_unat_eq_iff)
qed

text \<open>Writing the header of one free chunk.\<close>

definition chunk_written :: "mem \<Rightarrow> nat \<Rightarrow> u32 \<Rightarrow> nat \<Rightarrow> u32 \<Rightarrow> mem" where
  "chunk_written m p slot i a =
     wr32 ((wr16 m p PRH_MAGIC_SMALL_FREE)(p + 2 := ucast slot, p + 3 := word_of_nat i)) (p + 4) a"

lemma chunk_written_outside: "x < p \<or> p + 8 \<le> x \<Longrightarrow> chunk_written m p slot i a x = m x"
  by (auto simp: chunk_written_def wr32_outside wr16_outside)

lemma chunk_written_reads:
  "prh_magic (chunk_written m p slot i a) p = PRH_MAGIC_SMALL_FREE"
  "prh_slot (chunk_written m p slot i a) p = ucast slot"
  "rd32 (chunk_written m p slot i a) (p + 4) = a"
proof -
  have "rd16 (chunk_written m p slot i a) p = rd16 (wr16 m p PRH_MAGIC_SMALL_FREE) p"
    by (rule rd16_cong) (auto simp: chunk_written_def wr32_outside)
  then show "prh_magic (chunk_written m p slot i a) p = PRH_MAGIC_SMALL_FREE" by (simp add: prh_magic_def)
  show "prh_slot (chunk_written m p slot i a) p = ucast slot"
    by (simp add: prh_slot_def chunk_written_def wr32_outside)
  show "rd32 (chunk_written m p slot i a) (p + 4) = a" by (simp add: chunk_written_def)
qed

lemma pa_arb_chunks_spec:
  assumes p: "0 < unat p" "unat p < 2 ^ 20" and slot: "unat slot \<le> 12"
    and n: "0 < n \<Longrightarrow> 2 ^ unat slot * (i + n - 1) < (256 :: nat)"
    and a: "0 < n \<Longrightarrow> a = chunk_atom p (unat slot) i"
  shows "\<exists>m'. pa_arb_chunks m p slot a i n = Some m'
    \<and> (\<forall>x. x < (unat p * 256 + 2 ^ unat slot * i) * 16 \<or> (unat p * 256 + 2 ^ unat slot * (i + n)) * 16 \<le> x \<longrightarrow> m' x = m x)
    \<and> (\<forall>b\<in>set (chunk_list p (unat slot) i n).
         prh_magic m' (unat b * 16) = PRH_MAGIC_SMALL_FREE \<and> prh_slot m' (unat b * 16) = ucast slot)
    \<and> (\<forall>m2 c. same_on {(unat p * 256 + 2 ^ unat slot * i) * 16..<(unat p * 256 + 2 ^ unat slot * (i + n)) * 16} m' m2
         \<longrightarrow> rd32 m2 c = (if n = 0 then 0 else a) \<longrightarrow> arb_chain m2 c (chunk_list p (unat slot) i n))"
  using n a
proof (induction n arbitrary: m i a)
  case 0
  then show ?case by simp
next
  case (Suc n)
  let ?s = "unat slot"
  have lim: "2 ^ ?s * (i + n) < (256 :: nat)" using Suc.prems(1) by simp
  have "2 ^ ?s * i \<le> 2 ^ ?s * (i + n)" by simp
  with lim have i: "2 ^ ?s * i < (256 :: nat)" by linarith
  have a: "a = chunk_atom p ?s i" using Suc.prems(2) by simp
  note an = chunk_atom_nat [OF p(2) i, folded a]
  note ar = chunk_atom_range [OF p i, folded a]
  let ?p = "unat a * 16"
  define nxt where "nxt = (if n = 0 then 0 else pa_arb_build_atom p (ucast slot) (word_of_nat (i + 1)))"
  let ?m = "chunk_written m ?p slot i nxt"
  have eq: "pa_arb_chunks m p slot a i (Suc n) = pa_arb_chunks ?m p slot nxt (Suc i) n"
    by (simp add: pa_arb_header_nat [OF ar(1,2)] nxt_def chunk_written_def Let_def)
  have nx: "nxt = chunk_atom p ?s (Suc i)" if "0 < n"
  proof -
    have "2 ^ ?s * Suc i \<le> 2 ^ ?s * (i + n)" using that by (intro mult_le_mono2) simp
    with lim have "2 ^ ?s * Suc i < (256 :: nat)" by linarith
    with build_chunk_atom [OF p _ slot, of "Suc i"] that show ?thesis by (simp add: nxt_def)
  qed
  have "2 ^ ?s * (Suc i + n - 1) < (256 :: nat)" using lim by simp
  from Suc.IH [OF this nx, of ?m] obtain m' where
    r: "pa_arb_chunks ?m p slot nxt (Suc i) n = Some m'"
    and out: "\<And>x. x < (unat p * 256 + 2 ^ ?s * Suc i) * 16 \<or> (unat p * 256 + 2 ^ ?s * (Suc i + n)) * 16 \<le> x
      \<Longrightarrow> m' x = ?m x"
    and hd: "\<forall>b\<in>set (chunk_list p ?s (Suc i) n).
         prh_magic m' (unat b * 16) = PRH_MAGIC_SMALL_FREE \<and> prh_slot m' (unat b * 16) = ucast slot"
    and ch: "\<And>m2 c. same_on {(unat p * 256 + 2 ^ ?s * Suc i) * 16..<(unat p * 256 + 2 ^ ?s * (Suc i + n)) * 16} m' m2
      \<Longrightarrow> rd32 m2 c = (if n = 0 then 0 else nxt) \<Longrightarrow> arb_chain m2 c (chunk_list p ?s (Suc i) n)"
    by blast
  have "(1 :: nat) \<le> 2 ^ ?s" by simp
  then have step: "?p + 16 \<le> (unat p * 256 + 2 ^ ?s * Suc i) * 16" unfolding an by simp
  have same: "same_on {?p..<?p + 8} ?m m'" by (rule same_onI, rule out) (use step in auto)
  have "prh_magic m' ?p = prh_magic ?m ?p" unfolding prh_magic_def by (rule same_on_rd16 [OF same]) auto
  moreover have "prh_slot m' ?p = prh_slot ?m ?p" unfolding prh_slot_def by (rule same_onD [OF same]) auto
  moreover have "rd32 m' (?p + 4) = rd32 ?m (?p + 4)" by (rule same_on_rd32 [OF same]) auto
  ultimately have h: "prh_magic m' ?p = PRH_MAGIC_SMALL_FREE" "prh_slot m' ?p = ucast slot" "rd32 m' (?p + 4) = nxt"
    by (simp_all add: chunk_written_reads)
  have le: "2 ^ ?s * Suc i \<le> 2 ^ ?s * (i + Suc n)" by (intro mult_le_mono2) simp
  have up: "(unat p * 256 + 2 ^ ?s * Suc i) * 16 \<le> (unat p * 256 + 2 ^ ?s * (i + Suc n)) * 16"
    by (intro mult_le_mono1 add_left_mono le)
  have top: "?p + 16 \<le> (unat p * 256 + 2 ^ ?s * (i + Suc n)) * 16" using step up by (rule le_trans)
  have nz: "nxt = (if n = 0 then 0 else nxt)" by (simp add: nxt_def)
  have "arb_chain m2 c (chunk_list p ?s i (Suc n))"
    if m2: "same_on {(unat p * 256 + 2 ^ ?s * i) * 16..<(unat p * 256 + 2 ^ ?s * (i + Suc n)) * 16} m' m2"
      and c: "rd32 m2 c = a" for m2 c
  proof -
    have "rd32 m2 (?p + 4) = nxt" unfolding h(3) [symmetric]
      by (rule same_on_rd32 [OF m2]) (use top in \<open>auto simp: an\<close>)
    then have "rd32 m2 (?p + 4) = (if n = 0 then 0 else nxt)" using nz by simp
    moreover have "same_on {(unat p * 256 + 2 ^ ?s * Suc i) * 16..<(unat p * 256 + 2 ^ ?s * (Suc i + n)) * 16} m' m2"
      by (rule same_on_subset [OF m2]) (intro ivl_subset [THEN iffD2] disjI2 conjI mult_le_mono1 add_left_mono mult_le_mono2, simp_all)
    ultimately have "arb_chain m2 (?p + 4) (chunk_list p ?s (Suc i) n)" by (intro ch)
    with c ar(3) show ?thesis by (simp flip: a)
  qed
  moreover have "m' x = m x" if "x < (unat p * 256 + 2 ^ ?s * i) * 16 \<or> (unat p * 256 + 2 ^ ?s * (i + Suc n)) * 16 \<le> x" for x
  proof -
    have "x < ?p \<or> ?p + 8 \<le> x"
    proof (cases "x < ?p")
      case False
      then have "(unat p * 256 + 2 ^ ?s * (i + Suc n)) * 16 \<le> x" using that an by simp
      with top have "?p + 16 \<le> x" by (rule le_trans)
      then show ?thesis by simp
    qed simp
    then have "?m x = m x" by (rule chunk_written_outside)
    moreover have "m' x = ?m x"
    proof (rule out)
      show "x < (unat p * 256 + 2 ^ ?s * Suc i) * 16 \<or> (unat p * 256 + 2 ^ ?s * (Suc i + n)) * 16 \<le> x"
        using that by auto
    qed
    ultimately show ?thesis by simp
  qed
  ultimately show ?case unfolding eq r using hd h by (auto simp flip: a)
qed

section \<open>Making a page\<close>

lemma new_block_apart:
  assumes "mm_valid pmp (insert e S)" "e \<notin> S"
  shows "ext_bytes e \<inter> owned S = {}"
proof -
  have "ext_bytes e \<inter> ext_bytes f = {}" if "f \<in> S" for f
    by (rule mm.bytes_disjoint [OF assms(1)]) (use that assms(2) in auto)
  moreover have "ext_bytes e \<inter> header_bytes = {}" by (rule mm.block_not_header [OF assms(1)]) simp
  ultimately show ?thesis by (auto simp: owned_def)
qed

lemma arb_new_piece:
  assumes "arb_ok pmp S info g A" "ext_bytes e \<inter> owned S = {}" "unat a * 16 \<in> ext_bytes e"
  shows "arb_pieces g a = None" "A a = None" "s \<le> 12 \<Longrightarrow> a \<notin> set (arb_lists g s)"
proof -
  note o = arb_okD [OF assms(1)]
  show n: "arb_pieces g a = None"
  proof (rule ccontr)
    assume "arb_pieces g a \<noteq> None"
    then obtain k where k: "arb_pieces g a = Some k" by blast
    from arb_piece_props(6) [OF o(1,3) k] have "unat a * 16 \<in> arb_piece a k" by (simp add: arb_piece_def)
    then show False using arb_piece_props(1) [OF o(1,3) k] assms(2,3) by blast
  qed
  show "A a = None" using o(5) [of a] n by (cases "A a") (auto simp: arb_live_piece_def)
  show "a \<notin> set (arb_lists g s)" if "s \<le> 12" using arb_in_list(1) [OF assms(1) that, of a] n by auto
qed

definition arb_paged :: "arb \<Rightarrow> u32 \<times> u32 \<Rightarrow> nat \<Rightarrow> u32 list \<Rightarrow> arb" where
  "arb_paged g e s xs = g\<lparr>arb_blocks := insert e (arb_blocks g), arb_lists := (arb_lists g)(s := xs),
     arb_pieces := (\<lambda>a. if a \<in> set xs then Some (2 ^ (s + 4)) else arb_pieces g a)\<rparr>"

lemma chunk_piece:
  assumes "unat p < 2 ^ 20" "2 ^ s * j < (256 :: nat)"
  shows "arb_piece (chunk_atom p s j) (2 ^ (s + 4))
    = {(unat p * 256 + 2 ^ s * j) * 16..<(unat p * 256 + 2 ^ s * Suc j) * 16}"
  by (simp add: arb_piece_def chunk_atom_nat [OF assms] power_add algebra_simps)

lemma chunk_pieces_apart:
  assumes "unat p < 2 ^ 20" "2 ^ s * j < (256 :: nat)" "2 ^ s * k < (256 :: nat)" "j < k"
  shows "arb_piece (chunk_atom p s j) (2 ^ (s + 4)) \<inter> arb_piece (chunk_atom p s k) (2 ^ (s + 4)) = {}"
proof -
  have "2 ^ s * Suc j \<le> 2 ^ s * k" using assms(4) by (intro mult_le_mono2) simp
  then have "(unat p * 256 + 2 ^ s * Suc j) * 16 \<le> (unat p * 256 + 2 ^ s * k) * 16"
    by (intro mult_le_mono1 add_left_mono)
  then show ?thesis unfolding chunk_piece [OF assms(1,2)] chunk_piece [OF assms(1,3)] by auto
qed

text \<open>The chunks of a page of \<open>n\<close> of them fill its block.\<close>

lemma chunk_list_props:
  assumes p: "unat p < 2 ^ 20" and n: "0 < n" "2 ^ s * (n - 1) < (256 :: nat)"
    and e: "ext_bytes e = {unat p * 256 * 16..<(unat p * 256 + 2 ^ s * n) * 16}"
  shows "distinct (chunk_list p s 0 n)"
    and "a \<in> set (chunk_list p s 0 n) \<Longrightarrow> arb_piece a (2 ^ (s + 4)) \<subseteq> ext_bytes e"
    and "a \<in> set (chunk_list p s 0 n) \<Longrightarrow> b \<in> set (chunk_list p s 0 n) \<Longrightarrow> a \<noteq> b
      \<Longrightarrow> arb_piece a (2 ^ (s + 4)) \<inter> arb_piece b (2 ^ (s + 4)) = {}"
proof -
  have j: "2 ^ s * j < (256 :: nat)" if "j < n" for j
  proof -
    have "2 ^ s * j \<le> 2 ^ s * (n - 1)" using that by (intro mult_le_mono2) simp
    with n(2) show ?thesis by (rule le_less_trans [rotated])
  qed
  have ap: "arb_piece (chunk_atom p s j) (2 ^ (s + 4)) \<inter> arb_piece (chunk_atom p s k) (2 ^ (s + 4)) = {}"
    if "j < n" "k < n" "j \<noteq> k" for j k
    using chunk_pieces_apart [OF p j [OF that(1)] j [OF that(2)]]
      chunk_pieces_apart [OF p j [OF that(2)] j [OF that(1)]] that(3)
    by (cases "j < k") (auto simp: Int_commute)
  have ne: "arb_piece a (2 ^ (s + 4)) \<noteq> {}" for a by (simp add: arb_piece_def)
  have "inj_on (chunk_atom p s) {0..<n}"
  proof (rule inj_onI)
    fix j k
    assume jk: "j \<in> {0..<n}" "k \<in> {0..<n}" and eq: "chunk_atom p s j = chunk_atom p s k"
    show "j = k"
    proof (rule ccontr)
      assume "j \<noteq> k"
      from ap [OF _ _ this] jk ne [of "chunk_atom p s k"] show False unfolding eq by simp
    qed
  qed
  then show "distinct (chunk_list p s 0 n)" by (simp add: chunk_list_def distinct_map)
  show "arb_piece a (2 ^ (s + 4)) \<subseteq> ext_bytes e" if "a \<in> set (chunk_list p s 0 n)"
  proof -
    from that obtain i where i: "i < n" "a = chunk_atom p s i" by (auto simp: chunk_list_def)
    have "2 ^ s * Suc i \<le> 2 ^ s * n" using i(1) by (intro mult_le_mono2) simp
    then have "(unat p * 256 + 2 ^ s * Suc i) * 16 \<le> (unat p * 256 + 2 ^ s * n) * 16"
      by (intro mult_le_mono1 add_left_mono)
    then show ?thesis unfolding i(2) chunk_piece [OF p j [OF i(1)]] e
      by (intro ivl_subset [THEN iffD2] disjI2 conjI) simp_all
  qed
  show "arb_piece a (2 ^ (s + 4)) \<inter> arb_piece b (2 ^ (s + 4)) = {}"
    if "a \<in> set (chunk_list p s 0 n)" "b \<in> set (chunk_list p s 0 n)" "a \<noteq> b"
  proof -
    from that(1,2) obtain j k where "j < n" "k < n" "a = chunk_atom p s j" "b = chunk_atom p s k"
      by (auto simp: chunk_list_def)
    with that(3) ap [of j k] show ?thesis by auto
  qed
qed

lemma arb_paged_geo:
  assumes ok: "arb_ok pmp S info g A" and apart: "ext_bytes e \<inter> owned S = {}"
    and sub: "\<And>a. a \<in> set xs \<Longrightarrow> arb_piece a (2 ^ (s + 4)) \<subseteq> ext_bytes e"
    and dis: "\<And>a b. a \<in> set xs \<Longrightarrow> b \<in> set xs \<Longrightarrow> a \<noteq> b
      \<Longrightarrow> arb_piece a (2 ^ (s + 4)) \<inter> arb_piece b (2 ^ (s + 4)) = {}"
  shows "arb_geo (insert e S) (arb_paged g e s xs)"
proof -
  note o = arb_okD [OF ok]
  note g = arb_geoD [OF o(3)]
  let ?g = "arb_paged g e s xs"
  have pc: "arb_pieces ?g a = Some k \<Longrightarrow> a \<in> set xs \<and> k = 2 ^ (s + 4) \<or> a \<notin> set xs \<and> arb_pieces g a = Some k" for a k
    by (auto simp: arb_paged_def split: if_splits)
  have mix: "arb_piece a (2 ^ (s + 4)) \<inter> arb_piece b l = {}" if "a \<in> set xs" "arb_pieces g b = Some l" for a b l
    using sub [OF that(1)] arb_piece_props(1) [OF o(1,3) that(2)] apart by blast
  have "16 \<le> k \<and> arb_piece a k \<subseteq> (\<Union>f\<in>arb_blocks ?g. ext_bytes f)" if "arb_pieces ?g a = Some k" for a k
    using pc [OF that] sub [of a] g(2,3) [of a k] arb_piece_16 [of s] by (auto simp: arb_paged_def)
  moreover have "arb_piece a k \<inter> arb_piece b l = {}"
    if "arb_pieces ?g a = Some k" "arb_pieces ?g b = Some l" "a \<noteq> b" for a b k l
    using pc [OF that(1)] pc [OF that(2)] that(3) dis [of a b] mix [of a b l] mix [of b a k] g(4) [of a k b l]
    by (elim disjE conjE) (simp_all add: Int_commute)
  moreover have "arb_blocks ?g \<subseteq> insert e S" using g(1) by (auto simp: arb_paged_def)
  ultimately show ?thesis unfolding arb_geo_def by blast
qed

lemma arb_make_page:
  assumes ok: "arb_ok pmp S info g A" and slot: "unat slot \<le> 12"
    and room: "mm_room pmp (pa_arb_slot_to_size slot)"
  shows "pa_arb_make_page os pmp info slot = Some pmp
    \<or> (\<exists>pmp' e x xs. pa_arb_make_page os pmp info slot = Some pmp'
        \<and> arb_ok pmp' (insert e S) info (arb_paged g e (unat slot) (x # xs)) A
        \<and> ext_bytes e \<inter> owned S = {}
        \<and> same_on (owned S - {pri_free_at info (unat slot)..<pri_free_at info (unat slot) + 4}) (pm_mem pmp) (pm_mem pmp'))"
proof -
  note o = arb_okD [OF ok]
  let ?s = "unat slot" and ?sz = "pa_arb_slot_to_size slot" and ?cell = "pri_free_at info (unat slot)"
  let ?n = "unat (pa_arb_chunks_per_page slot)"
  note tile = pa_arb_tile [OF slot]
  have n: "0 < ?n" "2 ^ ?s * (?n - 1) < (256 :: nat)"
  proof -
    note c = pa_arb_chunks_per_page_nat [OF slot]
    show "0 < ?n" unfolding c by simp
    show "2 ^ ?s * (?n - 1) < (256 :: nat)"
    proof (cases "?s < 8")
      case True
      then have "2 ^ ?s * 2 ^ (8 - ?s) = (2 :: nat) ^ 8" by (simp flip: power_add)
      moreover have "2 ^ ?s * (2 ^ (8 - ?s) - 1) < 2 ^ ?s * (2 :: nat) ^ (8 - ?s)" by simp
      ultimately show ?thesis using True unfolding c by simp
    qed (simp add: c)
  qed
  have sz: "?sz = pa_count ?sz * 4096" "0 < ?sz" "?sz \<le> 65536"
  proof -
    have "(2 :: nat) ^ (?s + 4) \<le> 2 ^ 16" using slot by (intro power_increasing) simp_all
    then show "0 < ?sz" "?sz \<le> 65536" by (auto simp: pa_arb_slot_to_size_nat [OF slot])
    have "4096 dvd ?sz"
    proof (cases "?s < 8")
      case False
      then have "(2 :: nat) ^ 12 dvd 2 ^ (?s + 4)" by (intro le_imp_power_dvd) simp
      with False show ?thesis by (simp add: pa_arb_slot_to_size_nat [OF slot])
    qed (simp add: pa_arb_slot_to_size_nat [OF slot])
    then obtain q where "?sz = 4096 * q" by (rule dvdE)
    then show "?sz = pa_count ?sz * 4096" by (simp add: pa_count_def)
  qed
  from mm.alloc_total [OF o(1) sz(2) room, of os] show ?thesis
  proof (elim disjE exE conjE)
    assume "pa_mmap_alloc os pmp ?sz = Some (pmp, 0)"
    then show ?thesis by (simp add: pa_arb_make_page_def)
  next
    fix pmp2 p
    assume al: "pa_mmap_alloc os pmp ?sz = Some (pmp2, p)" "p \<noteq> 0"
      and new: "(p, word_of_nat (pa_count ?sz)) \<notin> S"
      and v2: "mm_valid pmp2 (insert (p, word_of_nat (pa_count ?sz)) S)"
      and same2: "same_on (owned S) (pm_mem pmp) (pm_mem pmp2)"
    let ?e = "(p, word_of_nat (pa_count ?sz)) :: u32 \<times> u32"
    have cnt: "unat (word_of_nat (pa_count ?sz) :: u32) = pa_count ?sz"
      using sz by (simp add: unat_of_nat)
    have pp: "0 < unat p" "unat p < 2 ^ 20"
    proof -
      note pa = mm.page_addr(2,3) [OF v2, of p "word_of_nat (pa_count ?sz)"]
      show "0 < unat p" using pa(1) by simp
      have "0 < pa_count ?sz" using sz by (intro Nat.gr0I) simp
      with pa(2) cnt show "unat p < 2 ^ 20" by simp
    qed
    have e: "ext_bytes ?e = {unat p * 256 * 16..<(unat p * 256 + 2 ^ ?s * ?n) * 16}"
    proof -
      have "2 ^ ?s * ?n * 16 = ?sz" unfolding tile [symmetric] by (simp add: power_add)
      from trans [OF sz(1) [symmetric] this [symmetric]]
      have u: "(unat p + pa_count ?sz) * 4096 = (unat p * 256 + 2 ^ ?s * ?n) * 16"
        by (simp only: add_mult_distrib)
      show ?thesis unfolding ext_bytes_def fst_conv snd_conv cnt u by (simp add: mult.commute)
    qed
    note apart = new_block_apart [OF v2 new]
    let ?a = "chunk_atom p ?s 0" and ?xs = "chunk_list p ?s 0 ?n"
    have ba: "pa_arb_build_atom p (ucast slot) 0 = ?a"
      using build_chunk_atom [OF pp _ slot, of 0] by simp
    obtain m1 where m1: "pa_arb_chunks (pm_mem pmp2) p slot ?a 0 ?n = Some m1"
      and out: "\<forall>x. x < (unat p * 256 + 2 ^ ?s * 0) * 16 \<or> (unat p * 256 + 2 ^ ?s * (0 + ?n)) * 16 \<le> x \<longrightarrow> m1 x = pm_mem pmp2 x"
      and hd: "\<forall>b\<in>set ?xs. prh_magic m1 (unat b * 16) = PRH_MAGIC_SMALL_FREE \<and> prh_slot m1 (unat b * 16) = ucast slot"
      and ch: "\<forall>m2 c. same_on {(unat p * 256 + 2 ^ ?s * 0) * 16..<(unat p * 256 + 2 ^ ?s * (0 + ?n)) * 16} m1 m2
         \<longrightarrow> rd32 m2 c = (if ?n = 0 then 0 else ?a) \<longrightarrow> arb_chain m2 c ?xs"
      using pa_arb_chunks_spec [OF pp slot, of ?n 0 ?a "pm_mem pmp2"] n by auto
    let ?m' = "wr32 m1 ?cell ?a" and ?C = "{?cell..<?cell + 4}"
    have out1: "same_on (- ext_bytes ?e) (pm_mem pmp2) m1" by (rule same_onI) (use out in \<open>auto simp: e\<close>)
    have outC: "same_on (- ?C) m1 ?m'" by (rule same_on_wr32) blast
    have C: "?C \<subseteq> header_bytes" using pri_free_range [OF slot, of info] o(2) by blast
    then have Ce: "?C \<inter> ext_bytes ?e = {}" using apart header_owned [of S] by blast
    then have same_e: "same_on (ext_bytes ?e) m1 ?m'" by (intro same_on_subset [OF outC]) blast
    have out': "same_on (- (?C \<union> ext_bytes ?e)) (pm_mem pmp2) ?m'"
      using same_on_trans [OF same_on_subset [OF out1] same_on_subset [OF outC], of "- (?C \<union> ext_bytes ?e)"] by blast
    let ?pmp' = "pmp2\<lparr>pm_mem := ?m'\<rparr>" and ?g = "arb_paged g ?e ?s ?xs"
    note lp = chunk_list_props [OF pp(2) n e]
    have at: "unat b * 16 \<in> ext_bytes ?e" if "b \<in> set ?xs" for b
      using lp(2) [OF that] arb_piece_16 [of ?s] by (auto simp: arb_piece_def)
    note fresh = arb_new_piece [OF ok apart at]
    have "arb_chain ?m' ?cell ?xs" using ch same_e n(1) by (simp add: e)
    moreover have "arb_free_piece ?m' ?g ?s b" if b: "b \<in> set ?xs" for b
    proof -
      have "arb_free_piece m1 ?g ?s b"
        using hd b by (simp add: arb_free_piece_def arb_paged_def)
      then show ?thesis by (rule arb_free_frame) (use same_on_subset [OF same_e lp(2) [OF b]] in simp_all)
    qed
    ultimately have lst: "arb_list ?m' info ?g A ?s"
      using lp(1) fresh(2) by (auto simp: arb_list_def arb_paged_def)
    have v': "mm_valid ?pmp' (insert ?e S)"
      by (rule mm.write_inside [OF v2 _ out']) (use C header_owned [of "insert ?e S"] in \<open>auto simp: owned_def\<close>)
    have same: "same_on (owned S - ?C) (pm_mem pmp) ?m'"
      by (rule same_on_trans [OF same_on_subset [OF same2] same_on_subset [OF out']]) (use apart in blast)+
    have "arb_ok ?pmp' (insert ?e S) info ?g A"
    proof (rule arb_update [OF ok v' arb_paged_geo [OF ok apart lp(2,3)] slot, where D = "ext_bytes ?e" and X = "set ?xs"])
      show "same_on (owned S - (?C \<union> ext_bytes ?e)) (pm_mem pmp) (pm_mem ?pmp')"
        by (simp, rule same_on_subset [OF same]) blast
      show "ext_bytes ?e \<inter> {info..<info + 52} = {}" using apart o(2) header_owned [of S] by blast
      show "ext_bytes ?e \<inter> arb_piece b k = {}" if "arb_pieces g b = Some k" for b k
        using arb_piece_props(1) [OF o(1,3) that] apart by blast
      show "arb_list (pm_mem ?pmp') info ?g A ?s" using lst by simp
      show "arb_lists ?g r = arb_lists g r \<and> set (arb_lists g r) \<inter> set ?xs = {}" if "r \<le> 12" "r \<noteq> ?s" for r
        using fresh(3) [OF _ that(1)] that(2) by (auto simp: arb_paged_def)
      show "A b = A b \<and> arb_pieces ?g b = arb_pieces g b" if "b \<notin> set ?xs" for b using that by (simp add: arb_paged_def)
      show "arb_live_piece (pm_mem ?pmp') ?g b k" if "b \<in> set ?xs" "A b = Some k" for b k
        using fresh(2) [OF that(1)] that(2) by simp
      show "(q, k) \<in> arb_blocks ?g \<or> (\<exists>x\<in>set ?xs. unat x = unat q * 256)" if "(q, k) \<in> arb_blocks g" for q k
        using that by (simp add: arb_paged_def)
    qed
    moreover obtain x xs where "?xs = x # xs" using n(1) by (cases ?n) auto
    moreover have "pa_arb_make_page os pmp info slot = Some ?pmp'"
      by (simp add: pa_arb_make_page_def al ba m1)
    ultimately show ?thesis using apart same by (intro disjI2 exI conjI) auto
  qed
qed

end
