(* ===== verification/Paarb_Large.thy ===== *)
theory Paarb_Large
  imports Paarb_Page
begin

text \<open>
  Requests too large for a chunk: a block of their own, whose number of pages the header keeps in 16
  bits, and its return to the segment.
\<close>

definition arb_pages :: "nat \<Rightarrow> nat" where "arb_pages n = pa_count (n + 4)"

lemma arb_pages_bounds:
  assumes "n \<le> arb_max" "\<not> arb_small n"
  shows "0 < arb_pages n" "arb_pages n < 2 ^ 16" "arb_len n = arb_pages n * 4096"
    "pa_count (arb_pages n * 4096) = arb_pages n" "n + 4 \<le> arb_pages n * 4096" "2 ^ 16 < n + 4"
proof -
  show "2 ^ 16 < n + 4" using assms(2) by (simp add: arb_small_def)
  then show "0 < arb_pages n" by (simp add: arb_pages_def pa_count_def)
  show "arb_pages n < 2 ^ 16" using assms(1) by (simp add: arb_pages_def pa_count_def arb_max_def)
  show "arb_len n = arb_pages n * 4096" using assms(2) by (simp add: arb_len_def arb_pages_def)
  show "pa_count (arb_pages n * 4096) = arb_pages n" by (simp add: pa_count_def)
  show "n + 4 \<le> arb_pages n * 4096" unfolding arb_pages_def pa_count_def by linarith
qed

lemma arb_large_round:
  assumes "n \<le> arb_max" "\<not> arb_small n"
  shows "unat (pa_roundup32 (word_of_nat (n + 4)) (word_of_nat PA_MMAP_ATOM_SIZE)) = arb_pages n * 4096"
proof -
  have v: "unat (word_of_nat (n + 4) :: u32) = n + 4"
    using assms(1) by (simp only: unsigned_of_nat) (simp add: take_bit_nat_eq_self arb_max_def)
  have "unat (pa_roundup32 (word_of_nat (n + 4)) (2 ^ 12)) = (n + 4 + 2 ^ 12 - 1) div 2 ^ 12 * 2 ^ 12"
    using assms(1) by (subst pa_roundup32_nat) (simp_all only: v, simp_all add: arb_max_def)
  then show ?thesis by (simp add: PA_MMAP_ATOM_SIZE_def arb_pages_def pa_count_def)
qed

definition arb_large_mem :: "mem \<Rightarrow> u32 \<Rightarrow> nat \<Rightarrow> mem" where
  "arb_large_mem m a n = wr16 (wr16 m (unat a * 16) PRH_MAGIC_LARGE_INUSE) (unat a * 16 + 2) (word_of_nat (arb_pages n))"

definition arb_enlarged :: "arb \<Rightarrow> u32 \<times> u32 \<Rightarrow> u32 \<Rightarrow> nat \<Rightarrow> arb" where
  "arb_enlarged g e a k = g\<lparr>arb_blocks := insert e (arb_blocks g), arb_pieces := (arb_pieces g)(a \<mapsto> k)\<rparr>"

text \<open>The list of the first slot is not involved.\<close>

lemma arb_enlarged_ok:
  assumes ok: "arb_ok pmp S info g A" and n: "n \<le> arb_max" "\<not> arb_small n"
    and v2: "mm_valid pmp2 (insert (p, word_of_nat (arb_pages n)) S)" and new: "(p, word_of_nat (arb_pages n)) \<notin> S"
    and same2: "same_on (owned S) (pm_mem pmp) (pm_mem pmp2)"
  defines "e \<equiv> (p, word_of_nat (arb_pages n))"
  defines "a \<equiv> push_bit 8 p"
  defines "pmp' \<equiv> pmp2\<lparr>pm_mem := arb_large_mem (pm_mem pmp2) a n\<rparr>"
  shows "arb_ok pmp' (insert e S) info (arb_enlarged g e a (arb_len n)) (A(a \<mapsto> n))"
    and "256 \<le> unat a" "unat a < 2 ^ 28" "ext_bytes e \<inter> owned S = {}" "A a = None"
    and "same_on (owned S) (pm_mem pmp) (pm_mem pmp')"
proof -
  note o = arb_okD [OF ok]
  note b = arb_pages_bounds [OF n]
  have cnt: "unat (word_of_nat (arb_pages n) :: u32) = arb_pages n"
    using b(2) by (simp only: unsigned_of_nat) (simp add: take_bit_nat_eq_self)
  have p: "0 < unat p" "unat p < 2 ^ 20"
  proof -
    note pa = mm.page_addr(2,3) [OF v2, of p "word_of_nat (arb_pages n)"]
    show "0 < unat p" using pa(1) by simp
    show "unat p < 2 ^ 20" using pa(2) cnt b(1) by simp
  qed
  have a: "unat a = unat p * 256" unfolding a_def using p(2) by (subst unat_push_bit_less) simp_all
  show ar: "256 \<le> unat a" "unat a < 2 ^ 28" using p unfolding a by simp_all
  show apart: "ext_bytes e \<inter> owned S = {}" using new_block_apart [OF v2 new] by (simp add: e_def)
  have eb: "ext_bytes e = arb_piece a (arb_len n)"
    by (simp add: e_def ext_bytes_def arb_piece_def cnt a b(3) algebra_simps)
  have at: "{unat a * 16..<unat a * 16 + 16} \<subseteq> ext_bytes e" using b(1) by (simp add: eb arb_piece_def b(3))
  then have at0: "unat a * 16 \<in> ext_bytes e" by auto
  note fresh = arb_new_piece [OF ok apart at0]
  show "A a = None" by (rule fresh(2))
  let ?m' = "arb_large_mem (pm_mem pmp2) a n" and ?g = "arb_enlarged g e a (arb_len n)"
  have out: "same_on (- ext_bytes e) (pm_mem pmp2) ?m'"
  proof (rule same_onI)
    fix x
    assume "x \<in> - ext_bytes e"
    with at have "x \<notin> {unat a * 16..<unat a * 16 + 16}" by blast
    then have "x < unat a * 16 \<or> unat a * 16 + 16 \<le> x" by auto
    then show "?m' x = pm_mem pmp2 x" by (auto simp: arb_large_mem_def wr16_outside)
  qed
  have same: "same_on (owned S) (pm_mem pmp) ?m'"
    by (rule same_on_trans [OF same2 same_on_subset [OF out]]) (use apart in blast)
  then show "same_on (owned S) (pm_mem pmp) (pm_mem pmp')" by (simp add: pmp'_def)
  have v': "mm_valid pmp' (insert e S)" unfolding pmp'_def
    by (rule mm.write_inside [OF v2 [folded e_def] _ out]) (auto simp: owned_def)
  have geo: "arb_geo (insert e S) ?g"
  proof -
    note g = arb_geoD [OF o(3)]
    have pc: "arb_pieces ?g c = Some k \<Longrightarrow> c = a \<and> k = arb_len n \<or> c \<noteq> a \<and> arb_pieces g c = Some k" for c k
      by (auto simp: arb_enlarged_def split: if_splits)
    have mix: "arb_piece a (arb_len n) \<inter> arb_piece c k = {}" if "arb_pieces g c = Some k" for c k
      using arb_piece_props(1) [OF o(1,3) that] apart eb by blast
    have "16 \<le> k \<and> arb_piece c k \<subseteq> (\<Union>f\<in>arb_blocks ?g. ext_bytes f)" if "arb_pieces ?g c = Some k" for c k
      using pc [OF that] g(2,3) [of c k] arb_len_bounds(2) [OF n(1)] eb by (auto simp: arb_enlarged_def)
    moreover have "arb_piece c k \<inter> arb_piece d l = {}"
      if "arb_pieces ?g c = Some k" "arb_pieces ?g d = Some l" "c \<noteq> d" for c d k l
      using pc [OF that(1)] pc [OF that(2)] that(3) mix [of d l] mix [of c k] g(4) [of c k d l]
      by (elim disjE conjE) (simp_all add: Int_commute)
    moreover have "arb_blocks ?g \<subseteq> insert e S" using g(1) by (auto simp: arb_enlarged_def)
    ultimately show ?thesis unfolding arb_geo_def by blast
  qed
  have size: "unat (word_of_nat (arb_pages n) :: u16) = arb_pages n"
    using b(2) by (simp only: unsigned_of_nat) (simp add: take_bit_nat_eq_self)
  have "arb_live_piece ?m' ?g a n"
    using n a by (auto simp: arb_live_piece_def arb_enlarged_def arb_large_mem_def prh_magic_def prh_size_def
        mem_simps size [unfolded arb_pages_def] e_def arb_pages_def)
  moreover have "arb_list ?m' info ?g (A(a \<mapsto> n)) 0"
    by (rule arb_list_frame [OF ok, where Z = "{}"]) (use same fresh(3) [of 0] in \<open>auto simp: arb_enlarged_def\<close>)
  moreover have "ext_bytes e \<inter> arb_piece c k = {}" if "arb_pieces g c = Some k" for c k
    using arb_piece_props(1) [OF o(1,3) that] apart by blast
  moreover have "ext_bytes e \<inter> {info..<info + 52} = {}" using apart o(2) header_owned [of S] by blast
  ultimately show "arb_ok pmp' (insert e S) info ?g (A(a \<mapsto> n))"
    using fresh same_on_subset [OF same]
    by (intro arb_update [OF ok v' geo, where s = 0 and D = "ext_bytes e" and X = "{a}"])
      (auto simp: pmp'_def arb_enlarged_def)
qed

section \<open>Freeing a large piece\<close>

definition arb_dropped :: "arb \<Rightarrow> u32 \<times> u32 \<Rightarrow> u32 \<Rightarrow> arb" where
  "arb_dropped g e a = g\<lparr>arb_blocks := arb_blocks g - {e}, arb_pieces := (arb_pieces g)(a := None)\<rparr>"

lemma subset_UN_minus: "P \<inter> F e = {} \<Longrightarrow> P \<subseteq> (\<Union>f\<in>B. F f) \<Longrightarrow> P \<subseteq> (\<Union>f\<in>B - {e}. F f)"
  by blast

lemma arb_drop:
  assumes ok: "arb_ok pmp S info g A" and A: "A a = Some n" and n: "\<not> arb_small n"
  shows "\<exists>p pmp'. unat a = unat p * 256 \<and> prh_magic (pm_mem pmp) (unat a * 16) = PRH_MAGIC_LARGE_INUSE
    \<and> pa_mmap_free pmp p (push_bit 12 (ucast (prh_size (pm_mem pmp) (unat a * 16)))) = Some pmp'
    \<and> (p, word_of_nat (arb_pages n)) \<in> arb_blocks g
    \<and> arb_ok pmp' (S - {(p, word_of_nat (arb_pages n))}) info (arb_dropped g (p, word_of_nat (arb_pages n)) a) (A(a := None))
    \<and> same_on (owned (S - {(p, word_of_nat (arb_pages n))})) (pm_mem pmp) (pm_mem pmp')"
proof -
  note o = arb_okD [OF ok]
  from o(5) [OF A] n obtain p where lv: "n \<le> arb_max" "arb_pieces g a = Some (arb_len n)"
    "prh_magic (pm_mem pmp) (unat a * 16) = PRH_MAGIC_LARGE_INUSE"
    "unat (prh_size (pm_mem pmp) (unat a * 16)) = arb_pages n"
    and a: "unat a = unat p * 256" and p: "(p, word_of_nat (arb_pages n)) \<in> arb_blocks g"
    unfolding arb_live_piece_def arb_pages_def by auto
  note b = arb_pages_bounds [OF lv(1) n]
  let ?e = "(p, word_of_nat (arb_pages n)) :: u32 \<times> u32"
  have eS: "?e \<in> S" using p arb_geoD(1) [OF o(3)] by blast
  have cnt: "unat (word_of_nat (arb_pages n) :: u32) = arb_pages n"
    using b(2) by (simp only: unsigned_of_nat) (simp add: take_bit_nat_eq_self)
  have eb: "ext_bytes ?e = arb_piece a (arb_len n)"
    by (simp add: ext_bytes_def arb_piece_def cnt a b(3) algebra_simps)
  let ?sz = "push_bit 12 (ucast (prh_size (pm_mem pmp) (unat a * 16))) :: u32"
  have "unat ?sz = arb_pages n * 4096"
    using b(2) lv(4) by (subst unat_push_bit_less) (simp_all add: unat_ucast_up)
  then have "word_of_nat (unat ?sz) = (word_of_nat (arb_pages n * 4096) :: u32)" by (rule arg_cong)
  then have sz: "?sz = word_of_nat (arb_pages n * 4096)" by (simp only: of_nat_unat ucast_id)
  have "0 < arb_pages n * 4096" "arb_pages n * 4096 + 4096 \<le> 2 ^ 32" using b(1,2) by simp_all
  from mmp.free_total [OF o(1) _ this, of p] eS
  obtain pmp' where f: "pa_mmap_free pmp p ?sz = Some pmp'" "mm_valid pmp' (S - {?e})"
    "same_on (owned (S - {?e})) (pm_mem pmp) (pm_mem pmp')"
    unfolding sz b(4) by blast
  let ?g = "arb_dropped g ?e a"
  note g = arb_geoD [OF o(3)]
  have geo: "arb_geo (S - {?e}) ?g"
  proof -
    have pc: "arb_pieces ?g c = Some k \<Longrightarrow> c \<noteq> a \<and> arb_pieces g c = Some k" for c k
      by (auto simp: arb_dropped_def split: if_splits)
    have "arb_piece c k \<subseteq> (\<Union>f\<in>arb_blocks ?g. ext_bytes f)" if "arb_pieces ?g c = Some k" for c k
    proof -
      have "arb_piece c k \<inter> ext_bytes ?e = {}" "arb_piece c k \<subseteq> (\<Union>f\<in>arb_blocks g. ext_bytes f)"
        using g(3) [of c k] g(4) [of c k a "arb_len n"] pc [OF that] lv(2) unfolding eb by simp_all
      then have "arb_piece c k \<subseteq> (\<Union>f\<in>arb_blocks g - {?e}. ext_bytes f)" by (rule subset_UN_minus)
      then show ?thesis by (simp add: arb_dropped_def)
    qed
    moreover have "arb_blocks ?g \<subseteq> S - {?e}" using g(1) by (auto simp: arb_dropped_def)
    ultimately show ?thesis using g(2,4) pc unfolding arb_geo_def by blast
  qed
  have own: "owned S - ext_bytes ?e \<subseteq> owned (S - {?e})" by (auto simp: owned_def)
  have notin: "a \<notin> set (arb_lists g r)" if "r \<le> 12" for r using arb_in_list(3) [OF ok that] A by fastforce
  have eh: "ext_bytes ?e \<inter> {info..<info + 52} = {}"
    using arb_piece_props(2) [OF o(1,3) lv(2)] o(2) eb by blast
  have ep: "ext_bytes ?e \<inter> arb_piece c k = {}" if "arb_pieces g c = Some k" "c \<noteq> a" for c k
    unfolding eb using g(4) [OF lv(2) that(1)] that(2) by blast
  have "arb_list (pm_mem pmp') info ?g (A(a := None)) 0"
  proof (rule arb_list_frame [OF ok, where Z = "ext_bytes ?e"])
    show "same_on (owned S - ext_bytes ?e) (pm_mem pmp) (pm_mem pmp')" by (rule same_on_subset [OF f(3) own])
    show "ext_bytes ?e \<inter> {pri_free_at info 0..<pri_free_at info 0 + 4} = {}"
      using eh pri_free_range [of 0 info] by blast
    show "ext_bytes ?e \<inter> arb_piece x (2 ^ (0 + 4)) = {}" if "x \<in> set (arb_lists g 0)" for x
      by (rule ep) (use arb_in_list(1) [OF ok _ that] notin [of 0] that in auto)
    show "arb_pieces ?g x = arb_pieces g x \<and> (A(a := None)) x = A x" if "x \<in> set (arb_lists g 0)" for x
      using notin [of 0] that by (auto simp: arb_dropped_def)
  qed (simp_all add: arb_dropped_def)
  then have "arb_ok pmp' (S - {?e}) info ?g (A(a := None))"
    using notin eh ep own a
    by (intro arb_update [OF ok f(2) geo, where s = 0 and D = "ext_bytes ?e" and X = "{a}"] same_on_subset [OF f(3)])
      (auto simp: arb_dropped_def)
  with f(1,3) a p lv(3) show ?thesis by blast
qed

end
