(* ===== verification/Paarb_Ops.thy ===== *)
theory Paarb_Ops
  imports Paarb_Large
begin

text \<open>
  \<^verbatim>\<open>pa_arb_alloc\<close> and \<^verbatim>\<open>pa_arb_free_atom\<close> on allocators that satisfy the invariant: each returns,
  keeps the invariant and leaves the bytes of other owners and of the pieces in use alone.
\<close>

section \<open>The operations on a well-formed allocator\<close>

text \<open>The bytes an operation leaves alone: those of other owners and those of the pieces in use.\<close>

definition arb_outside :: "(u32 \<times> u32) set \<Rightarrow> nat \<Rightarrow> arb \<Rightarrow> (u32 \<rightharpoonup> nat) \<Rightarrow> nat set" where
  "arb_outside S info g A = (owned S - {info..<info + 52} - (\<Union>e\<in>arb_blocks g. ext_bytes e))
     \<union> {x. \<exists>b k. A b = Some k \<and> x \<in> arb_piece b (arb_len k)}"

lemma arb_live_len: "arb_ok pmp S info g A \<Longrightarrow> A a = Some n \<Longrightarrow> arb_pieces g a = Some (arb_len n) \<and> n \<le> arb_max"
  using arb_okD(5) by (fastforce simp: arb_live_piece_def)

text \<open>Taking a piece off a list, or changing it, touches none of those bytes.\<close>

lemma arb_touch_outside:
  assumes ok: "arb_ok pmp S info g A" and s: "s \<le> 12" and x: "arb_pieces g x = Some k" "A x = None"
    and same: "same_on (- ({pri_free_at info s..<pri_free_at info s + 4} \<union> arb_piece x k)) (pm_mem pmp) m'"
  shows "same_on (arb_outside S info g A) (pm_mem pmp) m'"
proof (rule same_on_subset [OF same], rule subsetI)
  note o = arb_okD [OF ok]
  note pp = arb_piece_props(1,2) [OF o(1,3)]
  fix y
  assume "y \<in> arb_outside S info g A"
  then consider "y \<notin> {info..<info + 52}" "y \<notin> (\<Union>e\<in>arb_blocks g. ext_bytes e)"
    | b l where "A b = Some l" "y \<in> arb_piece b (arb_len l)"
    unfolding arb_outside_def by blast
  then show "y \<in> - ({pri_free_at info s..<pri_free_at info s + 4} \<union> arb_piece x k)"
  proof cases
    case 1
    then show ?thesis using pri_free_range [OF s, of info] arb_geoD(3) [OF o(3) x(1)] by blast
  next
    case 2
    from arb_live_len [OF ok 2(1)] have b: "arb_pieces g b = Some (arb_len l)" by simp
    have "b \<noteq> x" using 2(1) x(2) by auto
    from arb_geoD(4) [OF o(3) b x(1) this] have "y \<notin> arb_piece x k" using 2(2) by blast
    moreover have "y \<notin> header_bytes" using pp(2) [OF b] 2(2) by blast
    ultimately show ?thesis using pri_free_range [OF s, of info] o(2) by blast
  qed
qed

definition arb_take :: "pa_mmap \<Rightarrow> nat \<Rightarrow> (pa_mmap \<times> u32) option" where
  "arb_take pmp cell = do {
     let atom = rd32 (pm_mem pmp) cell;
     if atom = 0 then Some (pmp, 0)
     else do {
       prhp \<leftarrow> pa_arb_header atom;
       let m = wr32 (pm_mem pmp) cell (prh_next_free (pm_mem pmp) prhp);
       let m = wr16 m prhp PRH_MAGIC_SMALL_INUSE;
       Some (pmp\<lparr>pm_mem := m\<rparr>, atom)
     }
   }"

lemma arb_take_ok:
  assumes ok: "arb_ok pmp S info g A" and l: "arb_lists g (arb_slot n) = x # xs"
    and n: "arb_small n" "n \<le> arb_max"
  defines "pmp' \<equiv> pmp\<lparr>pm_mem := arb_popped (pm_mem pmp) (pri_free_at info (arb_slot n)) x\<rparr>"
  shows "arb_take pmp (pri_free_at info (arb_slot n)) = Some (pmp', x)" "x \<noteq> 0" "A x = None"
    and "arb_ok pmp' S info (g\<lparr>arb_lists := (arb_lists g)(arb_slot n := xs)\<rparr>) (A(x \<mapsto> n))"
    and "same_on (arb_outside S info g A) (pm_mem pmp) (pm_mem pmp')"
proof -
  note s = arb_slot_le [OF n(1)]
  have mem: "x \<in> set (arb_lists g (arb_slot n))" by (simp add: l)
  note x = arb_in_list [OF ok s mem]
  have "rd32 (pm_mem pmp) (pri_free_at info (arb_slot n)) = x"
    using arb_okD(4) [OF ok s] by (simp add: arb_list_def l)
  with x(6) pa_arb_header_nat [OF x(4,5)] show "arb_take pmp (pri_free_at info (arb_slot n)) = Some (pmp', x)"
    by (simp add: arb_take_def pmp'_def arb_popped_def Let_def)
  show "x \<noteq> 0" "A x = None" by (rule x)+
  note pop = arb_pop [OF ok l n]
  show "arb_ok pmp' S info (g\<lparr>arb_lists := (arb_lists g)(arb_slot n := xs)\<rparr>) (A(x \<mapsto> n))"
    unfolding pmp'_def by (rule pop(1))
  show "same_on (arb_outside S info g A) (pm_mem pmp) (pm_mem pmp')"
    using arb_touch_outside [OF ok s x(1,3) pop(2)] by (simp add: pmp'_def)
qed

text \<open>What a successful allocation does, seen from outside.\<close>

definition arb_got ::
  "pa_mmap \<Rightarrow> (u32 \<times> u32) set \<Rightarrow> nat \<Rightarrow> arb \<Rightarrow> (u32 \<rightharpoonup> nat) \<Rightarrow> nat \<Rightarrow> pa_mmap \<Rightarrow> u32 \<Rightarrow> bool" where
  "arb_got pmp S info g A n pmp' a \<longleftrightarrow> a \<noteq> 0 \<and> A a = None
     \<and> (\<exists>S' g'. arb_ok pmp' S' info g' (A(a \<mapsto> n)) \<and> S \<subseteq> S'
        \<and> (\<Union>e\<in>arb_blocks g'. ext_bytes e) \<inter> owned S \<subseteq> (\<Union>e\<in>arb_blocks g. ext_bytes e))
     \<and> same_on (arb_outside S info g A) (pm_mem pmp) (pm_mem pmp')"

lemma pa_arb_alloc_small:
  assumes ok: "arb_ok pmp S info g A" and n: "arb_small n" "n \<le> arb_max"
    and prp: "pr_infop prp = Some info" and room: "mm_room pmp (2 * n + 8192)"
  shows "pa_arb_alloc os pmp prp n = Some (pmp, 0)
    \<or> (\<exists>pmp' a. pa_arb_alloc os pmp prp n = Some (pmp', a) \<and> arb_got pmp S info g A n pmp' a)"
proof -
  note o = arb_okD [OF ok]
  let ?slot = "pa_arb_slot (n + 4)" and ?cell = "pri_free_at info (arb_slot n)"
  have le: "n + 4 \<le> 2 ^ 32" using n(2) by (simp add: arb_max_def)
  then have small: "?slot \<le> PA_ARB_MAX_POW2" using pa_arb_slot_small [of "n + 4"] n(1) by (simp add: arb_small_def)
  have us: "unat ?slot = arb_slot n" by (simp add: arb_slot_def)
  note s = arb_slot_le [OF n(1)]
  have "n + 4 < 2 ^ 64" using le by simp
  then have eq: "pa_arb_alloc os pmp prp n = do {
      pmp \<leftarrow> (if rd32 (pm_mem pmp) ?cell = 0 then pa_arb_make_page os pmp info ?slot else Some pmp);
      arb_take pmp ?cell }"
    using small by (simp add: pa_arb_alloc_def Let_def sizeof_pa_arb_header_def prp us arb_take_def)
  show ?thesis
  proof (cases "arb_lists g (arb_slot n)")
    case (Cons x xs)
    note t = arb_take_ok [OF ok Cons n]
    have "rd32 (pm_mem pmp) ?cell = x" using o(4) [OF s] by (simp add: arb_list_def Cons)
    then have "pa_arb_alloc os pmp prp n = arb_take pmp ?cell" using t(2) by (simp add: eq)
    then show ?thesis unfolding arb_got_def using t
      by (intro disjI2 exI conjI) (auto intro!: exI [of _ S] exI)
  next
    case Nil
    have z: "rd32 (pm_mem pmp) ?cell = 0" using o(4) [OF s] by (simp add: arb_list_def Nil)
    then have eq: "pa_arb_alloc os pmp prp n = do {
        pmp \<leftarrow> pa_arb_make_page os pmp info ?slot; arb_take pmp ?cell }" by (simp add: eq)
    have "pa_arb_slot_to_size ?slot \<le> 2 * n + 8192"
      using arb_len_bounds(3) [OF n(2)] n(1) s
      by (simp add: pa_arb_slot_to_size_nat us arb_len_def)
    with room have "mm_room pmp (pa_arb_slot_to_size ?slot)" by (simp add: mm_room_def)
    from arb_make_page [OF ok _ this, of os] s us
    consider "pa_arb_make_page os pmp info ?slot = Some pmp"
      | pmp2 e x xs where "pa_arb_make_page os pmp info ?slot = Some pmp2"
        "arb_ok pmp2 (insert e S) info (arb_paged g e (arb_slot n) (x # xs)) A"
        "ext_bytes e \<inter> owned S = {}" "same_on (owned S - {?cell..<?cell + 4}) (pm_mem pmp) (pm_mem pmp2)"
      by fastforce
    then show ?thesis
    proof cases
      case 1
      with z show ?thesis by (simp add: eq arb_take_def)
    next
      case 2
      let ?g = "arb_paged g e (arb_slot n) (x # xs)"
      have l: "arb_lists ?g (arb_slot n) = x # xs" by (simp add: arb_paged_def)
      note t = arb_take_ok [OF 2(2) l n]
      let ?pmp' = "pmp2\<lparr>pm_mem := arb_popped (pm_mem pmp2) ?cell x\<rparr>"
      have r: "pa_arb_alloc os pmp prp n = Some (?pmp', x)" by (simp add: eq 2(1) t(1))
      have C: "{?cell..<?cell + 4} \<subseteq> {info..<info + 52}" by (rule pri_free_range [OF s])
      have live: "arb_piece b (arb_len k) \<subseteq> owned S - {info..<info + 52}" if "A b = Some k" for b k
        using arb_piece_props(1,2) [OF o(1,3)] arb_live_len [OF ok that] o(2) by blast
      have "arb_outside S info g A \<subseteq> owned S - {?cell..<?cell + 4}"
        using C live unfolding arb_outside_def by blast
      then have "same_on (arb_outside S info g A) (pm_mem pmp) (pm_mem pmp2)" by (rule same_on_subset [OF 2(4)])
      moreover have "arb_outside S info g A \<subseteq> arb_outside (insert e S) info ?g A"
        using 2(3) unfolding arb_outside_def by (auto simp: arb_paged_def owned_def)
      then have "same_on (arb_outside S info g A) (pm_mem pmp2) (pm_mem ?pmp')" by (rule same_on_subset [OF t(5)])
      ultimately have same: "same_on (arb_outside S info g A) (pm_mem pmp) (pm_mem ?pmp')" by (rule same_on_trans)
      have "arb_got pmp S info g A n ?pmp' x"
        unfolding arb_got_def using t(2,3,4) same 2(3)
        by (intro conjI exI [of _ "insert e S"] exI [of _ "?g\<lparr>arb_lists := (arb_lists ?g)(arb_slot n := xs)\<rparr>"])
          (auto simp: arb_paged_def)
      with r show ?thesis by blast
    qed
  qed
qed

lemma pa_arb_alloc_large:
  assumes ok: "arb_ok pmp S info g A" and n: "\<not> arb_small n" "n \<le> arb_max"
    and room: "mm_room pmp (2 * n + 8192)"
  shows "pa_arb_alloc os pmp prp n = Some (pmp, 0)
    \<or> (\<exists>pmp' a. pa_arb_alloc os pmp prp n = Some (pmp', a) \<and> arb_got pmp S info g A n pmp' a)"
proof -
  note o = arb_okD [OF ok]
  note b = arb_pages_bounds [OF n(2,1)]
  let ?sz = "arb_pages n * 4096"
  have le: "n + 4 \<le> 2 ^ 32" "n + 4 < PA_ARB_MAX_LARGE" "n + 4 < 2 ^ 64"
    using n(2) by (simp_all add: arb_max_def PA_ARB_MAX_LARGE_def)
  then have big: "\<not> pa_arb_slot (n + 4) \<le> PA_ARB_MAX_POW2" using pa_arb_slot_small [of "n + 4"] b(6) by simp
  have q: "arb_pages n * 4096 div 2 ^ unat (12 :: u8) = arb_pages n" by simp
  have eq: "pa_arb_alloc os pmp prp n = do {
        (pmp, matom) \<leftarrow> pa_mmap_alloc os pmp ?sz;
        if matom = 0 then Some (pmp, 0)
        else do {
          let atom = push_bit 8 matom;
          prhp \<leftarrow> pa_arb_header atom;
          let m = wr16 (pm_mem pmp) prhp PRH_MAGIC_LARGE_INUSE;
          let m = wr16 m (prhp + 2) (word_of_nat (arb_pages n));
          Some (pmp\<lparr>pm_mem := m\<rparr>, atom)
        }
      }"
    unfolding pa_arb_alloc_def Let_def sizeof_pa_arb_header_def mod_less [OF le(3)] if_not_P [OF big] if_P [OF le(2)]
      arb_large_round [OF n(2,1)] PA_ARB_OFFSET_SHIFT_def PA_MMAP_ATOM_SHIFT_def q by (rule refl)
  have "?sz \<le> 2 * n + 8192" using arb_len_bounds(3) [OF n(2)] b(3) by simp
  with room have r: "mm_room pmp ?sz" by (simp add: mm_room_def)
  have pos: "0 < ?sz" using b(1) by simp
  from mm.alloc_total [OF o(1) pos r, of os] show ?thesis unfolding b(4)
  proof (elim disjE exE conjE)
    assume "pa_mmap_alloc os pmp ?sz = Some (pmp, 0)"
    then show ?thesis by (simp add: eq)
  next
    fix pmp2 p
    assume al: "pa_mmap_alloc os pmp ?sz = Some (pmp2, p)" "p \<noteq> 0"
      and new: "(p, word_of_nat (arb_pages n)) \<notin> S"
      and v2: "mm_valid pmp2 (insert (p, word_of_nat (arb_pages n)) S)"
      and same2: "same_on (owned S) (pm_mem pmp) (pm_mem pmp2)"
    let ?e = "(p, word_of_nat (arb_pages n)) :: u32 \<times> u32" and ?a = "push_bit 8 p"
    let ?pmp' = "pmp2\<lparr>pm_mem := arb_large_mem (pm_mem pmp2) ?a n\<rparr>"
    note l = arb_enlarged_ok [OF ok n(2,1) v2 new same2]
    have "pa_arb_alloc os pmp prp n = Some (?pmp', ?a)"
      by (simp add: eq al pa_arb_header_nat [OF l(2,3)] arb_large_mem_def Let_def)
    moreover have "?a \<noteq> 0" using l(2) by (intro notI) simp
    moreover have "arb_outside S info g A \<subseteq> owned S"
      using arb_piece_props(1) [OF o(1,3)] arb_live_len [OF ok] unfolding arb_outside_def by blast
    then have "same_on (arb_outside S info g A) (pm_mem pmp) (pm_mem ?pmp')" by (rule same_on_subset [OF l(6)])
    ultimately have "pa_arb_alloc os pmp prp n = Some (?pmp', ?a)" "arb_got pmp S info g A n ?pmp' ?a"
      unfolding arb_got_def using l(1,4,5)
      by (auto intro!: exI [of _ "insert ?e S"] exI [of _ "arb_enlarged g ?e ?a (arb_len n)"] simp: arb_enlarged_def)
    then show ?thesis by blast
  qed
qed

lemma pa_arb_free_ok:
  assumes ok: "arb_ok pmp S info g A" and A: "A a = Some n" and prp: "pr_infop prp = Some info"
  shows "\<exists>pmp' S' g'. pa_arb_free_atom pmp prp a = Some pmp' \<and> arb_ok pmp' S' info g' (A(a := None))
    \<and> arb_blocks g' \<subseteq> arb_blocks g \<and> S' \<subseteq> S \<and> S - S' \<subseteq> arb_blocks g
    \<and> same_on (arb_outside S info g (A(a := None))) (pm_mem pmp) (pm_mem pmp')"
proof -
  note o = arb_okD [OF ok]
  note l = arb_live_len [OF ok A]
  from l have k: "arb_pieces g a = Some (arb_len n)" by simp
  note pp = arb_piece_props [OF o(1,3) k]
  have eq: "pa_arb_free_atom pmp prp a = pa_arb_free_atom_addr pmp prp a (unat a * 16 + 4)"
    using pp(5) by (simp add: pa_arb_free_atom_def pa_arb_atom_addr_nat [OF pp(3,4)])
  note lv = o(5) [OF A]
  note defs = pa_arb_free_atom_addr_def Let_def sizeof_pa_arb_header_def
  have magics: "PRH_MAGIC_LARGE_INUSE \<noteq> PRH_MAGIC_SMALL_INUSE" "PRH_MAGIC_LARGE_INUSE \<noteq> PRH_MAGIC_SMALL_FREE"
    by (simp_all add: PRH_MAGIC_LARGE_INUSE_def PRH_MAGIC_SMALL_INUSE_def PRH_MAGIC_SMALL_FREE_def)
  show ?thesis
  proof (cases "arb_small n")
    case True
    note s = arb_slot_le [OF True]
    note push = arb_push [OF ok A True]
    let ?g = "g\<lparr>arb_lists := (arb_lists g)(arb_slot n := a # arb_lists g (arb_slot n))\<rparr>"
    let ?pmp' = "pmp\<lparr>pm_mem := arb_pushed (pm_mem pmp) (pri_free_at info (arb_slot n)) a\<rparr>"
    have "unat (word_of_nat (arb_slot n) :: u8) = arb_slot n"
      using s by (simp only: unsigned_of_nat) (simp add: take_bit_nat_eq_self)
    with lv True prp have "pa_arb_free_atom pmp prp a = Some ?pmp'"
      unfolding eq by (simp add: defs arb_live_piece_def arb_pushed_def)
    moreover have "arb_len n = 2 ^ (arb_slot n + 4)" using True by (simp add: arb_len_def)
    then have "same_on (arb_outside S info g (A(a := None))) (pm_mem pmp) (pm_mem ?pmp')"
    proof -
      assume len: "arb_len n = 2 ^ (arb_slot n + 4)"
      have apart: "arb_piece b (arb_len m) \<inter> arb_piece a (arb_len n) = {}" "arb_piece b (arb_len m) \<inter> header_bytes = {}"
        if "A b = Some m" "b \<noteq> a" for b m
        using arb_live_len [OF ok that(1)] arb_geoD(4) [OF o(3) _ k that(2)] arb_piece_props(2) [OF o(1,3)] by blast+
      have "arb_outside S info g (A(a := None))
          \<subseteq> - ({pri_free_at info (arb_slot n)..<pri_free_at info (arb_slot n) + 4} \<union> arb_piece a (arb_len n))"
      proof
        fix y
        assume "y \<in> arb_outside S info g (A(a := None))"
        then consider "y \<notin> {info..<info + 52}" "y \<notin> (\<Union>e\<in>arb_blocks g. ext_bytes e)"
          | b m where "A b = Some m" "b \<noteq> a" "y \<in> arb_piece b (arb_len m)"
          unfolding arb_outside_def by (auto split: if_splits)
        then show "y \<in> - ({pri_free_at info (arb_slot n)..<pri_free_at info (arb_slot n) + 4} \<union> arb_piece a (arb_len n))"
        proof cases
          case 1
          then show ?thesis using pri_free_range [OF s, of info] arb_geoD(3) [OF o(3) k] by blast
        next
          case 2
          then show ?thesis using pri_free_range [OF s, of info] o(2) apart [OF 2(1,2)] by blast
        qed
      qed
      with same_on_subset [OF push(2)] show ?thesis by (simp add: len)
    qed
    ultimately show ?thesis using push(1)
      by (intro exI [of _ ?pmp'] exI [of _ S] exI [of _ ?g] conjI) auto
  next
    case False
    from arb_drop [OF ok A False] obtain p pmp' where d: "unat a = unat p * 256"
      "prh_magic (pm_mem pmp) (unat a * 16) = PRH_MAGIC_LARGE_INUSE"
      "pa_mmap_free pmp p (push_bit 12 (ucast (prh_size (pm_mem pmp) (unat a * 16)))) = Some pmp'"
      "(p, word_of_nat (arb_pages n)) \<in> arb_blocks g"
      "arb_ok pmp' (S - {(p, word_of_nat (arb_pages n))}) info (arb_dropped g (p, word_of_nat (arb_pages n)) a) (A(a := None))"
      "same_on (owned (S - {(p, word_of_nat (arb_pages n))})) (pm_mem pmp) (pm_mem pmp')"
      by (elim exE conjE) (rule that)
    let ?e = "(p, word_of_nat (arb_pages n)) :: u32 \<times> u32"
    have "unat (drop_bit 8 a) = unat p" using d(1) by (simp add: unat_drop_bit_div)
    then have "drop_bit 8 a = p" by (simp only: word_unat_eq_iff)
    then have "pa_arb_free_atom pmp prp a = Some pmp'"
      unfolding eq using d(2,3) magics by (simp add: defs PA_ARB_OFFSET_SHIFT_def PA_MMAP_ATOM_SHIFT_def)
    moreover have "arb_outside S info g (A(a := None)) \<subseteq> owned (S - {?e})"
    proof
      fix y
      assume y: "y \<in> arb_outside S info g (A(a := None))"
      note ok' = arb_okD [OF d(5)]
      from y consider "y \<in> owned S" "y \<notin> (\<Union>e\<in>arb_blocks g. ext_bytes e)"
        | b m where "(A(a := None)) b = Some m" "y \<in> arb_piece b (arb_len m)"
        unfolding arb_outside_def by blast
      then show "y \<in> owned (S - {?e})"
      proof cases
        case 1
        then show ?thesis using d(4) by (auto simp: owned_def)
      next
        case 2
        then show ?thesis using arb_piece_props(1) [OF ok'(1,3)] arb_live_len [OF d(5) 2(1)] by blast
      qed
    qed
    then have "same_on (arb_outside S info g (A(a := None))) (pm_mem pmp) (pm_mem pmp')" by (rule same_on_subset [OF d(6)])
    moreover have "arb_blocks (arb_dropped g ?e a) \<subseteq> arb_blocks g" "S - (S - {?e}) \<subseteq> arb_blocks g"
      using d(4) by (auto simp: arb_dropped_def)
    ultimately show ?thesis using d(5)
      by (intro exI [of _ pmp'] exI [of _ "S - {?e}"] exI [of _ "arb_dropped g ?e a"] conjI) simp_all
  qed
qed

end
