(* ===== verification/Paarb_Iface.thy ===== *)
theory Paarb_Iface
  imports Paarb_Ops
begin

text \<open>
  The contract of \<^verbatim>\<open>parrotdb/paarb.c\<close> as an interface: a pool of pieces of any size, what a client of
  it knows about the bytes of its pieces, and its interpretation by the functions of the code.
\<close>

section \<open>A pool of pieces as an interface\<close>

definition piece_bytes :: "(u32 \<Rightarrow> nat option) \<Rightarrow> (u32 \<rightharpoonup> nat) \<Rightarrow> nat set" where
  "piece_bytes addr A = {x. \<exists>a n p. A a = Some n \<and> addr a = Some p \<and> p \<le> x \<and> x < p + n}"

text \<open>
  \<open>inv s E A\<close>: \<open>A\<close> maps the pieces in use to the sizes they were asked for, and the bytes of \<open>E\<close>,
  which belong to other structures, are clear of the pool.
\<close>

locale byte_pool =
  fixes alloc :: "'s \<Rightarrow> nat \<Rightarrow> ('s \<times> u32) option"
    and free :: "'s \<Rightarrow> u32 \<Rightarrow> 's option"
    and addr :: "u32 \<Rightarrow> nat option"
    and mem_of :: "'s \<Rightarrow> mem"
    and put_mem :: "'s \<Rightarrow> mem \<Rightarrow> 's"
    and inv :: "'s \<Rightarrow> nat set \<Rightarrow> (u32 \<rightharpoonup> nat) \<Rightarrow> bool"
    and room :: "'s \<Rightarrow> nat \<Rightarrow> bool"
  assumes alloc_total: "inv s E A \<Longrightarrow> room s n \<Longrightarrow> alloc s n = Some (s, 0) \<or>
      (\<exists>s' a. alloc s n = Some (s', a) \<and> a \<noteq> 0 \<and> A a = None \<and> inv s' E (A(a \<mapsto> n))
        \<and> same_on (E \<union> piece_bytes addr A) (mem_of s) (mem_of s'))"
    and live: "inv s E A \<Longrightarrow> A a = Some n \<Longrightarrow> a \<noteq> 0 \<and> (\<exists>p. addr a = Some p \<and> {p..<p + n} \<inter> E = {})"
    and apart: "inv s E A \<Longrightarrow> A a = Some n \<Longrightarrow> A b = Some k \<Longrightarrow> a \<noteq> b \<Longrightarrow> addr a = Some p \<Longrightarrow> addr b = Some q
      \<Longrightarrow> p + n \<le> q \<or> q + k \<le> p"
    and free_total: "inv s E A \<Longrightarrow> A a = Some n \<Longrightarrow> \<exists>s'. free s a = Some s' \<and> inv s' E (A(a := None))
        \<and> same_on (E \<union> piece_bytes addr (A(a := None))) (mem_of s) (mem_of s')"
    and write_ok: "inv s E A \<Longrightarrow> same_on (- (E \<union> piece_bytes addr A)) (mem_of s) m \<Longrightarrow> inv (put_mem s m) E A"
    and mem_put: "mem_of (put_mem s m) = m"

text \<open>What a client knows: the bytes it has put into each piece it holds.\<close>

definition pool_view :: "('s \<Rightarrow> nat set \<Rightarrow> (u32 \<rightharpoonup> nat) \<Rightarrow> bool) \<Rightarrow> (u32 \<Rightarrow> nat option) \<Rightarrow> ('s \<Rightarrow> mem)
    \<Rightarrow> 's \<Rightarrow> nat set \<Rightarrow> (u32 \<rightharpoonup> u8 list) \<Rightarrow> bool" where
  "pool_view ok addr mem_of s E H \<longleftrightarrow> (\<exists>A. ok s E A \<and> dom A = dom H
     \<and> (\<forall>a bs. H a = Some bs \<longrightarrow> (\<exists>n p. A a = Some n \<and> length bs \<le> n \<and> addr a = Some p
          \<and> rd_bytes (mem_of s) p (length bs) = bs)))"

lemma rd_bytes_len: "length (rd_bytes m p n) = n"
  by (simp add: rd_bytes_def)

context byte_pool begin

lemma view_kept:
  assumes "\<And>a bs. H a = Some bs \<Longrightarrow> \<exists>n p. A a = Some n \<and> length bs \<le> n \<and> addr a = Some p
          \<and> rd_bytes (mem_of s) p (length bs) = bs"
    and "same_on (piece_bytes addr A) (mem_of s) m" and "H a = Some bs"
  shows "\<exists>n p. A a = Some n \<and> length bs \<le> n \<and> addr a = Some p \<and> rd_bytes m p (length bs) = bs"
proof -
  from assms(1) [OF assms(3)] obtain n p where n: "A a = Some n" "length bs \<le> n" "addr a = Some p"
    "rd_bytes (mem_of s) p (length bs) = bs" by blast
  have "rd_bytes m p (length bs) = rd_bytes (mem_of s) p (length bs)"
    by (rule rd_bytes_same [OF assms(2)]) (use n(1-3) in \<open>fastforce simp: piece_bytes_def\<close>)
  with n show ?thesis by simp
qed

lemma view_alloc:
  assumes v: "pool_view inv addr mem_of s E H" and r: "room s n"
  shows "alloc s n = Some (s, 0) \<or> (\<exists>s' a p. alloc s n = Some (s', a) \<and> a \<noteq> 0 \<and> H a = None \<and> addr a = Some p
    \<and> same_on E (mem_of s) (mem_of s') \<and> (\<forall>k\<le>n. pool_view inv addr mem_of s' E (H(a \<mapsto> rd_bytes (mem_of s') p k))))"
proof -
  obtain A where A: "inv s E A" "dom A = dom H"
    and h: "\<And>a bs. H a = Some bs \<Longrightarrow> \<exists>n p. A a = Some n \<and> length bs \<le> n \<and> addr a = Some p
          \<and> rd_bytes (mem_of s) p (length bs) = bs" using v unfolding pool_view_def by blast
  from alloc_total [OF A(1) r] show ?thesis
  proof (elim disjE exE conjE)
    fix s' a
    assume a: "alloc s n = Some (s', a)" "a \<noteq> 0" "A a = None" "inv s' E (A(a \<mapsto> n))"
      and same: "same_on (E \<union> piece_bytes addr A) (mem_of s) (mem_of s')"
    from live [OF a(4), of a n] obtain p where p: "addr a = Some p" by auto
    have kept: "same_on (piece_bytes addr A) (mem_of s) (mem_of s')" by (rule same_on_subset [OF same]) blast
    have "pool_view inv addr mem_of s' E (H(a \<mapsto> rd_bytes (mem_of s') p k))" if "k \<le> n" for k
      unfolding pool_view_def using a(4) A(2) p that view_kept [OF h kept] a(3)
      by (intro exI [of _ "A(a \<mapsto> n)"]) (auto simp: rd_bytes_len)
    moreover have "H a = None" using a(3) A(2) by blast
    moreover have "same_on E (mem_of s) (mem_of s')" by (rule same_on_subset [OF same]) blast
    ultimately show ?thesis using a(1,2) p by blast
  qed simp
qed

lemma view_free:
  assumes v: "pool_view inv addr mem_of s E H" and a: "H a = Some bs"
  shows "\<exists>s'. free s a = Some s' \<and> pool_view inv addr mem_of s' E (H(a := None)) \<and> same_on E (mem_of s) (mem_of s')"
proof -
  obtain A where A: "inv s E A" "dom A = dom H"
    and h: "\<And>a bs. H a = Some bs \<Longrightarrow> \<exists>n p. A a = Some n \<and> length bs \<le> n \<and> addr a = Some p
          \<and> rd_bytes (mem_of s) p (length bs) = bs" using v unfolding pool_view_def by blast
  from h [OF a] obtain n where n: "A a = Some n" by blast
  from free_total [OF A(1) n] obtain s' where s': "free s a = Some s'" "inv s' E (A(a := None))"
    "same_on (E \<union> piece_bytes addr (A(a := None))) (mem_of s) (mem_of s')" by blast
  have kept: "same_on (piece_bytes addr (A(a := None))) (mem_of s) (mem_of s')"
    by (rule same_on_subset [OF s'(3)]) blast
  have h': "\<exists>n p. (A(a := None)) b = Some n \<and> length cs \<le> n \<and> addr b = Some p
      \<and> rd_bytes (mem_of s) p (length cs) = cs" if "(H(a := None)) b = Some cs" for b cs
    using h [of b cs] that by (auto split: if_splits)
  have "pool_view inv addr mem_of s' E (H(a := None))"
    unfolding pool_view_def using s'(2) A(2) view_kept [OF h' kept]
    by (intro exI [of _ "A(a := None)"] conjI allI impI) auto
  moreover have "same_on E (mem_of s) (mem_of s')" by (rule same_on_subset [OF s'(3)]) blast
  ultimately show ?thesis using s'(1) by blast
qed

lemma view_write:
  assumes v: "pool_view inv addr mem_of s E H" and a: "H a = Some bs" and len: "length cs = length bs"
  shows "\<exists>p. addr a = Some p \<and> same_on E (mem_of s) (wr_bytes (mem_of s) p cs)
    \<and> pool_view inv addr mem_of (put_mem s (wr_bytes (mem_of s) p cs)) E (H(a \<mapsto> cs))"
proof -
  obtain A where A: "inv s E A" "dom A = dom H"
    and h: "\<And>a bs. H a = Some bs \<Longrightarrow> \<exists>n p. A a = Some n \<and> length bs \<le> n \<and> addr a = Some p
          \<and> rd_bytes (mem_of s) p (length bs) = bs" using v unfolding pool_view_def by blast
  from h [OF a] obtain n p where n: "A a = Some n" "length bs \<le> n" "addr a = Some p" by blast
  let ?m = "wr_bytes (mem_of s) p cs"
  have out: "same_on (- {p..<p + n}) (mem_of s) ?m"
    by (rule same_onI, rule wr_bytes_outside) (use n(2) len in auto)
  have "{p..<p + n} \<subseteq> piece_bytes addr A"
    unfolding piece_bytes_def by (intro subsetI CollectI exI conjI) (use n(1,3) in auto)
  then have "same_on (- (E \<union> piece_bytes addr A)) (mem_of s) ?m" by (intro same_on_subset [OF out]) blast
  then have inv: "inv (put_mem s ?m) E A" by (rule write_ok [OF A(1)])
  have "{p..<p + n} \<inter> E = {}" using live [OF A(1) n(1)] n(3) by auto
  then have E: "same_on E (mem_of s) ?m" by (intro same_on_subset [OF out]) blast
  have "\<exists>k q. A b = Some k \<and> length ds \<le> k \<and> addr b = Some q \<and> rd_bytes ?m q (length ds) = ds"
    if b: "(H(a \<mapsto> cs)) b = Some ds" for b ds
  proof (cases "b = a")
    case True
    with b n len rd_wr_bytes_same [of "mem_of s" p ds] show ?thesis by simp
  next
    case False
    with b h [of b ds] obtain k q where k: "A b = Some k" "length ds \<le> k" "addr b = Some q"
      "rd_bytes (mem_of s) q (length ds) = ds" by auto
    from apart [OF A(1) n(1) k(1) _ n(3) k(3)] False have "p + n \<le> q \<or> q + k \<le> p" by blast
    then have "rd_bytes ?m q (length ds) = rd_bytes (mem_of s) q (length ds)"
      by (intro rd_bytes_same [OF out]) (use k(2) in auto)
    with k show ?thesis by simp
  qed
  then have "pool_view inv addr mem_of (put_mem s ?m) E (H(a \<mapsto> cs))"
    unfolding pool_view_def mem_put using inv A(2) a
    by (intro exI [of _ A] conjI allI impI) auto
  with n(3) E show ?thesis by blast
qed

lemma view_apart:
  assumes v: "pool_view inv addr mem_of s E H" and a: "H a = Some bs" "H b = Some cs" "a \<noteq> b"
  shows "\<exists>p q. addr a = Some p \<and> addr b = Some q \<and> (p + length bs \<le> q \<or> q + length cs \<le> p)"
proof -
  obtain A where A: "inv s E A" "dom A = dom H"
    and h: "\<And>a bs. H a = Some bs \<Longrightarrow> \<exists>n p. A a = Some n \<and> length bs \<le> n \<and> addr a = Some p
          \<and> rd_bytes (mem_of s) p (length bs) = bs" using v unfolding pool_view_def by blast
  from h [OF a(1)] obtain n p where n: "A a = Some n" "length bs \<le> n" "addr a = Some p" by blast
  from h [OF a(2)] obtain k q where k: "A b = Some k" "length cs \<le> k" "addr b = Some q" by blast
  from apart [OF A(1) n(1) k(1) a(3) n(3) k(3)] n k show ?thesis by auto
qed

end

section \<open>The allocator of the code provides the interface\<close>

definition arb_pool :: "pa_arb \<Rightarrow> pa_mmap \<Rightarrow> nat set \<Rightarrow> (u32 \<rightharpoonup> nat) \<Rightarrow> bool" where
  "arb_pool prp pmp E A \<longleftrightarrow> (\<exists>S info g. pr_infop prp = Some info \<and> arb_ok pmp S info g A \<and> E \<subseteq> owned S
     \<and> E \<inter> ((\<Union>e\<in>arb_blocks g. ext_bytes e) \<union> {info..<info + 52}) = {})"

definition arb_room :: "pa_mmap \<Rightarrow> nat \<Rightarrow> bool" where
  "arb_room pmp n \<longleftrightarrow> n \<le> arb_max \<and> mm_room pmp (2 * n + 8192)"

lemma arb_user_bytes:
  assumes ok: "arb_ok pmp S info g A" and A: "A a = Some n"
  shows "pa_arb_atom_addr a = Some (unat a * 16 + 4)" "a \<noteq> 0"
    and "{unat a * 16 + 4..<unat a * 16 + 4 + n} \<subseteq> arb_piece a (arb_len n)"
    and "arb_piece a (arb_len n) \<subseteq> (\<Union>e\<in>arb_blocks g. ext_bytes e)"
proof -
  note o = arb_okD [OF ok]
  from arb_live_len [OF ok A] have k: "arb_pieces g a = Some (arb_len n)" "n \<le> arb_max" by simp_all
  note pp = arb_piece_props [OF o(1,3) k(1)]
  show "pa_arb_atom_addr a = Some (unat a * 16 + 4)" by (rule pa_arb_atom_addr_nat [OF pp(3,4)])
  show "a \<noteq> 0" by (rule pp(5))
  show "{unat a * 16 + 4..<unat a * 16 + 4 + n} \<subseteq> arb_piece a (arb_len n)"
    using arb_len_bounds(1) [OF k(2)] by (auto simp: arb_piece_def)
  show "arb_piece a (arb_len n) \<subseteq> (\<Union>e\<in>arb_blocks g. ext_bytes e)" by (rule arb_geoD(3) [OF o(3) k(1)])
qed

lemma piece_bytes_in:
  assumes "arb_ok pmp S info g A" "x \<in> piece_bytes pa_arb_atom_addr A"
  shows "\<exists>a n. A a = Some n \<and> x \<in> arb_piece a (arb_len n) \<and> unat a * 16 + 4 \<le> x"
proof -
  from assms(2) obtain a n p where a: "A a = Some n" "pa_arb_atom_addr a = Some p" "p \<le> x" "x < p + n"
    unfolding piece_bytes_def by blast
  note u = arb_user_bytes [OF assms(1) a(1)]
  from u(1) a(2) have "p = unat a * 16 + 4" by simp
  with a(3,4) u(3) have "x \<in> arb_piece a (arb_len n)" "unat a * 16 + 4 \<le> x" by auto
  with a(1) show ?thesis by blast
qed

lemma arb_outside_client:
  assumes "arb_ok pmp S info g A" "E \<subseteq> owned S" "E \<inter> ((\<Union>e\<in>arb_blocks g. ext_bytes e) \<union> {info..<info + 52}) = {}"
    and "\<And>a n. B a = Some n \<Longrightarrow> A a = Some n"
  shows "E \<union> piece_bytes pa_arb_atom_addr B \<subseteq> arb_outside S info g B"
proof -
  have "x \<in> arb_outside S info g B" if x: "x \<in> piece_bytes pa_arb_atom_addr B" for x
  proof -
    from x obtain a n p where a: "B a = Some n" "pa_arb_atom_addr a = Some p" "p \<le> x" "x < p + n"
      unfolding piece_bytes_def by blast
    note u = arb_user_bytes [OF assms(1) assms(4) [OF a(1)]]
    from u(1) a(2) have "p = unat a * 16 + 4" by simp
    with a(3,4) u(3) have "x \<in> arb_piece a (arb_len n)" by auto
    with a(1) show ?thesis unfolding arb_outside_def by blast
  qed
  moreover have "E \<subseteq> arb_outside S info g B" using assms(2,3) unfolding arb_outside_def by blast
  ultimately show ?thesis by blast
qed

lemma arb_pool_alloc:
  assumes p: "arb_pool prp pmp E A" and r: "arb_room pmp n"
  shows "pa_arb_alloc os pmp prp n = Some (pmp, 0) \<or>
      (\<exists>pmp' a. pa_arb_alloc os pmp prp n = Some (pmp', a) \<and> a \<noteq> 0 \<and> A a = None \<and> arb_pool prp pmp' E (A(a \<mapsto> n))
        \<and> same_on (E \<union> piece_bytes pa_arb_atom_addr A) (pm_mem pmp) (pm_mem pmp'))"
proof -
  from p obtain S info g where prp: "pr_infop prp = Some info" and ok: "arb_ok pmp S info g A" and E: "E \<subseteq> owned S"
    and d: "E \<inter> ((\<Union>e\<in>arb_blocks g. ext_bytes e) \<union> {info..<info + 52}) = {}" unfolding arb_pool_def by blast
  have n: "n \<le> arb_max" "mm_room pmp (2 * n + 8192)" using r by (simp_all add: arb_room_def)
  have "pa_arb_alloc os pmp prp n = Some (pmp, 0)
    \<or> (\<exists>pmp' a. pa_arb_alloc os pmp prp n = Some (pmp', a) \<and> arb_got pmp S info g A n pmp' a)"
    using pa_arb_alloc_small [OF ok _ n(1) prp n(2), of os] pa_arb_alloc_large [OF ok _ n, of os prp] by blast
  then show ?thesis
  proof (elim disjE exE conjE)
    fix pmp' a
    assume al: "pa_arb_alloc os pmp prp n = Some (pmp', a)" and got: "arb_got pmp S info g A n pmp' a"
    from got obtain S' g' where a: "a \<noteq> 0" "A a = None" and ok': "arb_ok pmp' S' info g' (A(a \<mapsto> n))" and S': "S \<subseteq> S'"
      and bl: "(\<Union>e\<in>arb_blocks g'. ext_bytes e) \<inter> owned S \<subseteq> (\<Union>e\<in>arb_blocks g. ext_bytes e)"
      and same: "same_on (arb_outside S info g A) (pm_mem pmp) (pm_mem pmp')"
      unfolding arb_got_def by blast
    have "E \<subseteq> owned S'" using E S' unfolding owned_def by blast
    moreover have "E \<inter> ((\<Union>e\<in>arb_blocks g'. ext_bytes e) \<union> {info..<info + 52}) = {}" using E d bl by blast
    ultimately have "arb_pool prp pmp' E (A(a \<mapsto> n))" using prp ok' unfolding arb_pool_def by blast
    with al a same_on_subset [OF same arb_outside_client [OF ok E d]] show ?thesis by blast
  qed simp
qed

lemma arb_pool_free:
  assumes p: "arb_pool prp pmp E A" and A: "A a = Some n"
  shows "\<exists>pmp'. pa_arb_free_atom pmp prp a = Some pmp' \<and> arb_pool prp pmp' E (A(a := None))
        \<and> same_on (E \<union> piece_bytes pa_arb_atom_addr (A(a := None))) (pm_mem pmp) (pm_mem pmp')"
proof -
  from p obtain S info g where prp: "pr_infop prp = Some info" and ok: "arb_ok pmp S info g A" and E: "E \<subseteq> owned S"
    and d: "E \<inter> ((\<Union>e\<in>arb_blocks g. ext_bytes e) \<union> {info..<info + 52}) = {}" unfolding arb_pool_def by blast
  from pa_arb_free_ok [OF ok A prp] obtain pmp' S' g' where f: "pa_arb_free_atom pmp prp a = Some pmp'"
    and ok': "arb_ok pmp' S' info g' (A(a := None))" and bl: "arb_blocks g' \<subseteq> arb_blocks g" "S' \<subseteq> S" "S - S' \<subseteq> arb_blocks g"
    and same: "same_on (arb_outside S info g (A(a := None))) (pm_mem pmp) (pm_mem pmp')" by blast
  have "E \<subseteq> owned S'"
  proof
    fix x assume "x \<in> E"
    then have x: "x \<in> owned S" "x \<notin> (\<Union>e\<in>arb_blocks g. ext_bytes e)" using E d by blast+
    then show "x \<in> owned S'" using bl(3) by (auto simp: owned_def)
  qed
  moreover have "E \<inter> ((\<Union>e\<in>arb_blocks g'. ext_bytes e) \<union> {info..<info + 52}) = {}" using d bl(1) by blast
  ultimately have "arb_pool prp pmp' E (A(a := None))" using prp ok' unfolding arb_pool_def by blast
  moreover have "E \<union> piece_bytes pa_arb_atom_addr (A(a := None)) \<subseteq> arb_outside S info g (A(a := None))"
    by (rule arb_outside_client [OF ok E d]) (auto split: if_splits)
  ultimately show ?thesis using f same_on_subset [OF same] by blast
qed

lemma arb_pool_write:
  assumes p: "arb_pool prp pmp E A" and m: "same_on (- (E \<union> piece_bytes pa_arb_atom_addr A)) (pm_mem pmp) m"
  shows "arb_pool prp (pmp\<lparr>pm_mem := m\<rparr>) E A"
proof -
  from p obtain S info g where prp: "pr_infop prp = Some info" and ok: "arb_ok pmp S info g A" and E: "E \<subseteq> owned S"
    and d: "E \<inter> ((\<Union>e\<in>arb_blocks g. ext_bytes e) \<union> {info..<info + 52}) = {}" unfolding arb_pool_def by blast
  note o = arb_okD [OF ok]
  let ?D = "E \<union> piece_bytes pa_arb_atom_addr A"
  have inb: "x \<in> (\<Union>e\<in>arb_blocks g. ext_bytes e)" if "x \<in> piece_bytes pa_arb_atom_addr A" for x
  proof -
    from piece_bytes_in [OF ok that] obtain a n where a: "A a = Some n" "x \<in> arb_piece a (arb_len n)" by blast
    from arb_user_bytes(4) [OF ok a(1)] a(2) show ?thesis by (rule subsetD)
  qed
  note bl = arb_block_bytes(1,2) [OF o(1) arb_geoD(1) [OF o(3)]]
  have "x \<in> owned S \<and> x \<notin> header_bytes" if "x \<in> piece_bytes pa_arb_atom_addr A" for x
    using bl(1,2) [OF inb [OF that]] by blast
  then have D: "?D \<subseteq> owned S" "?D \<inter> {info..<info + 52} = {}" using E d o(2) by blast+
  have free: "?D \<inter> arb_piece b k = {}" if "arb_pieces g b = Some k" "A b = None" for b k
  proof -
    have "x \<notin> arb_piece b k" if x: "x \<in> piece_bytes pa_arb_atom_addr A" for x
    proof -
      from piece_bytes_in [OF ok x] obtain a n where a: "A a = Some n" "x \<in> arb_piece a (arb_len n)" by blast
      with \<open>A b = None\<close> have "a \<noteq> b" by auto
      from arb_geoD(4) [OF o(3) _ \<open>arb_pieces g b = Some k\<close> this] arb_live_len [OF ok a(1)] a(2)
      show ?thesis by blast
    qed
    then show ?thesis using arb_geoD(3) [OF o(3) that(1)] d by blast
  qed
  have head: "same_on {unat b * 16..<unat b * 16 + 4} (pm_mem pmp) m" if b: "A b = Some k" for b k
  proof (rule same_on_subset [OF m], rule subsetI, rule ComplI)
    fix x
    assume x: "x \<in> {unat b * 16..<unat b * 16 + 4}" and "x \<in> ?D"
    from arb_live_len [OF ok b] have pb: "arb_pieces g b = Some (arb_len k)" by simp
    have xb: "x \<in> arb_piece b (arb_len k)" using x arb_geoD(2) [OF o(3) pb] by (simp add: arb_piece_def)
    with \<open>x \<in> ?D\<close> arb_user_bytes(4) [OF ok b] d have "x \<in> piece_bytes pa_arb_atom_addr A" by blast
    from piece_bytes_in [OF ok this] obtain a n where a: "A a = Some n" "x \<in> arb_piece a (arb_len n)" "unat a * 16 + 4 \<le> x"
      by blast
    with x have "a \<noteq> b" by auto
    from arb_geoD(4) [OF o(3) _ pb this] arb_live_len [OF ok a(1)] a(2) xb show False by blast
  qed
  have new: "arb_live_piece m g b k" if b: "A b = Some k" for b k
  proof -
    note h = head [OF b]
    have "prh_magic m (unat b * 16) = prh_magic (pm_mem pmp) (unat b * 16)"
      "prh_size m (unat b * 16) = prh_size (pm_mem pmp) (unat b * 16)"
      unfolding prh_magic_def prh_size_def by (rule same_on_rd16 [OF h], force)+
    moreover have "prh_slot m (unat b * 16) = prh_slot (pm_mem pmp) (unat b * 16)"
      unfolding prh_slot_def by (rule same_onD [OF h]) simp
    ultimately show ?thesis using o(5) [OF b] by (simp add: arb_live_piece_def)
  qed
  have v: "mm_valid (pmp\<lparr>pm_mem := m\<rparr>) S" by (rule mm.write_inside [OF o(1) D(1) m])
  have same: "same_on (owned S - ?D) (pm_mem pmp) m" by (rule same_on_subset [OF m]) blast
  have lists: "A x = None" if "r \<le> 12" "x \<in> set (arb_lists g r)" for r x using arb_in_list(3) [OF ok that] .
  have "arb_list m info g A 0"
  proof (rule arb_list_frame [OF ok _ same])
    show "?D \<inter> {pri_free_at info 0..<pri_free_at info 0 + 4} = {}" using D(2) pri_free_range [of 0 info] by blast
    show "?D \<inter> arb_piece x (2 ^ (0 + 4)) = {}" if "x \<in> set (arb_lists g 0)" for x
      by (rule free) (use arb_in_list(1,3) [OF ok _ that] in simp_all)
  qed simp_all
  then have "arb_ok (pmp\<lparr>pm_mem := m\<rparr>) S info g A"
  proof (intro arb_update [OF ok v o(3), where s = 0 and D = ?D and X = "dom A"])
    show "same_on (owned S - ({pri_free_at info 0..<pri_free_at info 0 + 4} \<union> ?D)) (pm_mem pmp) (pm_mem (pmp\<lparr>pm_mem := m\<rparr>))"
      by (simp, rule same_on_subset [OF same]) blast
    show "?D \<inter> arb_piece b k = {}" if "arb_pieces g b = Some k" "b \<notin> dom A" for b k
      using free [OF that(1)] that(2) by (simp add: domIff)
    show "arb_lists g r = arb_lists g r \<and> set (arb_lists g r) \<inter> dom A = {}" if "r \<le> 12" for r
      using lists [OF that] by (auto simp: domIff)
  qed (use D(2) new in simp_all)
  then show ?thesis using prp E d unfolding arb_pool_def by blast
qed

lemma ivl_disj_iff:
  fixes a b c d :: nat
  shows "{a..<b} \<inter> {c..<d} = {} \<longleftrightarrow> b \<le> a \<or> d \<le> c \<or> b \<le> c \<or> d \<le> a"
proof
  assume "{a..<b} \<inter> {c..<d} = {}"
  then have "max a c \<notin> {a..<b} \<or> max a c \<notin> {c..<d}" by blast
  then show "b \<le> a \<or> d \<le> c \<or> b \<le> c \<or> d \<le> a" by (auto simp: max_def split: if_splits)
qed auto

interpretation arbp: byte_pool "\<lambda>pmp n. pa_arb_alloc os pmp prp n" "\<lambda>pmp a. pa_arb_free_atom pmp prp a"
    pa_arb_atom_addr pm_mem "\<lambda>pmp m. pmp\<lparr>pm_mem := m\<rparr>" "arb_pool prp" arb_room
  for os prp
proof (unfold_locales, goal_cases)
  case (1 s E A n)
  then show ?case by (rule arb_pool_alloc)
next
  case (2 s E A a n)
  then obtain S info g where ok: "arb_ok s S info g A"
    and d: "E \<inter> ((\<Union>e\<in>arb_blocks g. ext_bytes e) \<union> {info..<info + 52}) = {}" unfolding arb_pool_def by blast
  note u = arb_user_bytes [OF ok 2(2)]
  have "{unat a * 16 + 4..<unat a * 16 + 4 + n} \<inter> E = {}" using u(3,4) d by blast
  with u(1,2) show ?case by blast
next
  case (3 s E A a n b k p q)
  then obtain S info g where ok: "arb_ok s S info g A" unfolding arb_pool_def by blast
  note u = arb_user_bytes [OF ok 3(2)] and w = arb_user_bytes [OF ok 3(3)]
  from arb_live_len [OF ok 3(2)] arb_live_len [OF ok 3(3)]
  have l: "arb_pieces g a = Some (arb_len n)" "arb_pieces g b = Some (arb_len k)" "n \<le> arb_max" "k \<le> arb_max" by simp_all
  note la = arb_len_bounds(1) [OF l(3)] and lb = arb_len_bounds(1) [OF l(4)]
  have "arb_piece a (arb_len n) \<inter> arb_piece b (arb_len k) = {}" by (rule arb_geoD(4) [OF arb_okD(3) [OF ok] l(1,2) 3(4)])
  then have "unat a * 16 + arb_len n \<le> unat b * 16 \<or> unat b * 16 + arb_len k \<le> unat a * 16"
    unfolding arb_piece_def ivl_disj_iff using la lb by linarith
  then show ?case using la lb u(1) w(1) 3(5,6) by auto
next
  case (4 s E A a n)
  then show ?case by (rule arb_pool_free)
next
  case (5 s E A m)
  then show ?case by (rule arb_pool_write)
qed simp

end
