(* ===== verification/Pasegment_Props.thy ===== *)
theory Pasegment_Props
  imports Pasegment
begin

text \<open>
  The properties of the segment and of its named headers (\<^verbatim>\<open>parrotdb/pammap.c\<close>), each applied to
  one concrete segment.
\<close>

section \<open>A concrete segment\<close>

text \<open>An anonymous segment of 32 pages, from which two pages are then allocated.\<close>

definition demo_env :: pa_file_env where
  "demo_env = \<lparr>fe_fd = 5, fe_open = False, fe_create = True, fe_fstat = True, fe_size = 0,
     fe_bytes = (\<lambda>_. 0), fe_ftruncate = True, fe_mmap = (\<lambda>a n. MapAt a), fe_calloc = True,
     fe_calloc_record = True\<rparr>"

definition demo_os :: pa_os where
  "demo_os = \<lparr>os_ftruncate = (\<lambda>n. True), os_mmap = (\<lambda>a n. Mapped), os_calloc = True\<rparr>"

definition demo_seg :: pa_mmap where
  "demo_seg = \<lparr>pm_fd = - 1, pm_flags = 0, pm_addr = PA_ADDR_DEFAULT, pm_len = 131072,
     pm_record = [(0, 131072)], pm_mem = pa_mmap_create_header (\<lambda>_. 0) 131072 0\<rparr>"

definition demo_seg2 :: pa_mmap where
  "demo_seg2 = demo_seg\<lparr>pm_mem := wr32 (pm_mem demo_seg) 4100 29\<rparr>"

lemma demo_open: "pa_mmap_open demo_env [] PA_ADDR_DEFAULT False ''db'' 0
    = (Inr demo_seg, PA_ADDR_DEFAULT + PA_ADDR_DEFAULT_INCR)"
  by (simp add: pa_mmap_open_def pa_mmap_open_file_def demo_env_def demo_seg_def PA_ADDR_DEFAULT_def
      PA_ADDR_DEFAULT_INCR_def PA_ADDR_MAX_def pa_mmap_open_addr.simps PA_DEFAULT_SIZE_def
      pa_config_value32_def pa_config_value_internal_def)

lemma demo_len: "pm_len demo_seg = 131072" "pm_len demo_seg2 = 131072"
  by (simp_all add: demo_seg_def demo_seg2_def)

lemma demo_created: "\<not> (False \<and> fe_open demo_env)" "4096 dvd pm_len demo_seg" "8192 \<le> pm_len demo_seg"
  by (simp_all add: demo_len)

lemma demo_reads:
  "rd32 (pm_mem demo_seg) 24 = 1" "rd32 (pm_mem demo_seg) 4096 = PA_MMAP_FREE_MAGIC"
  "rd32 (pm_mem demo_seg) 4100 = 31" "rd32 (pm_mem demo_seg) 4104 = 0"
proof -
  have "drop_bit 12 (131072 :: u32) - 1 = 31" by (simp add: word_unat_eq_iff unat_drop_bit_eq drop_bit_eq_div)
  then show "rd32 (pm_mem demo_seg) 24 = 1" "rd32 (pm_mem demo_seg) 4096 = PA_MMAP_FREE_MAGIC"
    "rd32 (pm_mem demo_seg) 4100 = 31" "rd32 (pm_mem demo_seg) 4104 = 0"
    using create_header_reads(1-4) [of "\<lambda>_. 0" 131072 0] by (simp_all add: demo_seg_def)
qed

lemma demo_page: "pa_page 1 = 4096" "pa_page 30 = 122880"
  by (simp_all add: pa_page_nat)

lemma demo_alloc: "pa_mmap_alloc demo_os demo_seg 5000 = Some (demo_seg2, 30)"
  by (simp add: pa_mmap_alloc_def pa_mmap_alloc_scan.simps [of _ _ 24] pmi_free_at_def demo_reads
      pmf_size_def demo_page PA_MMAP_ATOM_SIZE_def demo_seg2_def Let_def)

lemma demo_run: "mm_run (demo_seg, []) (demo_seg2, [(30, 2)])"
proof -
  have "mm_step (demo_seg, []) (demo_seg2, if (30 :: u32) = 0 then [] else (30, word_of_nat (pa_count 5000)) # [])"
    by (rule step_alloc [OF _ _ demo_alloc]) (simp_all add: demo_len)
  then have "mm_step (demo_seg, []) (demo_seg2, [(30, 2)])" by (simp add: pa_count_def)
  then show ?thesis by (rule run_step [OF run_refl])
qed

section \<open>Properties\<close>

text \<open>C1. Whatever sequence of allocations, frees, header creations and writes into
  its own blocks a program performs on a new segment, the blocks it holds never overlap each other,
  page 0 or the end of the segment. The requests keep the segment below 4 GB (\<open>step_alloc\<close>).\<close>

theorem pa_mmap_run_disjoint:
  assumes "pa_mmap_open env vars next filename base flags = (Inr pmp0, next')"
    and "\<not> (filename \<and> fe_open env)" and "4096 dvd pm_len pmp0" "8192 \<le> pm_len pmp0"
    and "mm_run (pmp0, []) (pmp, L)"
  shows "sorted_wrt (\<lambda>e f. ext_bytes e \<inter> ext_bytes f = {}) L \<and> live_bytes L \<subseteq> {4096..<pm_len pmp}"
proof -
  from mm_run_inv [OF assms(5) pa_mmap_created_inv [OF assms(1-4)]]
  obtain xs where wf: "mm_wf pmp xs L" by (auto simp: mm_inv_def)
  with mm_wfD(3) [OF wf] live_bytes_range [OF wf] show ?thesis
    by (simp add: disj_exts_append disj_exts_bytes)
qed

theorem pa_mmap_run_disjoint_witness:
  "sorted_wrt (\<lambda>e f. ext_bytes e \<inter> ext_bytes f = {}) [(30, 2)]
    \<and> live_bytes [(30, 2)] \<subseteq> {4096..<pm_len demo_seg2}"
  by (rule pa_mmap_run_disjoint [OF demo_open demo_created demo_run])

text \<open>C2. In every reachable segment an allocation returns: it answers no memory and
  leaves the segment alone, or it answers a block inside the segment and clear of page 0 and of
  every block in use, and changes no byte of those.\<close>

theorem pa_mmap_run_alloc:
  assumes "pa_mmap_open env vars next filename base flags = (Inr pmp0, next')"
    and "\<not> (filename \<and> fe_open env)" and "4096 dvd pm_len pmp0" "8192 \<le> pm_len pmp0"
    and "mm_run (pmp0, []) (pmp, L)"
    and "0 < sz" "pm_len pmp + sz + 131072 \<le> 2 ^ 32"
  shows "\<exists>pmp' a. pa_mmap_alloc os pmp sz = Some (pmp', a)
    \<and> (a = 0 \<and> pmp' = pmp
       \<or> {unat a * 4096..<unat a * 4096 + sz} \<subseteq> {4096..<pm_len pmp'} - live_bytes L
         \<and> (\<forall>x \<in> live_bytes L. pm_mem pmp' x = pm_mem pmp x))"
proof -
  from mm_run_inv [OF assms(5) pa_mmap_created_inv [OF assms(1-4)]]
  obtain xs where wf: "mm_wf pmp xs L" by (auto simp: mm_inv_def)
  have "sz < 2 ^ 32" using assms(7) by simp
  with pa_mmap_alloc_cases [OF wf assms(6,7), of os] alloc_post_bytes [of pmp L sz]
  show ?thesis unfolding same_on_def by blast
qed

theorem pa_mmap_run_alloc_witness:
  "\<exists>pmp' a. pa_mmap_alloc demo_os demo_seg2 100 = Some (pmp', a)
    \<and> (a = 0 \<or> {unat a * 4096..<unat a * 4096 + 100} \<subseteq> {4096..<pm_len pmp'} - live_bytes [(30, 2)])"
proof -
  have "\<exists>pmp' a. pa_mmap_alloc demo_os demo_seg2 100 = Some (pmp', a)
    \<and> (a = 0 \<and> pmp' = demo_seg2
       \<or> {unat a * 4096..<unat a * 4096 + 100} \<subseteq> {4096..<pm_len pmp'} - live_bytes [(30, 2)]
         \<and> (\<forall>x \<in> live_bytes [(30, 2)]. pm_mem pmp' x = pm_mem demo_seg2 x))"
    by (rule pa_mmap_run_alloc [OF demo_open demo_created demo_run]) (simp_all add: demo_len)
  then show ?thesis by blast
qed

text \<open>C3. The bytes of a segment in any reachable state, found again in a file of the
  segment's length, are accepted by \<^verbatim>\<open>pa_mmap_open\<close>: the memory and the blocks in use are those of
  before and the free list is intact.\<close>

theorem pa_mmap_reopen:
  assumes "pa_mmap_open env vars next filename base flags = (Inr pmp0, next')"
    and "\<not> (filename \<and> fe_open env)" and "4096 dvd pm_len pmp0" "8192 \<le> pm_len pmp0"
    and "mm_run (pmp0, []) (pmp, L)"
    and "fe_open env2" "fe_fstat env2" "fe_calloc env2"
    and "fe_size env2 = pm_len pmp" "fe_bytes env2 = pm_mem pmp" "pm_len pmp < 2 ^ 32"
    and "next2 \<le> PA_ADDR_MAX" "fe_mmap env2 next2 (pm_len pmp) = MapAt next2"
  shows "\<exists>pmp2. pa_mmap_open env2 vars2 next2 True base2 flags2 = (Inr pmp2, next2 + PA_ADDR_DEFAULT_INCR)
    \<and> pm_mem pmp2 = pm_mem pmp \<and> pm_len pmp2 = pm_len pmp \<and> (\<exists>xs. mm_wf pmp2 xs L)"
proof -
  from mm_run_inv [OF assms(5) pa_mmap_created_inv [OF assms(1-4)]]
  obtain xs where wf: "mm_wf pmp xs L" and c: "pa_mmap_check_header (pm_mem pmp) = None"
    by (auto simp: mm_inv_def)
  have "unat (word_of_nat (pm_len pmp) :: u32) = pm_len pmp"
    using assms(11) by (simp add: unat_of_nat)
  with assms c have "pa_mmap_open env2 vars2 next2 True base2 flags2 =
    (Inr \<lparr>pm_fd = fe_fd env2, pm_flags = flags2, pm_addr = next2, pm_len = pm_len pmp,
       pm_record = (if fe_fd env2 < 0 \<and> fe_calloc_record env2 then [(0, pm_len pmp)] else []), pm_mem = pm_mem pmp\<rparr>,
     next2 + PA_ADDR_DEFAULT_INCR)"
    by (simp add: pa_mmap_open_def pa_mmap_open_file_def pa_mmap_open_addr.simps [of _ next2])
  with wf show ?thesis by (auto simp: mm_wf_def)
qed

definition demo_env2 :: pa_file_env where
  "demo_env2 = \<lparr>fe_fd = 5, fe_open = True, fe_create = True, fe_fstat = True, fe_size = 131072,
     fe_bytes = pm_mem demo_seg2, fe_ftruncate = True, fe_mmap = (\<lambda>a n. MapAt a), fe_calloc = True,
     fe_calloc_record = True\<rparr>"

theorem pa_mmap_reopen_witness:
  "\<exists>pmp2. pa_mmap_open demo_env2 [] PA_ADDR_MAX True ''db'' 0 = (Inr pmp2, PA_ADDR_MAX + PA_ADDR_DEFAULT_INCR)
    \<and> pm_mem pmp2 = pm_mem demo_seg2 \<and> pm_len pmp2 = pm_len demo_seg2 \<and> (\<exists>xs. mm_wf pmp2 xs [(30, 2)])"
  by (rule pa_mmap_reopen [OF demo_open demo_created demo_run]) (simp_all add: demo_env2_def demo_len)

lemma demo_wf: "mm_wf demo_seg [(1, 31)] []"
  using pa_mmap_created(1) [OF demo_open demo_created]
  by (simp add: demo_len word_unat_eq_iff unat_drop_bit_eq drop_bit_eq_div)

lemma demo_wf2: "mm_wf demo_seg2 [(1, 29)] [(30, 2)]"
proof -
  have "mm_wf (demo_seg\<lparr>pm_mem := wr32 (pm_mem demo_seg) (pa_page 1 + 4) (31 - 2)\<rparr>)
      ([] @ (1, 31 - 2) # []) ((1 + (31 - 2), 2) # [])"
    by (rule mm_wf_shrink(1) [of demo_seg "[]" 1 31 "[]" "[]" 2]) (simp_all add: demo_wf)
  then show ?thesis by (simp add: demo_seg2_def demo_page)
qed

text \<open>C4. Freeing a block returns its pages to the free list, changes no byte of the
  other blocks and of the named headers, and from then on a request that fits in it cannot be
  refused.\<close>

theorem pa_mmap_free_reuse:
  assumes "mm_wf pmp xs ((a, k) # L)" and "pa_items_shift32 sz PA_MMAP_ATOM_SHIFT = k"
  shows "\<exists>pmp' xs'. pa_mmap_free pmp a sz = Some pmp' \<and> mm_wf pmp' xs' L
     \<and> set xs' = insert (a, k) (set xs) \<and> pm_len pmp' = pm_len pmp
     \<and> (\<forall>x \<in> client_bytes L. pm_mem pmp' x = pm_mem pmp x)
     \<and> (\<forall>n os. 0 < n \<and> pm_len pmp + n + 131072 \<le> 2 ^ 32 \<and> word_of_nat (pa_count n) \<le> k
          \<longrightarrow> (\<exists>pmp'' a'. pa_mmap_alloc os pmp' n = Some (pmp'', a') \<and> a' \<noteq> 0))"
proof -
  from pa_mmap_free_ok [OF assms] obtain pmp' xs' where f: "pa_mmap_free pmp a sz = Some pmp'"
    "mm_wf pmp' xs' L" "set xs' = insert (a, k) (set xs)" "pm_len pmp' = pm_len pmp"
    "same_on (client_bytes L) (pm_mem pmp) (pm_mem pmp')" by auto
  moreover have "\<exists>pmp'' a'. pa_mmap_alloc os pmp' n = Some (pmp'', a') \<and> a' \<noteq> 0"
    if "0 < n" "pm_len pmp + n + 131072 \<le> 2 ^ 32" "word_of_nat (pa_count n) \<le> k" for n os
    using pa_mmap_alloc_cases [OF f(2) that(1), of os] that f(3,4)
    by (fastforce simp: alloc_post_def)
  ultimately show ?thesis unfolding same_on_def by blast
qed

theorem pa_mmap_free_reuse_witness:
  "\<exists>pmp' pmp'' a'. pa_mmap_free demo_seg2 30 5000 = Some pmp' \<and> (\<exists>xs'. mm_wf pmp' xs' [] \<and> (30, 2) \<in> set xs')
     \<and> pa_mmap_alloc demo_os pmp' 8192 = Some (pmp'', a') \<and> a' \<noteq> 0"
proof -
  have "pa_items_shift32 5000 PA_MMAP_ATOM_SHIFT = 2"
    by (simp add: pa_items_shift32_def PA_MMAP_ATOM_SHIFT_def word_unat_eq_iff unat_drop_bit_eq drop_bit_eq_div)
  from pa_mmap_free_reuse [OF demo_wf2 this] obtain pmp' xs' where
    f: "pa_mmap_free demo_seg2 30 5000 = Some pmp'" "mm_wf pmp' xs' []" "set xs' = insert (30, 2) (set [(1, 29)])"
    and a: "\<forall>n os. 0 < n \<and> pm_len demo_seg2 + n + 131072 \<le> 2 ^ 32 \<and> word_of_nat (pa_count n) \<le> (2 :: u32)
          \<longrightarrow> (\<exists>pmp'' a'. pa_mmap_alloc os pmp' n = Some (pmp'', a') \<and> a' \<noteq> 0)" by blast
  from a have "\<exists>pmp'' a'. pa_mmap_alloc demo_os pmp' 8192 = Some (pmp'', a') \<and> a' \<noteq> 0"
    by (elim allE [of _ 8192] allE [of _ demo_os]) (simp add: demo_len pa_count_def)
  with f show ?thesis by auto
qed

section \<open>Properties of the named headers\<close>

text \<open>The address of the content of the k-th header; number 0 is the position before the first.\<close>

fun header_content :: "mem \<Rightarrow> nat \<Rightarrow> nat" where
  "header_content m 0 = sizeof_pa_mmap_info"
| "header_content m (Suc k) =
     header_content m k + unat (rd32 m (header_content m k - 4)) + sizeof_pa_mmap_header"

lemma header_content_less: "i < j \<Longrightarrow> header_content m i < header_content m j"
  by (induction j) (auto simp: less_Suc_eq sizeof_pa_mmap_header_def)

lemma header_content_inj: "header_content m i = header_content m j \<longleftrightarrow> i = j"
  using header_content_less [of i j m] header_content_less [of j i m] by (cases i j rule: linorder_cases) auto

lemma next_header_less:
  assumes "i < unat (pmi_num_headers m)"
  shows "(word_of_nat i < pmi_num_headers m - 1) = (i + 1 < unat (pmi_num_headers m))"
proof -
  have "unat (pmi_num_headers m) < 2 ^ 32" using unsigned_less [of "pmi_num_headers m"] by simp
  with assms have "unat (word_of_nat i :: u32) = i" by (simp add: unat_of_nat)
  moreover have "unat (pmi_num_headers m - 1) = unat (pmi_num_headers m) - 1"
    using assms by (intro unat_minus_one) auto
  ultimately show ?thesis by (auto simp: word_less_nat_alt)
qed

lemma next_header_find_range:
  assumes "pa_mmap_next_header_find m h (header_content m i) i n = Some c"
    and "i + n = unat (pmi_num_headers m)"
  shows "\<exists>k. k < unat (pmi_num_headers m) \<and> c = header_content m k"
  using assms
proof (induction n arbitrary: i)
  case (Suc n)
  then have "i < unat (pmi_num_headers m)" by simp
  note less = next_header_less [OF this]
  show ?case
  proof (cases "(h = None \<or> h = Some (header_content m i)) \<and> i + 1 < unat (pmi_num_headers m)")
    case True
    with Suc.prems(1) less have "c = header_content m (Suc i)" by (auto simp: Let_def)
    with True show ?thesis by (intro exI [of _ "Suc i"]) simp
  next
    case False
    with Suc.prems(1) less have "pa_mmap_next_header_find m h (header_content m (Suc i)) (Suc i) n = Some c"
      by (auto simp: Let_def split: if_splits)
    then show ?thesis by (rule Suc.IH) (use Suc.prems(2) in simp)
  qed
qed simp

lemma next_header_find_walk:
  assumes "i + n = unat (pmi_num_headers m)" "i \<le> k"
  shows "pa_mmap_next_header_find m (Some (header_content m k)) (header_content m i) i n =
    (if k + 1 < unat (pmi_num_headers m) then Some (header_content m (Suc k)) else None)"
  using assms
proof (induction n arbitrary: i)
  case (Suc n)
  then have "i < unat (pmi_num_headers m)" by simp
  note less = next_header_less [OF this]
  show ?case
  proof (cases "i = k")
    case True
    have rest: "pa_mmap_next_header_find m (Some (header_content m k)) (header_content m (Suc k)) (Suc k) 0 = None"
      by simp
    show ?thesis using True less Suc.prems(1) rest by (cases n) (auto simp: Let_def)
  next
    case False
    then have "header_content m k \<noteq> header_content m i" by (simp add: header_content_inj)
    with False Suc.IH [of "Suc i"] Suc.prems show ?thesis by (simp add: Let_def)
  qed
qed simp

lemma next_header_first:
  "pa_mmap_next_header pmp None =
     (if 1 < unat (pmi_num_headers (pm_mem pmp)) then Some (header_content (pm_mem pmp) 1) else None)"
proof -
  let ?c = "pmi_num_headers (pm_mem pmp)"
  have "(0 < ?c - 1) = (1 < unat ?c)" if "0 < unat ?c"
  proof -
    have "unat (?c - 1) = unat ?c - 1" using that by (intro unat_minus_one) auto
    then show ?thesis by (auto simp: word_less_nat_alt)
  qed
  then show ?thesis
    by (cases "unat ?c")
      (auto simp: pa_mmap_next_header_def Let_def elim: pa_mmap_next_header_find.elims)
qed

text \<open>C6. The walk over the named headers goes from each header to the one that
  follows it, but stops one short: the last header is never answered, and a segment with a single
  header lists none.\<close>

theorem pa_mmap_next_header_walk:
  "pa_mmap_next_header pmp None =
     (if 1 < unat (pmi_num_headers (pm_mem pmp)) then Some (header_content (pm_mem pmp) 1) else None)
   \<and> (\<forall>k. pa_mmap_next_header pmp (Some (header_content (pm_mem pmp) k)) =
     (if k + 1 < unat (pmi_num_headers (pm_mem pmp)) then Some (header_content (pm_mem pmp) (Suc k)) else None))
   \<and> (\<forall>h. pa_mmap_next_header pmp h \<noteq>
        Some (header_content (pm_mem pmp) (unat (pmi_num_headers (pm_mem pmp)))))"
proof -
  let ?m = "pm_mem pmp"
  have "pa_mmap_next_header pmp h \<noteq> Some (header_content ?m (unat (pmi_num_headers ?m)))" for h
    using next_header_find_range [of ?m h 0 "unat (pmi_num_headers ?m)"]
    by (auto simp: pa_mmap_next_header_def header_content_inj)
  moreover have "pa_mmap_next_header pmp (Some (header_content ?m k)) =
      (if k + 1 < unat (pmi_num_headers ?m) then Some (header_content ?m (Suc k)) else None)" for k
    using next_header_find_walk [of 0 "unat (pmi_num_headers ?m)" ?m k]
    by (simp add: pa_mmap_next_header_def)
  ultimately show ?thesis using next_header_first by blast
qed


definition demo_hdr :: pa_mmap where
  "demo_hdr = demo_seg\<lparr>pm_mem := header_written (pm_mem demo_seg) 32 [97] 2 0 16\<rparr>"

lemma demo_header: "pa_mmap_header demo_seg [97] 2 0 12 = (demo_hdr, Some 104)"
proof -
  have "pmi_num_headers (pm_mem demo_seg) = 0"
    by (rule pa_mmap_created(3) [OF demo_open demo_created])
  moreover have "unat (pa_roundup32 12 8) = 16" by (simp add: pa_roundup32_def)
  ultimately show ?thesis
    by (simp add: pa_mmap_header_def sizeof_pa_mmap_info_def sizeof_pa_mmap_header_def PA_MMAP_ATOM_SIZE_def
        demo_hdr_def header_written_def Let_def PA_MMAP_HEADER_NAME_LEN_def)
qed

text \<open>C5. A header created or found under a name of fewer than 64 bytes is found at
  the same place by every later call with that name, which changes nothing, and so is every header
  that could be found before.\<close>

theorem pa_mmap_header_roundtrip:
  assumes "pa_mmap_header pmp name type flags sz = (pmp', Some p)"
    and "length name < 64" and "0 \<notin> set name"
  shows "pa_mmap_header pmp' name type2 flags2 sz2 = (pmp', Some p)
    \<and> (\<forall>other q. pa_mmap_header pmp other t3 f3 0 = (pmp, Some q)
          \<longrightarrow> pa_mmap_header pmp' other t4 f4 s4 = (pmp', Some q))"
  by (rule header_roundtrip [OF assms])

theorem pa_mmap_header_roundtrip_witness:
  "pa_mmap_header demo_hdr [97] 3 1 100 = (demo_hdr, Some 104)"
  using pa_mmap_header_roundtrip [OF demo_header, of 3 1 100] by simp

end
