(* ===== verification/Paarb_Props.thy ===== *)
theory Paarb_Props
  imports Paarb_Iface Pasegment_Props
begin

text \<open>
  The properties of \<^verbatim>\<open>parrotdb/paarb.c\<close>: whatever a program does with the pieces it holds, each keeps
  the bytes the program put there; allocations and frees return; chunks fit their requests.
\<close>

section \<open>Runs of a client\<close>

text \<open>What a program does with the allocator. \<open>H\<close> maps each piece it holds to the bytes it last put
  there; a new piece holds what the allocator left in it.\<close>

inductive arb_step :: "pa_arb \<Rightarrow> pa_mmap \<times> (u32 \<rightharpoonup> u8 list) \<Rightarrow> pa_mmap \<times> (u32 \<rightharpoonup> u8 list) \<Rightarrow> bool"
  for prp :: pa_arb where
  arb_get: "arb_room pmp n \<Longrightarrow> pa_arb_alloc os pmp prp n = Some (pmp', a) \<Longrightarrow> pa_arb_atom_addr a = Some p
    \<Longrightarrow> arb_step prp (pmp, H) (pmp', H(a \<mapsto> rd_bytes (pm_mem pmp') p n))"
| arb_string: "arb_room pmp (length s + 2) \<Longrightarrow> pa_arb_alloc_string os pmp prp s = Some (pmp', a)
    \<Longrightarrow> arb_step prp (pmp, H) (pmp', if a = 0 then H else H(a \<mapsto> s @ [0]))"
| arb_put: "H a = Some bs \<Longrightarrow> pa_arb_atom_addr a = Some p \<Longrightarrow> length cs = length bs
    \<Longrightarrow> arb_step prp (pmp, H) (pmp\<lparr>pm_mem := wr_bytes (pm_mem pmp) p cs\<rparr>, H(a \<mapsto> cs))"
| arb_drop: "H a = Some bs \<Longrightarrow> pa_arb_free_atom pmp prp a = Some pmp' \<Longrightarrow> arb_step prp (pmp, H) (pmp', H(a := None))"

inductive_cases arb_stepE: "arb_step prp (pmp, H) (pmp', H')"

inductive arb_run :: "pa_arb \<Rightarrow> pa_mmap \<times> (u32 \<rightharpoonup> u8 list) \<Rightarrow> pa_mmap \<times> (u32 \<rightharpoonup> u8 list) \<Rightarrow> bool"
  for prp :: pa_arb where
  arb_run_refl: "arb_run prp s s"
| arb_run_step: "arb_run prp s t \<Longrightarrow> arb_step prp t u \<Longrightarrow> arb_run prp s u"

abbreviation arb_view :: "pa_arb \<Rightarrow> pa_mmap \<Rightarrow> nat set \<Rightarrow> (u32 \<rightharpoonup> u8 list) \<Rightarrow> bool" where
  "arb_view prp \<equiv> pool_view (arb_pool prp) pa_arb_atom_addr pm_mem"

lemma pa_arb_atom_addr_zero: "pa_arb_atom_addr 0 = None"
  by (simp add: pa_arb_atom_addr_def pa_arb_header_def pa_mmap_addr_def)

text \<open>A string goes into a piece of one byte more than it needs.\<close>

lemma arb_view_string:
  assumes v: "arb_view prp pmp E H" and r: "arb_room pmp (length s + 2)"
  shows "pa_arb_alloc_string os pmp prp s = Some (pmp, 0) \<or> (\<exists>pmp' a. pa_arb_alloc_string os pmp prp s = Some (pmp', a)
    \<and> a \<noteq> 0 \<and> H a = None \<and> arb_view prp pmp' E (H(a \<mapsto> s @ [0])) \<and> same_on E (pm_mem pmp) (pm_mem pmp'))"
proof -
  from arbp.view_alloc [OF v r, of os] show ?thesis
  proof (elim disjE exE conjE)
    fix pmp' a p
    assume al: "pa_arb_alloc os pmp prp (length s + 2) = Some (pmp', a)" "a \<noteq> 0" "H a = None"
      "pa_arb_atom_addr a = Some p" "same_on E (pm_mem pmp) (pm_mem pmp')"
      and k: "\<forall>k\<le>length s + 2. arb_view prp pmp' E (H(a \<mapsto> rd_bytes (pm_mem pmp') p k))"
    let ?H = "H(a \<mapsto> rd_bytes (pm_mem pmp') p (length s + 1))"
    have "arb_view prp pmp' E ?H" using k by simp
    from arbp.view_write [OF this, of a "rd_bytes (pm_mem pmp') p (length s + 1)" "s @ [0]"] al(4)
    have w: "same_on E (pm_mem pmp') (wr_bytes (pm_mem pmp') p (s @ [0]))"
      "arb_view prp (pmp'\<lparr>pm_mem := wr_bytes (pm_mem pmp') p (s @ [0])\<rparr>) E (H(a \<mapsto> s @ [0]))"
      by (auto simp: rd_bytes_len)
    have "pa_arb_alloc_string os pmp prp s = Some (pmp'\<lparr>pm_mem := wr_bytes (pm_mem pmp') p (s @ [0])\<rparr>, a)"
      using al by (simp add: pa_arb_alloc_string_def Let_def)
    with w al(2,3) same_on_trans [OF al(5) w(1)] show ?thesis by auto
  qed (simp add: pa_arb_alloc_string_def Let_def)
qed

lemma arb_step_view:
  assumes "arb_step prp (pmp, H) (pmp', H')" and v: "arb_view prp pmp E H"
  shows "arb_view prp pmp' E H' \<and> same_on E (pm_mem pmp) (pm_mem pmp')"
  using assms(1)
proof (rule arb_stepE, goal_cases)
  case (1 n os a p)
  with arbp.view_alloc [OF v 1(2), of os] show ?case by (fastforce simp: pa_arb_atom_addr_zero)
next
  case (2 s os a)
  then have "arb_room pmp (length s + 2)" by simp
  from arb_view_string [OF v this, of os] 2 v show ?case by fastforce
next
  case (3 a bs p cs)
  then have "H a = Some bs" "length cs = length bs" by auto
  from arbp.view_write [OF v this] 3 show ?case by auto
next
  case (4 a bs)
  then have "H a = Some bs" by simp
  from arbp.view_free [OF v this] 4 show ?case by auto
qed

lemma arb_run_view:
  assumes "arb_run prp s t" and "arb_view prp (fst s) E (snd s)"
  shows "arb_view prp (fst t) E (snd t) \<and> same_on E (pm_mem (fst s)) (pm_mem (fst t))"
  using assms
proof (induction rule: arb_run.induct)
  case (arb_run_step s t u)
  obtain p H p' H' where t: "t = (p, H)" "u = (p', H')" by (cases t; cases u)
  from arb_run_step arb_step_view [of prp p H p' H' E] t show ?case
    using same_on_trans by (simp, blast)
qed simp

section \<open>A new allocator\<close>

lemma arb_fresh:
  assumes v: "mm_valid pmp S" and i: "{info..<info + 52} \<subseteq> header_bytes"
    and z: "\<And>x. x \<in> {info..<info + 52} \<Longrightarrow> pm_mem pmp x = 0" and p: "pr_infop prp = Some info"
    and E: "E \<subseteq> owned S - {info..<info + 52}"
  shows "arb_view prp pmp E Map.empty"
proof -
  let ?g = "\<lparr>arb_blocks = {}, arb_lists = (\<lambda>_. []), arb_pieces = Map.empty\<rparr>"
  have "rd32 (pm_mem pmp) (pri_free_at info s) = 0" if "s \<le> 12" for s
    by (rule rd32_zero, rule z) (use that in \<open>auto simp: pri_free_at_def\<close>)
  then have "arb_ok pmp S info ?g Map.empty"
    using v i by (simp add: arb_ok_def arb_geo_def arb_list_def)
  with p E show ?thesis unfolding pool_view_def arb_pool_def
    by (intro exI [of _ Map.empty] conjI exI [of _ S] exI [of _ info] exI [of _ ?g]) auto
qed

text \<open>On a new segment the heads of the lists are at byte 104 of page 0.\<close>

lemma arb_open_new:
  assumes new: "pa_mmap_open env vars next filename base flags = (Inr pmp0, next')"
    "\<not> (filename \<and> fe_open env)" "4096 dvd pm_len pmp0" "8192 \<le> pm_len pmp0"
    and op: "pa_arb_open True pmp0 (Some name) = (pmp1, Some prp)"
  shows "arb_view prp pmp1 (header_bytes - {104..<156}) Map.empty" "pr_infop prp = Some 104"
proof -
  note c = pa_mmap_created [OF new]
  from op obtain i where h: "pa_mmap_header pmp0 name PA_TYPE_ARB 0 sizeof_pa_arb_info = (pmp1, Some i)"
    and prp: "pr_infop prp = Some i"
    by (auto simp: pa_arb_open_def pa_arb_setup_def split: prod.splits option.splits)
  have "pa_mmap_header_find (pm_mem pmp0) name 32 (unat (pmi_num_headers (pm_mem pmp0))) = HeaderEnd 32"
    using c(3) by simp
  from pa_mmap_header_new [OF this h] obtain s where i: "i = 104"
    and m: "pmp1 = pmp0\<lparr>pm_mem := header_written (pm_mem pmp0) 32 name PA_TYPE_ARB 0 s\<rparr>" by auto
  with prp show info: "pr_infop prp = Some 104" by simp
  have "pm_mem pmp0 x = 0" if "104 \<le> x" "x < 156" for x
    using new(1,2) that
    by (auto simp: pa_mmap_open_def pa_mmap_open_file_def pa_mmap_create_header_def Let_def wr32_outside wr16_outside
        pmi_free_at_def split: prod.splits sum.splits if_splits)
  then have z: "pm_mem pmp1 x = 0" if "x \<in> {104..<104 + 52}" for x
    using that by (simp add: m header_written_outside)
  from pa_mmap_header_frame [OF h] obtain m' where m': "pmp1 = pmp0\<lparr>pm_mem := m'\<rparr>"
    "same_on (- ({8..<12} \<union> {32..<4096})) (pm_mem pmp0) m'" by blast
  have "mm_valid pmp0 {}" using c(1) unfolding mm_valid_def by force
  then have "mm_valid pmp1 {}"
    unfolding m'(1) by (rule mm.write_inside [OF _ _ m'(2)]) (auto simp: owned_def header_bytes_def)
  moreover have "{104..<104 + 52} \<subseteq> header_bytes" by (auto simp: header_bytes_def)
  moreover have "header_bytes - {104..<156} \<subseteq> owned {} - {104..<104 + 52}" by (auto simp: owned_def)
  ultimately show "arb_view prp pmp1 (header_bytes - {104..<156}) Map.empty" by (intro arb_fresh [OF _ _ z info])
qed


section \<open>A concrete allocator\<close>

text \<open>The segment of 32 pages with an allocator named \<open>a\<close>; a request of 100000 bytes gets the last 25
  pages, whose first atom is 1792.\<close>

definition demo_aseg :: pa_mmap where
  "demo_aseg = demo_seg\<lparr>pm_mem := header_written (pm_mem demo_seg) 32 [97] PA_TYPE_ARB 0 56\<rparr>"

definition demo_arb :: pa_arb where
  "demo_arb = \<lparr>pr_infop = Some 104\<rparr>"

definition demo_aseg2 :: pa_mmap where
  "demo_aseg2 = demo_aseg\<lparr>pm_mem := wr16 (wr16 (wr32 (pm_mem demo_aseg) 4100 6) 28672 PRH_MAGIC_LARGE_INUSE) 28674 25\<rparr>"

lemma demo_arb_open: "pa_arb_open True demo_seg (Some [97]) = (demo_aseg, Some demo_arb)"
proof -
  have "pmi_num_headers (pm_mem demo_seg) = 0"
    by (rule pa_mmap_created(3) [OF demo_open demo_created])
  moreover have "unat (pa_roundup32 52 8) = 56" by (simp add: pa_roundup32_def)
  ultimately have "pa_mmap_header demo_seg [97] PA_TYPE_ARB 0 52 = (demo_aseg, Some 104)"
    by (simp add: pa_mmap_header_def sizeof_pa_mmap_info_def sizeof_pa_mmap_header_def PA_MMAP_ATOM_SIZE_def
        demo_aseg_def header_written_def Let_def PA_MMAP_HEADER_NAME_LEN_def)
  then show ?thesis by (simp add: pa_arb_open_def pa_arb_setup_def demo_arb_def sizeof_pa_arb_info_def)
qed

lemma demo_areads:
  "rd32 (pm_mem demo_aseg) 24 = 1" "rd32 (pm_mem demo_aseg) 4096 = PA_MMAP_FREE_MAGIC"
  "rd32 (pm_mem demo_aseg) 4100 = 31" "rd32 (pm_mem demo_aseg) 4104 = 0" "pm_len demo_aseg = 131072"
proof -
  have same: "same_on ({12..<32} \<union> {4096..}) (pm_mem demo_seg) (pm_mem demo_aseg)"
    unfolding demo_aseg_def by (rule same_onI) (auto simp: header_written_outside)
  note r = same_on_rd32 [OF same]
  show "rd32 (pm_mem demo_aseg) 24 = 1" "rd32 (pm_mem demo_aseg) 4096 = PA_MMAP_FREE_MAGIC"
    "rd32 (pm_mem demo_aseg) 4100 = 31" "rd32 (pm_mem demo_aseg) 4104 = 0" "pm_len demo_aseg = 131072"
    using r [of 24] r [of 4096] r [of 4100] r [of 4104]
    by (auto simp: demo_reads demo_len subset_iff demo_aseg_def [THEN arg_cong, of pm_len])
qed

lemma demo_arb_alloc: "pa_arb_alloc demo_os demo_aseg demo_arb 100000 = Some (demo_aseg2, 1792)"
proof -
  have "pa_mmap_alloc demo_os demo_aseg 102400 = Some (demo_aseg\<lparr>pm_mem := wr32 (pm_mem demo_aseg) 4100 6\<rparr>, 7)"
    by (simp add: pa_mmap_alloc_def pa_mmap_alloc_scan.simps [of _ _ 24] pmi_free_at_def demo_areads
      pmf_size_def demo_page PA_MMAP_ATOM_SIZE_def Let_def)
  moreover have "\<not> pa_arb_slot 100004 \<le> PA_ARB_MAX_POW2"
    using pa_arb_slot_small [of 100004] by simp
  moreover have "unat (pa_roundup32 100004 4096) = 102400" by (simp add: pa_roundup32_def)
  ultimately show ?thesis
    by (simp add: pa_arb_alloc_def Let_def sizeof_pa_arb_header_def PA_ARB_MAX_LARGE_def PA_MMAP_ATOM_SIZE_def
        PA_ARB_OFFSET_SHIFT_def PA_MMAP_ATOM_SHIFT_def pa_arb_header_def pa_mmap_addr_def PA_ARB_ATOM_SHIFT_def
        demo_aseg2_def pa_pointer_def)
qed

definition demo_bytes :: "u8 list" where
  "demo_bytes = replicate 100000 7"

definition demo_aseg3 :: pa_mmap where
  "demo_aseg3 = demo_aseg2\<lparr>pm_mem := wr_bytes (pm_mem demo_aseg2) 28676 demo_bytes\<rparr>"

lemma demo_bytes_length: "length demo_bytes = 100000"
  by (simp add: demo_bytes_def)

lemma demo_arb_room: "n \<le> 100000 \<Longrightarrow> arb_room demo_aseg n" "n \<le> 100000 \<Longrightarrow> arb_room demo_aseg3 n"
  by (simp_all add: arb_room_def arb_max_def mm_room_def demo_aseg3_def demo_aseg2_def demo_areads)

lemma demo_arb_addr: "pa_arb_atom_addr 1792 = Some 28676"
  using pa_arb_atom_addr_nat [of 1792] by simp

text \<open>The program takes 100000 bytes and fills them.\<close>

lemma demo_arb_run: "arb_run demo_arb (demo_aseg, Map.empty) (demo_aseg3, [1792 \<mapsto> demo_bytes])"
proof -
  let ?h = "[1792 \<mapsto> rd_bytes (pm_mem demo_aseg2) 28676 100000]"
  have "arb_step demo_arb (demo_aseg, Map.empty) (demo_aseg2, ?h)"
    by (rule arb_get [OF demo_arb_room(1) demo_arb_alloc demo_arb_addr]) simp
  then have r: "arb_run demo_arb (demo_aseg, Map.empty) (demo_aseg2, ?h)"
    by (rule arb_run_step [OF arb_run_refl])
  have "arb_step demo_arb (demo_aseg2, ?h) (demo_aseg3, ?h(1792 \<mapsto> demo_bytes))"
    unfolding demo_aseg3_def
    by (rule arb_put [OF _ demo_arb_addr, of _ "rd_bytes (pm_mem demo_aseg2) 28676 100000"])
      (simp_all add: rd_bytes_len demo_bytes_length)
  from arb_run_step [OF r this] show ?thesis by simp
qed

section \<open>What a program can rely on\<close>

lemma arb_view_range:
  assumes v: "arb_view prp pmp E H" and a: "H a = Some bs"
  shows "\<exists>p. pa_arb_atom_addr a = Some p \<and> {p..<p + length bs} \<subseteq> {4096..<pm_len pmp}
    \<and> rd_bytes (pm_mem pmp) p (length bs) = bs"
proof -
  from v a obtain A n p where A: "arb_pool prp pmp E A" "A a = Some n" "length bs \<le> n" "pa_arb_atom_addr a = Some p"
    "rd_bytes (pm_mem pmp) p (length bs) = bs" unfolding pool_view_def by blast
  from A(1) obtain S info g where ok: "arb_ok pmp S info g A" unfolding arb_pool_def by blast
  note o = arb_okD [OF ok] and u = arb_user_bytes [OF ok A(2)]
  from o(1) obtain xs L where wf: "mm_wf pmp xs L" and S: "set L = S" unfolding mm_valid_def by blast
  have "(\<Union>e\<in>arb_blocks g. ext_bytes e) \<subseteq> live_bytes L"
    using arb_geoD(1) [OF o(3)] unfolding live_bytes_def S by blast
  with live_bytes_range [OF wf] u(3,4)
  have r: "{unat a * 16 + 4..<unat a * 16 + 4 + n} \<subseteq> {4096..<pm_len pmp}" by (meson subset_trans)
  from u(1) A(4) have "p = unat a * 16 + 4" by simp
  with A(3) have "{p..<p + length bs} \<subseteq> {unat a * 16 + 4..<unat a * 16 + 4 + n}" by auto
  with r A(4,5) show ?thesis by (meson subset_trans)
qed

lemma arb_reach_view:
  assumes "pa_mmap_open env vars next filename base flags = (Inr pmp0, next')"
    and "\<not> (filename \<and> fe_open env)" and "4096 dvd pm_len pmp0" "8192 \<le> pm_len pmp0"
    and "pa_arb_open True pmp0 (Some name) = (pmp1, Some prp)"
    and "arb_run prp (pmp1, Map.empty) (pmp, H)"
  shows "arb_view prp pmp (header_bytes - {104..<156}) H \<and> same_on (header_bytes - {104..<156}) (pm_mem pmp1) (pm_mem pmp)"
  using arb_run_view [OF assms(6), of "header_bytes - {104..<156}"] arb_open_new(1) [OF assms(1-5)] by simp

text \<open>What the calls answer in such a state.\<close>

lemma arb_view_total:
  assumes v: "arb_view prp pmp E H"
  shows "arb_room pmp n \<Longrightarrow> \<exists>pmp' a. pa_arb_alloc os pmp prp n = Some (pmp', a) \<and> (a = 0 \<and> pmp' = pmp \<or> a \<noteq> 0 \<and> H a = None)"
    and "arb_room pmp (length s + 2) \<Longrightarrow> \<exists>pmp' a. pa_arb_alloc_string os pmp prp s = Some (pmp', a)
        \<and> (a = 0 \<and> pmp' = pmp \<or> a \<noteq> 0 \<and> H a = None \<and> (\<exists>p. pa_arb_atom_addr a = Some p
            \<and> rd_bytes (pm_mem pmp') p (length s + 1) = s @ [0]))"
    and "a \<in> dom H \<Longrightarrow> \<exists>pmp'. pa_arb_free_atom pmp prp a = Some pmp'"
proof -
  show "\<exists>pmp' a. pa_arb_alloc os pmp prp n = Some (pmp', a) \<and> (a = 0 \<and> pmp' = pmp \<or> a \<noteq> 0 \<and> H a = None)"
    if "arb_room pmp n"
    using arbp.view_alloc [OF v that, of os] by auto
  show "\<exists>pmp' a. pa_arb_alloc_string os pmp prp s = Some (pmp', a)
        \<and> (a = 0 \<and> pmp' = pmp \<or> a \<noteq> 0 \<and> H a = None \<and> (\<exists>p. pa_arb_atom_addr a = Some p
            \<and> rd_bytes (pm_mem pmp') p (length s + 1) = s @ [0]))" if "arb_room pmp (length s + 2)"
    using arb_view_string [OF v that, of os]
  proof (elim disjE exE conjE)
    fix pmp' a
    assume a: "pa_arb_alloc_string os pmp prp s = Some (pmp', a)" "a \<noteq> 0" "H a = None"
      and w: "arb_view prp pmp' E (H(a \<mapsto> s @ [0]))"
    from arb_view_range [OF w, of a "s @ [0]"] a show ?thesis by auto
  qed simp
  show "\<exists>pmp'. pa_arb_free_atom pmp prp a = Some pmp'" if "a \<in> dom H"
    using arbp.view_free [OF v] that by blast
qed

text \<open>C25. On a new segment with a new allocator, after any sequence of allocations, string
  allocations, writes into pieces and frees, every piece the program holds lies inside the segment
  and outside page 0 and still has the bytes the program last put there, two pieces never share a
  byte, and the headers of the segment are as they were, but for the allocator's own list heads.
  Every further allocation and string allocation returns, with no piece and the segment as it was or with
  a piece the program does not hold yet, and so does the free of every piece it holds. Requests are of
  up to \<open>arb_max\<close> bytes and leave the segment below 4 GB (\<open>arb_room\<close>).\<close>

theorem pa_arb_run:
  assumes "pa_mmap_open env vars next filename base flags = (Inr pmp0, next')"
    and "\<not> (filename \<and> fe_open env)" and "4096 dvd pm_len pmp0" "8192 \<le> pm_len pmp0"
    and "pa_arb_open True pmp0 (Some name) = (pmp1, Some prp)"
    and "arb_run prp (pmp1, Map.empty) (pmp, H)"
  shows "(\<forall>a bs. H a = Some bs \<longrightarrow> (\<exists>p. pa_arb_atom_addr a = Some p \<and> {p..<p + length bs} \<subseteq> {4096..<pm_len pmp}
        \<and> rd_bytes (pm_mem pmp) p (length bs) = bs))
    \<and> (\<forall>a b bs cs. H a = Some bs \<and> H b = Some cs \<and> a \<noteq> b \<longrightarrow> (\<exists>p q. pa_arb_atom_addr a = Some p
        \<and> pa_arb_atom_addr b = Some q \<and> (p + length bs \<le> q \<or> q + length cs \<le> p)))
    \<and> (\<forall>x \<in> header_bytes - {104..<156}. pm_mem pmp x = pm_mem pmp1 x)
    \<and> (\<forall>os n. arb_room pmp n \<longrightarrow> (\<exists>pmp' a. pa_arb_alloc os pmp prp n = Some (pmp', a)
        \<and> (a = 0 \<and> pmp' = pmp \<or> a \<noteq> 0 \<and> H a = None)))
    \<and> (\<forall>os s. arb_room pmp (length s + 2) \<longrightarrow> (\<exists>pmp' a. pa_arb_alloc_string os pmp prp s = Some (pmp', a)
        \<and> (a = 0 \<and> pmp' = pmp \<or> a \<noteq> 0 \<and> H a = None \<and> (\<exists>p. pa_arb_atom_addr a = Some p
            \<and> rd_bytes (pm_mem pmp') p (length s + 1) = s @ [0]))))
    \<and> (\<forall>a \<in> dom H. \<exists>pmp'. pa_arb_free_atom pmp prp a = Some pmp')"
proof -
  from arb_reach_view [OF assms] have v: "arb_view prp pmp (header_bytes - {104..<156}) H"
    and s: "same_on (header_bytes - {104..<156}) (pm_mem pmp1) (pm_mem pmp)" by simp_all
  have "\<forall>x \<in> header_bytes - {104..<156}. pm_mem pmp x = pm_mem pmp1 x"
    using s unfolding same_on_def by auto
  with arb_view_range [OF v] arbp.view_apart [OF v] arb_view_total [OF v] show ?thesis by (intro conjI) blast+
qed

theorem pa_arb_run_witness:
  "rd_bytes (pm_mem demo_aseg3) 28676 100000 = replicate 100000 7 \<and> {28676..<128676} \<subseteq> {4096..<pm_len demo_aseg3}
    \<and> pm_mem demo_aseg3 32 = pm_mem demo_aseg 32
    \<and> (\<exists>pmp' a. pa_arb_alloc_string demo_os demo_aseg3 demo_arb [97, 98] = Some (pmp', a)
      \<and> (a = 0 \<and> pmp' = demo_aseg3 \<or> a \<noteq> 1792 \<and> (\<exists>p. pa_arb_atom_addr a = Some p \<and> rd_bytes (pm_mem pmp') p 3 = [97, 98, 0])))
    \<and> (\<exists>pmp'. pa_arb_free_atom demo_aseg3 demo_arb 1792 = Some pmp')"
proof -
  note t = pa_arb_run [OF demo_open demo_created demo_arb_open demo_arb_run]
  have "[1792 \<mapsto> demo_bytes] 1792 = Some demo_bytes" by simp
  with t [THEN conjunct1] obtain p where "pa_arb_atom_addr 1792 = Some p"
    "{p..<p + length demo_bytes} \<subseteq> {4096..<pm_len demo_aseg3}"
    "rd_bytes (pm_mem demo_aseg3) p (length demo_bytes) = demo_bytes" by blast
  then have r: "rd_bytes (pm_mem demo_aseg3) 28676 100000 = replicate 100000 7" "{28676..<128676} \<subseteq> {4096..<pm_len demo_aseg3}"
    unfolding demo_bytes_def [symmetric] by (simp_all add: demo_arb_addr demo_bytes_length)
  have "arb_room demo_aseg3 (length [97 :: u8, 98] + 2)" by (simp add: demo_arb_room)
  with t [THEN conjunct2, THEN conjunct2, THEN conjunct2, THEN conjunct2, THEN conjunct1] obtain pmp' a
    where a: "pa_arb_alloc_string demo_os demo_aseg3 demo_arb [97, 98] = Some (pmp', a)"
      "a = 0 \<and> pmp' = demo_aseg3 \<or> [1792 \<mapsto> demo_bytes] a = None
        \<and> (\<exists>p. pa_arb_atom_addr a = Some p \<and> rd_bytes (pm_mem pmp') p (length [97 :: u8, 98] + 1) = [97, 98] @ [0])"
    by blast
  then have "a = 0 \<and> pmp' = demo_aseg3 \<or> a \<noteq> 1792 \<and> (\<exists>p. pa_arb_atom_addr a = Some p \<and> rd_bytes (pm_mem pmp') p 3 = [97, 98, 0])"
    by (simp add: eval_nat_numeral split: if_splits)
  moreover have "\<exists>pmp'. pa_arb_free_atom demo_aseg3 demo_arb 1792 = Some pmp'"
    using t [THEN conjunct2, THEN conjunct2, THEN conjunct2, THEN conjunct2, THEN conjunct2] by simp
  moreover have "32 \<in> header_bytes - {104..<156}" by (simp add: header_bytes_def)
  ultimately show ?thesis using r a(1) t [THEN conjunct2, THEN conjunct2, THEN conjunct1] by blast
qed

end
