(* ===== verification/Pafixed.thy ===== *)
theory Pafixed
  imports Pasegment
begin

text \<open>
  \<^verbatim>\<open>parrotdb/pafixed.h\<close> and \<^verbatim>\<open>pafixed.c\<close>: the paged array of fixed-size atoms. The info block
  (\<^verbatim>\<open>pa_fixed_info_t\<close>) and the page table live in the segment and are read and written there; the
  handle keeps their addresses. The segment (\<^verbatim>\<open>pf_mmap\<close>) is passed along as a value.
\<close>

section \<open>The info block and the page table\<close>

record pa_fixed =
  pf_infop :: nat
  pf_base :: "nat option"

definition PFF_INIT_ZERO :: u8 where "PFF_INIT_ZERO = 1"
definition PA_TYPE_FIXED :: u16 where "PA_TYPE_FIXED = 2"
definition sizeof_pa_fixed_info :: nat where "sizeof_pa_fixed_info = 16"

definition pf_shift :: "mem \<Rightarrow> pa_fixed \<Rightarrow> u8" where "pf_shift m pfp = m (pf_infop pfp)"
definition pf_flags :: "mem \<Rightarrow> pa_fixed \<Rightarrow> u8" where "pf_flags m pfp = m (pf_infop pfp + 1)"
definition pf_atom_size :: "mem \<Rightarrow> pa_fixed \<Rightarrow> u16" where "pf_atom_size m pfp = rd16 m (pf_infop pfp + 2)"
definition pf_max_atoms :: "mem \<Rightarrow> pa_fixed \<Rightarrow> u32" where "pf_max_atoms m pfp = rd32 m (pf_infop pfp + 4)"
definition pf_free_at :: "pa_fixed \<Rightarrow> nat" where "pf_free_at pfp = pf_infop pfp + 8"
definition pf_free :: "mem \<Rightarrow> pa_fixed \<Rightarrow> u32" where "pf_free m pfp = rd32 m (pf_free_at pfp)"
definition pfi_base :: "mem \<Rightarrow> pa_fixed \<Rightarrow> u32" where "pfi_base m pfp = rd32 m (pf_infop pfp + 12)"

definition pa_fixed_max_atoms :: "mem \<Rightarrow> pa_fixed \<Rightarrow> u32" where
  "pa_fixed_max_atoms m pfp = pf_max_atoms m pfp"

definition pa_fixed_page_get :: "mem \<Rightarrow> nat \<Rightarrow> u32 \<Rightarrow> nat option" where
  "pa_fixed_page_get m base page = pa_mmap_addr (rd32 m (base + 4 * unat page))"

definition pa_fixed_page_set :: "mem \<Rightarrow> nat \<Rightarrow> u32 \<Rightarrow> u32 \<Rightarrow> mem" where
  "pa_fixed_page_set m base page matom = wr32 m (base + 4 * unat page) matom"

definition pa_fixed_atom_addr_direct ::
  "mem \<Rightarrow> nat \<Rightarrow> u8 \<Rightarrow> u16 \<Rightarrow> u32 \<Rightarrow> u32 \<Rightarrow> nat option" where
  "pa_fixed_atom_addr_direct m base shift atom_size max_atoms atom =
     (if atom = 0 \<or> max_atoms \<le> atom then None
      else case pa_fixed_page_get m base (drop_bit (unat shift) atom) of
        None \<Rightarrow> None
      | Some addr \<Rightarrow>
          Some (addr + unat ((atom AND (push_bit (unat shift) 1 - 1)) * ucast atom_size)))"

definition pa_fixed_atom_addr :: "mem \<Rightarrow> pa_fixed \<Rightarrow> u32 \<Rightarrow> nat option" where
  "pa_fixed_atom_addr m pfp atom =
     (case pf_base pfp of
        None \<Rightarrow> None
      | Some base \<Rightarrow> pa_fixed_atom_addr_direct m base (pf_shift m pfp) (pf_atom_size m pfp)
          (pf_max_atoms m pfp) atom)"

section \<open>Pages\<close>

text \<open>The loop that links each atom of a new page to the next one.\<close>

fun pa_fixed_fill :: "mem \<Rightarrow> nat \<Rightarrow> u32 \<Rightarrow> u32 \<Rightarrow> nat \<Rightarrow> nat \<Rightarrow> mem" where
  "pa_fixed_fill m addr mult first i 0 = m"
| "pa_fixed_fill m addr mult first i (Suc n) =
     pa_fixed_fill (wr32 m (addr + 4 * unat (word_of_nat i * mult)) (first + word_of_nat i + 1))
       addr mult first (Suc i) n"

text \<open>The loop that looks for the next page without memory.\<close>

function pa_fixed_next_page :: "mem \<Rightarrow> nat \<Rightarrow> u32 \<Rightarrow> u32 \<Rightarrow> u32" where
  "pa_fixed_next_page m base i max_page =
     (if i < max_page
      then (if pa_fixed_page_get m base i = None then i
            else pa_fixed_next_page m base (i + 1) max_page)
      else i)"
  by pat_completeness auto
termination
proof (relation "measure (\<lambda>(m, base, i, max_page). unat max_page - unat i)")
  fix m :: mem and base :: nat and i max_page :: u32
  assume lt: "i < max_page"
  with unat_Suc_less [OF lt] show "((m, base, i + 1, max_page), m, base, i, max_page)
      \<in> measure (\<lambda>(m, base, i, max_page). unat max_page - unat i)"
    by (simp add: word_less_nat_alt)
qed simp

declare pa_fixed_next_page.simps [simp del]

definition pa_fixed_alloc_setup_page ::
  "pa_os \<Rightarrow> pa_mmap \<Rightarrow> pa_fixed \<Rightarrow> nat \<Rightarrow> u32 \<Rightarrow> pa_mmap option" where
  "pa_fixed_alloc_setup_page os pmp pfp base atom = do {
     let shift = unat (pf_shift (pm_mem pmp) pfp);
     let page = drop_bit shift atom;
     let count = (push_bit shift 1 :: u32);
     let sz = unat (count * ucast (pf_atom_size (pm_mem pmp) pfp));
     (pmp, matom) \<leftarrow> pa_mmap_alloc os pmp sz;
     (case pa_mmap_addr matom of
        None \<Rightarrow> Some pmp
      | Some addr \<Rightarrow>
          (let m = pm_mem pmp;
               mult = ucast (pf_atom_size m pfp) div 4;
               first = push_bit shift page;
               m = pa_fixed_fill m addr mult first 0 (unat (count - 1));
               m = pa_fixed_page_set m base page matom;
               max_page = drop_bit shift (pf_max_atoms m pfp);
               i = pa_fixed_next_page m base (page + 1) max_page;
               i = (if i < max_page then push_bit shift i else 0);
               m = wr32 m (addr + 4 * unat ((count - 1) * mult)) i in
           Some (pmp\<lparr>pm_mem := m\<rparr>)))
   }"

text \<open>Without a page table the store through the null pointer does not return.\<close>

definition pa_fixed_element_setup_page ::
  "pa_os \<Rightarrow> pa_mmap \<Rightarrow> pa_fixed \<Rightarrow> u32 \<Rightarrow> pa_mmap option" where
  "pa_fixed_element_setup_page os pmp pfp atom = do {
     let shift = unat (pf_shift (pm_mem pmp) pfp);
     let page = drop_bit shift atom;
     let count = (push_bit shift 1 :: u32);
     let sz = unat (count * ucast (pf_atom_size (pm_mem pmp) pfp));
     (pmp, matom) \<leftarrow> pa_mmap_alloc os pmp sz;
     (case pa_mmap_addr matom of
        None \<Rightarrow> Some pmp
      | Some addr \<Rightarrow> do {
          base \<leftarrow> pf_base pfp;
          let m = pa_fixed_page_set (pm_mem pmp) base page matom;
          let m = (if pf_flags m pfp AND PFF_INIT_ZERO \<noteq> 0 then zero_range m addr sz else m);
          Some (pmp\<lparr>pm_mem := m\<rparr>)
        })
   }"

section \<open>Atoms\<close>

definition pa_fixed_alloc_atom :: "pa_os \<Rightarrow> pa_mmap \<Rightarrow> pa_fixed \<Rightarrow> (pa_mmap \<times> u32) option" where
  "pa_fixed_alloc_atom os pmp pfp =
     (case pf_base pfp of
        None \<Rightarrow> Some (pmp, 0)
      | Some base \<Rightarrow>
          (let atom = pf_free (pm_mem pmp) pfp in
           if atom = 0 then Some (pmp, 0)
           else do {
             pmp \<leftarrow> (case pa_fixed_atom_addr (pm_mem pmp) pfp atom of
                None \<Rightarrow> pa_fixed_alloc_setup_page os pmp pfp base atom
              | Some _ \<Rightarrow> Some pmp);
             (case pa_fixed_atom_addr (pm_mem pmp) pfp atom of
                None \<Rightarrow> Some (pmp, 0)
              | Some addr \<Rightarrow>
                  (let m = pm_mem pmp;
                       m = wr32 m (pf_free_at pfp) (rd32 m addr);
                       m = (if pf_flags m pfp AND PFF_INIT_ZERO \<noteq> 0
                            then zero_range m addr (unat (pf_atom_size m pfp)) else m) in
                   Some (pmp\<lparr>pm_mem := m\<rparr>, atom)))
           }))"

definition pa_fixed_element :: "pa_os \<Rightarrow> pa_mmap \<Rightarrow> pa_fixed \<Rightarrow> u32 \<Rightarrow> (pa_mmap \<times> nat option) option" where
  "pa_fixed_element os pmp pfp num =
     (case pa_fixed_atom_addr (pm_mem pmp) pfp num of
        Some addr \<Rightarrow> Some (pmp, Some addr)
      | None \<Rightarrow> do {
          pmp \<leftarrow> pa_fixed_element_setup_page os pmp pfp num;
          Some (pmp, pa_fixed_atom_addr (pm_mem pmp) pfp num)
        })"

definition pa_fixed_element_if_exists :: "mem \<Rightarrow> pa_fixed \<Rightarrow> u32 \<Rightarrow> nat option" where
  "pa_fixed_element_if_exists m pfp num = pa_fixed_atom_addr m pfp num"

definition pa_fixed_free_atom :: "pa_mmap \<Rightarrow> pa_fixed \<Rightarrow> u32 \<Rightarrow> pa_mmap" where
  "pa_fixed_free_atom pmp pfp atom =
     (if atom = 0 then pmp
      else case pa_fixed_atom_addr (pm_mem pmp) pfp atom of
        None \<Rightarrow> pmp
      | Some addr \<Rightarrow>
          (let m = wr32 (pm_mem pmp) addr (pf_free (pm_mem pmp) pfp);
               m = wr32 m (pf_free_at pfp) atom in
           pmp\<lparr>pm_mem := m\<rparr>))"

section \<open>Flags\<close>

definition pa_fixed_set_flags :: "mem \<Rightarrow> pa_fixed \<Rightarrow> u8 \<Rightarrow> mem" where
  "pa_fixed_set_flags m pfp flags = m(pf_infop pfp + 1 := pf_flags m pfp OR flags)"

definition pa_fixed_clear_flags :: "mem \<Rightarrow> pa_fixed \<Rightarrow> u8 \<Rightarrow> mem" where
  "pa_fixed_clear_flags m pfp flags = m(pf_infop pfp + 1 := pf_flags m pfp AND NOT flags)"

definition pa_fixed_test_flags :: "mem \<Rightarrow> pa_fixed \<Rightarrow> u8 \<Rightarrow> bool" where
  "pa_fixed_test_flags m pfp flags \<longleftrightarrow> pf_flags m pfp AND flags \<noteq> 0"

section \<open>Setting up\<close>

definition pa_fixed_init_from_block :: "pa_fixed \<Rightarrow> nat option \<Rightarrow> nat \<Rightarrow> pa_fixed" where
  "pa_fixed_init_from_block pfp base infop = pfp\<lparr>pf_base := base, pf_infop := infop\<rparr>"

definition pa_fixed_init ::
  "pa_os \<Rightarrow> pa_config_variable list \<Rightarrow> pa_mmap \<Rightarrow> pa_fixed \<Rightarrow> string \<Rightarrow> u8 \<Rightarrow> u16 \<Rightarrow> u32
     \<Rightarrow> (pa_mmap \<times> pa_fixed) option" where
  "pa_fixed_init os vars pmp pfp name shift atom_size max_atoms =
     (let shift = ucast (pa_config_value32 vars name ''shift'' (ucast shift)) :: u8;
          atom_size = ucast (pa_config_value32_min vars name ''atom-size'' (ucast atom_size)) :: u16;
          max_atoms = pa_config_value32 vars name ''max-atoms'' max_atoms;
          atom_size = (if atom_size < 4 then 4 else atom_size);
          atom_size = ucast (pa_roundup32 (ucast atom_size) 4) :: u16;
          max_atoms = pa_roundup_shift32 max_atoms shift;
          fields = (\<lambda>m. wr32 (wr16 (m(pf_infop pfp := shift)) (pf_infop pfp + 2) atom_size)
            (pf_infop pfp + 4) max_atoms)
      in case pf_base pfp of
        Some _ \<Rightarrow> Some (pmp\<lparr>pm_mem := fields (pm_mem pmp)\<rparr>, pfp)
      | None \<Rightarrow> do {
          let sz = unat (drop_bit (unat shift) max_atoms) * 8;
          (pmp, atom) \<leftarrow> pa_mmap_alloc os pmp sz;
          (case pa_mmap_addr atom of
             None \<Rightarrow> Some (pmp, pfp)
           | Some real_base \<Rightarrow>
               (let m = zero_range (pm_mem pmp) real_base sz;
                    m = wr32 m (pf_infop pfp + 12) atom;
                    pfp = pfp\<lparr>pf_base := Some real_base\<rparr>;
                    m = wr32 m (pf_free_at pfp) 1 in
                Some (pmp\<lparr>pm_mem := fields m\<rparr>, pfp)))
        })"

text \<open>\<open>calloc\<close> tells whether \<^verbatim>\<open>psu_calloc\<close> finds memory for the handle.\<close>

definition pa_fixed_setup ::
  "pa_os \<Rightarrow> pa_config_variable list \<Rightarrow> bool \<Rightarrow> pa_mmap \<Rightarrow> nat \<Rightarrow> string \<Rightarrow> u8 \<Rightarrow> u16 \<Rightarrow> u32
     \<Rightarrow> (pa_mmap \<times> pa_fixed option) option" where
  "pa_fixed_setup os vars calloc pmp pfip name shift atom_size max_atoms =
     (if \<not> calloc then Some (pmp, None)
      else do {
        (pmp, pfp) \<leftarrow> pa_fixed_init os vars pmp \<lparr>pf_infop = pfip, pf_base = None\<rparr> name shift atom_size max_atoms;
        Some (pmp, Some pfp)
      })"

text \<open>Without a name \<^verbatim>\<open>pa_fixed_init\<close> takes the length of a null pointer and does not return.\<close>

definition pa_fixed_open ::
  "pa_os \<Rightarrow> pa_config_variable list \<Rightarrow> bool \<Rightarrow> pa_mmap \<Rightarrow> string option \<Rightarrow> u8 \<Rightarrow> u16 \<Rightarrow> u32
     \<Rightarrow> (pa_mmap \<times> pa_fixed option) option" where
  "pa_fixed_open os vars calloc pmp name shift atom_size max_atoms =
     (case name of
        None \<Rightarrow> if calloc then None else Some (pmp, None)
      | Some name \<Rightarrow>
         (case pa_mmap_header pmp (map of_char name) PA_TYPE_FIXED 0 sizeof_pa_fixed_info of
            (pmp, None) \<Rightarrow> Some (pmp, None)
          | (pmp, Some pfip) \<Rightarrow> pa_fixed_setup os vars calloc pmp pfip name shift atom_size max_atoms))"

end
