(* ===== verification/Pabitmap.thy ===== *)
theory Pabitmap
  imports Pafixed
begin

text \<open>
  \<^verbatim>\<open>parrotdb/pabitmap.h\<close>: bitmaps over a paged array of blocks of 1024 bytes. A bitmap is a block that holds the atoms
  of its 256 chunks, and a chunk is a block of bits; a chunk without a set bit need not exist. \<open>None\<close> is an access
  through a null pointer or a search that does not end.
\<close>

section \<open>Numbers\<close>

record pa_bitmap =
  pb_data :: pa_fixed

definition PA_BITMAP_BLOCK_SHIFT :: nat where "PA_BITMAP_BLOCK_SHIFT = 10"
definition PA_BITMAP_BLOCK_SIZE :: u32 where "PA_BITMAP_BLOCK_SIZE = push_bit PA_BITMAP_BLOCK_SHIFT 1"
definition PA_BITMAP_CHUNK_SHIFT :: nat where "PA_BITMAP_CHUNK_SHIFT = PA_BITMAP_BLOCK_SHIFT - 2"
definition PA_BITMAP_CHUNK_SIZE :: u32 where "PA_BITMAP_CHUNK_SIZE = push_bit PA_BITMAP_CHUNK_SHIFT 1"
definition PA_BITMAP_BITS_PER_CHUNK :: u32 where "PA_BITMAP_BITS_PER_CHUNK = PA_BITMAP_BLOCK_SIZE * 8"
definition PA_BITMAP_BITS_PER_UNIT :: u32 where "PA_BITMAP_BITS_PER_UNIT = 4 * 8"
definition PA_BITMAP_UNITS_PER_CHUNK :: u32 where "PA_BITMAP_UNITS_PER_CHUNK = PA_BITMAP_BLOCK_SIZE div 4"
definition PA_BITMAP_MAX_BIT :: u32 where "PA_BITMAP_MAX_BIT = 8 * PA_BITMAP_BLOCK_SIZE * PA_BITMAP_CHUNK_SIZE"
definition PA_BITMAP_MAX_ATOMS :: u32 where "PA_BITMAP_MAX_ATOMS = push_bit 24 1"
definition PA_BITMAP_FIND_START :: u32 where "PA_BITMAP_FIND_START = push_bit 31 1 - 1"
definition PA_BITMAP_FIND_DONE :: u32 where "PA_BITMAP_FIND_DONE = push_bit 31 1"

definition pa_bitmap_bitnum :: "u32 \<Rightarrow> u32" where
  "pa_bitmap_bitnum num = num AND (PA_BITMAP_BITS_PER_UNIT - 1)"

definition pa_bitmap_unitnum :: "u32 \<Rightarrow> u32" where
  "pa_bitmap_unitnum num = (num div PA_BITMAP_BITS_PER_UNIT) AND (PA_BITMAP_UNITS_PER_CHUNK - 1)"

definition pa_bitmap_chunknum :: "u32 \<Rightarrow> u32" where
  "pa_bitmap_chunknum num = drop_bit PA_BITMAP_BLOCK_SHIFT (num div 8) AND (PA_BITMAP_CHUNK_SIZE - 1)"

section \<open>Bits\<close>

definition pa_bitmap_alloc :: "pa_os \<Rightarrow> pa_mmap \<Rightarrow> pa_bitmap \<Rightarrow> (pa_mmap \<times> u32) option" where
  "pa_bitmap_alloc os pmp pfp = pa_fixed_alloc_atom os pmp (pb_data pfp)"

definition pa_bitmap_chunk_addr :: "mem \<Rightarrow> pa_bitmap \<Rightarrow> u32 \<Rightarrow> nat option" where
  "pa_bitmap_chunk_addr m pfp atom = pa_fixed_atom_addr m (pb_data pfp) atom"

text \<open>The entry of a chunk in the table of a bitmap, and a unit of bits.\<close>

definition chunk_at :: "nat \<Rightarrow> u32 \<Rightarrow> nat" where "chunk_at chunkp chunknum = chunkp + 4 * unat chunknum"
definition unit_at :: "nat \<Rightarrow> u32 \<Rightarrow> nat" where "unit_at data unitnum = data + 4 * unat unitnum"
definition unit_bit :: "u32 \<Rightarrow> u32" where "unit_bit num = push_bit (unat (pa_bitmap_bitnum num)) 1"

definition pa_bitmap_test :: "mem \<Rightarrow> pa_bitmap \<Rightarrow> u32 \<Rightarrow> u32 \<Rightarrow> bool" where
  "pa_bitmap_test m pfp bitmap_id num =
     (if PA_BITMAP_MAX_BIT \<le> num then False
      else case pa_bitmap_chunk_addr m pfp bitmap_id of
        None \<Rightarrow> False
      | Some chunkp \<Rightarrow>
         let atom = rd32 m (chunk_at chunkp (pa_bitmap_chunknum num)) in
         if atom = 0 then False
         else case pa_fixed_atom_addr m (pb_data pfp) atom of
           None \<Rightarrow> False
         | Some data \<Rightarrow> rd32 m (unit_at data (pa_bitmap_unitnum num)) AND unit_bit num \<noteq> 0)"

definition pa_bitmap_set :: "pa_os \<Rightarrow> pa_mmap \<Rightarrow> pa_bitmap \<Rightarrow> u32 \<Rightarrow> u32 \<Rightarrow> pa_mmap option" where
  "pa_bitmap_set os pmp pfp bitmap_id num =
     (if PA_BITMAP_MAX_BIT \<le> num then Some pmp
      else case pa_bitmap_chunk_addr (pm_mem pmp) pfp bitmap_id of
        None \<Rightarrow> Some pmp
      | Some chunkp \<Rightarrow> do {
         let cell = chunk_at chunkp (pa_bitmap_chunknum num);
         let atom = rd32 (pm_mem pmp) cell;
         (pmp, atom) \<leftarrow> (if atom = 0 then do {
             (pmp, atom) \<leftarrow> pa_fixed_alloc_atom os pmp (pb_data pfp);
             Some (if atom = 0 then pmp else pmp\<lparr>pm_mem := wr32 (pm_mem pmp) cell atom\<rparr>, atom)
           }
           else Some (pmp, atom));
         if atom = 0 then Some pmp
         else Some (case pa_fixed_atom_addr (pm_mem pmp) (pb_data pfp) atom of
           None \<Rightarrow> pmp
         | Some data \<Rightarrow>
            let at = unit_at data (pa_bitmap_unitnum num) in
            pmp\<lparr>pm_mem := wr32 (pm_mem pmp) at (rd32 (pm_mem pmp) at OR unit_bit num)\<rparr>)
       })"

definition pa_bitmap_clear :: "pa_mmap \<Rightarrow> pa_bitmap \<Rightarrow> u32 \<Rightarrow> u32 \<Rightarrow> pa_mmap" where
  "pa_bitmap_clear pmp pfp bitmap_id num =
     (if PA_BITMAP_MAX_BIT \<le> num then pmp
      else case pa_bitmap_chunk_addr (pm_mem pmp) pfp bitmap_id of
        None \<Rightarrow> pmp
      | Some chunkp \<Rightarrow>
         let atom = rd32 (pm_mem pmp) (chunk_at chunkp (pa_bitmap_chunknum num)) in
         if atom = 0 then pmp
         else case pa_fixed_atom_addr (pm_mem pmp) (pb_data pfp) atom of
           None \<Rightarrow> pmp
         | Some data \<Rightarrow>
            let at = unit_at data (pa_bitmap_unitnum num) in
            pmp\<lparr>pm_mem := wr32 (pm_mem pmp) at (rd32 (pm_mem pmp) at AND NOT (unit_bit num))\<rparr>)"

section \<open>Searching\<close>

text \<open>The next chunk that exists, and the next unit with a set bit.\<close>

fun next_chunk :: "mem \<Rightarrow> nat \<Rightarrow> nat \<Rightarrow> nat \<Rightarrow> nat option" where
  "next_chunk m chunkp i 0 = None"
| "next_chunk m chunkp i (Suc n) = (if rd32 m (chunkp + 4 * i) \<noteq> 0 then Some i else next_chunk m chunkp (Suc i) n)"

text \<open>The position of the lowest set bit of a unit that is not 0, counted from 0.\<close>

fun ffs_from :: "nat \<Rightarrow> nat \<Rightarrow> u32 \<Rightarrow> nat" where
  "ffs_from i 0 v = i"
| "ffs_from i (Suc n) v = (if bit v i then i else ffs_from (Suc i) n v)"

partial_function (option) find_restart :: "mem \<Rightarrow> pa_bitmap \<Rightarrow> nat \<Rightarrow> u32 \<Rightarrow> u32 \<Rightarrow> u32 option" where
  "find_restart m pfp chunkp num bitmask =
     (let chunknum = pa_bitmap_chunknum num;
          atom = rd32 m (chunk_at chunkp chunknum) in
      if atom = 0 then
        (case next_chunk m chunkp (Suc (unat chunknum)) (unat PA_BITMAP_CHUNK_SIZE - Suc (unat chunknum)) of
           None \<Rightarrow> Some PA_BITMAP_FIND_DONE
         | Some c \<Rightarrow> find_restart m pfp chunkp (word_of_nat c * PA_BITMAP_BITS_PER_CHUNK) bitmask)
      else case pa_fixed_atom_addr m (pb_data pfp) atom of
        None \<Rightarrow> Some PA_BITMAP_FIND_DONE
      | Some data \<Rightarrow>
         let unitnum = pa_bitmap_unitnum num;
             value = rd32 m (unit_at data unitnum) AND NOT bitmask in
         if value = 0 then
           (case next_chunk m data (Suc (unat unitnum)) (unat PA_BITMAP_UNITS_PER_CHUNK - Suc (unat unitnum)) of
              Some u \<Rightarrow> find_restart m pfp chunkp
                (chunknum * PA_BITMAP_BITS_PER_CHUNK + word_of_nat u * PA_BITMAP_BITS_PER_UNIT) 0
            | None \<Rightarrow> find_restart m pfp chunkp ((chunknum + 1) * PA_BITMAP_BITS_PER_CHUNK) 0)
         else Some (chunknum * PA_BITMAP_BITS_PER_CHUNK + unitnum * PA_BITMAP_BITS_PER_UNIT
           + word_of_nat (ffs_from 0 31 value)))"

definition pa_bitmap_find_next :: "mem \<Rightarrow> pa_bitmap \<Rightarrow> u32 \<Rightarrow> u32 \<Rightarrow> u32 option" where
  "pa_bitmap_find_next m pfp bitmap_id num =
     (let (num, bitmask, stop) =
        (if num = PA_BITMAP_FIND_START then (0, 0, False)
         else (num + 1, unit_bit (num + 1) - 1, num + 1 = PA_BITMAP_MAX_BIT)) in
      if stop then Some PA_BITMAP_FIND_DONE
      else case pa_bitmap_chunk_addr m pfp bitmap_id of
        None \<Rightarrow> Some PA_BITMAP_FIND_DONE
      | Some chunkp \<Rightarrow> find_restart m pfp chunkp num bitmask)"

section \<open>Opening\<close>

definition pa_bitmap_open ::
  "pa_os \<Rightarrow> pa_config_variable list \<Rightarrow> bool \<Rightarrow> bool \<Rightarrow> pa_mmap \<Rightarrow> string option \<Rightarrow> (pa_mmap \<times> pa_bitmap option) option" where
  "pa_bitmap_open os vars calloc calloc2 pmp name =
     (if \<not> calloc then Some (pmp, None)
      else do {
        (pmp, data) \<leftarrow> pa_fixed_open os vars calloc2 pmp name (word_of_nat PA_BITMAP_BLOCK_SHIFT)
          (ucast PA_BITMAP_BLOCK_SIZE) PA_BITMAP_MAX_ATOMS;
        pfp \<leftarrow> data;
        Some (pmp\<lparr>pm_mem := pa_fixed_set_flags (pm_mem pmp) pfp PFF_INIT_ZERO\<rparr>, Some \<lparr>pb_data = pfp\<rparr>)
      })"

end
