(* ===== verification/Pafixed_Pool.thy ===== *)
theory Pafixed_Pool
  imports Pafixed
begin

text \<open>
  The invariant of the paged array: which pages have memory, where the bytes of an atom are, and
  the chain of free atoms that runs through the free atoms and ends at the first atom of the first
  page without memory. From it, what \<^verbatim>\<open>pa_fixed_alloc_atom\<close> and \<^verbatim>\<open>pa_fixed_free_atom\<close> do.
\<close>

section \<open>The invariant\<close>

text \<open>The shape of an array: the logarithm of the atoms per page, the size of an atom, the number of
  pages, the mmap atom of the page table and those of the pages that have memory.\<close>

record fx =
  fx_shift :: nat
  fx_size :: nat
  fx_npages :: nat
  fx_table :: u32
  fx_pages :: "u32 list"

definition fx_per :: "fx \<Rightarrow> nat" where "fx_per g = 2 ^ fx_shift g"
definition fx_used :: "fx \<Rightarrow> nat" where "fx_used g = length (fx_pages g) * fx_per g"
definition fx_base :: "fx \<Rightarrow> nat" where "fx_base g = unat (fx_table g) * 4096"

definition fx_addr :: "fx \<Rightarrow> nat \<Rightarrow> nat" where
  "fx_addr g a = unat (fx_pages g ! (a div fx_per g)) * 4096 + (a mod fx_per g) * fx_size g"

definition fx_bytes :: "fx \<Rightarrow> nat \<Rightarrow> nat set" where
  "fx_bytes g a = {fx_addr g a..<fx_addr g a + fx_size g}"

definition fx_table_bytes :: "fx \<Rightarrow> nat set" where
  "fx_table_bytes g = {fx_base g..<fx_base g + 4 * fx_npages g}"

text \<open>The first atom of the first page without memory; 0 when all pages have some.\<close>

definition fx_frontier :: "fx \<Rightarrow> nat" where
  "fx_frontier g = (if fx_pages g = [] then 1
     else if length (fx_pages g) < fx_npages g then fx_used g else 0)"

fun fx_chain :: "mem \<Rightarrow> (nat \<Rightarrow> nat) \<Rightarrow> nat \<Rightarrow> nat list \<Rightarrow> nat \<Rightarrow> bool" where
  "fx_chain m adr cell [] f \<longleftrightarrow> unat (rd32 m cell) = f"
| "fx_chain m adr cell (x # xs) f \<longleftrightarrow> unat (rd32 m cell) = x \<and> fx_chain m adr (adr x) xs f"

definition fx_geo :: "fx \<Rightarrow> bool" where
  "fx_geo g \<longleftrightarrow> 1 \<le> fx_shift g \<and> fx_shift g < 31 \<and> 4 \<le> fx_size g \<and> 4 dvd fx_size g
     \<and> fx_per g * fx_size g < 2 ^ 32 \<and> 1 \<le> fx_npages g \<and> fx_npages g * fx_per g < 2 ^ 32
     \<and> length (fx_pages g) \<le> fx_npages g \<and> distinct (fx_table g # fx_pages g)"

definition fx_fields :: "mem \<Rightarrow> pa_fixed \<Rightarrow> fx \<Rightarrow> bool" where
  "fx_fields m pfp g \<longleftrightarrow> unat (pf_shift m pfp) = fx_shift g \<and> unat (pf_atom_size m pfp) = fx_size g
     \<and> unat (pf_max_atoms m pfp) = fx_npages g * fx_per g \<and> pf_base pfp = Some (fx_base g)"

definition fx_page_count :: "fx \<Rightarrow> u32" where
  "fx_page_count g = word_of_nat (pa_count (fx_per g * fx_size g))"

definition fx_blocks :: "(u32 \<times> u32) set \<Rightarrow> fx \<Rightarrow> bool" where
  "fx_blocks S g \<longleftrightarrow> (fx_table g, word_of_nat (pa_count (fx_npages g * 8))) \<in> S
     \<and> (\<forall>p\<in>set (fx_pages g). (p, fx_page_count g) \<in> S)"

definition fx_tbl :: "mem \<Rightarrow> fx \<Rightarrow> bool" where
  "fx_tbl m g \<longleftrightarrow> (\<forall>i<fx_npages g. rd32 m (fx_base g + 4 * i)
     = (if i < length (fx_pages g) then fx_pages g ! i else 0))"

definition fx_ok :: "pa_mmap \<Rightarrow> (u32 \<times> u32) set \<Rightarrow> pa_fixed \<Rightarrow> fx \<Rightarrow> nat list \<Rightarrow> bool" where
  "fx_ok pmp S pfp g xs \<longleftrightarrow> mm_valid pmp S \<and> {pf_infop pfp..<pf_infop pfp + 16} \<subseteq> header_bytes
     \<and> fx_geo g \<and> fx_fields (pm_mem pmp) pfp g \<and> fx_blocks S g \<and> fx_tbl (pm_mem pmp) g
     \<and> fx_chain (pm_mem pmp) (fx_addr g) (pf_free_at pfp) xs (fx_frontier g)
     \<and> distinct xs \<and> set xs \<subseteq> {1..<fx_used g}"

definition fx_live :: "fx \<Rightarrow> nat list \<Rightarrow> nat set" where
  "fx_live g xs = {1..<fx_used g} - set xs"

text \<open>The bytes that belong to the allocator itself.\<close>

definition fx_private :: "pa_fixed \<Rightarrow> fx \<Rightarrow> nat list \<Rightarrow> nat set" where
  "fx_private pfp g xs = {pf_free_at pfp..<pf_free_at pfp + 4} \<union> fx_table_bytes g
     \<union> (\<Union>x\<in>set xs. fx_bytes g x)"

lemma fx_okD:
  assumes "fx_ok pmp S pfp g xs"
  shows "mm_valid pmp S" "{pf_infop pfp..<pf_infop pfp + 16} \<subseteq> header_bytes" "fx_geo g"
    "fx_fields (pm_mem pmp) pfp g" "fx_blocks S g" "fx_tbl (pm_mem pmp) g"
    "fx_chain (pm_mem pmp) (fx_addr g) (pf_free_at pfp) xs (fx_frontier g)"
    "distinct xs" "set xs \<subseteq> {1..<fx_used g}"
  using assms by (auto simp: fx_ok_def)

lemma fx_geoD:
  assumes "fx_geo g"
  shows "1 \<le> fx_shift g" "fx_shift g < 31" "4 \<le> fx_size g" "4 dvd fx_size g"
    "fx_per g * fx_size g < 2 ^ 32" "1 \<le> fx_npages g" "fx_npages g * fx_per g < 2 ^ 32"
    "length (fx_pages g) \<le> fx_npages g" "distinct (fx_table g # fx_pages g)" "2 \<le> fx_per g"
proof -
  show "1 \<le> fx_shift g" "fx_shift g < 31" "4 \<le> fx_size g" "4 dvd fx_size g"
    "fx_per g * fx_size g < 2 ^ 32" "1 \<le> fx_npages g" "fx_npages g * fx_per g < 2 ^ 32"
    "length (fx_pages g) \<le> fx_npages g" "distinct (fx_table g # fx_pages g)"
    using assms by (auto simp: fx_geo_def)
  have "2 ^ 1 \<le> (2 :: nat) ^ fx_shift g" using assms by (intro power_increasing) (auto simp: fx_geo_def)
  then show "2 \<le> fx_per g" by (simp add: fx_per_def)
qed

section \<open>Where the bytes are\<close>

lemma pa_count_bytes: "n < 2 ^ 32 \<Longrightarrow> n \<le> unat (word_of_nat (pa_count n) :: u32) * 4096"
proof -
  assume "n < 2 ^ 32"
  then have "unat (word_of_nat (pa_count n) :: u32) = pa_count n"
    by (simp add: unat_of_nat pa_count_def)
  then show ?thesis by (simp add: pa_count_def)
qed

lemma fx_div_less: "a < fx_used g \<Longrightarrow> fx_geo g \<Longrightarrow> a div fx_per g < length (fx_pages g)"
  using fx_geoD(10) [of g] by (auto simp: fx_used_def div_less_iff_less_mult)

lemma fx_bytes_page:
  assumes "fx_geo g" "a < fx_used g"
  shows "fx_bytes g a \<subseteq> ext_bytes (fx_pages g ! (a div fx_per g), fx_page_count g)"
proof -
  note geo = fx_geoD [OF assms(1)]
  have "a mod fx_per g < fx_per g" using geo(10) by simp
  then have "(a mod fx_per g + 1) * fx_size g \<le> fx_per g * fx_size g"
    by (intro mult_right_mono) auto
  moreover have "fx_per g * fx_size g \<le> unat (fx_page_count g) * 4096"
    unfolding fx_page_count_def by (rule pa_count_bytes) (rule geo(5))
  ultimately show ?thesis by (auto simp: fx_bytes_def fx_addr_def ext_bytes_def algebra_simps)
qed

lemma fx_table_page:
  assumes "fx_geo g"
  shows "fx_table_bytes g \<subseteq> ext_bytes (fx_table g, word_of_nat (pa_count (fx_npages g * 8)))"
proof -
  note geo = fx_geoD [OF assms(1)]
  have "fx_npages g * 2 \<le> fx_npages g * fx_per g" using geo(10) by (intro mult_left_mono) auto
  then have "fx_npages g * 2 < 2 ^ 32" using geo(7) by (rule le_less_trans)
  then have "fx_npages g * 8 < 2 ^ 34" by simp
  have "fx_npages g * 4 \<le> unat (word_of_nat (pa_count (fx_npages g * 8)) :: u32) * 4096"
  proof -
    have "pa_count (fx_npages g * 8) < 2 ^ 32" using \<open>fx_npages g * 8 < 2 ^ 34\<close> by (simp add: pa_count_def)
    then have "unat (word_of_nat (pa_count (fx_npages g * 8)) :: u32) = pa_count (fx_npages g * 8)"
      by (simp add: unat_of_nat)
    then show ?thesis by (simp add: pa_count_def)
  qed
  then show ?thesis by (auto simp: fx_table_bytes_def fx_base_def ext_bytes_def algebra_simps)
qed

lemma fx_page_in:
  assumes "fx_geo g" "fx_blocks S g" "a < fx_used g"
  shows "(fx_pages g ! (a div fx_per g), fx_page_count g) \<in> S"
  using assms(2) fx_div_less [OF assms(3,1)] by (auto simp: fx_blocks_def)

lemma fx_bytes_owned:
  assumes "fx_geo g" "fx_blocks S g" "a < fx_used g"
  shows "fx_bytes g a \<subseteq> owned S"
  using fx_bytes_page [OF assms(1,3)] fx_page_in [OF assms] by (auto simp: owned_def)

lemma fx_table_owned:
  assumes "fx_geo g" "fx_blocks S g"
  shows "fx_table_bytes g \<subseteq> owned S"
  using fx_table_page [OF assms(1)] assms(2) by (fastforce simp: owned_def fx_blocks_def)

lemma fx_bytes_header:
  assumes "mm_valid pmp S" "fx_geo g" "fx_blocks S g" "a < fx_used g"
  shows "fx_bytes g a \<inter> header_bytes = {}"
  using fx_bytes_page [OF assms(2,4)] mm.block_not_header [OF assms(1) fx_page_in [OF assms(2-4)]] by blast

lemma fx_table_header:
  assumes "mm_valid pmp S" "fx_geo g" "fx_blocks S g"
  shows "fx_table_bytes g \<inter> header_bytes = {}"
  using fx_table_page [OF assms(2)] mm.block_not_header [OF assms(1)] assms(3)
  unfolding fx_blocks_def by blast

lemma fx_bytes_table:
  assumes "mm_valid pmp S" "fx_geo g" "fx_blocks S g" "a < fx_used g"
  shows "fx_bytes g a \<inter> fx_table_bytes g = {}"
proof -
  have "fx_pages g ! (a div fx_per g) \<noteq> fx_table g"
    using fx_geoD(9) [OF assms(2)] nth_mem [OF fx_div_less [OF assms(4,2)]] by auto
  then have "ext_bytes (fx_pages g ! (a div fx_per g), fx_page_count g)
      \<inter> ext_bytes (fx_table g, word_of_nat (pa_count (fx_npages g * 8))) = {}"
    using assms(3) fx_page_in [OF assms(2-4)]
    by (intro mm.bytes_disjoint [OF assms(1)]) (auto simp: fx_blocks_def)
  then show ?thesis using fx_bytes_page [OF assms(2,4)] fx_table_page [OF assms(2)] by blast
qed

lemma fx_bytes_disjoint:
  assumes "mm_valid pmp S" "fx_geo g" "fx_blocks S g"
    and "a < fx_used g" "b < fx_used g" "a \<noteq> b"
  shows "fx_bytes g a \<inter> fx_bytes g b = {}"
proof (cases "a div fx_per g = b div fx_per g")
  case True
  then have "a mod fx_per g \<noteq> b mod fx_per g"
    using assms(6) by (metis div_mult_mod_eq)
  then consider "a mod fx_per g + 1 \<le> b mod fx_per g" | "b mod fx_per g + 1 \<le> a mod fx_per g" by linarith
  then show ?thesis
  proof cases
    case 1
    then have "(a mod fx_per g + 1) * fx_size g \<le> b mod fx_per g * fx_size g" by (rule mult_right_mono) simp
    with True show ?thesis by (auto simp: fx_bytes_def fx_addr_def)
  next
    case 2
    then have "(b mod fx_per g + 1) * fx_size g \<le> a mod fx_per g * fx_size g" by (rule mult_right_mono) simp
    with True show ?thesis by (auto simp: fx_bytes_def fx_addr_def)
  qed
next
  case False
  then have "fx_pages g ! (a div fx_per g) \<noteq> fx_pages g ! (b div fx_per g)"
    using fx_geoD(9) [OF assms(2)] fx_div_less [OF assms(4,2)] fx_div_less [OF assms(5,2)]
    by (simp add: nth_eq_iff_index_eq)
  then have "ext_bytes (fx_pages g ! (a div fx_per g), fx_page_count g)
      \<inter> ext_bytes (fx_pages g ! (b div fx_per g), fx_page_count g) = {}"
    by (intro mm.bytes_disjoint [OF assms(1)] fx_page_in assms(2-5)) auto
  then show ?thesis using fx_bytes_page [OF assms(2,4)] fx_bytes_page [OF assms(2,5)] by blast
qed

section \<open>Addresses\<close>

lemma fx_atom_addr:
  assumes "fx_ok pmp S pfp g xs" "unat a < fx_used g" "a \<noteq> 0"
  shows "pa_fixed_atom_addr (pm_mem pmp) pfp a = Some (fx_addr g (unat a))"
proof -
  note ok = fx_okD [OF assms(1)]
  note geo = fx_geoD [OF ok(3)]
  let ?i = "unat a div fx_per g"
  have i: "?i < length (fx_pages g)" by (rule fx_div_less [OF assms(2) ok(3)])
  have "fx_used g \<le> fx_npages g * fx_per g" unfolding fx_used_def using geo(8) by (rule mult_right_mono) simp
  then have max: "\<not> pf_max_atoms (pm_mem pmp) pfp \<le> a"
    using assms(2) ok(4) by (simp add: word_le_nat_alt fx_fields_def)
  have tbl: "rd32 (pm_mem pmp) (fx_base g + 4 * ?i) = fx_pages g ! ?i"
    using ok(6) i geo(8) by (simp add: fx_tbl_def)
  have "(fx_pages g ! ?i, fx_page_count g) \<in> S" by (rule fx_page_in [OF ok(3,5) assms(2)])
  note pg = mm.page_addr [OF ok(1) this]
  have m: "unat (a AND (push_bit (fx_shift g) 1 - 1)) = unat a mod fx_per g"
    using unat_and_mask [of "fx_shift g" a] geo(2) by (simp add: fx_per_def)
  have "unat a mod fx_per g < fx_per g" using geo(10) by simp
  then have "unat a mod fx_per g * fx_size g \<le> fx_per g * fx_size g" by (intro mult_right_mono) auto
  then have lt: "unat a mod fx_per g * fx_size g < 2 ^ 32" using geo(5) by linarith
  have sz: "unat (ucast (pf_atom_size (pm_mem pmp) pfp) :: u32) = fx_size g"
    using ok(4) by (simp add: fx_fields_def unat_ucast_up)
  have off: "unat ((a AND (push_bit (fx_shift g) 1 - 1)) * ucast (pf_atom_size (pm_mem pmp) pfp))
      = unat a mod fx_per g * fx_size g"
    using lt by (subst unat_mult_less) (simp_all only: m sz, simp)
  have "pa_fixed_page_get (pm_mem pmp) (fx_base g) (drop_bit (fx_shift g) a)
      = Some (unat (fx_pages g ! ?i) * 4096)"
    using tbl pg by (auto simp: pa_fixed_page_get_def unat_drop_bit_div fx_per_def pa_mmap_addr_def pa_page_def)
  then show ?thesis
    using max assms(3) ok(4) off
    by (simp add: pa_fixed_atom_addr_def pa_fixed_atom_addr_direct_def fx_fields_def fx_addr_def)
qed

text \<open>An atom of a page without memory has no address.\<close>

lemma fx_atom_addr_none:
  assumes "fx_ok pmp S pfp g xs" "fx_used g \<le> unat a"
  shows "pa_fixed_atom_addr (pm_mem pmp) pfp a = None"
proof (cases "pf_max_atoms (pm_mem pmp) pfp \<le> a")
  case True
  then show ?thesis using fx_okD(4) [OF assms(1)]
    by (simp add: pa_fixed_atom_addr_def pa_fixed_atom_addr_direct_def fx_fields_def)
next
  case False
  note ok = fx_okD [OF assms(1)]
  note geo = fx_geoD [OF ok(3)]
  let ?i = "unat a div fx_per g"
  have "unat a < fx_npages g * fx_per g"
    using False ok(4) by (simp add: fx_fields_def word_le_nat_alt)
  then have "?i < fx_npages g" using geo(10) by (simp add: div_less_iff_less_mult)
  moreover have "length (fx_pages g) \<le> ?i"
    using assms(2) geo(10) by (simp add: fx_used_def less_eq_div_iff_mult_less_eq)
  ultimately have "rd32 (pm_mem pmp) (fx_base g + 4 * ?i) = 0" using ok(6) by (simp add: fx_tbl_def)
  then show ?thesis
    using ok(4) by (simp add: pa_fixed_atom_addr_def pa_fixed_atom_addr_direct_def fx_fields_def
        pa_fixed_page_get_def unat_drop_bit_div fx_per_def pa_mmap_addr_def)
qed

section \<open>The chain under writes\<close>

lemma fx_chain_move:
  assumes "fx_chain m adr c xs f" "rd32 m' c' = rd32 m c"
    and "same_on (\<Union>x\<in>set xs. {adr x..<adr x + 4}) m m'"
  shows "fx_chain m' adr c' xs f"
  using assms
proof (induction xs arbitrary: c c')
  case (Cons y ys)
  have "rd32 m' (adr y) = rd32 m (adr y)"
    by (rule same_on_rd32 [OF Cons.prems(3)]) auto
  moreover have "same_on (\<Union>x\<in>set ys. {adr x..<adr x + 4}) m m'"
    by (rule same_on_subset [OF Cons.prems(3)]) auto
  ultimately show ?case using Cons.IH [of "adr y" "adr y"] Cons.prems by simp
qed simp

lemma fx_chain_adr_cong:
  "(\<And>x. x \<in> set xs \<Longrightarrow> adr' x = adr x) \<Longrightarrow> fx_chain m adr' c xs f = fx_chain m adr c xs f"
  by (induction xs arbitrary: c) auto

text \<open>Cells that count up link a run of atoms.\<close>

lemma fx_chain_run:
  assumes "a < e" "\<And>j. a \<le> j \<Longrightarrow> j < e - 1 \<Longrightarrow> unat (rd32 m (adr j)) = j + 1"
    and "unat (rd32 m (adr (e - 1))) = f"
  shows "fx_chain m adr (adr a) [Suc a..<e] f"
  using assms
proof (induction "e - a" arbitrary: a)
  case (Suc n)
  show ?case
  proof (cases "Suc a = e")
    case True
    with Suc.prems show ?thesis by auto
  next
    case False
    with Suc.prems(1) have lt: "Suc a < e" by simp
    have "fx_chain m adr (adr (Suc a)) [Suc (Suc a)..<e] f"
      using Suc.hyps(2) lt Suc.prems by (intro Suc.hyps(1)) auto
    with lt Suc.prems show ?thesis by (simp add: upt_conv_Cons)
  qed
qed simp

lemma fx_fields_frame:
  assumes "fx_fields m pfp g" "same_on {pf_infop pfp..<pf_infop pfp + 8} m m'"
  shows "fx_fields m' pfp g"
proof -
  have "pf_shift m' pfp = pf_shift m pfp" unfolding pf_shift_def by (rule same_onD [OF assms(2)]) auto
  moreover have "pf_atom_size m' pfp = pf_atom_size m pfp"
    unfolding pf_atom_size_def by (rule same_on_rd16 [OF assms(2)]) auto
  moreover have "pf_max_atoms m' pfp = pf_max_atoms m pfp"
    unfolding pf_max_atoms_def by (rule same_on_rd32 [OF assms(2)]) auto
  ultimately show ?thesis using assms(1) by (simp add: fx_fields_def)
qed

lemma fx_tbl_frame:
  assumes "fx_tbl m g" "same_on (fx_table_bytes g) m m'"
  shows "fx_tbl m' g"
proof -
  have "rd32 m' (fx_base g + 4 * i) = rd32 m (fx_base g + 4 * i)" if "i < fx_npages g" for i
    by (rule same_on_rd32 [OF assms(2)]) (use that in \<open>auto simp: fx_table_bytes_def\<close>)
  with assms(1) show ?thesis by (simp add: fx_tbl_def)
qed

lemma fx_blocks_mono: "fx_blocks S g \<Longrightarrow> S \<subseteq> S' \<Longrightarrow> fx_blocks S' g"
  by (auto simp: fx_blocks_def)

lemma fx_cells_in:
  assumes "fx_geo g"
  shows "(\<Union>x\<in>A. {fx_addr g x..<fx_addr g x + 4}) \<subseteq> (\<Union>x\<in>A. fx_bytes g x)"
  using fx_geoD(3) [OF assms] by (fastforce simp: fx_bytes_def)

text \<open>The invariant only depends on the info block and the private bytes.\<close>

lemma fx_ok_frame:
  assumes "fx_ok pmp S pfp g xs" "mm_valid pmp' S'" "S \<subseteq> S'"
    and same: "same_on ({pf_infop pfp..<pf_infop pfp + 8} \<union> fx_private pfp g xs) (pm_mem pmp) (pm_mem pmp')"
  shows "fx_ok pmp' S' pfp g xs"
proof -
  note ok = fx_okD [OF assms(1)]
  have "fx_fields (pm_mem pmp') pfp g"
    by (rule fx_fields_frame [OF ok(4) same_on_subset [OF same]]) auto
  moreover have "fx_tbl (pm_mem pmp') g"
    by (rule fx_tbl_frame [OF ok(6) same_on_subset [OF same]]) (auto simp: fx_private_def)
  moreover have "fx_chain (pm_mem pmp') (fx_addr g) (pf_free_at pfp) xs (fx_frontier g)"
  proof (rule fx_chain_move [OF ok(7)])
    show "rd32 (pm_mem pmp') (pf_free_at pfp) = rd32 (pm_mem pmp) (pf_free_at pfp)"
      by (rule same_on_rd32 [OF same]) (auto simp: fx_private_def)
    show "same_on (\<Union>x\<in>set xs. {fx_addr g x..<fx_addr g x + 4}) (pm_mem pmp) (pm_mem pmp')"
      by (rule same_on_subset [OF same]) (use fx_cells_in [OF ok(3)] in \<open>fastforce simp: fx_private_def\<close>)
  qed
  ultimately show ?thesis
    using ok assms(2) fx_blocks_mono [OF ok(5) assms(3)] by (simp add: fx_ok_def)
qed

lemma fx_private_owned:
  assumes "fx_ok pmp S pfp g xs"
  shows "fx_private pfp g xs \<subseteq> owned S"
proof -
  note ok = fx_okD [OF assms]
  have "fx_bytes g x \<subseteq> owned S" if "x \<in> set xs" for x
    using ok(9) that by (intro fx_bytes_owned [OF ok(3,5)]) auto
  moreover have "{pf_free_at pfp..<pf_free_at pfp + 4} \<subseteq> owned S"
    using ok(2) by (fastforce simp: owned_def pf_free_at_def)
  ultimately show ?thesis
    using fx_table_owned [OF ok(3,5)] by (auto simp: fx_private_def)
qed

section \<open>Taking and returning an atom\<close>

text \<open>What a write to the head of the chain and to one atom leaves alone.\<close>

lemma fx_touch:
  assumes ok: "fx_ok pmp S pfp g xs" and x: "x < fx_used g"
    and m': "same_on (- ({pf_free_at pfp..<pf_free_at pfp + 4} \<union> fx_bytes g x)) (pm_mem pmp) m'"
  shows "mm_valid (pmp\<lparr>pm_mem := m'\<rparr>) S" "fx_fields m' pfp g" "fx_tbl m' g"
    and "A \<subseteq> {1..<fx_used g} - {x} \<Longrightarrow> same_on (\<Union>y\<in>A. fx_bytes g y) (pm_mem pmp) m'"
proof -
  note o = fx_okD [OF ok]
  have own: "fx_bytes g x \<subseteq> owned S" by (rule fx_bytes_owned [OF o(3,5) x])
  have info: "{pf_infop pfp..<pf_infop pfp + 16} \<inter> fx_bytes g x = {}"
    using o(2) fx_bytes_header [OF o(1,3,5) x] by blast
  have tab: "fx_table_bytes g \<inter> {pf_infop pfp..<pf_infop pfp + 16} = {}"
    using o(2) fx_table_header [OF o(1,3,5)] by blast
  have cell: "{pf_free_at pfp..<pf_free_at pfp + 4} \<subseteq> {pf_infop pfp..<pf_infop pfp + 16}"
    by (auto simp: pf_free_at_def)
  show "mm_valid (pmp\<lparr>pm_mem := m'\<rparr>) S"
    by (rule mm.write_inside [OF o(1) _ m']) (use own cell o(2) header_owned [of S] in blast)
  show "fx_fields m' pfp g"
  proof (rule fx_fields_frame [OF o(4) same_on_subset [OF m']])
    have "{pf_infop pfp..<pf_infop pfp + 8} \<inter> {pf_free_at pfp..<pf_free_at pfp + 4} = {}"
      "{pf_infop pfp..<pf_infop pfp + 8} \<subseteq> {pf_infop pfp..<pf_infop pfp + 16}"
      by (auto simp: pf_free_at_def)
    with info show "{pf_infop pfp..<pf_infop pfp + 8}
        \<subseteq> - ({pf_free_at pfp..<pf_free_at pfp + 4} \<union> fx_bytes g x)" by blast
  qed
  show "fx_tbl m' g"
    by (rule fx_tbl_frame [OF o(6) same_on_subset [OF m']])
      (use fx_bytes_table [OF o(1,3,5) x] tab cell in blast)
  assume A: "A \<subseteq> {1..<fx_used g} - {x}"
  have "fx_bytes g y \<inter> (fx_bytes g x \<union> header_bytes) = {}" if "y \<in> A" for y
  proof -
    have y: "y < fx_used g" "y \<noteq> x" using that A by auto
    then show ?thesis
      using fx_bytes_disjoint [OF o(1,3,5) y(1) x y(2)] fx_bytes_header [OF o(1,3,5) y(1)] by blast
  qed
  then show "same_on (\<Union>y\<in>A. fx_bytes g y) (pm_mem pmp) m'"
    using cell o(2) by (intro same_on_subset [OF m']) blast
qed

lemma fx_take:
  assumes ok: "fx_ok pmp S pfp g (x # xs)"
    and m': "same_on (- ({pf_free_at pfp..<pf_free_at pfp + 4} \<union> fx_bytes g x)) (pm_mem pmp) m'"
    and free: "rd32 m' (pf_free_at pfp) = rd32 (pm_mem pmp) (fx_addr g x)"
  shows "fx_ok (pmp\<lparr>pm_mem := m'\<rparr>) S pfp g xs"
proof -
  note o = fx_okD [OF ok]
  have x: "x < fx_used g" using o(9) by auto
  note t = fx_touch [OF ok x m']
  have "same_on (\<Union>y\<in>set xs. fx_bytes g y) (pm_mem pmp) m'"
    by (rule t(4)) (use o(8,9) in auto)
  then have "fx_chain m' (fx_addr g) (pf_free_at pfp) xs (fx_frontier g)"
    using o(7) by (intro fx_chain_move [OF _ free] same_on_subset [OF _ fx_cells_in [OF o(3)]]) auto
  with t(1-3) o show ?thesis by (simp add: fx_ok_def)
qed

lemma fx_return:
  assumes ok: "fx_ok pmp S pfp g xs" and x: "x \<in> fx_live g xs"
    and m': "same_on (- ({pf_free_at pfp..<pf_free_at pfp + 4} \<union> fx_bytes g x)) (pm_mem pmp) m'"
    and free: "unat (rd32 m' (pf_free_at pfp)) = x"
    and link: "rd32 m' (fx_addr g x) = rd32 (pm_mem pmp) (pf_free_at pfp)"
  shows "fx_ok (pmp\<lparr>pm_mem := m'\<rparr>) S pfp g (x # xs)"
proof -
  note o = fx_okD [OF ok]
  have x': "x < fx_used g" "x \<notin> set xs" "1 \<le> x" using x by (auto simp: fx_live_def)
  note t = fx_touch [OF ok x'(1) m']
  have "same_on (\<Union>y\<in>set xs. fx_bytes g y) (pm_mem pmp) m'"
    by (rule t(4)) (use o(9) x' in auto)
  then have "fx_chain m' (fx_addr g) (fx_addr g x) xs (fx_frontier g)"
    by (intro fx_chain_move [OF o(7) link] same_on_subset [OF _ fx_cells_in [OF o(3)]])
  with t(1-3) o x' free show ?thesis by (simp add: fx_ok_def)
qed

text \<open>\<^verbatim>\<open>pa_fixed_free_atom\<close> pushes a live atom onto the chain.\<close>

lemma pa_fixed_free_atom_ok:
  assumes ok: "fx_ok pmp S pfp g xs" and a: "unat a \<in> fx_live g xs"
  shows "fx_ok (pa_fixed_free_atom pmp pfp a) S pfp g (unat a # xs)"
    and "same_on (- ({pf_free_at pfp..<pf_free_at pfp + 4} \<union> fx_bytes g (unat a)))
      (pm_mem pmp) (pm_mem (pa_fixed_free_atom pmp pfp a))"
proof -
  note o = fx_okD [OF ok]
  have lt: "unat a < fx_used g" and nz: "a \<noteq> 0" using a by (auto simp: fx_live_def)
  let ?p = "fx_addr g (unat a)" and ?f = "pf_free_at pfp"
  let ?m = "wr32 (wr32 (pm_mem pmp) ?p (pf_free (pm_mem pmp) pfp)) ?f a"
  have f: "pa_fixed_free_atom pmp pfp a = pmp\<lparr>pm_mem := ?m\<rparr>"
    using nz fx_atom_addr [OF ok lt nz] by (simp add: pa_fixed_free_atom_def Let_def)
  have "{?p..<?p + 4} \<subseteq> fx_bytes g (unat a)" using fx_geoD(3) [OF o(3)] by (auto simp: fx_bytes_def)
  then have same: "same_on (- ({?f..<?f + 4} \<union> fx_bytes g (unat a))) (pm_mem pmp) ?m"
    by (intro same_on_trans [OF same_on_wr32 same_on_wr32]) auto
  have "fx_bytes g (unat a) \<inter> {?f..<?f + 4} = {}"
    using fx_bytes_header [OF o(1,3,5) lt] o(2) by (fastforce simp: pf_free_at_def)
  then have "{?p..<?p + 4} \<inter> {?f..<?f + 4} = {}"
    using \<open>{?p..<?p + 4} \<subseteq> fx_bytes g (unat a)\<close> by blast
  then have "?p + 4 \<le> ?f \<or> ?f + 4 \<le> ?p" by (cases "?p \<le> ?f") auto
  then have "rd32 ?m ?p = pf_free (pm_mem pmp) pfp" by (auto simp: mem_simps)
  then show "fx_ok (pa_fixed_free_atom pmp pfp a) S pfp g (unat a # xs)"
    unfolding f using same by (intro fx_return [OF ok a]) (auto simp: pf_free_def)
  show "same_on (- ({?f..<?f + 4} \<union> fx_bytes g (unat a))) (pm_mem pmp) (pm_mem (pa_fixed_free_atom pmp pfp a))"
    unfolding f using same by simp
qed

section \<open>A new page\<close>

lemma pa_fixed_fill_index:
  fixes mult :: u32
  assumes "4 * unat mult = z" "4 \<le> z" "(i + Suc n) * z < 2 ^ 32"
  shows "4 * unat (word_of_nat i * mult) = i * z" and "i < 2 ^ 32"
proof -
  have "i * z \<le> (i + Suc n) * z" by (rule mult_right_mono) auto
  with assms(3) have iz: "i * z < 2 ^ 32" by linarith
  moreover have "i * 4 \<le> i * z" using assms(2) by (rule mult_left_mono) simp
  ultimately show "i < 2 ^ 32" by linarith
  then have ui: "unat (word_of_nat i :: u32) = i" by (simp add: unat_of_nat)
  have "i * unat mult \<le> i * z" using assms(1) by (intro mult_left_mono) auto
  then have "i * unat mult < 2 ^ 32" using iz by (rule le_less_trans)
  with ui have "unat (word_of_nat i * mult) = i * unat mult"
    by (subst unat_mult_less) simp_all
  then show "4 * unat (word_of_nat i * mult) = i * z" using assms(1) by (simp add: algebra_simps)
qed

lemma pa_fixed_fill_outside:
  assumes "4 * unat mult = z" "4 \<le> z" "(i + n) * z < 2 ^ 32"
    and "x < addr + i * z \<or> addr + (i + n) * z \<le> x"
  shows "pa_fixed_fill m addr mult first i n x = m x"
  using assms
proof (induction n arbitrary: i m)
  case (Suc n)
  note p = pa_fixed_fill_index [OF Suc.prems(1-3)]
  have s: "(Suc i + n) * z = (i + Suc n) * z" by simp
  have "pa_fixed_fill m addr mult first i (Suc n) x =
      pa_fixed_fill (wr32 m (addr + i * z) (first + word_of_nat i + 1)) addr mult first (Suc i) n x"
    by (simp add: p(1))
  also have "\<dots> = wr32 m (addr + i * z) (first + word_of_nat i + 1) x"
  proof (rule Suc.IH [OF Suc.prems(1,2)])
    show "(Suc i + n) * z < 2 ^ 32" using Suc.prems(3) s by simp
    show "x < addr + Suc i * z \<or> addr + (Suc i + n) * z \<le> x"
      using Suc.prems(4) by (cases "x < addr + i * z") (simp_all add: s)
  qed
  also have "\<dots> = m x"
  proof (rule wr32_outside)
    have "i * z + 4 \<le> (i + Suc n) * z" using Suc.prems(2) by (simp add: add_mult_distrib)
    then show "x < addr + i * z \<or> addr + i * z + 4 \<le> x" using Suc.prems(4) by auto
  qed
  finally show ?case .
qed simp

lemma pa_fixed_fill_inside:
  assumes "4 * unat mult = z" "4 \<le> z" "(i + n) * z < 2 ^ 32" "unat first + i + n < 2 ^ 32"
    and "i \<le> j" "j < i + n"
  shows "unat (rd32 (pa_fixed_fill m addr mult first i n) (addr + j * z)) = unat first + j + 1"
  using assms
proof (induction n arbitrary: i m)
  case (Suc n)
  note p = pa_fixed_fill_index [OF Suc.prems(1-3)]
  have s: "(Suc i + n) * z = (i + Suc n) * z" by simp
  show ?case
  proof (cases "j = i")
    case True
    let ?m = "wr32 m (addr + i * z) (first + word_of_nat i + 1)"
    have ui: "unat (first + word_of_nat i) = unat first + i"
      using p(2) Suc.prems(4) by (subst unat_add_less) (simp_all add: unat_of_nat)
    then have "unat (first + word_of_nat i + 1) = unat first + i + 1"
      using Suc.prems(4) by (subst unat_add_less) simp_all
    moreover have "rd32 (pa_fixed_fill ?m addr mult first (Suc i) n) (addr + i * z) = rd32 ?m (addr + i * z)"
    proof (rule rd32_cong, rule pa_fixed_fill_outside [OF Suc.prems(1,2)])
      show "(Suc i + n) * z < 2 ^ 32" using Suc.prems(3) s by simp
    qed (use Suc.prems(2) in simp)
    ultimately show ?thesis by (simp add: p(1) True)
  next
    case False
    with Suc.IH [of "Suc i"] Suc.prems s show ?thesis by (simp add: p(1))
  qed
qed simp

end
