(* ===== verification/Pafixed_Alloc.thy ===== *)
theory Pafixed_Alloc
  imports Pafixed_Pool
begin

text \<open>
  \<^verbatim>\<open>pa_fixed_alloc_setup_page\<close>, \<^verbatim>\<open>pa_fixed_alloc_atom\<close> and \<^verbatim>\<open>pa_fixed_init\<close> on arrays that satisfy the
  invariant of the paged array.
\<close>

section \<open>Giving memory to the next page\<close>

definition fx_grown :: "fx \<Rightarrow> u32 \<Rightarrow> fx" where
  "fx_grown g p = g\<lparr>fx_pages := fx_pages g @ [p]\<rparr>"

lemma fx_grown_simps [simp]:
  "fx_shift (fx_grown g p) = fx_shift g" "fx_size (fx_grown g p) = fx_size g"
  "fx_npages (fx_grown g p) = fx_npages g" "fx_table (fx_grown g p) = fx_table g"
  "fx_pages (fx_grown g p) = fx_pages g @ [p]" "fx_per (fx_grown g p) = fx_per g"
  "fx_base (fx_grown g p) = fx_base g" "fx_table_bytes (fx_grown g p) = fx_table_bytes g"
  "fx_page_count (fx_grown g p) = fx_page_count g"
  "fx_used (fx_grown g p) = fx_used g + fx_per g"
  by (simp_all add: fx_grown_def fx_per_def fx_base_def fx_table_bytes_def fx_page_count_def
      fx_used_def algebra_simps)

lemma fx_grown_addr_old:
  assumes "fx_geo g" "a < fx_used g"
  shows "fx_addr (fx_grown g p) a = fx_addr g a"
  using fx_div_less [OF assms(2,1)] by (simp add: fx_addr_def nth_append)

lemma fx_grown_addr_new:
  assumes "fx_geo g" "i < fx_per g"
  shows "fx_addr (fx_grown g p) (fx_used g + i) = unat p * 4096 + i * fx_size g"
proof -
  have "(fx_used g + i) div fx_per g = length (fx_pages g)" "(fx_used g + i) mod fx_per g = i"
    using assms fx_geoD(10) [OF assms(1)] by (simp_all add: fx_used_def)
  then show ?thesis by (simp add: fx_addr_def)
qed

text \<open>The memory after the page table entry and the links of a new page are written.\<close>

definition fx_page_mem :: "mem \<Rightarrow> fx \<Rightarrow> u32 \<Rightarrow> mem" where
  "fx_page_mem m g p =
     (let addr = unat p * 4096;
          mult = word_of_nat (fx_size g div 4);
          first = word_of_nat (fx_used g);
          m = pa_fixed_fill m addr mult first 0 (fx_per g - 1);
          m = wr32 m (fx_base g + 4 * length (fx_pages g)) p
      in wr32 m (addr + (fx_per g - 1) * fx_size g) (word_of_nat (fx_frontier (fx_grown g p))))"

definition fx_page_bytes :: "fx \<Rightarrow> u32 \<Rightarrow> nat set" where
  "fx_page_bytes g p = {unat p * 4096..<unat p * 4096 + fx_per g * fx_size g}"

lemma fx_page_words:
  assumes "fx_geo g"
  shows "4 * unat (word_of_nat (fx_size g div 4) :: u32) = fx_size g" "4 \<le> fx_size g"
    "(0 + (fx_per g - 1)) * fx_size g < 2 ^ 32" "(fx_per g - 1) * fx_size g + fx_size g = fx_per g * fx_size g"
proof -
  note g = fx_geoD [OF assms]
  show "4 \<le> fx_size g" by (rule g(3))
  have "2 * fx_size g \<le> fx_per g * fx_size g" using g(10) by (rule mult_right_mono) simp
  then have "fx_size g div 4 < 2 ^ 32" using g(5) by linarith
  then show "4 * unat (word_of_nat (fx_size g div 4) :: u32) = fx_size g" using g(4) by (simp add: unat_of_nat)
  show e: "(fx_per g - 1) * fx_size g + fx_size g = fx_per g * fx_size g"
    using g(10) by (cases "fx_per g") simp_all
  have "(fx_per g - 1) * fx_size g \<le> fx_per g * fx_size g" by (rule mult_right_mono) auto
  then have "(fx_per g - 1) * fx_size g < 2 ^ 32" using g(5) by (rule le_less_trans)
  then show "(0 + (fx_per g - 1)) * fx_size g < 2 ^ 32" by simp
qed

lemma fx_page_mem_outside:
  assumes "fx_geo g" "length (fx_pages g) < fx_npages g"
    and "x \<notin> fx_page_bytes g p" "x \<notin> fx_table_bytes g"
  shows "fx_page_mem m g p x = m x"
proof -
  note w = fx_page_words [OF assms(1)]
  have "x < unat p * 4096 \<or> unat p * 4096 + fx_per g * fx_size g \<le> x"
    using assms(3) by (auto simp: fx_page_bytes_def)
  then have "x < unat p * 4096 + 0 * fx_size g \<or> unat p * 4096 + (0 + (fx_per g - 1)) * fx_size g \<le> x"
    and "x < unat p * 4096 + (fx_per g - 1) * fx_size g \<or> unat p * 4096 + (fx_per g - 1) * fx_size g + 4 \<le> x"
    using w(2,4) by auto
  moreover have "x < fx_base g + 4 * length (fx_pages g) \<or> fx_base g + 4 * length (fx_pages g) + 4 \<le> x"
    using assms(2,4) by (auto simp: fx_table_bytes_def)
  ultimately show ?thesis
    using pa_fixed_fill_outside [OF w(1-3)] by (simp add: fx_page_mem_def Let_def wr32_outside)
qed

lemma fx_page_mem_table:
  assumes "fx_geo g" "fx_tbl m g" "length (fx_pages g) < fx_npages g"
    and apart: "fx_page_bytes g p \<inter> fx_table_bytes g = {}"
  shows "fx_tbl (fx_page_mem m g p) (fx_grown g p)"
proof -
  note w = fx_page_words [OF assms(1)]
  let ?k = "length (fx_pages g)" and ?addr = "unat p * 4096"
  let ?f = "pa_fixed_fill m ?addr (word_of_nat (fx_size g div 4)) (word_of_nat (fx_used g)) 0 (fx_per g - 1)"
  let ?t = "wr32 ?f (fx_base g + 4 * ?k) p"
  have last: "{?addr + (fx_per g - 1) * fx_size g..<?addr + (fx_per g - 1) * fx_size g + 4} \<subseteq> fx_page_bytes g p"
    using w(2,4) by (auto simp: fx_page_bytes_def)
  have same: "same_on (fx_table_bytes g) ?t (fx_page_mem m g p)"
    unfolding fx_page_mem_def Let_def using apart last by (intro same_on_wr32) blast
  have fill: "same_on (fx_table_bytes g) m ?f"
  proof (rule same_onI)
    fix x assume "x \<in> fx_table_bytes g"
    then have "x \<notin> fx_page_bytes g p" using apart by blast
    then have "x < ?addr + 0 * fx_size g \<or> ?addr + (0 + (fx_per g - 1)) * fx_size g \<le> x"
      using w(4) by (auto simp: fx_page_bytes_def)
    then show "?f x = m x" by (rule pa_fixed_fill_outside [OF w(1-3)])
  qed
  have "rd32 (fx_page_mem m g p) (fx_base g + 4 * i) = (if i = ?k then p else rd32 m (fx_base g + 4 * i))"
    if i: "i < fx_npages g" for i
  proof -
    have sub: "{fx_base g + 4 * i..<fx_base g + 4 * i + 4} \<subseteq> fx_table_bytes g"
      using i by (auto simp: fx_table_bytes_def)
    have "rd32 (fx_page_mem m g p) (fx_base g + 4 * i) = rd32 ?t (fx_base g + 4 * i)"
      by (rule same_on_rd32 [OF same sub])
    also have "\<dots> = (if i = ?k then p else rd32 ?f (fx_base g + 4 * i))"
    proof (cases "i = ?k")
      case False
      then have "fx_base g + 4 * i + 4 \<le> fx_base g + 4 * ?k \<or> fx_base g + 4 * ?k + 4 \<le> fx_base g + 4 * i" by linarith
      then show ?thesis using False by (simp add: rd32_wr32_other)
    qed simp
    also have "rd32 ?f (fx_base g + 4 * i) = rd32 m (fx_base g + 4 * i)" by (rule same_on_rd32 [OF fill sub])
    finally show ?thesis .
  qed
  then show ?thesis using assms(2,3) by (auto simp: fx_tbl_def nth_append)
qed

lemma fx_page_mem_cell:
  assumes "fx_geo g" "length (fx_pages g) < fx_npages g"
    and apart: "fx_page_bytes g p \<inter> fx_table_bytes g = {}" and j: "j < fx_per g"
  shows "unat (rd32 (fx_page_mem m g p) (unat p * 4096 + j * fx_size g))
    = (if j < fx_per g - 1 then fx_used g + j + 1 else fx_frontier (fx_grown g p))"
proof -
  note w = fx_page_words [OF assms(1)] and g = fx_geoD [OF assms(1)]
  let ?k = "length (fx_pages g)" and ?addr = "unat p * 4096"
  let ?f = "pa_fixed_fill m ?addr (word_of_nat (fx_size g div 4)) (word_of_nat (fx_used g)) 0 (fx_per g - 1)"
  let ?t = "wr32 ?f (fx_base g + 4 * ?k) p" and ?l = "?addr + (fx_per g - 1) * fx_size g"
  have "(?k + 1) * fx_per g \<le> fx_npages g * fx_per g" using assms(2) by (intro mult_right_mono) auto
  then have used: "fx_used g + fx_per g < 2 ^ 32" using g(7) by (simp add: fx_used_def)
  show ?thesis
  proof (cases "j < fx_per g - 1")
    case False
    with j have j: "j = fx_per g - 1" by simp
    have "fx_frontier (fx_grown g p) < 2 ^ 32" using used by (simp add: fx_frontier_def)
    then show ?thesis using False by (simp add: fx_page_mem_def Let_def j unat_of_nat)
  next
    case True
    have "(j + 1) * fx_size g \<le> (fx_per g - 1) * fx_size g" using True by (intro mult_right_mono) auto
    then have le: "?addr + j * fx_size g + 4 \<le> ?l" using w(2) by simp
    have "{?addr + j * fx_size g..<?addr + j * fx_size g + 4} \<subseteq> fx_page_bytes g p"
      using le w(4) by (auto simp: fx_page_bytes_def)
    moreover have "{fx_base g + 4 * ?k..<fx_base g + 4 * ?k + 4} \<subseteq> fx_table_bytes g"
      using assms(2) by (auto simp: fx_table_bytes_def)
    ultimately have "{?addr + j * fx_size g..<?addr + j * fx_size g + 4}
        \<inter> {fx_base g + 4 * ?k..<fx_base g + 4 * ?k + 4} = {}" using apart by blast
    then have "same_on {?addr + j * fx_size g..<?addr + j * fx_size g + 4} ?f (fx_page_mem m g p)"
      unfolding fx_page_mem_def Let_def using le
      by (intro same_on_trans [OF same_on_wr32 same_on_wr32]) auto
    then have "rd32 (fx_page_mem m g p) (?addr + j * fx_size g) = rd32 ?f (?addr + j * fx_size g)"
      by (rule same_on_rd32) simp
    moreover have "unat (rd32 ?f (?addr + j * fx_size g)) = unat (word_of_nat (fx_used g) :: u32) + j + 1"
      using used True by (intro pa_fixed_fill_inside [OF w(1-3)]) (auto simp: unat_of_nat)
    ultimately show ?thesis using True used by (simp add: unat_of_nat)
  qed
qed

lemma pa_fixed_next_page_after:
  assumes "fx_tbl m g" "length (fx_pages g) < fx_npages g" "fx_npages g < 2 ^ 32"
    and "pf = fx_base g" "unat i = length (fx_pages g)" "unat n = fx_npages g"
  shows "pa_fixed_next_page m pf i n = i"
  using assms by (subst pa_fixed_next_page.simps)
    (simp add: fx_tbl_def pa_fixed_page_get_def pa_mmap_addr_def)

text \<open>The call computes exactly that memory once the segment has given it a page.\<close>

lemma pa_fixed_alloc_setup_page_eq:
  assumes ok: "fx_ok pmp S pfp g xs" and k: "length (fx_pages g) < fx_npages g"
    and atom: "unat atom div fx_per g = length (fx_pages g)"
    and al: "pa_mmap_alloc os pmp (fx_per g * fx_size g) = Some (pmp2, p)" "p \<noteq> 0"
    and same: "same_on (owned S) (pm_mem pmp) (pm_mem pmp2)"
    and p: "pa_page p = unat p * 4096" "fx_page_bytes g p \<inter> owned S = {}"
  shows "pa_fixed_alloc_setup_page os pmp pfp (fx_base g) atom
    = Some (pmp2\<lparr>pm_mem := fx_page_mem (pm_mem pmp2) g p\<rparr>)"
proof -
  note o = fx_okD [OF ok] and g = fx_geoD [OF fx_okD(3) [OF ok]]
  let ?m = "pm_mem pmp2" and ?k = "length (fx_pages g)"
  have f1: "fx_fields ?m pfp g"
    using o(2) by (intro fx_fields_frame [OF o(4)] same_on_subset [OF same]) (fastforce simp: owned_def)
  have tbl: "fx_tbl ?m g"
    by (rule fx_tbl_frame [OF o(6) same_on_subset [OF same fx_table_owned [OF o(3,5)]]])
  have apart: "fx_page_bytes g p \<inter> fx_table_bytes g = {}"
    using fx_table_owned [OF o(3,5)] p(2) by blast
  have per: "unat (2 ^ fx_shift g :: u32) = fx_per g" using g(2) by (simp add: fx_per_def)
  have asz: "unat (ucast (pf_atom_size m pfp) :: u32) = fx_size g" if "fx_fields m pfp g" for m
    using that by (simp add: unat_ucast_up fx_fields_def)
  have sz: "unat (2 ^ fx_shift g * ucast (pf_atom_size (pm_mem pmp) pfp) :: u32) = fx_per g * fx_size g"
    using g(5) by (subst unat_mult_less) (simp_all add: per asz [OF o(4)])
  have cnt: "unat (2 ^ fx_shift g - 1 :: u32) = fx_per g - 1"
    using per g(2) by (subst unat_minus_one) auto
  have mult: "ucast (pf_atom_size ?m pfp) div 4 = (word_of_nat (fx_size g div 4) :: u32)"
  proof (rule word_unat_eq_iff [THEN iffD2])
    have "fx_size g < 2 ^ 16" using f1 unsigned_less [of "pf_atom_size ?m pfp", where 'a = nat] by (simp add: fx_fields_def)
    then show "unat (ucast (pf_atom_size ?m pfp) div 4 :: u32) = unat (word_of_nat (fx_size g div 4) :: u32)"
      by (simp add: unat_div asz [OF f1] unat_of_nat)
  qed
  have page: "unat (drop_bit (fx_shift g) atom) = ?k"
    using atom by (simp add: unat_drop_bit_div fx_per_def)
  have "(?k + 1) * fx_per g \<le> fx_npages g * fx_per g" using k by (intro mult_right_mono) auto
  then have used: "fx_used g + fx_per g < 2 ^ 32" using g(7) by (simp add: fx_used_def)
  then have "unat (drop_bit (fx_shift g) atom) * 2 ^ fx_shift g < 2 ^ LENGTH(32)"
    by (simp add: page fx_used_def fx_per_def)
  then have "unat (push_bit (fx_shift g) (drop_bit (fx_shift g) atom)) = fx_used g"
    by (subst unat_push_bit_less) (simp_all add: page fx_used_def fx_per_def)
  with used have first: "push_bit (fx_shift g) (drop_bit (fx_shift g) atom) = word_of_nat (fx_used g)"
    by (simp add: word_unat_eq_iff unat_of_nat)
  let ?m3 = "wr32 (pa_fixed_fill ?m (unat p * 4096) (word_of_nat (fx_size g div 4)) (word_of_nat (fx_used g))
      0 (fx_per g - 1)) (fx_base g + 4 * ?k) p"
    and ?l = "unat p * 4096 + (fx_per g - 1) * fx_size g" and ?g = "fx_grown g p"
  note w = fx_page_words [OF o(3)]
  have pm: "fx_page_mem ?m g p = wr32 ?m3 ?l (word_of_nat (fx_frontier ?g))"
    by (simp add: fx_page_mem_def Let_def)
  have last: "{?l..<?l + 4} \<subseteq> fx_page_bytes g p"
    using w(2,4) by (auto simp: fx_page_bytes_def)
  have m3: "?m3 x = fx_page_mem ?m g p x" if "x \<notin> fx_page_bytes g p" for x
  proof -
    have "x \<notin> {?l..<?l + 4}" using that last by blast
    then have "x < ?l \<or> ?l + 4 \<le> x" by auto
    then show ?thesis unfolding pm by (rule wr32_outside [symmetric])
  qed
  have "fx_tbl ?m3 ?g"
    by (rule fx_tbl_frame [OF fx_page_mem_table [OF o(3) tbl k apart]]) (use m3 apart in \<open>auto intro!: same_onI\<close>)
  moreover have max: "unat (drop_bit (fx_shift g) (pf_max_atoms ?m3 pfp)) = fx_npages g"
  proof -
    have hd: "x \<notin> fx_page_bytes g p" "x \<notin> fx_table_bytes g" if "x \<in> header_bytes" for x
      using that p(2) header_owned [of S] fx_table_header [OF o(1,3,5)] by auto
    have "same_on {pf_infop pfp..<pf_infop pfp + 8} ?m ?m3"
    proof (rule same_onI)
      fix x assume "x \<in> {pf_infop pfp..<pf_infop pfp + 8}"
      then have "x \<in> header_bytes" using o(2) by auto
      then show "?m3 x = ?m x" using m3 hd fx_page_mem_outside [OF o(3) k] by simp
    qed
    from fx_fields_frame [OF f1 this] show ?thesis
      using g(10) by (simp add: fx_fields_def unat_drop_bit_div fx_per_def)
  qed
  moreover have np: "fx_npages g < 2 ^ 32"
  proof -
    have "fx_npages g * 1 \<le> fx_npages g * fx_per g" using g(10) by (intro mult_left_mono) auto
    then show ?thesis using g(7) by linarith
  qed
  moreover have k1: "unat (drop_bit (fx_shift g) atom + 1) = ?k + 1"
    using np page k by (subst unat_add_less) auto
  ultimately have nx: "pa_fixed_next_page ?m3 (fx_base g) (drop_bit (fx_shift g) atom + 1)
      (drop_bit (fx_shift g) (pf_max_atoms ?m3 pfp)) = drop_bit (fx_shift g) atom + 1"
    if "?k + 1 < fx_npages g"
    using that by (intro pa_fixed_next_page_after [of _ ?g]) auto
  let ?i = "pa_fixed_next_page ?m3 (fx_base g) (drop_bit (fx_shift g) atom + 1)
      (drop_bit (fx_shift g) (pf_max_atoms ?m3 pfp))"
  have i: "(if ?i < drop_bit (fx_shift g) (pf_max_atoms ?m3 pfp) then push_bit (fx_shift g) ?i else 0)
      = word_of_nat (fx_frontier ?g)"
  proof (cases "?k + 1 < fx_npages g")
    case True
    note i = nx [OF True]
    have "unat (drop_bit (fx_shift g) atom + 1) * 2 ^ fx_shift g < 2 ^ LENGTH(32)"
      using used k1 by (simp add: fx_used_def fx_per_def)
    then have "unat (push_bit (fx_shift g) (drop_bit (fx_shift g) atom + 1)) = fx_used g + fx_per g"
      by (subst unat_push_bit_less) (simp_all add: k1 fx_used_def fx_per_def)
    with used have "push_bit (fx_shift g) (drop_bit (fx_shift g) atom + 1) = word_of_nat (fx_used g + fx_per g)"
      by (simp add: word_unat_eq_iff unat_of_nat del: of_nat_add)
    with True i k1 max show ?thesis by (simp add: word_less_nat_alt fx_frontier_def)
  next
    case False
    with k1 max have "\<not> drop_bit (fx_shift g) atom + 1 < drop_bit (fx_shift g) (pf_max_atoms ?m3 pfp)"
      by (simp add: word_less_nat_alt)
    then have "\<not> ?i < drop_bit (fx_shift g) (pf_max_atoms ?m3 pfp)"
      by (simp add: pa_fixed_next_page.simps)
    with False show ?thesis by (simp add: fx_frontier_def)
  qed
  have l: "4 * unat ((2 ^ fx_shift g - 1) * word_of_nat (fx_size g div 4) :: u32) = (fx_per g - 1) * fx_size g"
  proof -
    have "fx_per g - 1 < 2 ^ 32" using used by linarith
    then have "(2 ^ fx_shift g - 1 :: u32) = word_of_nat (fx_per g - 1)"
      by (simp add: word_unat_eq_iff cnt unat_of_nat)
    moreover have "(fx_per g - 1 + Suc 0) * fx_size g < 2 ^ 32" using g(5,10) by simp
    ultimately show ?thesis using pa_fixed_fill_index(1) [OF w(1,2), of "fx_per g - 1" 0] by simp
  qed
  have addr: "pa_mmap_addr p = Some (unat p * 4096)"
    using al(2) p(1) by (simp add: pa_mmap_addr_def pa_page_def)
  have sh: "unat (pf_shift (pm_mem pmp) pfp) = fx_shift g" using o(4) by (simp add: fx_fields_def)
  show ?thesis
    by (simp add: pa_fixed_alloc_setup_page_def sh Let_def sz al(1) addr cnt mult first pa_fixed_page_set_def
        page i l pm del: One_nat_def cong: if_cong split del: if_split)
qed

lemma fx_page_block:
  assumes "fx_geo g"
  shows "fx_page_bytes g p \<subseteq> ext_bytes (p, fx_page_count g)"
proof -
  have "fx_per g * fx_size g \<le> unat (fx_page_count g) * 4096"
    unfolding fx_page_count_def by (rule pa_count_bytes) (rule fx_geoD(5) [OF assms])
  then show ?thesis by (auto simp: fx_page_bytes_def ext_bytes_def algebra_simps)
qed

lemma fx_grown_geo:
  assumes "fx_geo g" "length (fx_pages g) < fx_npages g" "p \<notin> set (fx_table g # fx_pages g)"
  shows "fx_geo (fx_grown g p)"
  using assms by (auto simp: fx_geo_def)

lemma fx_frontier_range:
  assumes "fx_geo g" "length (fx_pages g) < fx_npages g"
  shows "fx_used g \<le> fx_frontier g" "fx_frontier g < fx_used g + fx_per g" "1 \<le> fx_frontier g"
    "fx_frontier g div fx_per g = length (fx_pages g)"
  using assms fx_geoD(10) [OF assms(1)] by (auto simp: fx_frontier_def fx_used_def Suc_le_eq)

lemma fx_page_bytes_in:
  assumes "fx_geo g" "fx_used g \<le> j" "j < fx_used g + fx_per g"
  shows "fx_bytes (fx_grown g p) j \<subseteq> fx_page_bytes g p"
proof -
  from assms(2) obtain i where j: "j = fx_used g + i" by (auto simp: le_iff_add)
  with assms(3) have i: "i < fx_per g" by simp
  then have "(i + 1) * fx_size g \<le> fx_per g * fx_size g" by (intro mult_right_mono) auto
  then show ?thesis
    by (auto simp: j fx_bytes_def fx_grown_addr_new [OF assms(1) i] fx_page_bytes_def)
qed

lemma fx_grow:
  assumes ok: "fx_ok pmp S pfp g []" and k: "length (fx_pages g) < fx_npages g"
    and v: "mm_valid pmp2 (insert (p, fx_page_count g) S)" and new: "(p, fx_page_count g) \<notin> S"
    and same: "same_on (owned S) (pm_mem pmp) (pm_mem pmp2)"
  shows "fx_ok (pmp2\<lparr>pm_mem := fx_page_mem (pm_mem pmp2) g p\<rparr>) (insert (p, fx_page_count g) S) pfp
      (fx_grown g p) [fx_frontier g..<fx_used g + fx_per g]"
    and "fx_page_bytes g p \<inter> owned S = {}"
proof -
  note o = fx_okD [OF ok] and g = fx_geoD [OF fx_okD(3) [OF ok]]
  let ?m = "pm_mem pmp2" and ?g = "fx_grown g p" and ?S = "insert (p, fx_page_count g) S"
    and ?f = "fx_frontier g" and ?e = "fx_used g + fx_per g"
  let ?m' = "fx_page_mem ?m g p"
  note f = fx_frontier_range [OF o(3) k]
  have pg: "fx_page_bytes g p \<subseteq> ext_bytes (p, fx_page_count g)" by (rule fx_page_block [OF o(3)])
  have "ext_bytes (p, fx_page_count g) \<inter> ext_bytes e = {}" if "e \<in> S" for e
    using that new by (intro mm.bytes_disjoint [OF v]) auto
  moreover have "ext_bytes (p, fx_page_count g) \<inter> header_bytes = {}"
    by (rule mm.block_not_header [OF v]) simp
  ultimately show sep: "fx_page_bytes g p \<inter> owned S = {}" using pg unfolding owned_def by blast
  have apart: "fx_page_bytes g p \<inter> fx_table_bytes g = {}"
    using fx_table_owned [OF o(3,5)] sep by blast
  have out: "same_on (- (fx_page_bytes g p \<union> fx_table_bytes g)) ?m ?m'"
    by (rule same_onI, rule fx_page_mem_outside [OF o(3) k]) auto
  have "owned ?S = owned S \<union> ext_bytes (p, fx_page_count g)" by (auto simp: owned_def)
  then have "mm_valid (pmp2\<lparr>pm_mem := ?m'\<rparr>) ?S"
    using pg fx_table_owned [OF o(3,5)] by (intro mm.write_inside [OF v _ out]) blast
  moreover have "p \<notin> set (fx_table g # fx_pages g)"
  proof
    assume "p \<in> set (fx_table g # fx_pages g)"
    then obtain n where "(p, n) \<in> S" using o(5) by (auto simp: fx_blocks_def)
    with new mm.first_page_inj [OF v, of p n "fx_page_count g"] show False by auto
  qed
  then have "fx_geo ?g" by (rule fx_grown_geo [OF o(3) k])
  moreover have info: "same_on {pf_infop pfp..<pf_infop pfp + 16} (pm_mem pmp) ?m'"
  proof (rule same_on_trans [OF same_on_subset [OF same] same_on_subset [OF out]])
    show "{pf_infop pfp..<pf_infop pfp + 16} \<subseteq> owned S" using o(2) header_owned [of S] by blast
    then show "{pf_infop pfp..<pf_infop pfp + 16} \<subseteq> - (fx_page_bytes g p \<union> fx_table_bytes g)"
      using o(2) sep fx_table_header [OF o(1,3,5)] by blast
  qed
  moreover have "fx_fields ?m' pfp ?g"
  proof -
    have "fx_fields ?m' pfp g" by (rule fx_fields_frame [OF o(4) same_on_subset [OF info]]) auto
    then show ?thesis by (simp add: fx_fields_def)
  qed
  moreover have "fx_blocks ?S ?g" using o(5) by (auto simp: fx_blocks_def)
  moreover have "fx_tbl ?m' ?g"
    by (rule fx_page_mem_table [OF o(3) fx_tbl_frame [OF o(6)] k apart])
      (rule same_on_subset [OF same fx_table_owned [OF o(3,5)]])
  moreover have "fx_chain ?m' (fx_addr ?g) (pf_free_at pfp) [?f..<?e] (fx_frontier ?g)"
  proof -
    have cell: "unat (rd32 ?m' (fx_addr ?g j)) = (if j < ?e - 1 then j + 1 else fx_frontier ?g)"
      if "?f \<le> j" "j < ?e" for j
    proof -
      have "fx_used g \<le> j" using that(1) f(1) by simp
      then obtain i where j: "j = fx_used g + i" by (auto simp: le_iff_add)
      with that(2) have i: "i < fx_per g" by simp
      have "(i < fx_per g - 1) = (j < ?e - 1)" using j g(10) by auto
      with fx_page_mem_cell [OF o(3) k apart i, of ?m] show ?thesis
        by (simp add: j fx_grown_addr_new [OF o(3) i])
    qed
    have "rd32 ?m' (pf_free_at pfp) = rd32 (pm_mem pmp) (pf_free_at pfp)"
      by (rule same_on_rd32 [OF info]) (auto simp: pf_free_at_def)
    then have "unat (rd32 ?m' (pf_free_at pfp)) = ?f" using o(7) by simp
    moreover have "fx_chain ?m' (fx_addr ?g) (fx_addr ?g ?f) [Suc ?f..<?e] (fx_frontier ?g)"
      by (rule fx_chain_run [OF f(2)]) (use cell f(2) in auto)
    ultimately show ?thesis using f(2) by (simp add: upt_conv_Cons)
  qed
  moreover have "set [?f..<?e] \<subseteq> {1..<fx_used ?g}" using f by auto
  ultimately show "fx_ok (pmp2\<lparr>pm_mem := ?m'\<rparr>) ?S pfp ?g [?f..<?e]" using o(2) by (simp add: fx_ok_def)
qed

section \<open>Allocating an atom\<close>

definition fx_popped :: "mem \<Rightarrow> pa_fixed \<Rightarrow> nat \<Rightarrow> mem" where
  "fx_popped m pfp addr =
     (let m = wr32 m (pf_free_at pfp) (rd32 m addr) in
      if pf_flags m pfp AND PFF_INIT_ZERO \<noteq> 0
      then zero_range m addr (unat (pf_atom_size m pfp)) else m)"

lemma fx_pop:
  assumes ok: "fx_ok pmp S pfp g (x # xs)"
  defines "m' \<equiv> fx_popped (pm_mem pmp) pfp (fx_addr g x)"
  shows "fx_ok (pmp\<lparr>pm_mem := m'\<rparr>) S pfp g xs"
    and "same_on (- ({pf_free_at pfp..<pf_free_at pfp + 4} \<union> fx_bytes g x)) (pm_mem pmp) m'"
    and "pf_flags (pm_mem pmp) pfp AND PFF_INIT_ZERO \<noteq> 0 \<Longrightarrow> y \<in> fx_bytes g x \<Longrightarrow> m' y = 0"
proof -
  note o = fx_okD [OF ok]
  have x: "x < fx_used g" using o(9) by auto
  let ?f = "pf_free_at pfp" and ?a = "fx_addr g x"
  let ?m1 = "wr32 (pm_mem pmp) ?f (rd32 (pm_mem pmp) ?a)"
  have out: "same_on (- {?f..<?f + 4}) (pm_mem pmp) ?m1" by (rule same_on_wr32) blast
  have "fx_fields ?m1 pfp g"
    by (rule fx_fields_frame [OF o(4) same_on_subset [OF out]]) (auto simp: pf_free_at_def)
  then have sz: "unat (pf_atom_size ?m1 pfp) = fx_size g" by (simp add: fx_fields_def)
  have fl: "pf_flags ?m1 pfp = pf_flags (pm_mem pmp) pfp"
    unfolding pf_flags_def by (rule same_onD [OF out]) (auto simp: pf_free_at_def)
  have m': "m' = (if pf_flags (pm_mem pmp) pfp AND PFF_INIT_ZERO \<noteq> 0 then zero_range ?m1 ?a (fx_size g) else ?m1)"
    by (simp add: m'_def fx_popped_def Let_def sz fl)
  have z: "same_on (- fx_bytes g x) ?m1 m'"
    by (auto simp: m' fx_bytes_def same_on_def zero_range_def)
  have "same_on (- ({?f..<?f + 4} \<union> fx_bytes g x)) (pm_mem pmp) ?m1"
    by (rule same_on_subset [OF out]) blast
  moreover have "same_on (- ({?f..<?f + 4} \<union> fx_bytes g x)) ?m1 m'"
    by (rule same_on_subset [OF z]) blast
  ultimately show same: "same_on (- ({?f..<?f + 4} \<union> fx_bytes g x)) (pm_mem pmp) m'"
    by (rule same_on_trans)
  have "{?f..<?f + 4} \<inter> fx_bytes g x = {}"
    using fx_bytes_header [OF o(1,3,5) x] o(2) by (fastforce simp: pf_free_at_def)
  then have "rd32 m' ?f = rd32 ?m1 ?f"
    by (intro same_on_rd32 [OF z]) blast
  then show "fx_ok (pmp\<lparr>pm_mem := m'\<rparr>) S pfp g xs"
    using same by (intro fx_take [OF ok]) simp_all
  show "m' y = 0" if "pf_flags (pm_mem pmp) pfp AND PFF_INIT_ZERO \<noteq> 0" "y \<in> fx_bytes g x"
    using that by (simp add: m' fx_bytes_def zero_range_def)
qed

text \<open>What a successful allocation does, seen from outside the allocator.\<close>

definition fx_got ::
  "pa_mmap \<Rightarrow> (u32 \<times> u32) set \<Rightarrow> pa_fixed \<Rightarrow> fx \<Rightarrow> nat list \<Rightarrow> pa_mmap \<Rightarrow> u32 \<Rightarrow> bool" where
  "fx_got pmp S pfp g xs pmp' a \<longleftrightarrow> (\<exists>S' g' xs'. fx_ok pmp' S' pfp g' xs' \<and> S \<subseteq> S'
     \<and> (g' = g \<or> (\<exists>p. g' = fx_grown g p))
     \<and> a \<noteq> 0 \<and> unat a \<notin> fx_live g xs \<and> fx_live g' xs' = insert (unat a) (fx_live g xs)
     \<and> same_on (owned S - fx_private pfp g xs) (pm_mem pmp) (pm_mem pmp')
     \<and> (fx_private pfp g' xs' \<union> fx_bytes g' (unat a)) \<inter> owned S \<subseteq> fx_private pfp g xs
     \<and> (pf_flags (pm_mem pmp) pfp AND PFF_INIT_ZERO \<noteq> 0
          \<longrightarrow> (\<forall>y\<in>fx_bytes g' (unat a). pm_mem pmp' y = 0)))"

lemma pa_fixed_alloc_atom_pop:
  assumes ok: "fx_ok pmp S pfp g (x # xs)"
  shows "\<exists>pmp' a. pa_fixed_alloc_atom os pmp pfp = Some (pmp', a) \<and> unat a = x
    \<and> fx_got pmp S pfp g (x # xs) pmp' a \<and> fx_ok pmp' S pfp g xs
    \<and> (pf_flags (pm_mem pmp) pfp AND PFF_INIT_ZERO \<noteq> 0 \<longrightarrow> (\<forall>y\<in>fx_bytes g x. pm_mem pmp' y = 0))"
proof -
  note o = fx_okD [OF ok]
  let ?a = "pf_free (pm_mem pmp) pfp" and ?m' = "fx_popped (pm_mem pmp) pfp (fx_addr g x)"
  have a: "unat ?a = x" using o(7) by (simp add: pf_free_def)
  have x: "1 \<le> x" "x < fx_used g" "x \<notin> set xs" using o(8,9) by auto
  then have nz: "?a \<noteq> 0" using a by auto
  have addr: "pa_fixed_atom_addr (pm_mem pmp) pfp ?a = Some (fx_addr g x)"
    using fx_atom_addr [OF ok, of ?a] a x nz by simp
  have base: "pf_base pfp = Some (fx_base g)" using o(4) by (simp add: fx_fields_def)
  have r: "pa_fixed_alloc_atom os pmp pfp = Some (pmp\<lparr>pm_mem := ?m'\<rparr>, ?a)"
    by (simp add: pa_fixed_alloc_atom_def base nz addr Let_def fx_popped_def)
  note pop = fx_pop [OF ok]
  have live: "fx_live g xs = insert x (fx_live g (x # xs))" "x \<notin> fx_live g (x # xs)"
    using x by (auto simp: fx_live_def)
  have priv: "fx_private pfp g (x # xs) = fx_private pfp g xs \<union> fx_bytes g x"
    by (auto simp: fx_private_def)
  have "same_on (owned S - fx_private pfp g (x # xs)) (pm_mem pmp) ?m'"
    by (rule same_on_subset [OF pop(2)]) (auto simp: fx_private_def)
  then have "fx_got pmp S pfp g (x # xs) (pmp\<lparr>pm_mem := ?m'\<rparr>) ?a"
    unfolding fx_got_def a using pop(1,3) nz live priv
    by (intro exI [of _ S] exI [of _ g] exI [of _ xs]) auto
  with r a pop(1,3) show ?thesis by simp
qed

lemma fx_frontier_zero:
  "fx_geo g \<Longrightarrow> fx_frontier g = 0 \<longleftrightarrow> length (fx_pages g) = fx_npages g"
  using fx_geoD(6,8,10) [of g] by (auto simp: fx_frontier_def fx_used_def)

lemma fx_grown_live:
  assumes "fx_geo g" "length (fx_pages g) < fx_npages g"
  shows "fx_live (fx_grown g p) [Suc (fx_frontier g)..<fx_used g + fx_per g] = insert (fx_frontier g) (fx_live g [])"
    and "fx_frontier g \<notin> fx_live g []"
  using fx_frontier_range [OF assms] assms fx_geoD(10) [OF assms(1)]
  by (auto simp: fx_live_def) (auto simp: fx_frontier_def fx_used_def split: if_splits)

lemma pa_fixed_alloc_atom_refused:
  assumes ok: "fx_ok pmp S pfp g xs"
    and z: "pa_mmap_alloc os pmp (fx_per g * fx_size g) = Some (pmp, 0)"
    and a: "fx_used g \<le> unat (pf_free (pm_mem pmp) pfp)" "pf_free (pm_mem pmp) pfp \<noteq> 0"
  shows "pa_fixed_alloc_atom os pmp pfp = Some (pmp, 0)"
proof -
  note o = fx_okD [OF ok]
  note g = fx_geoD [OF o(3)]
  let ?a = "pf_free (pm_mem pmp) pfp"
  have base: "pf_base pfp = Some (fx_base g)" using o(4) by (simp add: fx_fields_def)
  have none: "pa_fixed_atom_addr (pm_mem pmp) pfp ?a = None" by (rule fx_atom_addr_none [OF ok a(1)])
  have sz: "unat (2 ^ fx_shift g * ucast (pf_atom_size (pm_mem pmp) pfp) :: u32) = fx_per g * fx_size g"
    using g(2,5) o(4) by (subst unat_mult_less) (simp_all add: fx_fields_def unat_ucast_up fx_per_def)
  have "unat (pf_shift (pm_mem pmp) pfp) = fx_shift g" using o(4) by (simp add: fx_fields_def)
  then have "pa_fixed_alloc_setup_page os pmp pfp (fx_base g) ?a = Some pmp"
    by (simp add: pa_fixed_alloc_setup_page_def Let_def sz z pa_mmap_addr_def)
  then show ?thesis by (simp add: pa_fixed_alloc_atom_def base a(2) none Let_def)
qed

text \<open>With no free atom left, the next page gets memory or the answer is the null atom.\<close>

lemma pa_fixed_alloc_atom_grow:
  assumes ok: "fx_ok pmp S pfp g []" and room: "mm_room pmp (fx_per g * fx_size g)"
  shows "pa_fixed_alloc_atom os pmp pfp = Some (pmp, 0)
      \<and> (length (fx_pages g) = fx_npages g \<or> pa_mmap_alloc os pmp (fx_per g * fx_size g) = Some (pmp, 0))
    \<or> (\<exists>pmp' a. pa_fixed_alloc_atom os pmp pfp = Some (pmp', a) \<and> fx_got pmp S pfp g [] pmp' a)"
proof (cases "length (fx_pages g) = fx_npages g")
  case True
  note o = fx_okD [OF ok]
  have base: "pf_base pfp = Some (fx_base g)" using o(4) by (simp add: fx_fields_def)
  have "unat (pf_free (pm_mem pmp) pfp) = 0"
    using o(7) True fx_frontier_zero [OF o(3)] by (simp add: pf_free_def)
  then have "pf_free (pm_mem pmp) pfp = 0" by (simp add: unat_eq_0)
  with True base show ?thesis by (simp add: pa_fixed_alloc_atom_def)
next
  case False
  note o = fx_okD [OF ok]
  note g = fx_geoD [OF o(3)]
  have k: "length (fx_pages g) < fx_npages g" using False g(8) by simp
  note f = fx_frontier_range [OF o(3) k]
  let ?a = "pf_free (pm_mem pmp) pfp"
  have base: "pf_base pfp = Some (fx_base g)" using o(4) by (simp add: fx_fields_def)
  have a: "unat ?a = fx_frontier g" using o(7) by (simp add: pf_free_def)
  then have nz: "?a \<noteq> 0" using f(3) by auto
  have none: "pa_fixed_atom_addr (pm_mem pmp) pfp ?a = None"
    using a f(1) by (intro fx_atom_addr_none [OF ok]) simp
  have pos: "0 < fx_per g * fx_size g" using g(3,10) by simp
  from mm.alloc_total [OF o(1) pos room, of os] show ?thesis
  proof (elim disjE exE conjE)
    assume z: "pa_mmap_alloc os pmp (fx_per g * fx_size g) = Some (pmp, 0)"
    then have "pa_fixed_alloc_atom os pmp pfp = Some (pmp, 0)"
      using a f(1) nz by (intro pa_fixed_alloc_atom_refused [OF ok]) simp_all
    with z show ?thesis by blast
  next
    fix pmp2 p
    assume al: "pa_mmap_alloc os pmp (fx_per g * fx_size g) = Some (pmp2, p)" "p \<noteq> 0"
      and new: "(p, word_of_nat (pa_count (fx_per g * fx_size g))) \<notin> S"
      and v: "mm_valid pmp2 (insert (p, word_of_nat (pa_count (fx_per g * fx_size g))) S)"
      and same: "same_on (owned S) (pm_mem pmp) (pm_mem pmp2)"
    note new = new [folded fx_page_count_def] and v = v [folded fx_page_count_def]
    let ?m' = "fx_page_mem (pm_mem pmp2) g p" and ?S = "insert (p, fx_page_count g) S" and ?g = "fx_grown g p"
    let ?pmp3 = "pmp2\<lparr>pm_mem := ?m'\<rparr>"
    note grow = fx_grow [OF ok k v new same]
    have "pa_page p = unat p * 4096" by (rule mm.page_addr(1) [OF v, of p "fx_page_count g"]) simp
    then have made: "pa_fixed_alloc_setup_page os pmp pfp (fx_base g) ?a = Some ?pmp3"
      using f(4) a grow(2) by (intro pa_fixed_alloc_setup_page_eq [OF ok k _ al same]) auto
    have split: "[fx_frontier g..<fx_used g + fx_per g] = fx_frontier g # [Suc (fx_frontier g)..<fx_used g + fx_per g]"
      using f(2) by (rule upt_conv_Cons)
    let ?ys = "[Suc (fx_frontier g)..<fx_used g + fx_per g]"
    from grow(1) split have ok3: "fx_ok ?pmp3 ?S pfp ?g (fx_frontier g # ?ys)" by simp
    have out: "same_on (- (fx_page_bytes g p \<union> fx_table_bytes g)) (pm_mem pmp2) ?m'"
      by (rule same_onI, rule fx_page_mem_outside [OF o(3) k]) auto
    let ?b = "fx_bytes ?g (fx_frontier g)" and ?q = "fx_popped ?m' pfp (fx_addr ?g (fx_frontier g))"
    have addr: "pa_fixed_atom_addr ?m' pfp ?a = Some (fx_addr ?g (fx_frontier g))"
      using fx_atom_addr [OF ok3, of ?a] a f(2) nz by simp
    have r: "pa_fixed_alloc_atom os pmp pfp = Some (?pmp3\<lparr>pm_mem := ?q\<rparr>, ?a)"
      by (simp add: pa_fixed_alloc_atom_def base nz none Let_def made addr fx_popped_def)
    note pop = fx_pop [OF ok3, simplified]
    have page: "fx_bytes ?g j \<subseteq> fx_page_bytes g p" if "j \<in> set (fx_frontier g # ?ys)" for j
      using that f(1,2) by (intro fx_page_bytes_in [OF o(3)]) auto
    have hd: "{pf_infop pfp..<pf_infop pfp + 16} \<inter> (fx_page_bytes g p \<union> fx_table_bytes g) = {}"
      using o(2) header_owned [of S] grow(2) fx_table_header [OF o(1,3,5)] by blast
    have i: "pf_infop pfp + 1 \<in> {pf_infop pfp..<pf_infop pfp + 16}" by simp
    then have "pf_infop pfp + 1 \<in> owned S" using o(2) header_owned [of S] by blast
    note same1 = same_onD [OF same this]
    from i hd have "pf_infop pfp + 1 \<in> - (fx_page_bytes g p \<union> fx_table_bytes g)" by blast
    with out have "?m' (pf_infop pfp + 1) = pm_mem pmp2 (pf_infop pfp + 1)" by (rule same_onD)
    also have "\<dots> = pm_mem pmp (pf_infop pfp + 1)"
      by (rule same1)
    finally have fl: "pf_flags ?m' pfp = pf_flags (pm_mem pmp) pfp" by (simp add: pf_flags_def)
    have "same_on (owned S - fx_private pfp g []) (pm_mem pmp) (pm_mem pmp2)"
      by (rule same_on_subset [OF same]) blast
    moreover have "same_on (owned S - fx_private pfp g []) (pm_mem pmp2) ?m'"
      by (rule same_on_subset [OF out]) (use grow(2) in \<open>auto simp: fx_private_def\<close>)
    moreover have "same_on (owned S - fx_private pfp g []) ?m' ?q"
      by (rule same_on_subset [OF pop(2)]) (use grow(2) page in \<open>fastforce simp: fx_private_def\<close>)
    ultimately have "same_on (owned S - fx_private pfp g []) (pm_mem pmp) ?q"
      using same_on_trans by blast
    moreover have "(fx_private pfp ?g ?ys \<union> ?b) \<inter> owned S \<subseteq> fx_private pfp g []"
      using grow(2) page by (fastforce simp: fx_private_def)
    moreover have "\<forall>y\<in>?b. ?q y = 0" if "pf_flags (pm_mem pmp) pfp AND PFF_INIT_ZERO \<noteq> 0"
      using pop(3) that fl by simp
    ultimately have "fx_got pmp S pfp g [] (?pmp3\<lparr>pm_mem := ?q\<rparr>) ?a"
      unfolding fx_got_def a using pop(1) nz fx_grown_live(1) [OF o(3) k, of p] fx_grown_live(2) [OF o(3) k]
      by (intro exI [of _ ?S] exI [of _ ?g] exI [of _ ?ys]) auto
    with r show ?thesis by blast
  qed
qed

text \<open>Both cases together.\<close>

lemma pa_fixed_alloc_atom_ok:
  assumes ok: "fx_ok pmp S pfp g xs" and room: "mm_room pmp (fx_per g * fx_size g)"
  shows "pa_fixed_alloc_atom os pmp pfp = Some (pmp, 0) \<and> xs = []
      \<and> (length (fx_pages g) = fx_npages g \<or> pa_mmap_alloc os pmp (fx_per g * fx_size g) = Some (pmp, 0))
    \<or> (\<exists>pmp' a. pa_fixed_alloc_atom os pmp pfp = Some (pmp', a) \<and> fx_got pmp S pfp g xs pmp' a)"
proof (cases xs)
  case Nil
  with pa_fixed_alloc_atom_grow [of pmp S pfp g os] ok room show ?thesis by blast
next
  case (Cons x ys)
  with pa_fixed_alloc_atom_pop [of pmp S pfp g x ys os] ok show ?thesis by blast
qed

end
