(* ===== verification/Pafixed_Iface.thy ===== *)
theory Pafixed_Iface
  imports Pafixed_Alloc
begin

text \<open>
  \<^verbatim>\<open>pa_fixed_init\<close> establishes the invariant of the paged array, and the array provides the
  interface of a pool of atoms that the structures above it use.
\<close>

section \<open>A new array\<close>

definition fx_round4 :: "nat \<Rightarrow> nat" where
  "fx_round4 z = (max 4 z + 3) div 4 * 4"

definition fx_new :: "u8 \<Rightarrow> u16 \<Rightarrow> u32 \<Rightarrow> u32 \<Rightarrow> fx" where
  "fx_new shift atom_size max_atoms T = \<lparr>fx_shift = unat shift, fx_size = fx_round4 (unat atom_size),
     fx_npages = (unat max_atoms + 2 ^ unat shift - 1) div 2 ^ unat shift, fx_table = T, fx_pages = []\<rparr>"

text \<open>The parameters the code can work with.\<close>

definition fx_params :: "u8 \<Rightarrow> u16 \<Rightarrow> u32 \<Rightarrow> bool" where
  "fx_params shift atom_size max_atoms \<longleftrightarrow> 1 \<le> unat shift \<and> unat shift < 31 \<and> unat atom_size \<le> 65532
     \<and> 2 ^ unat shift * fx_round4 (unat atom_size) < 2 ^ 32
     \<and> 1 \<le> unat max_atoms \<and> unat max_atoms + 2 ^ unat shift \<le> 2 ^ 32"

definition no_config :: "pa_config_variable list \<Rightarrow> string \<Rightarrow> bool" where
  "no_config vars name \<longleftrightarrow> (\<forall>n. pa_config_value_internal vars name n = None)"

lemma fx_round4_facts: "4 \<le> fx_round4 z" "4 dvd fx_round4 z" "z \<le> fx_round4 z" "z \<le> 65532 \<Longrightarrow> fx_round4 z \<le> 65532"
  by (auto simp: fx_round4_def)

lemma fx_new_geo:
  assumes "fx_params shift atom_size max_atoms"
  shows "fx_geo (fx_new shift atom_size max_atoms T)"
proof -
  let ?N = "2 ^ unat shift :: nat" and ?n = "unat max_atoms"
  have p: "1 \<le> unat shift" "unat shift < 31" "?N * fx_round4 (unat atom_size) < 2 ^ 32" "1 \<le> ?n" "?n + ?N \<le> 2 ^ 32"
    using assms by (auto simp: fx_params_def)
  have "(?n + ?N - 1) div ?N * ?N \<le> ?n + ?N - 1" by (rule div_times_less_eq_dividend)
  then have "(?n + ?N - 1) div ?N * ?N < 2 ^ 32" using p(4,5) by linarith
  moreover have "1 \<le> (?n + ?N - 1) div ?N" using p(4) by (simp add: Suc_le_eq div_greater_zero_iff)
  ultimately show ?thesis
    using p fx_round4_facts by (simp add: fx_geo_def fx_new_def fx_per_def)
qed

lemma pa_fixed_init_config:
  assumes "no_config vars name" "fx_params shift atom_size max_atoms"
  shows "ucast (pa_config_value32 vars name ''shift'' (ucast shift)) = shift"
    and "unat (ucast (pa_roundup32 (ucast (let a = (ucast (pa_config_value32_min vars name ''atom-size''
        (ucast atom_size)) :: u16) in if a < 4 then 4 else a)) 4) :: u16) = fx_round4 (unat atom_size)"
    and "unat (pa_roundup_shift32 (pa_config_value32 vars name ''max-atoms'' max_atoms) shift)
      = fx_npages (fx_new shift atom_size max_atoms 0) * 2 ^ unat shift"
proof -
  have v: "pa_config_value32 vars name n d = d" for n d
    using assms(1) by (simp add: no_config_def pa_config_value32_def)
  have mn: "pa_config_value32_min vars name n d = d" for n d
    by (simp add: pa_config_value32_min_def v)
  have id8: "ucast (ucast shift :: u32) = shift"
    by (rule bit_word_eqI) (simp add: bit_simps)
  show "ucast (pa_config_value32 vars name ''shift'' (ucast shift)) = shift" by (simp add: v id8)
  show "unat (pa_roundup_shift32 (pa_config_value32 vars name ''max-atoms'' max_atoms) shift)
      = fx_npages (fx_new shift atom_size max_atoms 0) * 2 ^ unat shift"
    using assms(2) by (simp add: v pa_roundup_shift32_nat fx_params_def fx_new_def)
  let ?a = "if atom_size < 4 then 4 else atom_size"
  have le: "unat atom_size \<le> 65532" using assms(2) by (simp add: fx_params_def)
  have a: "unat ?a = max 4 (unat atom_size)" by (simp add: word_less_nat_alt max_def)
  have "unat (ucast ?a :: u32) = unat ?a" by (rule unat_ucast_up) simp
  with a have "unat (ucast ?a :: u32) = max 4 (unat atom_size)" by (rule trans [rotated])
  moreover have "unat (ucast ?a :: u32) + 2 ^ 2 \<le> 2 ^ 32" using calculation le by simp
  ultimately have "unat (pa_roundup32 (ucast ?a) (2 ^ 2)) = fx_round4 (unat atom_size)"
    by (subst pa_roundup32_nat) (simp_all add: fx_round4_def)
  then show "unat (ucast (pa_roundup32 (ucast (let a = (ucast (pa_config_value32_min vars name ''atom-size''
        (ucast atom_size)) :: u16) in if a < 4 then 4 else a)) 4) :: u16) = fx_round4 (unat atom_size)"
    using fx_round4_facts(4) [OF le]
    by (simp add: mn take_bit_word_eq_self Let_def unsigned_ucast_eq take_bit_nat_eq_self split del: if_split)
qed

text \<open>The memory a new array starts from.\<close>

definition fx_init_mem :: "mem \<Rightarrow> nat \<Rightarrow> fx \<Rightarrow> u8 \<Rightarrow> mem" where
  "fx_init_mem m info g shift =
     (let m = zero_range m (fx_base g) (fx_npages g * 8);
          m = wr32 m (info + 12) (fx_table g);
          m = wr32 m (info + 8) 1;
          m = wr16 (m(info := shift)) (info + 2) (word_of_nat (fx_size g))
      in wr32 m (info + 4) (word_of_nat (fx_npages g * fx_per g)))"

lemma fx_init_mem_outside:
  assumes "x \<notin> {info..<info + 16}" "x \<notin> {fx_base g..<fx_base g + fx_npages g * 8}"
  shows "fx_init_mem m info g shift x = m x"
proof -
  have "x < info \<or> info + 16 \<le> x" "x < fx_base g \<or> fx_base g + fx_npages g * 8 \<le> x"
    using assms by auto
  then show ?thesis
    by (auto simp: fx_init_mem_def Let_def wr32_outside wr16_outside zero_range_outside)
qed

lemma fx_init_mem_fields:
  assumes "fx_geo g" "unat shift = fx_shift g" "fx_size g < 2 ^ 16" "pf_infop pfp = info" "pf_base pfp = Some (fx_base g)"
  shows "fx_fields (fx_init_mem m info g shift) pfp g"
    and "rd32 (fx_init_mem m info g shift) (info + 8) = 1"
proof -
  note g = fx_geoD [OF assms(1)]
  let ?m = "fx_init_mem m info g shift"
  have "pf_shift ?m pfp = shift"
    by (simp add: pf_shift_def assms(4) fx_init_mem_def Let_def wr32_outside wr16_outside)
  moreover have "pf_atom_size ?m pfp = word_of_nat (fx_size g)"
    by (simp add: pf_atom_size_def assms(4) fx_init_mem_def Let_def mem_simps)
  moreover have "pf_max_atoms ?m pfp = word_of_nat (fx_npages g * fx_per g)"
    by (simp add: pf_max_atoms_def assms(4) fx_init_mem_def Let_def)
  ultimately show "fx_fields ?m pfp g"
    using g(7) assms by (simp add: fx_fields_def unat_of_nat del: of_nat_mult)
  have "rd32 (f(info := shift)) (info + 8) = rd32 f (info + 8)" for f by (rule rd32_cong) simp
  then show "rd32 ?m (info + 8) = 1"
    by (simp add: fx_init_mem_def Let_def mem_simps)
qed

lemma fx_new_ok:
  assumes v: "mm_valid pmp2 (insert (T, word_of_nat (pa_count (fx_npages g * 8))) S)"
    and new: "(T, word_of_nat (pa_count (fx_npages g * 8))) \<notin> S"
    and geo: "fx_geo g" "fx_pages g = []" "fx_table g = T"
    and sh: "unat shift = fx_shift g" "fx_size g < 2 ^ 16"
    and info: "{info..<info + 16} \<subseteq> header_bytes"
  defines "m' \<equiv> fx_init_mem (pm_mem pmp2) info g shift" and "pfp \<equiv> \<lparr>pf_infop = info, pf_base = Some (fx_base g)\<rparr>"
  shows "fx_ok (pmp2\<lparr>pm_mem := m'\<rparr>) (insert (T, word_of_nat (pa_count (fx_npages g * 8))) S) pfp g []"
    and "same_on (owned S - {info..<info + 16}) (pm_mem pmp2) m'"
    and "fx_table_bytes g \<inter> owned S = {}"
proof -
  note g = fx_geoD [OF geo(1)]
  let ?e = "(T, word_of_nat (pa_count (fx_npages g * 8))) :: u32 \<times> u32" and ?z = "{fx_base g..<fx_base g + fx_npages g * 8}"
  have "fx_npages g * 2 \<le> fx_npages g * fx_per g" using g(10) by (intro mult_left_mono) auto
  then have "fx_npages g * 2 < 2 ^ 32" using g(7) by (rule le_less_trans)
  then have "pa_count (fx_npages g * 8) < 2 ^ 32" by (simp add: pa_count_def)
  then have "unat (word_of_nat (pa_count (fx_npages g * 8)) :: u32) = pa_count (fx_npages g * 8)"
    by (simp add: unat_of_nat)
  then have "fx_npages g * 8 \<le> unat (word_of_nat (pa_count (fx_npages g * 8)) :: u32) * 4096"
    by (simp add: pa_count_def)
  then have z: "?z \<subseteq> ext_bytes ?e" using geo(3) by (auto simp: fx_base_def ext_bytes_def algebra_simps)
  have "ext_bytes ?e \<inter> ext_bytes e = {}" if "e \<in> S" for e
    using that new by (intro mm.bytes_disjoint [OF v]) auto
  moreover have hd: "ext_bytes ?e \<inter> header_bytes = {}" by (rule mm.block_not_header [OF v]) simp
  ultimately have sep: "ext_bytes ?e \<inter> owned S = {}" unfolding owned_def by blast
  have tab: "fx_table_bytes g \<subseteq> ?z" by (auto simp: fx_table_bytes_def)
  then show "fx_table_bytes g \<inter> owned S = {}" using z sep by blast
  have out: "same_on (- ({info..<info + 16} \<union> ?z)) (pm_mem pmp2) m'"
    unfolding m'_def by (rule same_onI, rule fx_init_mem_outside) auto
  then show "same_on (owned S - {info..<info + 16}) (pm_mem pmp2) m'"
    by (rule same_on_subset) (use z sep in blast)
  have "mm_valid (pmp2\<lparr>pm_mem := m'\<rparr>) (insert ?e S)"
    by (rule mm.write_inside [OF v _ out]) (use z info in \<open>auto simp: owned_def\<close>)
  moreover have "fx_fields m' pfp g" "rd32 m' (info + 8) = 1"
    unfolding m'_def using fx_init_mem_fields [OF geo(1) sh, of pfp info] by (simp_all add: pfp_def)
  moreover have "fx_tbl m' g"
  proof -
    have "m' x = 0" if "x \<in> fx_table_bytes g" for x
    proof -
      have "x \<notin> {info..<info + 16}" using that tab z hd info by blast
      then have "x < info \<or> info + 16 \<le> x" by auto
      with that tab show ?thesis
        by (auto simp: m'_def fx_init_mem_def Let_def wr32_outside wr16_outside zero_range_inside)
    qed
    then have "rd32 m' (fx_base g + 4 * i) = 0" if "i < fx_npages g" for i
      using that by (intro rd32_zero) (auto simp: fx_table_bytes_def)
    then show ?thesis using geo(2) by (simp add: fx_tbl_def)
  qed
  ultimately show "fx_ok (pmp2\<lparr>pm_mem := m'\<rparr>) (insert ?e S) pfp g []"
    using geo info by (simp add: fx_ok_def fx_blocks_def fx_frontier_def pf_free_at_def pfp_def)
qed

lemma pa_fixed_init_eq:
  assumes "(ucast (pa_config_value32 vars name ''shift'' (ucast shift)) :: u8) = sh"
    and "(ucast (pa_roundup32 (ucast (let a = (ucast (pa_config_value32_min vars name ''atom-size''
        (ucast atom_size)) :: u16) in if a < 4 then 4 else a)) 4) :: u16) = a"
    and "pa_roundup_shift32 (pa_config_value32 vars name ''max-atoms'' max_atoms) sh = mx"
  shows "pa_fixed_init os vars pmp \<lparr>pf_infop = info, pf_base = None\<rparr> name shift atom_size max_atoms =
    do {
      let sz = unat (drop_bit (unat sh) mx) * 8;
      (pmp, atom) \<leftarrow> pa_mmap_alloc os pmp sz;
      (case pa_mmap_addr atom of
         None \<Rightarrow> Some (pmp, \<lparr>pf_infop = info, pf_base = None\<rparr>)
       | Some real_base \<Rightarrow>
           Some (pmp\<lparr>pm_mem := wr32 (wr16 ((wr32 (wr32 (zero_range (pm_mem pmp) real_base sz) (info + 12) atom)
             (info + 8) 1)(info := sh)) (info + 2) a) (info + 4) mx\<rparr>, \<lparr>pf_infop = info, pf_base = Some real_base\<rparr>))
    }"
  using assms(2) unfolding pa_fixed_init_def Let_def assms(1,3)
  by (simp add: assms pf_free_at_def split del: if_split cong: option.case_cong)

lemma pa_fixed_init_ok:
  assumes cfg: "no_config vars name" and par: "fx_params shift atom_size max_atoms"
    and v: "mm_valid pmp S" and info: "{info..<info + 16} \<subseteq> header_bytes"
    and room: "mm_room pmp (fx_npages (fx_new shift atom_size max_atoms 0) * 8)"
  shows "pa_fixed_init os vars pmp \<lparr>pf_infop = info, pf_base = None\<rparr> name shift atom_size max_atoms
      = Some (pmp, \<lparr>pf_infop = info, pf_base = None\<rparr>)
    \<or> (\<exists>pmp' pfp S' T. pa_fixed_init os vars pmp \<lparr>pf_infop = info, pf_base = None\<rparr> name shift atom_size max_atoms
          = Some (pmp', pfp)
        \<and> pf_infop pfp = info
        \<and> fx_ok pmp' S' pfp (fx_new shift atom_size max_atoms T) [] \<and> S \<subseteq> S'
        \<and> same_on (owned S - {info..<info + 16}) (pm_mem pmp) (pm_mem pmp')
        \<and> fx_table_bytes (fx_new shift atom_size max_atoms T) \<inter> owned S = {})"
proof -
  let ?g = "fx_new shift atom_size max_atoms"
  have np: "fx_npages (?g T) = fx_npages (?g 0)" "fx_per (?g T) = 2 ^ unat shift"
    "fx_size (?g T) = fx_round4 (unat atom_size)" for T by (simp_all add: fx_new_def fx_per_def)
  note c = pa_fixed_init_config [OF cfg par]
  note g = fx_geoD [OF fx_new_geo [OF par]]
  let ?a = "ucast (pa_roundup32 (ucast (let a = (ucast (pa_config_value32_min vars name ''atom-size''
        (ucast atom_size)) :: u16) in if a < 4 then 4 else a)) 4) :: u16"
    and ?mx = "pa_roundup_shift32 (pa_config_value32 vars name ''max-atoms'' max_atoms) shift"
  have mx: "?mx = word_of_nat (fx_npages (?g 0) * 2 ^ unat shift)"
  proof -
    have "fx_npages (?g 0) * 2 ^ unat shift < 2 ^ 32" using g(7) by (simp add: np(2))
    with c(3) show ?thesis by (simp add: word_unat_eq_iff unat_of_nat del: of_nat_mult)
  qed
  have a: "?a = word_of_nat (fx_round4 (unat atom_size))"
  proof -
    have "fx_round4 (unat atom_size) < 2 ^ 16"
      using fx_round4_facts(4) [of "unat atom_size"] par by (simp add: fx_params_def)
    with c(2) show ?thesis by (simp add: word_unat_eq_iff unat_of_nat)
  qed
  have sz: "unat (drop_bit (unat shift) ?mx) = fx_npages (?g 0)"
    using c(3) by (simp add: unat_drop_bit_div)
  have pos: "0 < fx_npages (?g 0) * 8" using g(6) [of 0] by simp
  note unfold = pa_fixed_init_eq [OF c(1) a mx, unfolded Let_def sz [unfolded mx]]
  from mm.alloc_total [OF v pos room, of os] show ?thesis
  proof (elim disjE exE conjE)
    assume "pa_mmap_alloc os pmp (fx_npages (?g 0) * 8) = Some (pmp, 0)"
    then show ?thesis unfolding unfold by (simp add: pa_mmap_addr_def)
  next
    fix pmp2 T
    let ?e = "(T, word_of_nat (pa_count (fx_npages (?g 0) * 8))) :: u32 \<times> u32"
    assume al: "pa_mmap_alloc os pmp (fx_npages (?g 0) * 8) = Some (pmp2, T)" "T \<noteq> 0"
      and new: "?e \<notin> S" and v2: "mm_valid pmp2 (insert ?e S)"
      and same: "same_on (owned S) (pm_mem pmp) (pm_mem pmp2)"
    have pg: "pa_page T = unat T * 4096" by (rule mm.page_addr(1) [OF v2, of T "snd ?e"]) simp
    let ?m' = "fx_init_mem (pm_mem pmp2) info (?g T) shift" and ?p = "\<lparr>pf_infop = info, pf_base = Some (fx_base (?g T))\<rparr>"
    have sh: "unat shift = fx_shift (?g T)" "fx_size (?g T) < 2 ^ 16"
      using fx_round4_facts(4) [of "unat atom_size"] par by (auto simp: fx_new_def fx_params_def)
    have tp: "fx_table (?g T) = T" "fx_pages (?g T) = []" by (simp_all add: fx_new_def)
    have npT: "fx_npages (?g T) = fx_npages (?g 0)" by (rule np)
    note ok = fx_new_ok [of pmp2 T "?g T" S shift info, unfolded npT, OF v2 new fx_new_geo [OF par] tp(2,1) sh info]
    have init: "pa_fixed_init os vars pmp \<lparr>pf_infop = info, pf_base = None\<rparr> name shift atom_size max_atoms
        = Some (pmp2\<lparr>pm_mem := ?m'\<rparr>, ?p)"
    proof -
      have "pa_mmap_addr T = Some (fx_base (?g T))"
        using al(2) pg by (simp add: pa_mmap_addr_def pa_page_def fx_base_def fx_new_def)
      then show ?thesis
        unfolding unfold using al(1)
        by (simp add: fx_init_mem_def Let_def np(2,3) npT tp)
    qed
    have "same_on (owned S - {info..<info + 16}) (pm_mem pmp) (pm_mem pmp2)"
      by (rule same_on_subset [OF same]) blast
    from same_on_trans [OF this ok(2)]
    have frame: "same_on (owned S - {info..<info + 16}) (pm_mem pmp) ?m'" .
    show ?thesis
      by (intro disjI2 exI [of _ "pmp2\<lparr>pm_mem := ?m'\<rparr>"] exI [of _ ?p] exI [of _ "insert ?e S"] exI [of _ T] conjI)
        (use init ok(1,3) frame in \<open>simp_all add: subset_insertI\<close>)
  qed
qed

section \<open>A pool of atoms as an interface\<close>

definition pool_bytes :: "(u32 \<Rightarrow> nat option) \<Rightarrow> nat \<Rightarrow> u32 set \<Rightarrow> nat set" where
  "pool_bytes addr z A = {x. \<exists>a\<in>A. \<exists>p. addr a = Some p \<and> p \<le> x \<and> x < p + z}"

text \<open>
  \<open>inv s E A\<close>: the atoms of \<open>A\<close> are in use, and the bytes of \<open>E\<close>, which belong to the client or to
  other structures of the segment, are clear of the pool.
\<close>

locale atom_pool =
  fixes alloc :: "'s \<Rightarrow> ('s \<times> u32) option"
    and free :: "'s \<Rightarrow> u32 \<Rightarrow> 's"
    and addr :: "'s \<Rightarrow> u32 \<Rightarrow> nat option"
    and mem_of :: "'s \<Rightarrow> mem"
    and put_mem :: "'s \<Rightarrow> mem \<Rightarrow> 's"
    and inv :: "'s \<Rightarrow> nat set \<Rightarrow> u32 set \<Rightarrow> bool"
    and z :: nat
    and room :: "'s \<Rightarrow> bool"
  assumes alloc_total: "inv s E A \<Longrightarrow> room s \<Longrightarrow> alloc s = Some (s, 0) \<or>
      (\<exists>s' a. alloc s = Some (s', a) \<and> a \<noteq> 0 \<and> a \<notin> A \<and> inv s' E (insert a A)
        \<and> same_on (E \<union> pool_bytes (addr s) z A) (mem_of s) (mem_of s')
        \<and> (\<forall>b\<in>A. addr s' b = addr s b))"
    and live: "inv s E A \<Longrightarrow> a \<in> A \<Longrightarrow> \<exists>p. addr s a = Some p \<and> {p..<p + z} \<inter> E = {}"
    and null: "inv s E A \<Longrightarrow> 0 \<notin> A"
    and apart: "inv s E A \<Longrightarrow> a \<in> A \<Longrightarrow> b \<in> A \<Longrightarrow> a \<noteq> b \<Longrightarrow> addr s a = Some p \<Longrightarrow> addr s b = Some q
      \<Longrightarrow> p + z \<le> q \<or> q + z \<le> p"
    and free_ok: "inv s E A \<Longrightarrow> a \<in> A \<Longrightarrow> inv (free s a) E (A - {a})
        \<and> same_on (E \<union> pool_bytes (addr s) z (A - {a})) (mem_of s) (mem_of (free s a))
        \<and> (\<forall>b\<in>A - {a}. addr (free s a) b = addr s b)"
    and write_ok: "inv s E A \<Longrightarrow> same_on (- (E \<union> pool_bytes (addr s) z A)) (mem_of s) m
      \<Longrightarrow> inv (put_mem s m) E A \<and> (\<forall>b\<in>A. addr (put_mem s m) b = addr s b)"
    and mem_put: "mem_of (put_mem s m) = m"

text \<open>A write within one atom, or outside of the pool.\<close>

context atom_pool begin

lemma touch:
  assumes "inv s E A" "a \<in> A" "addr s a = Some p" "same_on (- {p..<p + z}) (mem_of s) m"
  shows "inv (put_mem s m) E A" "\<forall>b\<in>A. addr (put_mem s m) b = addr s b" "same_on E (mem_of s) m"
    and "b \<in> A \<Longrightarrow> b \<noteq> a \<Longrightarrow> addr s b = Some q \<Longrightarrow> same_on {q..<q + z} (mem_of s) m"
proof -
  have sub: "{p..<p + z} \<subseteq> pool_bytes (addr s) z A" using assms(2,3)
    unfolding pool_bytes_def by (auto intro!: bexI [of _ a] exI [of _ p])
  have "same_on (- (E \<union> pool_bytes (addr s) z A)) (mem_of s) m"
    by (rule same_on_subset [OF assms(4)]) (use sub in blast)
  with write_ok [OF assms(1)] show "inv (put_mem s m) E A" "\<forall>b\<in>A. addr (put_mem s m) b = addr s b" by blast+
  show "same_on E (mem_of s) m"
    by (rule same_on_subset [OF assms(4)]) (use live [OF assms(1,2)] assms(3) in auto)
  show "same_on {q..<q + z} (mem_of s) m" if "b \<in> A" "b \<noteq> a" "addr s b = Some q"
    by (rule same_on_subset [OF assms(4)]) (use apart [OF assms(1) that(1) assms(2) that(2,3) assms(3)] in auto)
qed

lemma touch_out:
  assumes "inv s E A" "X \<subseteq> E" "same_on (- X) (mem_of s) m"
  shows "inv (put_mem s m) E A" "\<forall>b\<in>A. addr (put_mem s m) b = addr s b"
    and "b \<in> A \<Longrightarrow> addr s b = Some q \<Longrightarrow> same_on {q..<q + z} (mem_of s) m"
proof -
  have "same_on (- (E \<union> pool_bytes (addr s) z A)) (mem_of s) m"
    by (rule same_on_subset [OF assms(3)]) (use assms(2) in blast)
  with write_ok [OF assms(1)] show "inv (put_mem s m) E A" "\<forall>b\<in>A. addr (put_mem s m) b = addr s b" by blast+
  show "same_on {q..<q + z} (mem_of s) m" if "b \<in> A" "addr s b = Some q"
    by (rule same_on_subset [OF assms(3)]) (use live [OF assms(1) that(1)] that(2) assms(2) in auto)
qed

end

definition fx_pool :: "pa_fixed \<Rightarrow> nat \<Rightarrow> nat \<Rightarrow> pa_mmap \<Rightarrow> nat set \<Rightarrow> u32 set \<Rightarrow> bool" where
  "fx_pool pfp z w pmp E A \<longleftrightarrow> (\<exists>S g xs. fx_ok pmp S pfp g xs \<and> fx_size g = z \<and> fx_per g * fx_size g = w
     \<and> unat ` A = fx_live g xs \<and> E \<subseteq> owned S
     \<and> E \<inter> ({pf_infop pfp..<pf_infop pfp + 8} \<union> fx_private pfp g xs \<union> (\<Union>x\<in>fx_live g xs. fx_bytes g x)) = {})"

lemma fx_live_addr:
  assumes "fx_ok pmp S pfp g xs" "unat ` A = fx_live g xs" "a \<in> A"
  shows "pa_fixed_atom_addr (pm_mem pmp) pfp a = Some (fx_addr g (unat a))" "a \<noteq> 0" "unat a < fx_used g"
proof -
  have "unat a \<in> fx_live g xs" using assms(2,3) by blast
  then have "1 \<le> unat a" "unat a < fx_used g" by (auto simp: fx_live_def)
  then show "unat a < fx_used g" "a \<noteq> 0" by auto
  then show "pa_fixed_atom_addr (pm_mem pmp) pfp a = Some (fx_addr g (unat a))"
    using fx_atom_addr [OF assms(1)] by blast
qed

lemma fx_pool_bytes:
  assumes "fx_ok pmp S pfp g xs" "unat ` A = fx_live g xs" "B \<subseteq> A"
  shows "pool_bytes (pa_fixed_atom_addr (pm_mem pmp) pfp) (fx_size g) B = (\<Union>x\<in>unat ` B. fx_bytes g x)"
  using fx_live_addr [OF assms(1,2)] assms(3) by (fastforce simp: pool_bytes_def fx_bytes_def)

lemma unat_image_inj: "unat a \<in> unat ` A \<longleftrightarrow> (a :: u32) \<in> A"
  by (auto simp flip: word_unat_eq_iff)

lemma fx_poolI:
  assumes "fx_ok pmp S pfp g xs" "fx_size g = z" "fx_per g * fx_size g = w" "unat ` A = fx_live g xs"
    "E \<subseteq> owned S"
    "E \<inter> ({pf_infop pfp..<pf_infop pfp + 8} \<union> fx_private pfp g xs \<union> (\<Union>x\<in>fx_live g xs. fx_bytes g x)) = {}"
  shows "fx_pool pfp z w pmp E A"
  unfolding fx_pool_def using assms by (intro exI conjI)

lemma fx_poolE:
  assumes "fx_pool pfp z w pmp E A"
  obtains S g xs where "fx_ok pmp S pfp g xs" "fx_size g = z" "fx_per g * fx_size g = w" "unat ` A = fx_live g xs"
    "E \<subseteq> owned S"
    "E \<inter> ({pf_infop pfp..<pf_infop pfp + 8} \<union> fx_private pfp g xs \<union> (\<Union>x\<in>fx_live g xs. fx_bytes g x)) = {}"
  using assms unfolding fx_pool_def by (elim exE conjE) rule

lemma fx_gotE:
  assumes "fx_got pmp S pfp g xs pmp' a"
  obtains S' g' xs' where "fx_ok pmp' S' pfp g' xs'" "S \<subseteq> S'" "g' = g \<or> (\<exists>p. g' = fx_grown g p)"
    "a \<noteq> 0" "unat a \<notin> fx_live g xs" "fx_live g' xs' = insert (unat a) (fx_live g xs)"
    "same_on (owned S - fx_private pfp g xs) (pm_mem pmp) (pm_mem pmp')"
    "(fx_private pfp g' xs' \<union> fx_bytes g' (unat a)) \<inter> owned S \<subseteq> fx_private pfp g xs"
  using assms unfolding fx_got_def by (elim exE conjE) rule

lemma fx_live_bytes:
  assumes "fx_ok pmp S pfp g xs" "x \<in> fx_live g xs"
  shows "fx_bytes g x \<subseteq> owned S - fx_private pfp g xs"
proof -
  note o = fx_okD [OF assms(1)]
  have x: "x < fx_used g" "x \<notin> set xs" using assms(2) by (auto simp: fx_live_def)
  have "fx_bytes g x \<inter> fx_bytes g y = {}" if "y \<in> set xs" for y
    using that x o(9) by (intro fx_bytes_disjoint [OF o(1,3,5)]) auto
  moreover have "fx_bytes g x \<inter> {pf_free_at pfp..<pf_free_at pfp + 4} = {}"
    using fx_bytes_header [OF o(1,3,5) x(1)] o(2) by (fastforce simp: pf_free_at_def)
  ultimately show ?thesis
    using fx_bytes_owned [OF o(3,5) x(1)] fx_bytes_table [OF o(1,3,5) x(1)]
    unfolding fx_private_def by blast
qed

lemma fx_pool_alloc:
  assumes p: "fx_pool pfp z w pmp E A" and room: "mm_room pmp w"
  shows "pa_fixed_alloc_atom os pmp pfp = Some (pmp, 0) \<or>
      (\<exists>pmp' a. pa_fixed_alloc_atom os pmp pfp = Some (pmp', a) \<and> a \<noteq> 0 \<and> a \<notin> A \<and> fx_pool pfp z w pmp' E (insert a A)
        \<and> same_on (E \<union> pool_bytes (pa_fixed_atom_addr (pm_mem pmp) pfp) z A) (pm_mem pmp) (pm_mem pmp')
        \<and> (\<forall>b\<in>A. pa_fixed_atom_addr (pm_mem pmp') pfp b = pa_fixed_atom_addr (pm_mem pmp) pfp b))"
proof -
  from p obtain S g xs where ok: "fx_ok pmp S pfp g xs" and z: "fx_size g = z" "fx_per g * fx_size g = w"
    and A: "unat ` A = fx_live g xs" and E: "E \<subseteq> owned S"
    "E \<inter> ({pf_infop pfp..<pf_infop pfp + 8} \<union> fx_private pfp g xs \<union> (\<Union>x\<in>fx_live g xs. fx_bytes g x)) = {}"
    by (rule fx_poolE)
  note o = fx_okD [OF ok]
  from pa_fixed_alloc_atom_ok [OF ok, of os] room z(2)
  consider "pa_fixed_alloc_atom os pmp pfp = Some (pmp, 0)"
    | pmp' a where "pa_fixed_alloc_atom os pmp pfp = Some (pmp', a)" "fx_got pmp S pfp g xs pmp' a" by blast
  then show ?thesis
  proof cases
    case 2
    from 2(2) obtain S' g' xs' where ok': "fx_ok pmp' S' pfp g' xs'" and S: "S \<subseteq> S'"
      and g': "g' = g \<or> (\<exists>p. g' = fx_grown g p)" and a: "a \<noteq> 0" "unat a \<notin> fx_live g xs"
      and live: "fx_live g' xs' = insert (unat a) (fx_live g xs)"
      and same: "same_on (owned S - fx_private pfp g xs) (pm_mem pmp) (pm_mem pmp')"
      and priv: "(fx_private pfp g' xs' \<union> fx_bytes g' (unat a)) \<inter> owned S \<subseteq> fx_private pfp g xs"
      by (rule fx_gotE)
    have sz: "fx_size g' = z" "fx_per g' * fx_size g' = w" using g' z by auto
    have old: "fx_addr g' x = fx_addr g x" "fx_bytes g' x = fx_bytes g x" if "x \<in> fx_live g xs" for x
    proof -
      have "x < fx_used g" using that by (simp add: fx_live_def)
      then show "fx_addr g' x = fx_addr g x" using g' fx_grown_addr_old [OF o(3)] by auto
      then show "fx_bytes g' x = fx_bytes g x" using sz(1) z(1) by (simp add: fx_bytes_def)
    qed
    have A': "unat ` insert a A = fx_live g' xs'" using live A by simp
    have "E \<inter> (fx_private pfp g' xs' \<union> fx_bytes g' (unat a)) = {}" using priv E by blast
    moreover have "(\<Union>x\<in>fx_live g' xs'. fx_bytes g' x) = fx_bytes g' (unat a) \<union> (\<Union>x\<in>fx_live g xs. fx_bytes g x)"
      using live old(2) by auto
    moreover have "E \<subseteq> owned S'" using E(1) S by (auto simp: owned_def)
    ultimately have "fx_pool pfp z w pmp' E (insert a A)"
      using E(2) by (intro fx_poolI [OF ok' sz A']) blast+
    moreover have "pool_bytes (pa_fixed_atom_addr (pm_mem pmp) pfp) z A = (\<Union>x\<in>fx_live g xs. fx_bytes g x)"
      using fx_pool_bytes [OF ok A subset_refl] A z(1) by simp
    then have "same_on (E \<union> pool_bytes (pa_fixed_atom_addr (pm_mem pmp) pfp) z A) (pm_mem pmp) (pm_mem pmp')"
      using fx_live_bytes [OF ok] E by (intro same_on_subset [OF same]) blast
    moreover have "pa_fixed_atom_addr (pm_mem pmp') pfp b = pa_fixed_atom_addr (pm_mem pmp) pfp b" if "b \<in> A" for b
    proof -
      have "unat b \<in> fx_live g xs" using A that by blast
      then show ?thesis using fx_live_addr(1) [OF ok' A', of b] fx_live_addr(1) [OF ok A that] old(1) that by simp
    qed
    moreover have "a \<notin> A" using a(2) A unat_image_inj [of a A] by simp
    ultimately show ?thesis using 2(1) a(1) by blast
  qed simp
qed

lemma fx_pool_free:
  assumes p: "fx_pool pfp z w pmp E A" and a: "a \<in> A"
  shows "fx_pool pfp z w (pa_fixed_free_atom pmp pfp a) E (A - {a})"
    and "same_on (E \<union> pool_bytes (pa_fixed_atom_addr (pm_mem pmp) pfp) z (A - {a})) (pm_mem pmp)
      (pm_mem (pa_fixed_free_atom pmp pfp a))"
    and "b \<in> A - {a} \<Longrightarrow> pa_fixed_atom_addr (pm_mem (pa_fixed_free_atom pmp pfp a)) pfp b
      = pa_fixed_atom_addr (pm_mem pmp) pfp b"
proof -
  let ?pmp' = "pa_fixed_free_atom pmp pfp a"
  from p obtain S g xs where ok: "fx_ok pmp S pfp g xs" and z: "fx_size g = z" "fx_per g * fx_size g = w"
    and A: "unat ` A = fx_live g xs" and E: "E \<subseteq> owned S"
    "E \<inter> ({pf_infop pfp..<pf_infop pfp + 8} \<union> fx_private pfp g xs \<union> (\<Union>x\<in>fx_live g xs. fx_bytes g x)) = {}"
    by (rule fx_poolE)
  have al: "unat a \<in> fx_live g xs" using a A by blast
  note f = pa_fixed_free_atom_ok [OF ok al]
  have live: "fx_live g (unat a # xs) = fx_live g xs - {unat a}" by (auto simp: fx_live_def)
  have A': "unat ` (A - {a}) = fx_live g (unat a # xs)"
  proof -
    have "inj (unat :: u32 \<Rightarrow> nat)" by (rule injI) (simp add: word_unat_eq_iff)
    from image_set_diff [OF this, of A "{a}"] show ?thesis by (simp add: live A)
  qed
  have priv: "fx_private pfp g (unat a # xs) = fx_private pfp g xs \<union> fx_bytes g (unat a)"
    unfolding fx_private_def by auto
  show "fx_pool pfp z w ?pmp' E (A - {a})"
    by (rule fx_poolI [OF f(1) z A' E(1)]) (use E(2) al in \<open>unfold priv live, blast\<close>)
  have "fx_bytes g x \<inter> ({pf_free_at pfp..<pf_free_at pfp + 4} \<union> fx_bytes g (unat a)) = {}"
    if "x \<in> fx_live g xs" "x \<noteq> unat a" for x
  proof -
    have "fx_bytes g x \<inter> fx_bytes g (unat a) = {}"
      using that al fx_okD(1,3,5) [OF ok] by (intro fx_bytes_disjoint) (auto simp: fx_live_def)
    then show ?thesis using fx_live_bytes [OF ok that(1)] unfolding fx_private_def by blast
  qed
  then have "(\<Union>x\<in>unat ` (A - {a}). fx_bytes g x) \<inter> ({pf_free_at pfp..<pf_free_at pfp + 4} \<union> fx_bytes g (unat a)) = {}"
    unfolding A' live by blast
  moreover have "E \<inter> ({pf_free_at pfp..<pf_free_at pfp + 4} \<union> fx_bytes g (unat a)) = {}"
    using E(2) al unfolding fx_private_def by blast
  ultimately have sub: "E \<union> (\<Union>x\<in>unat ` (A - {a}). fx_bytes g x)
      \<subseteq> - ({pf_free_at pfp..<pf_free_at pfp + 4} \<union> fx_bytes g (unat a))" by blast
  have pb: "pool_bytes (pa_fixed_atom_addr (pm_mem pmp) pfp) z (A - {a}) = (\<Union>x\<in>unat ` (A - {a}). fx_bytes g x)"
    using fx_pool_bytes [OF ok A, of "A - {a}"] z(1) by blast
  show "same_on (E \<union> pool_bytes (pa_fixed_atom_addr (pm_mem pmp) pfp) z (A - {a})) (pm_mem pmp) (pm_mem ?pmp')"
    unfolding pb by (rule same_on_subset [OF f(2) sub])
  show "pa_fixed_atom_addr (pm_mem ?pmp') pfp b = pa_fixed_atom_addr (pm_mem pmp) pfp b" if "b \<in> A - {a}"
    using fx_live_addr(1) [OF f(1) A' that] fx_live_addr(1) [OF ok A, of b] that by simp
qed

lemma fx_pool_write:
  assumes p: "fx_pool pfp z w pmp E A"
    and m: "same_on (- (E \<union> pool_bytes (pa_fixed_atom_addr (pm_mem pmp) pfp) z A)) (pm_mem pmp) m"
  shows "fx_pool pfp z w (pmp\<lparr>pm_mem := m\<rparr>) E A"
    and "b \<in> A \<Longrightarrow> pa_fixed_atom_addr m pfp b = pa_fixed_atom_addr (pm_mem pmp) pfp b"
proof -
  from p obtain S g xs where ok: "fx_ok pmp S pfp g xs" and z: "fx_size g = z" "fx_per g * fx_size g = w"
    and A: "unat ` A = fx_live g xs" and E: "E \<subseteq> owned S"
    "E \<inter> ({pf_infop pfp..<pf_infop pfp + 8} \<union> fx_private pfp g xs \<union> (\<Union>x\<in>fx_live g xs. fx_bytes g x)) = {}"
    by (rule fx_poolE)
  note o = fx_okD [OF ok]
  have pb: "pool_bytes (pa_fixed_atom_addr (pm_mem pmp) pfp) z A = (\<Union>x\<in>fx_live g xs. fx_bytes g x)"
    using fx_pool_bytes [OF ok A subset_refl] A z(1) by simp
  have "E \<union> (\<Union>x\<in>fx_live g xs. fx_bytes g x) \<subseteq> owned S"
    using E(1) fx_live_bytes [OF ok] by blast
  then have "mm_valid (pmp\<lparr>pm_mem := m\<rparr>) S"
    by (rule mm.write_inside [OF o(1) _ m [unfolded pb]])
  moreover have "{pf_infop pfp..<pf_infop pfp + 8} \<inter> (\<Union>x\<in>fx_live g xs. fx_bytes g x) = {}"
  proof -
    have "{pf_infop pfp..<pf_infop pfp + 8} \<subseteq> {pf_infop pfp..<pf_infop pfp + 16}" by auto
    moreover have "fx_bytes g x \<inter> header_bytes = {}" if "x \<in> fx_live g xs" for x
      using that by (intro fx_bytes_header [OF o(1,3,5)]) (auto simp: fx_live_def)
    ultimately show ?thesis using o(2) by blast
  qed
  then have "same_on ({pf_infop pfp..<pf_infop pfp + 8} \<union> fx_private pfp g xs) (pm_mem pmp) m"
    using E(2) fx_live_bytes [OF ok] unfolding pb [symmetric]
    by (intro same_on_subset [OF m]) (use pb in blast)
  ultimately have ok': "fx_ok (pmp\<lparr>pm_mem := m\<rparr>) S pfp g xs"
    by (intro fx_ok_frame [OF ok]) simp_all
  show "fx_pool pfp z w (pmp\<lparr>pm_mem := m\<rparr>) E A" by (rule fx_poolI [OF ok' z A E])
  show "pa_fixed_atom_addr m pfp b = pa_fixed_atom_addr (pm_mem pmp) pfp b" if "b \<in> A"
    using fx_live_addr(1) [OF ok' A that] fx_live_addr(1) [OF ok A that] by simp
qed

lemma fx_pool_live:
  assumes p: "fx_pool pfp z w pmp E A"
  shows "a \<in> A \<Longrightarrow> \<exists>p. pa_fixed_atom_addr (pm_mem pmp) pfp a = Some p \<and> {p..<p + z} \<inter> E = {}"
    and "0 \<notin> A"
    and "a \<in> A \<Longrightarrow> b \<in> A \<Longrightarrow> a \<noteq> b \<Longrightarrow> pa_fixed_atom_addr (pm_mem pmp) pfp a = Some q
      \<Longrightarrow> pa_fixed_atom_addr (pm_mem pmp) pfp b = Some r \<Longrightarrow> q + z \<le> r \<or> r + z \<le> q"
proof -
  from p obtain S g xs where ok: "fx_ok pmp S pfp g xs" and z: "fx_size g = z" "fx_per g * fx_size g = w"
    and A: "unat ` A = fx_live g xs" and E: "E \<subseteq> owned S"
    "E \<inter> ({pf_infop pfp..<pf_infop pfp + 8} \<union> fx_private pfp g xs \<union> (\<Union>x\<in>fx_live g xs. fx_bytes g x)) = {}"
    by (rule fx_poolE)
  note o = fx_okD [OF ok]
  note addr = fx_live_addr [OF ok A]
  show "0 \<notin> A" using addr(2) by blast
  show "\<exists>p. pa_fixed_atom_addr (pm_mem pmp) pfp a = Some p \<and> {p..<p + z} \<inter> E = {}" if "a \<in> A"
  proof -
    have "fx_bytes g (unat a) \<inter> E = {}" using E(2) A that by blast
    then show ?thesis using addr(1) [OF that] z(1) by (auto simp: fx_bytes_def)
  qed
  show "q + z \<le> r \<or> r + z \<le> q"
    if "a \<in> A" "b \<in> A" "a \<noteq> b" "pa_fixed_atom_addr (pm_mem pmp) pfp a = Some q"
      "pa_fixed_atom_addr (pm_mem pmp) pfp b = Some r"
  proof -
    have "fx_bytes g (unat a) \<inter> fx_bytes g (unat b) = {}"
      using that addr(3) by (intro fx_bytes_disjoint [OF o(1,3,5)]) (auto simp: word_unat_eq_iff)
    then have d: "{q..<q + z} \<inter> {r..<r + z} = {}"
      using that addr(1) z(1) by (simp add: fx_bytes_def)
    have "4 \<le> z" using fx_geoD(3) [OF o(3)] z(1) by simp
    with d show ?thesis by (cases "q \<le> r") auto
  qed
qed

text \<open>The paged array of the code provides the interface.\<close>

interpretation fxp: atom_pool "\<lambda>pmp. pa_fixed_alloc_atom os pmp pfp" "\<lambda>pmp a. pa_fixed_free_atom pmp pfp a"
    "\<lambda>pmp. pa_fixed_atom_addr (pm_mem pmp) pfp" pm_mem "\<lambda>pmp m. pmp\<lparr>pm_mem := m\<rparr>"
    "fx_pool pfp z w" z "\<lambda>pmp. mm_room pmp w"
  for os pfp z w
proof (unfold_locales, goal_cases)
  case (1 s E A)
  then show ?case by (rule fx_pool_alloc)
next
  case (2 s E A a)
  then show ?case by (rule fx_pool_live(1))
next
  case (3 s E A)
  then show ?case by (rule fx_pool_live(2))
next
  case (4 s E A a b p q)
  then show ?case by (rule fx_pool_live(3))
next
  case (5 s E A a)
  then show ?case using fx_pool_free [OF 5] by blast
next
  case (6 s E A m)
  then show ?case using fx_pool_write [OF 6] by simp
qed simp

end
