(* ===== verification/Pafixed_Props.thy ===== *)
theory Pafixed_Props
  imports Pafixed_Iface Pasegment_Props
begin

text \<open>
  The properties of the paged array (\<^verbatim>\<open>parrotdb/pafixed.c\<close>, \<^verbatim>\<open>pafixed.h\<close>), each applied to an array
  in the concrete segment.
\<close>

section \<open>A concrete array\<close>

text \<open>Atoms of 16 bytes in pages of 16 atoms, 625 pages, the info block at offset 200.\<close>

definition demo_g :: fx where
  "demo_g = fx_new 4 16 10000 30"

definition demo_fixed :: pa_fixed where
  "demo_fixed = \<lparr>pf_infop = 200, pf_base = Some (fx_base demo_g)\<rparr>"

definition demo_fseg :: pa_mmap where
  "demo_fseg = demo_seg2\<lparr>pm_mem := fx_init_mem (pm_mem demo_seg2) 200 demo_g 4\<rparr>"

lemma demo_g_fields: "fx_shift demo_g = 4" "fx_size demo_g = 16" "fx_npages demo_g = 625"
    "fx_table demo_g = 30" "fx_pages demo_g = []" "fx_per demo_g = 16" "fx_base demo_g = 122880"
  by (simp_all add: demo_g_def fx_new_def fx_round4_def fx_per_def fx_base_def)

lemma demo_params: "fx_params 4 16 10000" "no_config [] ''db''" "{200..<200 + 16} \<subseteq> header_bytes"
  by (simp_all add: fx_params_def fx_round4_def no_config_def pa_config_value_internal_def) (auto simp: header_bytes_def)

lemma demo_valid: "mm_valid demo_seg {}" "mm_valid demo_seg2 {(30, 2)}"
  using demo_wf demo_wf2 unfolding mm_valid_def by force+

lemma demo_fx_ok: "fx_ok demo_fseg {(30, 2)} demo_fixed demo_g []"
proof -
  have c: "word_of_nat (pa_count (fx_npages demo_g * 8)) = (2 :: u32)"
    by (simp add: demo_g_fields pa_count_def)
  have "fx_ok (demo_seg2\<lparr>pm_mem := fx_init_mem (pm_mem demo_seg2) 200 demo_g 4\<rparr>)
      (insert (30, word_of_nat (pa_count (fx_npages demo_g * 8))) {})
      \<lparr>pf_infop = 200, pf_base = Some (fx_base demo_g)\<rparr> demo_g []"
    by (rule fx_new_ok(1))
      (use demo_valid(2) demo_params fx_new_geo [OF demo_params(1), of 30] in
        \<open>simp_all add: c demo_g_fields pa_count_def\<close>, simp_all add: demo_g_def)
  then show ?thesis by (simp add: c demo_fseg_def demo_fixed_def)
qed

lemma demo_fx_live: "fx_live demo_g [] = {}"
  by (simp add: fx_live_def fx_used_def demo_g_fields)

lemma demo_pool: "fx_pool demo_fixed 16 256 demo_fseg {300..<400} {}"
proof (rule fx_poolI [OF demo_fx_ok])
  show "{300..<400} \<subseteq> owned {(30, 2)}" by (auto simp: owned_def header_bytes_def)
  show "{300..<400} \<inter> ({pf_infop demo_fixed..<pf_infop demo_fixed + 8} \<union> fx_private demo_fixed demo_g []
      \<union> (\<Union>x\<in>fx_live demo_g []. fx_bytes demo_g x)) = {}"
    by (auto simp: demo_fx_live fx_private_def fx_table_bytes_def demo_g_fields demo_fixed_def pf_free_at_def)
qed (simp_all add: demo_g_fields demo_fx_live)

lemma demo_fseg_len: "pm_len demo_fseg = 131072"
  by (simp add: demo_fseg_def demo_len)

lemma demo_room: "mm_room demo_fseg 256"
  by (simp add: mm_room_def demo_fseg_len)

lemma demo_fseg_alloc: "\<exists>pmp. pa_mmap_alloc demo_os demo_fseg 256 = Some (pmp, 29)"
proof -
  have same: "same_on {0..<200} (pm_mem demo_seg2) (pm_mem demo_fseg)" "same_on {4096..<8192} (pm_mem demo_seg2) (pm_mem demo_fseg)"
    by (auto simp: demo_fseg_def demo_g_fields intro!: same_onI fx_init_mem_outside)
  have "rd32 (pm_mem demo_fseg) 24 = rd32 (pm_mem demo_seg2) 24" "rd32 (pm_mem demo_fseg) 4100 = rd32 (pm_mem demo_seg2) 4100"
    by (rule same_on_rd32 [OF same(1)], auto) (rule same_on_rd32 [OF same(2)], auto)
  then have "rd32 (pm_mem demo_fseg) 24 = 1" "rd32 (pm_mem demo_fseg) 4100 = 29"
    by (simp_all add: demo_seg2_def mem_simps demo_reads)
  then show ?thesis
    by (simp add: pa_mmap_alloc_def pa_mmap_alloc_scan.simps [of _ _ 24] pmi_free_at_def pmf_size_def
        demo_page PA_MMAP_ATOM_SIZE_def Let_def)
qed

lemma demo_first_atom:
  "\<exists>pmp a. pa_fixed_alloc_atom demo_os demo_fseg demo_fixed = Some (pmp, a) \<and> a \<noteq> 0
     \<and> fx_pool demo_fixed 16 256 pmp {300..<400} {a}"
proof -
  have room: "mm_room demo_fseg (fx_per demo_g * fx_size demo_g)" by (simp add: demo_g_fields demo_room)
  from pa_fixed_alloc_atom_ok [OF demo_fx_ok room, of demo_os] demo_fseg_alloc
  have "pa_fixed_alloc_atom demo_os demo_fseg demo_fixed \<noteq> Some (demo_fseg, 0)"
    by (auto simp: demo_g_fields fx_got_def)
  with fx_pool_alloc [OF demo_pool demo_room, of demo_os] show ?thesis by blast
qed

section \<open>Properties\<close>

text \<open>C12. Setting up a paged array on a segment either finds no memory and changes
  nothing, or yields an array with no atom in use that leaves every other owned byte alone.\<close>

theorem pa_fixed_init_empty:
  assumes "no_config vars name" "fx_params shift atom_size max_atoms" "mm_valid pmp S"
    and "{info..<info + 16} \<subseteq> header_bytes"
    and "mm_room pmp (fx_npages (fx_new shift atom_size max_atoms 0) * 8)"
  shows "\<exists>pmp' pfp. pa_fixed_init os vars pmp \<lparr>pf_infop = info, pf_base = None\<rparr> name shift atom_size max_atoms
      = Some (pmp', pfp)
    \<and> (pf_base pfp = None \<and> pmp' = pmp
       \<or> (let z = fx_round4 (unat atom_size); E = owned S - {info..<info + 16} in
          fx_pool pfp z (2 ^ unat shift * z) pmp' E {} \<and> same_on E (pm_mem pmp) (pm_mem pmp')))"
  using pa_fixed_init_ok [OF assms, of os]
proof (elim disjE exE conjE)
  fix pmp' pfp S' T
  let ?g = "fx_new shift atom_size max_atoms T" and ?E = "owned S - {info..<info + 16}"
  assume init: "pa_fixed_init os vars pmp \<lparr>pf_infop = info, pf_base = None\<rparr> name shift atom_size max_atoms
      = Some (pmp', pfp)" and i: "pf_infop pfp = info"
    and ok: "fx_ok pmp' S' pfp ?g []" and S: "S \<subseteq> S'"
    and same: "same_on ?E (pm_mem pmp) (pm_mem pmp')" and tab: "fx_table_bytes ?g \<inter> owned S = {}"
  have live: "fx_live ?g [] = {}" by (simp add: fx_live_def fx_used_def fx_new_def)
  have sub: "{info..<info + 8} \<subseteq> {info..<info + 16}" "{pf_free_at pfp..<pf_free_at pfp + 4} \<subseteq> {info..<info + 16}"
    using i by (auto simp: pf_free_at_def)
  have "fx_pool pfp (fx_round4 (unat atom_size)) (2 ^ unat shift * fx_round4 (unat atom_size)) pmp' ?E {}"
  proof (rule fx_poolI [OF ok])
    show "?E \<subseteq> owned S'" using S by (auto simp: owned_def)
    show "?E \<inter> ({pf_infop pfp..<pf_infop pfp + 8} \<union> fx_private pfp ?g [] \<union> (\<Union>x\<in>fx_live ?g []. fx_bytes ?g x)) = {}"
      using tab sub unfolding live i fx_private_def by auto
    show "unat ` {} = fx_live ?g []" by (simp add: live)
  qed (simp_all add: fx_new_def fx_per_def)
  with init same show ?thesis by (auto simp: Let_def)
qed auto

theorem pa_fixed_init_empty_witness:
  "\<exists>pmp' pfp. pa_fixed_init demo_os [] demo_seg \<lparr>pf_infop = 200, pf_base = None\<rparr> ''db'' 4 16 10000 = Some (pmp', pfp)
    \<and> (pf_base pfp = None \<and> pmp' = demo_seg
       \<or> (let z = fx_round4 (unat (16 :: u16)); E = owned {} - {200..<200 + 16} in
          fx_pool pfp z (2 ^ unat (4 :: u8) * z) pmp' E {} \<and> same_on E (pm_mem demo_seg) (pm_mem pmp')))"
  by (rule pa_fixed_init_empty [OF demo_params(2,1) demo_valid(1) demo_params(3)])
    (simp add: mm_room_def demo_len fx_new_def)

text \<open>C7. An allocation from a paged array returns; unless the answer is the null atom,
  and then nothing changes, the atom is a new one whose bytes overlap no atom in use and no byte
  the client keeps elsewhere, and neither those bytes nor the addresses of the atoms in use change.\<close>

theorem pa_fixed_alloc_fresh:
  assumes "fx_pool pfp z w pmp E A" and "mm_room pmp w"
  shows "\<exists>pmp' a. pa_fixed_alloc_atom os pmp pfp = Some (pmp', a)
    \<and> (a = 0 \<and> pmp' = pmp
       \<or> a \<notin> insert 0 A \<and> fx_pool pfp z w pmp' E (insert a A)
         \<and> (\<exists>p. pa_fixed_atom_addr (pm_mem pmp') pfp a = Some p
              \<and> {p..<p + z} \<inter> (E \<union> pool_bytes (pa_fixed_atom_addr (pm_mem pmp) pfp) z A) = {})
         \<and> same_on (E \<union> pool_bytes (pa_fixed_atom_addr (pm_mem pmp) pfp) z A) (pm_mem pmp) (pm_mem pmp')
         \<and> (\<forall>b\<in>A. pa_fixed_atom_addr (pm_mem pmp') pfp b = pa_fixed_atom_addr (pm_mem pmp) pfp b))"
  using fx_pool_alloc [OF assms, of os]
proof (elim disjE exE conjE)
  fix pmp' a
  assume al: "pa_fixed_alloc_atom os pmp pfp = Some (pmp', a)" "a \<noteq> 0" "a \<notin> A"
    and pool: "fx_pool pfp z w pmp' E (insert a A)"
    and rest: "same_on (E \<union> pool_bytes (pa_fixed_atom_addr (pm_mem pmp) pfp) z A) (pm_mem pmp) (pm_mem pmp')"
      "\<forall>b\<in>A. pa_fixed_atom_addr (pm_mem pmp') pfp b = pa_fixed_atom_addr (pm_mem pmp) pfp b"
  from fxp.live [OF pool, of a] obtain p where p: "pa_fixed_atom_addr (pm_mem pmp') pfp a = Some p"
    "{p..<p + z} \<inter> E = {}" by auto
  have "{p..<p + z} \<inter> pool_bytes (pa_fixed_atom_addr (pm_mem pmp) pfp) z A = {}"
    using fxp.apart [OF pool, of a _ p] p(1) rest(2) al(3) by (fastforce simp: pool_bytes_def)
  with al pool rest p show ?thesis by blast
qed auto

theorem pa_fixed_alloc_fresh_witness:
  "\<exists>pmp' a. pa_fixed_alloc_atom demo_os demo_fseg demo_fixed = Some (pmp', a)
    \<and> (a = 0 \<and> pmp' = demo_fseg \<or> fx_pool demo_fixed 16 256 pmp' {300..<400} {a})"
  using pa_fixed_alloc_fresh [OF demo_pool demo_room, of demo_os] by blast

text \<open>C8. Freeing an atom and allocating again gives the same atom back, without asking
  the segment for memory: the pool is as before, the other atoms and the bytes elsewhere keep their
  contents, and with \<^verbatim>\<open>PFF_INIT_ZERO\<close> the atom comes back cleared.\<close>

theorem pa_fixed_free_alloc:
  assumes "fx_pool pfp z w pmp E A" and "a \<in> A"
  shows "\<exists>pmp'. pa_fixed_alloc_atom os (pa_fixed_free_atom pmp pfp a) pfp = Some (pmp', a)
    \<and> fx_pool pfp z w pmp' E A
    \<and> same_on (E \<union> pool_bytes (pa_fixed_atom_addr (pm_mem pmp) pfp) z (A - {a})) (pm_mem pmp) (pm_mem pmp')
    \<and> (pa_fixed_test_flags (pm_mem pmp) pfp PFF_INIT_ZERO \<longrightarrow>
        (\<forall>p. pa_fixed_atom_addr (pm_mem pmp) pfp a = Some p \<longrightarrow> (\<forall>x\<in>{p..<p + z}. pm_mem pmp' x = 0)))"
proof -
  from assms(1) obtain S g xs where ok: "fx_ok pmp S pfp g xs" and z: "fx_size g = z" "fx_per g * fx_size g = w"
    and A: "unat ` A = fx_live g xs" and E: "E \<subseteq> owned S"
    "E \<inter> ({pf_infop pfp..<pf_infop pfp + 8} \<union> fx_private pfp g xs \<union> (\<Union>x\<in>fx_live g xs. fx_bytes g x)) = {}"
    by (rule fx_poolE)
  have a: "unat a \<in> fx_live g xs" using A assms(2) by blast
  let ?f = "pa_fixed_free_atom pmp pfp a"
  let ?B = "E \<union> pool_bytes (pa_fixed_atom_addr (pm_mem pmp) pfp) z (A - {a})"
  note fr = pa_fixed_free_atom_ok [OF ok a] and pf = fx_pool_free [OF assms]
  from pa_fixed_alloc_atom_pop [OF fr(1), of os] obtain pmp' b where
    al: "pa_fixed_alloc_atom os ?f pfp = Some (pmp', b)" "unat b = unat a" and ok': "fx_ok pmp' S pfp g xs"
    and got: "fx_got ?f S pfp g (unat a # xs) pmp' b"
    and zero: "pf_flags (pm_mem ?f) pfp AND PFF_INIT_ZERO \<noteq> 0 \<longrightarrow> (\<forall>y\<in>fx_bytes g (unat a). pm_mem pmp' y = 0)"
    by blast
  have b: "b = a" using al(2) by (simp add: word_unat_eq_iff)
  note addr = fx_live_addr(1) [OF ok A assms(2)]
  have "?B \<subseteq> owned S - fx_private pfp g (unat a # xs)"
  proof -
    have A': "unat ` (A - {a}) \<subseteq> fx_live g (unat a # xs)"
      using A by (auto simp: fx_live_def simp flip: word_unat_eq_iff)
    have "(\<Union>x\<in>unat ` (A - {a}). fx_bytes g x) \<subseteq> owned S - fx_private pfp g (unat a # xs)"
      using fx_live_bytes [OF fr(1)] A' by blast
    moreover have "E \<subseteq> owned S - fx_private pfp g (unat a # xs)"
      using E a by (fastforce simp: fx_private_def)
    moreover have "pool_bytes (pa_fixed_atom_addr (pm_mem pmp) pfp) z (A - {a}) = (\<Union>x\<in>unat ` (A - {a}). fx_bytes g x)"
      using fx_pool_bytes [OF ok A, of "A - {a}"] z(1) by blast
    ultimately show ?thesis by simp
  qed
  then have "same_on ?B (pm_mem ?f) (pm_mem pmp')"
    using got unfolding fx_got_def by (blast intro: same_on_subset)
  with pf(2) have "same_on ?B (pm_mem pmp) (pm_mem pmp')" by (rule same_on_trans)
  moreover have "pm_mem pmp' x = 0" if "pa_fixed_test_flags (pm_mem pmp) pfp PFF_INIT_ZERO" "x \<in> fx_bytes g (unat a)" for x
  proof -
    have "pf_infop pfp + 1 \<in> {pf_infop pfp..<pf_infop pfp + 16}" by simp
    then have "pf_infop pfp + 1 \<in> header_bytes" using fx_okD(2) [OF ok] by blast
    moreover have "unat a < fx_used g" using a by (simp add: fx_live_def)
    ultimately have "pf_infop pfp + 1 \<notin> fx_bytes g (unat a)"
      using fx_bytes_header [OF fx_okD(1,3,5) [OF ok]] by blast
    moreover have "pf_infop pfp + 1 \<notin> {pf_free_at pfp..<pf_free_at pfp + 4}" by (simp add: pf_free_at_def)
    ultimately have "pf_flags (pm_mem ?f) pfp = pf_flags (pm_mem pmp) pfp"
      unfolding pf_flags_def by (intro same_onD [OF fr(2)]) blast
    with that zero show ?thesis by (simp add: pa_fixed_test_flags_def)
  qed
  ultimately show ?thesis
    using al(1) b fx_poolI [OF ok' z A E] addr z(1) by (auto simp: fx_bytes_def)
qed

theorem pa_fixed_free_alloc_witness:
  "\<exists>pmp a pmp'. pa_fixed_alloc_atom demo_os demo_fseg demo_fixed = Some (pmp, a) \<and> a \<noteq> 0
     \<and> pa_fixed_alloc_atom demo_os (pa_fixed_free_atom pmp demo_fixed a) demo_fixed = Some (pmp', a)
     \<and> fx_pool demo_fixed 16 256 pmp' {300..<400} {a}"
proof -
  from demo_first_atom obtain pmp a where
    "pa_fixed_alloc_atom demo_os demo_fseg demo_fixed = Some (pmp, a)" "a \<noteq> 0"
    and p: "fx_pool demo_fixed 16 256 pmp {300..<400} {a}" by blast
  with pa_fixed_free_alloc [OF p, of a demo_os] show ?thesis by blast
qed

lemma fx_pool_exhausted:
  assumes "fx_pool pfp z w pmp E A" and "mm_room pmp w"
    and "pa_fixed_alloc_atom os pmp pfp = Some (pmp', 0)"
  shows "pmp' = pmp \<and> (unat ` A = {1..<unat (pa_fixed_max_atoms (pm_mem pmp) pfp)}
    \<or> pa_mmap_alloc os pmp w = Some (pmp, 0))"
proof -
  from assms(1) obtain S g xs where ok: "fx_ok pmp S pfp g xs" and z: "fx_size g = z" "fx_per g * fx_size g = w"
    and A: "unat ` A = fx_live g xs" by (rule fx_poolE)
  have mx: "unat (pa_fixed_max_atoms (pm_mem pmp) pfp) = fx_npages g * fx_per g"
    using fx_okD(4) [OF ok] by (simp add: fx_fields_def pa_fixed_max_atoms_def)
  from pa_fixed_alloc_atom_ok [OF ok, of os] assms(2,3) z(2)
  have "pmp' = pmp" "xs = []" "length (fx_pages g) = fx_npages g \<or> pa_mmap_alloc os pmp w = Some (pmp, 0)"
    by (auto simp: fx_got_def)
  with A mx show ?thesis by (auto simp: fx_live_def fx_used_def)
qed

text \<open>C9. An allocation answers the null atom only when every atom number below the
  configured maximum is in use, number 0 apart, or when the segment has no page left to give.\<close>

theorem pa_fixed_exhausted:
  assumes "fx_pool pfp z w pmp E A" and "mm_room pmp w"
    and "pa_fixed_alloc_atom os pmp pfp = Some (pmp', 0)"
  shows "pmp' = pmp \<and> (unat ` A = {1..<unat (pa_fixed_max_atoms (pm_mem pmp) pfp)}
    \<or> pa_mmap_alloc os pmp w = Some (pmp, 0))"
  by (rule fx_pool_exhausted [OF assms])

text \<open>An array whose page table takes the whole segment, on a system that gives no more memory.\<close>

definition demo_poor :: pa_os where
  "demo_poor = \<lparr>os_ftruncate = (\<lambda>n. False), os_mmap = (\<lambda>a n. MapFailed), os_calloc = True\<rparr>"

definition demo_full :: pa_mmap where
  "demo_full = demo_seg\<lparr>pm_mem := wr32 (pm_mem demo_seg) 24 0\<rparr>"

definition demo_h :: fx where
  "demo_h = fx_new 4 16 248000 1"

definition demo_hfixed :: pa_fixed where
  "demo_hfixed = \<lparr>pf_infop = 200, pf_base = Some (fx_base demo_h)\<rparr>"

definition demo_hseg :: pa_mmap where
  "demo_hseg = demo_full\<lparr>pm_mem := fx_init_mem (pm_mem demo_full) 200 demo_h 4\<rparr>"

lemma demo_h_fields: "fx_shift demo_h = 4" "fx_size demo_h = 16" "fx_npages demo_h = 15500"
    "fx_table demo_h = 1" "fx_pages demo_h = []" "fx_per demo_h = 16" "fx_base demo_h = 4096"
  by (simp_all add: demo_h_def fx_new_def fx_round4_def fx_per_def fx_base_def)

lemma demo_full_valid: "mm_valid demo_full {(1, 31)}"
proof -
  have "mm_wf (demo_seg\<lparr>pm_mem := wr32 (pm_mem demo_seg) (mm_last pmi_free_at []) (pmf_next (pm_mem demo_seg) (pa_page 1))\<rparr>)
      ([] @ []) ((1, 31) # [])"
    by (rule mm_wf_unlink(1)) (simp_all add: demo_wf)
  then have "mm_wf demo_full [] [(1, 31)]"
    by (simp add: demo_full_def pmi_free_at_def pmf_next_def pmf_next_at_def demo_page demo_reads)
  then show ?thesis unfolding mm_valid_def by force
qed

lemma demo_h_ok: "fx_ok demo_hseg {(1, 31)} demo_hfixed demo_h []"
proof -
  have p: "fx_params 4 16 248000" by (simp add: fx_params_def fx_round4_def)
  have c: "word_of_nat (pa_count (fx_npages demo_h * 8)) = (31 :: u32)"
    by (simp add: demo_h_fields pa_count_def)
  have "fx_ok (demo_full\<lparr>pm_mem := fx_init_mem (pm_mem demo_full) 200 demo_h 4\<rparr>)
      (insert (1, word_of_nat (pa_count (fx_npages demo_h * 8))) {})
      \<lparr>pf_infop = 200, pf_base = Some (fx_base demo_h)\<rparr> demo_h []"
    by (rule fx_new_ok(1))
      (use demo_full_valid demo_params fx_new_geo [OF p, of 1] in
        \<open>simp_all add: c demo_h_fields pa_count_def\<close>, simp_all add: demo_h_def)
  then show ?thesis by (simp add: c demo_hseg_def demo_hfixed_def)
qed

lemma demo_h_live: "fx_live demo_h [] = {}"
  by (simp add: fx_live_def fx_used_def demo_h_fields)

lemma demo_h_pool: "fx_pool demo_hfixed 16 256 demo_hseg {} {}"
  by (rule fx_poolI [OF demo_h_ok]) (simp_all add: demo_h_fields demo_h_live)

lemma demo_h_refused: "pa_mmap_alloc demo_poor demo_hseg 256 = Some (demo_hseg, 0)"
proof -
  have same: "same_on {0..<200} (pm_mem demo_full) (pm_mem demo_hseg)"
    by (auto simp: demo_hseg_def demo_h_fields intro!: same_onI fx_init_mem_outside)
  have "rd32 (pm_mem demo_hseg) 24 = rd32 (pm_mem demo_full) 24" by (rule same_on_rd32 [OF same]) auto
  moreover have "rd32 (pm_mem demo_hseg) 4 = rd32 (pm_mem demo_full) 4" by (rule same_on_rd32 [OF same]) auto
  moreover have "rd32 (pm_mem demo_seg) 4 = 0"
    using create_header_reads(7) [of "\<lambda>_. 0" 131072 0] by (simp add: demo_seg_def)
  ultimately have "rd32 (pm_mem demo_hseg) 24 = 0" "pmi_max_size (pm_mem demo_hseg) = 0"
    by (simp_all add: demo_full_def mem_simps pmi_max_size_def)
  then show ?thesis
    by (simp add: pa_mmap_alloc_def pa_mmap_alloc_scan.simps [of _ _ 24] pmi_free_at_def Let_def
        pa_mmap_grow_def demo_poor_def demo_hseg_def demo_full_def demo_seg_def)
qed

lemma demo_h_null: "pa_fixed_alloc_atom demo_poor demo_hseg demo_hfixed = Some (demo_hseg, 0)"
proof (rule pa_fixed_alloc_atom_refused [OF demo_h_ok])
  have "unat (pf_free (pm_mem demo_hseg) demo_hfixed) = 1"
    using fx_okD(7) [OF demo_h_ok] by (simp add: fx_frontier_def demo_h_fields pf_free_def)
  then show "fx_used demo_h \<le> unat (pf_free (pm_mem demo_hseg) demo_hfixed)" "pf_free (pm_mem demo_hseg) demo_hfixed \<noteq> 0"
    by (auto simp: fx_used_def demo_h_fields)
qed (simp add: demo_h_fields demo_h_refused)

theorem pa_fixed_exhausted_witness:
  "unat ` ({} :: u32 set) = {1..<unat (pa_fixed_max_atoms (pm_mem demo_hseg) demo_hfixed)}
    \<or> pa_mmap_alloc demo_poor demo_hseg 256 = Some (demo_hseg, 0)"
  using pa_fixed_exhausted [OF demo_h_pool _ demo_h_null]
  by (simp add: mm_room_def demo_hseg_def demo_full_def demo_seg_def)

end
