(* ===== verification/Pabitmap_Props.thy ===== *)
theory Pabitmap_Props
  imports Pabitmap Pafixed_Props
begin

text \<open>
  Bitmaps as sets of numbers. The blocks come from a pool that clears what it hands out, which extends the interface of
  the paged array; over that interface the tables of the chunks and the units of bits are kept apart, so that
  setting or clearing a bit changes one set by one number and no other bitmap.
\<close>

section \<open>A pool of cleared atoms\<close>

locale zero_pool = atom_pool +
  assumes zeroed: "inv s E A \<Longrightarrow> room s \<Longrightarrow> alloc s = Some (s', a) \<Longrightarrow> a \<noteq> 0 \<Longrightarrow> addr s' a = Some p
    \<Longrightarrow> x \<in> {p..<p + z} \<Longrightarrow> mem_of s' x = 0"

definition zx_pool :: "pa_fixed \<Rightarrow> nat \<Rightarrow> nat \<Rightarrow> pa_mmap \<Rightarrow> nat set \<Rightarrow> u32 set \<Rightarrow> bool" where
  "zx_pool pfp z w pmp E A \<longleftrightarrow> fx_pool pfp z w pmp E A \<and> pa_fixed_test_flags (pm_mem pmp) pfp PFF_INIT_ZERO"

text \<open>The flags are in the info block, where neither the pool nor a client writes.\<close>

lemma flags_free: "fx_ok pmp S pfp g xs \<Longrightarrow> pf_infop pfp + 1 \<in> owned S - fx_private pfp g xs"
proof -
  assume ok: "fx_ok pmp S pfp g xs"
  note o = fx_okD [OF ok]
  have "pf_infop pfp + 1 \<in> {pf_infop pfp..<pf_infop pfp + 16}" by simp
  then have h: "pf_infop pfp + 1 \<in> header_bytes" using o(2) by blast
  have "pf_infop pfp + 1 \<notin> fx_bytes g x" if "x \<in> set xs" for x
  proof -
    have "x < fx_used g" using that o(9) by auto
    then show ?thesis using h fx_bytes_header [OF o(1,3,5)] by blast
  qed
  moreover have "pf_infop pfp + 1 \<notin> fx_table_bytes g" using h fx_table_header [OF o(1,3,5)] by blast
  moreover have "pf_infop pfp + 1 \<in> owned S" using h header_owned by blast
  ultimately show ?thesis by (auto simp: fx_private_def pf_free_at_def)
qed

lemma flags_same:
  assumes "fx_ok pmp S pfp g xs" "same_on (owned S - fx_private pfp g xs) (pm_mem pmp) m"
  shows "pa_fixed_test_flags m pfp f = pa_fixed_test_flags (pm_mem pmp) pfp f"
  using same_onD [OF assms(2) flags_free [OF assms(1)]] by (simp add: pa_fixed_test_flags_def pf_flags_def)

lemma zx_pool_alloc:
  assumes p: "zx_pool pfp z w pmp E A" and room: "mm_room pmp w"
    and al: "pa_fixed_alloc_atom os pmp pfp = Some (pmp', a)" "a \<noteq> 0"
  shows "pa_fixed_test_flags (pm_mem pmp') pfp PFF_INIT_ZERO"
    and "pa_fixed_atom_addr (pm_mem pmp') pfp a = Some q \<Longrightarrow> x \<in> {q..<q + z} \<Longrightarrow> pm_mem pmp' x = 0"
proof -
  from p obtain S g xs where ok: "fx_ok pmp S pfp g xs" and z: "fx_size g = z" "fx_per g * fx_size g = w"
    and A: "unat ` A = fx_live g xs" and fl: "pa_fixed_test_flags (pm_mem pmp) pfp PFF_INIT_ZERO"
    unfolding zx_pool_def by (blast elim: fx_poolE)
  from pa_fixed_alloc_atom_ok [OF ok, of os] room z(2) al have got: "fx_got pmp S pfp g xs pmp' a" by auto
  then obtain S' g' xs' where ok': "fx_ok pmp' S' pfp g' xs'" and g': "g' = g \<or> (\<exists>p. g' = fx_grown g p)"
    and live: "fx_live g' xs' = insert (unat a) (fx_live g xs)"
    and same: "same_on (owned S - fx_private pfp g xs) (pm_mem pmp) (pm_mem pmp')"
    and zero: "pf_flags (pm_mem pmp) pfp AND PFF_INIT_ZERO \<noteq> 0 \<longrightarrow> (\<forall>y\<in>fx_bytes g' (unat a). pm_mem pmp' y = 0)"
    unfolding fx_got_def by (elim exE conjE) rule
  show "pa_fixed_test_flags (pm_mem pmp') pfp PFF_INIT_ZERO" using flags_same [OF ok same] fl by simp
  have live': "unat ` insert a A = fx_live g' xs'" using live A by simp
  have "fx_size g' = z" using g' z(1) by auto
  then show "pm_mem pmp' x = 0" if "pa_fixed_atom_addr (pm_mem pmp') pfp a = Some q" "x \<in> {q..<q + z}"
    using that zero fl fx_live_addr(1) [OF ok' live', of a] by (auto simp: pa_fixed_test_flags_def fx_bytes_def)
qed

lemma zx_pool_keeps:
  assumes p: "zx_pool pfp z w pmp E A"
  shows "a \<in> A \<Longrightarrow> pa_fixed_test_flags (pm_mem (pa_fixed_free_atom pmp pfp a)) pfp PFF_INIT_ZERO"
    and "same_on (- (E \<union> pool_bytes (pa_fixed_atom_addr (pm_mem pmp) pfp) z A)) (pm_mem pmp) m
      \<Longrightarrow> pa_fixed_test_flags m pfp PFF_INIT_ZERO"
proof -
  from p obtain S g xs where ok: "fx_ok pmp S pfp g xs" and z: "fx_size g = z"
    and A: "unat ` A = fx_live g xs" and fl: "pa_fixed_test_flags (pm_mem pmp) pfp PFF_INIT_ZERO"
    and E: "E \<inter> ({pf_infop pfp..<pf_infop pfp + 8} \<union> fx_private pfp g xs \<union> (\<Union>x\<in>fx_live g xs. fx_bytes g x)) = {}"
    unfolding zx_pool_def by (blast elim: fx_poolE)
  note o = fx_okD [OF ok]
  have h: "pf_infop pfp + 1 \<in> header_bytes" using o(2) by (auto dest!: subsetD [of _ _ "pf_infop pfp + 1"])
  have out: "pf_infop pfp + 1 \<notin> fx_bytes g x" if "x \<in> fx_live g xs" for x
    using that h fx_bytes_header [OF o(1,3,5), of x] by (auto simp: fx_live_def)
  show "pa_fixed_test_flags (pm_mem (pa_fixed_free_atom pmp pfp a)) pfp PFF_INIT_ZERO" if "a \<in> A"
  proof -
    have a: "unat a \<in> fx_live g xs" using that A by blast
    have "pm_mem (pa_fixed_free_atom pmp pfp a) (pf_infop pfp + 1) = pm_mem pmp (pf_infop pfp + 1)"
      by (rule same_onD [OF pa_fixed_free_atom_ok(2) [OF ok a]]) (use out [OF a] in \<open>simp add: pf_free_at_def\<close>)
    with fl show ?thesis by (simp add: pa_fixed_test_flags_def pf_flags_def)
  qed
  show "pa_fixed_test_flags m pfp PFF_INIT_ZERO"
    if "same_on (- (E \<union> pool_bytes (pa_fixed_atom_addr (pm_mem pmp) pfp) z A)) (pm_mem pmp) m"
  proof -
    have "pool_bytes (pa_fixed_atom_addr (pm_mem pmp) pfp) z A = (\<Union>x\<in>fx_live g xs. fx_bytes g x)"
      using fx_pool_bytes [OF ok A subset_refl] A z by simp
    moreover have "pf_infop pfp + 1 \<notin> E" using E by auto
    ultimately have "m (pf_infop pfp + 1) = pm_mem pmp (pf_infop pfp + 1)"
      using out by (intro same_onD [OF that]) auto
    with fl show ?thesis by (simp add: pa_fixed_test_flags_def pf_flags_def)
  qed
qed

interpretation zxp: zero_pool "\<lambda>pmp. pa_fixed_alloc_atom os pmp pfp" "\<lambda>pmp a. pa_fixed_free_atom pmp pfp a"
    "\<lambda>pmp. pa_fixed_atom_addr (pm_mem pmp) pfp" pm_mem "\<lambda>pmp m. pmp\<lparr>pm_mem := m\<rparr>"
    "zx_pool pfp z w" z "\<lambda>pmp. mm_room pmp w"
  for os pfp z w
proof (unfold_locales, goal_cases)
  case (1 s E A)
  then have p: "fx_pool pfp z w s E A" by (simp add: zx_pool_def)
  show ?case
    using fxp.alloc_total [OF p 1(2), of os] zx_pool_alloc(1) [OF 1, of os] unfolding zx_pool_def by blast
next
  case (2 s E A a)
  then show ?case unfolding zx_pool_def by (blast dest: fxp.live)
next
  case (3 s E A)
  then show ?case unfolding zx_pool_def by (blast dest: fxp.null)
next
  case (4 s E A a b p q)
  then show ?case unfolding zx_pool_def by (blast dest: fxp.apart)
next
  case (5 s E A a)
  then show ?case using fxp.free_ok [of pfp z w s E A a] zx_pool_keeps(1) [OF 5] by (simp add: zx_pool_def)
next
  case (6 s E A m)
  then show ?case using fxp.write_ok [of pfp z w s E A m] zx_pool_keeps(2) [OF 6] by (simp add: zx_pool_def)
next
  case (8 s E A s' a p x)
  then show ?case by (blast intro: zx_pool_alloc(2))
qed simp

section \<open>The blocks of the bitmaps\<close>

text \<open>Entry \<open>k\<close> of the table of a bitmap, unit \<open>u\<close> of a chunk, and the numbers in a bitmap.\<close>

definition bm_chunk :: "(u32 \<Rightarrow> nat option) \<Rightarrow> mem \<Rightarrow> u32 \<Rightarrow> nat \<Rightarrow> u32" where
  "bm_chunk addr m b k = rd32 m (the (addr b) + 4 * k)"

definition bm_unit :: "(u32 \<Rightarrow> nat option) \<Rightarrow> mem \<Rightarrow> u32 \<Rightarrow> nat \<Rightarrow> u32" where
  "bm_unit addr m c u = rd32 m (the (addr c) + 4 * u)"

definition bm_bits :: "(u32 \<Rightarrow> nat option) \<Rightarrow> mem \<Rightarrow> u32 \<Rightarrow> nat set" where
  "bm_bits addr m b = {n. n < 2097152 \<and> bm_chunk addr m b (n div 8192) \<noteq> 0
     \<and> bit (bm_unit addr m (bm_chunk addr m b (n div 8192)) (n div 32 mod 256)) (n mod 32)}"

text \<open>The bitmaps \<open>B\<close> in the atoms \<open>A\<close>: the chunks are other atoms, each in one entry.\<close>

definition bm_ok :: "(u32 \<Rightarrow> nat option) \<Rightarrow> mem \<Rightarrow> u32 set \<Rightarrow> u32 set \<Rightarrow> bool" where
  "bm_ok addr m A B \<longleftrightarrow> B \<subseteq> A
     \<and> (\<forall>b\<in>B. \<forall>k<256. bm_chunk addr m b k = 0 \<or> bm_chunk addr m b k \<in> A - B)
     \<and> (\<forall>b\<in>B. \<forall>k<256. \<forall>b'\<in>B. \<forall>k'<256. bm_chunk addr m b k \<noteq> 0 \<longrightarrow> bm_chunk addr m b k = bm_chunk addr m b' k'
          \<longrightarrow> b = b' \<and> k = k')"

lemma bm_okD:
  assumes "bm_ok addr m A B"
  shows "B \<subseteq> A" "b \<in> B \<Longrightarrow> k < 256 \<Longrightarrow> bm_chunk addr m b k \<noteq> 0 \<Longrightarrow> bm_chunk addr m b k \<in> A - B"
    "b \<in> B \<Longrightarrow> k < 256 \<Longrightarrow> b' \<in> B \<Longrightarrow> k' < 256 \<Longrightarrow> bm_chunk addr m b k \<noteq> 0
      \<Longrightarrow> bm_chunk addr m b k = bm_chunk addr m b' k' \<Longrightarrow> b = b' \<and> k = k'"
  using assms unfolding bm_ok_def by blast+

lemma bm_index: "n < 2097152 \<Longrightarrow> n div 8192 < (256 :: nat)" "n div 32 mod 256 < (256 :: nat)"
  by (simp_all add: div_less_iff_less_mult)

lemma bm_ok_cong:
  assumes "bm_ok addr m A B" "A \<subseteq> A'" "\<And>b k. b \<in> B \<Longrightarrow> k < 256 \<Longrightarrow> bm_chunk addr' m' b k = bm_chunk addr m b k"
  shows "bm_ok addr' m' A' B"
  using assms(1,2) unfolding bm_ok_def by (simp add: assms(3) cong: ball_cong) blast

text \<open>What holds of the bitmaps depends only on the bytes of the blocks.\<close>

lemma bm_frame:
  assumes ok: "bm_ok addr m A B" and addr: "\<And>a. a \<in> A \<Longrightarrow> addr' a = addr a" and sub: "A \<subseteq> A'"
    and m: "\<And>a p. a \<in> A \<Longrightarrow> addr a = Some p \<Longrightarrow> same_on {p..<p + 1024} m m'" and live: "\<And>a. a \<in> A \<Longrightarrow> addr a \<noteq> None"
  shows "bm_ok addr' m' A' B" and "b \<in> B \<Longrightarrow> bm_bits addr' m' b = bm_bits addr m b"
proof -
  have word: "rd32 m' (the (addr' a) + 4 * k) = rd32 m (the (addr a) + 4 * k)" if a: "a \<in> A" and k: "k < 256" for a k
  proof -
    obtain p where p: "addr a = Some p" using live [OF a] by blast
    have "rd32 m' (p + 4 * k) = rd32 m (p + 4 * k)"
      by (rule same_on_rd32 [OF m [OF a p]]) (use k in auto)
    then show ?thesis using addr [OF a] p by simp
  qed
  have chunk: "bm_chunk addr' m' b k = bm_chunk addr m b k" if "b \<in> B" "k < 256" for b k
    using that word [of b k] bm_okD(1) [OF ok] by (auto simp: bm_chunk_def)
  show "bm_ok addr' m' A' B" by (rule bm_ok_cong [OF ok sub chunk])
  have unit: "bm_unit addr' m' c u = bm_unit addr m c u" if "c \<in> A" "u < 256" for c u
    using word [OF that] by (simp add: bm_unit_def)
  show "bm_bits addr' m' b = bm_bits addr m b" if "b \<in> B"
  proof (unfold bm_bits_def, rule Collect_cong)
    fix n
    show "(n < 2097152 \<and> bm_chunk addr' m' b (n div 8192) \<noteq> 0
        \<and> bit (bm_unit addr' m' (bm_chunk addr' m' b (n div 8192)) (n div 32 mod 256)) (n mod 32))
      = (n < 2097152 \<and> bm_chunk addr m b (n div 8192) \<noteq> 0
        \<and> bit (bm_unit addr m (bm_chunk addr m b (n div 8192)) (n div 32 mod 256)) (n mod 32))"
    proof (cases "n < 2097152 \<and> bm_chunk addr m b (n div 8192) \<noteq> 0")
      case True
      then have "bm_chunk addr m b (n div 8192) \<in> A"
        using bm_okD(2) [OF ok that] bm_index(1) [of n] by blast
      with True show ?thesis using chunk [OF that] unit bm_index [of n] by simp
    next
      case False
      then show ?thesis using chunk [OF that] bm_index(1) [of n] by auto
    qed
  qed
qed

text \<open>Changing one unit of a chunk, or one entry of a table.\<close>

lemma bm_pos:
  assumes "u < 256"
  shows "n div 8192 = k \<and> n div 32 mod 256 = u \<longleftrightarrow> n div 32 = k * 256 + (u :: nat)"
proof -
  have "n div 8192 = n div 32 div 256" by (simp add: div_mult2_eq [symmetric])
  moreover have "x div 256 = k \<and> x mod 256 = u \<longleftrightarrow> x = k * 256 + u" for x :: nat
    using assms div_mult_mod_eq [of x 256] by auto
  ultimately show ?thesis by simp
qed

lemma bits_unit:
  assumes ok: "bm_ok addr m A B" and b: "b \<in> B" "k < 256" "bm_chunk addr m b k = c" "c \<noteq> 0" and u: "u < 256"
    and chunk: "\<And>b k. b \<in> B \<Longrightarrow> k < 256 \<Longrightarrow> bm_chunk addr' m' b k = bm_chunk addr m b k"
    and unit: "\<And>a j. a \<in> A - B \<Longrightarrow> j < 256 \<Longrightarrow> bm_unit addr' m' a j = (if a = c \<and> j = u then v else bm_unit addr m a j)"
  shows "bm_bits addr' m' b = {n \<in> bm_bits addr m b. n div 32 \<noteq> k * 256 + u} \<union> {n. n div 32 = k * 256 + u \<and> bit v (n mod 32)}"
    and "b' \<in> B \<Longrightarrow> b' \<noteq> b \<Longrightarrow> bm_bits addr' m' b' = bm_bits addr m b'"
proof -
  have in_chunk: "(n < 2097152 \<and> bm_chunk addr' m' d (n div 8192) \<noteq> 0
        \<and> bit (bm_unit addr' m' (bm_chunk addr' m' d (n div 8192)) (n div 32 mod 256)) (n mod 32))
      = (n < 2097152 \<and> bm_chunk addr m d (n div 8192) \<noteq> 0
        \<and> bit (if bm_chunk addr m d (n div 8192) = c \<and> n div 32 mod 256 = u then v
            else bm_unit addr m (bm_chunk addr m d (n div 8192)) (n div 32 mod 256)) (n mod 32))"
    if d: "d \<in> B" for d n
  proof (cases "n < 2097152 \<and> bm_chunk addr m d (n div 8192) \<noteq> 0")
    case True
    then show ?thesis using chunk [OF d] unit bm_okD(2) [OF ok d] bm_index [of n] by simp
  next
    case False
    then show ?thesis using chunk [OF d] bm_index(1) [of n] by auto
  qed
  have here: "bm_chunk addr m d (n div 8192) = c \<longleftrightarrow> d = b \<and> n div 8192 = k" if n: "n < 2097152" and d: "d \<in> B" for n d
  proof
    assume "bm_chunk addr m d (n div 8192) = c"
    then have "bm_chunk addr m b k = bm_chunk addr m d (n div 8192)" "bm_chunk addr m b k \<noteq> 0" using b(3,4) by simp_all
    from bm_okD(3) [OF ok b(1,2) d bm_index(1) [OF n] this(2,1)] show "d = b \<and> n div 8192 = k" by simp
  next
    assume "d = b \<and> n div 8192 = k"
    with b(3) show "bm_chunk addr m d (n div 8192) = c" by blast
  qed
  have idx: "n div 8192 = k \<and> n div 32 mod 256 = u \<longleftrightarrow> n div 32 = k * 256 + u" for n :: nat
    using bm_pos [OF u] .
  have low: "n div 32 = k * 256 + u \<Longrightarrow> n < 2097152" for n :: nat
  proof -
    assume "n div 32 = k * 256 + u"
    then have "n div 32 < 65536" using b(2) u by simp
    then show "n < 2097152" by (simp add: div_less_iff_less_mult)
  qed
  have "n \<in> bm_bits addr' m' b \<longleftrightarrow> n \<in> {n \<in> bm_bits addr m b. n div 32 \<noteq> k * 256 + u} \<union> {n. n div 32 = k * 256 + u \<and> bit v (n mod 32)}" for n
  proof (cases "n div 32 = k * 256 + u")
    case True
    then have p: "n div 8192 = k" "n div 32 mod 256 = u" using idx by blast+
    have "n \<in> bm_bits addr' m' b \<longleftrightarrow> bit v (n mod 32)"
      unfolding bm_bits_def mem_Collect_eq in_chunk [OF b(1)] p using b(3,4) low [OF True] by simp
    with True show ?thesis by simp
  next
    case False
    then have "\<not> (n div 8192 = k \<and> n div 32 mod 256 = u)" using idx by blast
    then have "n \<in> bm_bits addr' m' b \<longleftrightarrow> n \<in> bm_bits addr m b"
      unfolding bm_bits_def mem_Collect_eq in_chunk [OF b(1)] using here [OF _ b(1), of n] by auto
    with False show ?thesis by simp
  qed
  then show "bm_bits addr' m' b = {n \<in> bm_bits addr m b. n div 32 \<noteq> k * 256 + u} \<union> {n. n div 32 = k * 256 + u \<and> bit v (n mod 32)}"
    by blast
  show "bm_bits addr' m' b' = bm_bits addr m b'" if "b' \<in> B" "b' \<noteq> b"
    unfolding bm_bits_def in_chunk [OF that(1)] using here [OF _ that(1)] that(2) by auto
qed

text \<open>Over the interface: a write of one unit, a new chunk in a table, and a new table.\<close>

context zero_pool begin

lemma atom_at: "inv s E A \<Longrightarrow> a \<in> A \<Longrightarrow> \<exists>p. addr s a = Some p"
  using live by blast

lemma put_word:
  fixes v :: u32
  assumes inv: "inv s E A" "z = 1024" and c: "c \<in> A" "u < 256"
  defines "m' \<equiv> wr32 (mem_of s) (the (addr s c) + 4 * u) v"
  shows "inv (put_mem s m') E A" "\<forall>b\<in>A. addr (put_mem s m') b = addr s b" "same_on E (mem_of s) m'"
    and "a \<in> A \<Longrightarrow> j < 256 \<Longrightarrow> rd32 m' (the (addr (put_mem s m') a) + 4 * j)
      = (if a = c \<and> j = u then v else rd32 (mem_of s) (the (addr s a) + 4 * j))"
proof -
  obtain p where p: "addr s c = Some p" using atom_at [OF inv(1) c(1)] by blast
  have "same_on (- {p..<p + z}) (mem_of s) m'"
    unfolding m'_def using c(2) inv(2) p by (intro same_onI wr32_outside) auto
  note t = touch [OF inv(1) c(1) p this]
  show "inv (put_mem s m') E A" "same_on E (mem_of s) m'" by (fact t)+
  show addr: "\<forall>b\<in>A. addr (put_mem s m') b = addr s b" by (fact t)
  show "rd32 m' (the (addr (put_mem s m') a) + 4 * j)
      = (if a = c \<and> j = u then v else rd32 (mem_of s) (the (addr s a) + 4 * j))" if a: "a \<in> A" "j < 256"
  proof (cases "a = c")
    case True
    then show ?thesis using addr a c(2) p by (cases j u rule: linorder_cases) (auto simp: m'_def rd32_wr32_other)
  next
    case False
    obtain q where q: "addr s a = Some q" using atom_at [OF inv(1) a(1)] by blast
    have "rd32 m' (q + 4 * j) = rd32 (mem_of s) (q + 4 * j)"
      by (rule same_on_rd32 [OF t(4) [OF a(1) False q]]) (use a(2) inv(2) in auto)
    with False addr a(1) q show ?thesis by simp
  qed
qed

lemma put_unit:
  fixes v :: u32
  assumes inv: "inv s E A" "z = 1024" and ok: "bm_ok (addr s) (mem_of s) A B"
    and b: "b \<in> B" "k < 256" "bm_chunk (addr s) (mem_of s) b k = c" "c \<noteq> 0" and u: "u < 256"
  defines "m' \<equiv> wr32 (mem_of s) (the (addr s c) + 4 * u) v" and "s' \<equiv> put_mem s (wr32 (mem_of s) (the (addr s c) + 4 * u) v)"
  shows "inv s' E A" "bm_ok (addr s') m' A B" "same_on E (mem_of s) m'"
    "bm_bits (addr s') m' b = {n \<in> bm_bits (addr s) (mem_of s) b. n div 32 \<noteq> k * 256 + u}
      \<union> {n. n div 32 = k * 256 + u \<and> bit v (n mod 32)}"
    "\<forall>b'\<in>B - {b}. bm_bits (addr s') m' b' = bm_bits (addr s) (mem_of s) b'"
proof -
  have c: "c \<in> A - B" using bm_okD(2) [OF ok b(1,2)] b(3,4) by simp
  note w = put_word [OF inv _ u, where c = c and v = v, folded m'_def]
  have s': "s' = put_mem s m'" by (simp add: s'_def m'_def)
  show "inv s' E A" "same_on E (mem_of s) m'" unfolding s' by (rule w; use c in blast)+
  have chunk: "bm_chunk (addr s') m' b k = bm_chunk (addr s) (mem_of s) b k" if "b \<in> B" "k < 256" for b k
    using w(4) [of b k] c that bm_okD(1) [OF ok] unfolding s' by (auto simp: bm_chunk_def)
  show "bm_ok (addr s') m' A B" by (rule bm_ok_cong [OF ok subset_refl chunk])
  have unit: "bm_unit (addr s') m' a j = (if a = c \<and> j = u then v else bm_unit (addr s) (mem_of s) a j)"
    if "a \<in> A - B" "j < 256" for a j
    using w(4) [of a j] c that unfolding s' by (simp add: bm_unit_def)
  show "bm_bits (addr s') m' b = {n \<in> bm_bits (addr s) (mem_of s) b. n div 32 \<noteq> k * 256 + u}
      \<union> {n. n div 32 = k * 256 + u \<and> bit v (n mod 32)}"
    by (rule bits_unit(1) [OF ok b u chunk unit])
  show "\<forall>b'\<in>B - {b}. bm_bits (addr s') m' b' = bm_bits (addr s) (mem_of s) b'"
    using bits_unit(2) [OF ok b u chunk unit] by blast
qed

text \<open>A chunk without a set bit, put in the place of one that does not exist.\<close>

lemma put_chunk:
  assumes inv: "inv s E A" "z = 1024" and ok: "bm_ok (addr s) (mem_of s) A B"
    and b: "b \<in> B" "k < 256" "bm_chunk (addr s) (mem_of s) b k = 0"
    and a: "a \<in> A - B" "\<And>d j. d \<in> B \<Longrightarrow> j < 256 \<Longrightarrow> bm_chunk (addr s) (mem_of s) d j \<noteq> a"
    and zero: "\<And>j. j < 256 \<Longrightarrow> bm_unit (addr s) (mem_of s) a j = 0"
  defines "m' \<equiv> wr32 (mem_of s) (the (addr s b) + 4 * k) a" and "s' \<equiv> put_mem s (wr32 (mem_of s) (the (addr s b) + 4 * k) a)"
  shows "inv s' E A" "bm_ok (addr s') m' A B" "same_on E (mem_of s) m'" "bm_chunk (addr s') m' b k = a"
    "d \<in> B \<Longrightarrow> bm_bits (addr s') m' d = bm_bits (addr s) (mem_of s) d" "\<forall>a\<in>A. addr s' a = addr s a"
proof -
  have bA: "b \<in> A" using b(1) bm_okD(1) [OF ok] by blast
  note w = put_word [OF inv bA b(2), where v = a, folded m'_def]
  have s': "s' = put_mem s m'" by (simp add: s'_def m'_def)
  show "inv s' E A" "same_on E (mem_of s) m'" "\<forall>a\<in>A. addr s' a = addr s a" unfolding s' by (rule w)+
  have chunk: "bm_chunk (addr s') m' d j = (if d = b \<and> j = k then a else bm_chunk (addr s) (mem_of s) d j)"
    if "d \<in> B" "j < 256" for d j
    using w(4) [of d j] that bm_okD(1) [OF ok] unfolding s' by (auto simp: bm_chunk_def)
  show "bm_chunk (addr s') m' b k = a" using chunk [OF b(1,2)] by simp
  have unit: "bm_unit (addr s') m' c j = bm_unit (addr s) (mem_of s) c j" if "c \<in> A - B" "j < 256" for c j
    using w(4) [of c j] that b(1) unfolding s' by (auto simp: bm_unit_def)
  have a0: "a \<noteq> 0" using null [OF inv(1)] a(1) by auto
  show "bm_ok (addr s') m' A B"
    unfolding bm_ok_def
  proof (intro conjI ballI allI impI)
    show "B \<subseteq> A" by (rule bm_okD(1) [OF ok])
  next
    fix d j assume d: "d \<in> B" "j < (256 :: nat)"
    show "bm_chunk (addr s') m' d j = 0 \<or> bm_chunk (addr s') m' d j \<in> A - B"
      using chunk [OF d] a(1) bm_okD(2) [OF ok d] by auto
  next
    fix d d' j j' assume d: "d \<in> B" "j < (256 :: nat)" "d' \<in> B" "j' < (256 :: nat)"
      and nz: "bm_chunk (addr s') m' d j \<noteq> 0" and eq: "bm_chunk (addr s') m' d j = bm_chunk (addr s') m' d' j'"
    have "(d = b \<and> j = k) = (d' = b \<and> j' = k)"
      using eq chunk [OF d(1,2)] chunk [OF d(3,4)] a(2) [OF d(1,2)] a(2) [OF d(3,4)] by (auto split: if_splits)
    then have "d = d' \<and> j = j'"
      using eq nz chunk [OF d(1,2)] chunk [OF d(3,4)] bm_okD(3) [OF ok d] by (cases "d = b \<and> j = k") auto
    then show "d = d'" "j = j'" by blast+
  qed
  show "bm_bits (addr s') m' d = bm_bits (addr s) (mem_of s) d" if d: "d \<in> B"
    unfolding bm_bits_def
  proof (rule Collect_cong)
    fix n
    show "(n < 2097152 \<and> bm_chunk (addr s') m' d (n div 8192) \<noteq> 0
        \<and> bit (bm_unit (addr s') m' (bm_chunk (addr s') m' d (n div 8192)) (n div 32 mod 256)) (n mod 32))
      = (n < 2097152 \<and> bm_chunk (addr s) (mem_of s) d (n div 8192) \<noteq> 0
        \<and> bit (bm_unit (addr s) (mem_of s) (bm_chunk (addr s) (mem_of s) d (n div 8192)) (n div 32 mod 256)) (n mod 32))"
    proof (cases "n < 2097152")
      case True
      note i = bm_index(1) [OF True] bm_index(2) [of n]
      show ?thesis
      proof (cases "d = b \<and> n div 8192 = k")
        case True
        then show ?thesis using chunk [OF d i(1)] unit [OF a(1)] zero b(3) by simp
      next
        case False
        then have c: "bm_chunk (addr s') m' d (n div 8192) = bm_chunk (addr s) (mem_of s) d (n div 8192)"
          using chunk [OF d i(1)] by auto
        show ?thesis unfolding c using unit [OF _ i(2)] bm_okD(2) [OF ok d i(1)] True by auto
      qed
    qed simp
  qed
qed

text \<open>An allocation leaves the bitmaps alone, and its atom is cleared.\<close>

lemma alloc_bitmaps:
  assumes inv: "inv s E A" "z = 1024" and ok: "bm_ok (addr s) (mem_of s) A B" and room: "room s"
    and al: "alloc s = Some (s', a)" "a \<noteq> 0"
  shows "a \<notin> A" "inv s' E (insert a A)" "same_on E (mem_of s) (mem_of s')" "\<forall>b\<in>A. addr s' b = addr s b"
    "bm_ok (addr s') (mem_of s') (insert a A) B" "\<forall>b\<in>B. bm_bits (addr s') (mem_of s') b = bm_bits (addr s) (mem_of s) b"
    "k < 256 \<Longrightarrow> rd32 (mem_of s') (the (addr s' a) + 4 * k) = 0"
    "\<forall>b\<in>B. \<forall>k<256. bm_chunk (addr s') (mem_of s') b k = bm_chunk (addr s) (mem_of s) b k"
proof -
  from alloc_total [OF inv(1) room] al have *: "a \<notin> A" "inv s' E (insert a A)"
    "same_on (E \<union> pool_bytes (addr s) z A) (mem_of s) (mem_of s')" "\<forall>b\<in>A. addr s' b = addr s b" by auto
  then show "a \<notin> A" "inv s' E (insert a A)" "\<forall>b\<in>A. addr s' b = addr s b" by blast+
  show "same_on E (mem_of s) (mem_of s')" by (rule same_on_subset [OF *(3)]) blast
  have bytes: "same_on {p..<p + 1024} (mem_of s) (mem_of s')" if "b \<in> A" "addr s b = Some p" for b p
    by (rule same_on_subset [OF *(3)]) (use that inv(2) in \<open>auto simp: pool_bytes_def intro!: bexI [of _ b] exI [of _ p]\<close>)
  have live': "addr s b \<noteq> None" if "b \<in> A" for b using atom_at [OF inv(1) that] by auto
  have addr': "addr s' b = addr s b" if "b \<in> A" for b using *(4) that by blast
  show "bm_ok (addr s') (mem_of s') (insert a A) B"
    by (rule bm_frame(1) [OF ok addr' subset_insertI bytes live'])
  show "\<forall>b\<in>B. bm_bits (addr s') (mem_of s') b = bm_bits (addr s) (mem_of s) b"
  proof
    fix b assume "b \<in> B"
    then show "bm_bits (addr s') (mem_of s') b = bm_bits (addr s) (mem_of s) b"
      by (intro bm_frame(2) [OF ok addr' subset_insertI bytes live'])
  qed
  show "rd32 (mem_of s') (the (addr s' a) + 4 * k) = 0" if "k < 256"
  proof -
    obtain p where p: "addr s' a = Some p" using atom_at [OF *(2)] by blast
    show ?thesis using zeroed [OF inv(1) room al p] that inv(2) p by (auto intro!: rd32_zero)
  qed
  show "\<forall>b\<in>B. \<forall>k<256. bm_chunk (addr s') (mem_of s') b k = bm_chunk (addr s) (mem_of s) b k"
  proof (intro ballI allI impI)
    fix b k assume b: "b \<in> B" "k < (256 :: nat)"
    then have "b \<in> A" using bm_okD(1) [OF ok] by blast
    moreover then obtain p where p: "addr s b = Some p" using atom_at [OF inv(1)] by blast
    ultimately show "bm_chunk (addr s') (mem_of s') b k = bm_chunk (addr s) (mem_of s) b k"
      using addr' [of b] same_on_rd32 [OF bytes [of b p], of "p + 4 * k"] b(2) by (auto simp: bm_chunk_def)
  qed
qed

end

section \<open>Numbers of bits\<close>

lemma bm_consts: "PA_BITMAP_MAX_BIT = 2097152" "PA_BITMAP_CHUNK_SIZE = 256" "PA_BITMAP_UNITS_PER_CHUNK = 256"
    "PA_BITMAP_BITS_PER_UNIT = 32" "PA_BITMAP_BITS_PER_CHUNK = 8192" "PA_BITMAP_FIND_START = 2147483647"
    "PA_BITMAP_FIND_DONE = 2147483648"
  by (simp_all add: PA_BITMAP_MAX_BIT_def PA_BITMAP_CHUNK_SIZE_def PA_BITMAP_UNITS_PER_CHUNK_def PA_BITMAP_BITS_PER_UNIT_def
      PA_BITMAP_BITS_PER_CHUNK_def PA_BITMAP_FIND_START_def PA_BITMAP_FIND_DONE_def PA_BITMAP_BLOCK_SIZE_def
      PA_BITMAP_BLOCK_SHIFT_def PA_BITMAP_CHUNK_SHIFT_def push_bit_eq_mult)

lemma bm_sizes: "unat PA_BITMAP_UNITS_PER_CHUNK = 256" "unat PA_BITMAP_CHUNK_SIZE = 256"
  by (simp_all add: bm_consts)

lemma unat_bitnum: "unat (pa_bitmap_bitnum num) = unat num mod 32"
  using unat_and_mask [of 5 num] by (simp add: pa_bitmap_bitnum_def bm_consts)

lemma unat_unitnum: "unat (pa_bitmap_unitnum num) = unat num div 32 mod 256"
  using unat_and_mask [of 8 "num div 32"] by (simp add: pa_bitmap_unitnum_def bm_consts unat_div)

lemma unat_chunknum: "unat (pa_bitmap_chunknum num) = unat num div 8192 mod 256"
  using unat_and_mask [of 8 "drop_bit 10 (num div 8)"]
  by (simp add: pa_bitmap_chunknum_def bm_consts PA_BITMAP_BLOCK_SHIFT_def unat_div unat_drop_bit_div div_mult2_eq [symmetric])

lemma less_max_bit: "num < PA_BITMAP_MAX_BIT \<longleftrightarrow> unat num < 2097152"
  by (simp add: bm_consts word_less_nat_alt)

lemma bit_unit_bit: "bit (unit_bit num) k \<longleftrightarrow> k = unat num mod 32"
  by (auto simp: unit_bit_def unat_bitnum bit_simps)

lemma and_unit_bit: "v AND unit_bit num \<noteq> 0 \<longleftrightarrow> bit v (unat num mod 32)"
proof
  assume "v AND unit_bit num \<noteq> 0"
  then obtain k where "bit (v AND unit_bit num) k" by (metis bit_0_eq bit_eq_iff bot_apply bot_bool_def)
  then show "bit v (unat num mod 32)" by (auto simp: bit_and_iff bit_unit_bit)
next
  assume "bit v (unat num mod 32)"
  then have "bit (v AND unit_bit num) (unat num mod 32)" by (simp add: bit_and_iff bit_unit_bit)
  then show "v AND unit_bit num \<noteq> 0" by (metis bit_0_eq bot_apply bot_bool_def)
qed

section \<open>The operations\<close>

definition pb_addr :: "pa_mmap \<Rightarrow> pa_bitmap \<Rightarrow> u32 \<Rightarrow> nat option" where
  "pb_addr pmp pfp = pa_fixed_atom_addr (pm_mem pmp) (pb_data pfp)"

text \<open>The bitmaps \<open>B\<close> of a segment, and the numbers in one.\<close>

definition bitmaps :: "pa_bitmap \<Rightarrow> nat \<Rightarrow> pa_mmap \<Rightarrow> nat set \<Rightarrow> u32 set \<Rightarrow> u32 set \<Rightarrow> bool" where
  "bitmaps pfp w pmp E A B \<longleftrightarrow> zx_pool (pb_data pfp) 1024 w pmp E A \<and> bm_ok (pb_addr pmp pfp) (pm_mem pmp) A B"

definition bits_of :: "pa_mmap \<Rightarrow> pa_bitmap \<Rightarrow> u32 \<Rightarrow> nat set" where
  "bits_of pmp pfp b = bm_bits (pb_addr pmp pfp) (pm_mem pmp) b"

lemma bitmaps_at:
  assumes "bitmaps pfp w pmp E A B" "b \<in> B"
  shows "\<exists>p. pb_addr pmp pfp b = Some p"
  using assms zxp.atom_at [of "pb_data pfp" 1024 w pmp E A b] bm_okD(1)
  unfolding bitmaps_def pb_addr_def by blast

lemma bitmaps_chunk_at:
  assumes "bitmaps pfp w pmp E A B" "b \<in> B" "k < 256" "bm_chunk (pb_addr pmp pfp) (pm_mem pmp) b k = c" "c \<noteq> 0"
  shows "\<exists>p. pb_addr pmp pfp c = Some p"
  using assms zxp.atom_at [of "pb_data pfp" 1024 w pmp E A c] bm_okD(2) [of "pb_addr pmp pfp" "pm_mem pmp" A B b k]
  unfolding bitmaps_def pb_addr_def by blast

lemma test_bits:
  assumes "bitmaps pfp w pmp E A B" "b \<in> B"
  shows "pa_bitmap_test (pm_mem pmp) pfp b num \<longleftrightarrow> unat num \<in> bits_of pmp pfp b"
proof (cases "num < PA_BITMAP_MAX_BIT")
  case True
  then have n: "unat num < 2097152" and le: "\<not> PA_BITMAP_MAX_BIT \<le> num" by (simp add: less_max_bit, simp add: leD)
  from n have k: "unat num div 8192 < 256" "unat (pa_bitmap_chunknum num) = unat num div 8192"
    by (simp_all add: unat_chunknum div_less_iff_less_mult)
  obtain p where p: "pb_addr pmp pfp b = Some p" using bitmaps_at [OF assms] by blast
  have c: "rd32 (pm_mem pmp) (chunk_at p (pa_bitmap_chunknum num)) = bm_chunk (pb_addr pmp pfp) (pm_mem pmp) b (unat num div 8192)"
    by (simp add: chunk_at_def bm_chunk_def p k(2))
  show ?thesis
  proof (cases "bm_chunk (pb_addr pmp pfp) (pm_mem pmp) b (unat num div 8192) = 0")
    case True
    then show ?thesis using n p c
      by (simp add: pa_bitmap_test_def pa_bitmap_chunk_addr_def pb_addr_def bits_of_def bm_bits_def Let_def split: option.split)
  next
    case False
    obtain q where q: "pb_addr pmp pfp (bm_chunk (pb_addr pmp pfp) (pm_mem pmp) b (unat num div 8192)) = Some q"
      using bitmaps_chunk_at [OF assms k(1) refl False] by blast
    have "pa_bitmap_test (pm_mem pmp) pfp b num \<longleftrightarrow> rd32 (pm_mem pmp) (unit_at q (pa_bitmap_unitnum num)) AND unit_bit num \<noteq> 0"
      using le False p q c by (simp add: pa_bitmap_test_def pa_bitmap_chunk_addr_def pb_addr_def Let_def)
    also have "\<dots> \<longleftrightarrow> unat num \<in> bits_of pmp pfp b"
      using False n q by (simp add: and_unit_bit unit_at_def unat_unitnum bits_of_def bm_bits_def bm_unit_def)
    finally show ?thesis .
  qed
next
  case False
  then have "PA_BITMAP_MAX_BIT \<le> num" by (rule linorder_class.leI)
  with False show ?thesis by (simp add: pa_bitmap_test_def bits_of_def bm_bits_def less_max_bit)
qed

text \<open>Writing the unit of a number that has a chunk.\<close>

lemma write_unit:
  fixes v :: u32
  assumes bm: "bitmaps pfp w pmp E A B" "b \<in> B" "k < 256" "bm_chunk (pb_addr pmp pfp) (pm_mem pmp) b k = c" "c \<noteq> 0"
    and u: "u < 256" and q: "pb_addr pmp pfp c = Some q"
  defines "pmp' \<equiv> pmp\<lparr>pm_mem := wr32 (pm_mem pmp) (q + 4 * u) v\<rparr>"
  shows "bitmaps pfp w pmp' E A B" "same_on E (pm_mem pmp) (pm_mem pmp')"
    "bits_of pmp' pfp b = {n \<in> bits_of pmp pfp b. n div 32 \<noteq> k * 256 + u} \<union> {n. n div 32 = k * 256 + u \<and> bit v (n mod 32)}"
    "\<forall>b'\<in>B - {b}. bits_of pmp' pfp b' = bits_of pmp pfp b'"
proof -
  from bm(1) have inv: "zx_pool (pb_data pfp) 1024 w pmp E A" and ok: "bm_ok (pb_addr pmp pfp) (pm_mem pmp) A B"
    by (simp_all add: bitmaps_def)
  have "the (pb_addr pmp pfp c) = q" using q by simp
  note u' = zxp.put_unit [OF inv refl ok [unfolded pb_addr_def] bm(2,3) bm(4) [unfolded pb_addr_def] bm(5) u, of v,
      folded pb_addr_def, unfolded this, folded pmp'_def]
  show "bitmaps pfp w pmp' E A B" "same_on E (pm_mem pmp) (pm_mem pmp')"
    using u'(1-3) by (simp_all add: bitmaps_def pb_addr_def pmp'_def)
  show "bits_of pmp' pfp b = {n \<in> bits_of pmp pfp b. n div 32 \<noteq> k * 256 + u} \<union> {n. n div 32 = k * 256 + u \<and> bit v (n mod 32)}"
    "\<forall>b'\<in>B - {b}. bits_of pmp' pfp b' = bits_of pmp pfp b'"
    using u'(4,5) by (simp_all add: bits_of_def pb_addr_def pmp'_def)
qed

lemma bits_in_unit:
  assumes "bm_chunk (pb_addr pmp pfp) (pm_mem pmp) b k = c" "c \<noteq> 0" "k < 256" "u < 256" "n div 32 = k * 256 + u"
  shows "n \<in> bits_of pmp pfp b \<longleftrightarrow> bit (bm_unit (pb_addr pmp pfp) (pm_mem pmp) c u) (n mod 32)"
proof -
  have i: "n div 8192 = k" "n div 32 mod 256 = u" using bm_pos [OF assms(4), of n k] assms(5) by blast+
  have "n div 32 < 65536" using assms(3-5) by simp
  then have "n < 2097152" by (simp add: div_less_iff_less_mult)
  with assms(1,2) show ?thesis by (simp add: bits_of_def bm_bits_def i)
qed

lemma div_mod_eq: "n div 32 = x div 32 \<Longrightarrow> n mod 32 = x mod 32 \<longleftrightarrow> n = (x :: nat)"
  by (metis div_mult_mod_eq)

text \<open>Setting and clearing a number whose chunk exists.\<close>

lemma set_clear_unit:
  assumes bm: "bitmaps pfp w pmp E A B" "b \<in> B" and n: "unat num < 2097152"
    and c: "bm_chunk (pb_addr pmp pfp) (pm_mem pmp) b (unat num div 8192) = c" "c \<noteq> 0" and q: "pb_addr pmp pfp c = Some q"
  defines "at \<equiv> unit_at q (pa_bitmap_unitnum num)"
  defines "s \<equiv> pmp\<lparr>pm_mem := wr32 (pm_mem pmp) at (rd32 (pm_mem pmp) at OR unit_bit num)\<rparr>"
    and "t \<equiv> pmp\<lparr>pm_mem := wr32 (pm_mem pmp) at (rd32 (pm_mem pmp) at AND NOT (unit_bit num))\<rparr>"
  shows "bitmaps pfp w s E A B" "same_on E (pm_mem pmp) (pm_mem s)" "bits_of s pfp b = insert (unat num) (bits_of pmp pfp b)"
    "\<forall>b'\<in>B - {b}. bits_of s pfp b' = bits_of pmp pfp b'"
    and "bitmaps pfp w t E A B" "same_on E (pm_mem pmp) (pm_mem t)" "bits_of t pfp b = bits_of pmp pfp b - {unat num}"
    "\<forall>b'\<in>B - {b}. bits_of t pfp b' = bits_of pmp pfp b'"
proof -
  define k u where "k = unat num div 8192" and "u = unat num div 32 mod 256"
  have i: "k < 256" "u < 256" and pos: "unat num div 32 = k * 256 + u"
    using n bm_pos [of u "unat num" k] by (simp_all add: k_def u_def div_less_iff_less_mult)
  have ck: "bm_chunk (pb_addr pmp pfp) (pm_mem pmp) b k = c" using c(1) by (simp add: k_def)
  have at: "at = q + 4 * u" by (simp add: at_def unit_at_def unat_unitnum u_def)
  define old where "old = rd32 (pm_mem pmp) at"
  have old: "old = bm_unit (pb_addr pmp pfp) (pm_mem pmp) c u" by (simp add: old_def at bm_unit_def q)
  note here = bits_in_unit [OF ck c(2) i, folded old]
  note w1 = write_unit [OF bm i(1) ck c(2) i(2) q, of "old OR unit_bit num", folded at]
  note w2 = write_unit [OF bm i(1) ck c(2) i(2) q, of "old AND NOT (unit_bit num)", folded at]
  show "bitmaps pfp w s E A B" "same_on E (pm_mem pmp) (pm_mem s)" "\<forall>b'\<in>B - {b}. bits_of s pfp b' = bits_of pmp pfp b'"
    using w1(1,2,4) by (simp_all add: s_def old_def)
  show "bitmaps pfp w t E A B" "same_on E (pm_mem pmp) (pm_mem t)" "\<forall>b'\<in>B - {b}. bits_of t pfp b' = bits_of pmp pfp b'"
    using w2(1,2,4) by (simp_all add: t_def old_def)
  have "x \<in> bits_of s pfp b \<longleftrightarrow> x \<in> insert (unat num) (bits_of pmp pfp b)" for x
  proof (cases "x div 32 = k * 256 + u")
    case True
    then show ?thesis
      using w1(3) here [OF True] div_mod_eq [of x "unat num"] pos
      by (simp add: s_def old_def [symmetric] bit_or_iff bit_unit_bit disj_commute)
  next
    case False
    then show ?thesis using w1(3) pos by (auto simp: s_def old_def)
  qed
  then show "bits_of s pfp b = insert (unat num) (bits_of pmp pfp b)" by blast
  have "x \<in> bits_of t pfp b \<longleftrightarrow> x \<in> bits_of pmp pfp b - {unat num}" for x
  proof (cases "x div 32 = k * 256 + u")
    case True
    have "x mod 32 < 32" by simp
    then show ?thesis
      using w2(3) here [OF True] div_mod_eq [of x "unat num"] pos True
      by (simp add: t_def old_def [symmetric] bit_and_iff bit_not_iff bit_unit_bit)
  next
    case False
    then show ?thesis using w2(3) pos by (auto simp: t_def old_def)
  qed
  then show "bits_of t pfp b = bits_of pmp pfp b - {unat num}" by blast
qed

text \<open>A step of the bitmaps: the atoms may grow, and only one bitmap changes.\<close>

definition bm_step :: "pa_bitmap \<Rightarrow> nat \<Rightarrow> nat set \<Rightarrow> u32 set \<Rightarrow> u32 set \<Rightarrow> u32 \<Rightarrow> pa_mmap \<Rightarrow> pa_mmap \<Rightarrow> bool" where
  "bm_step pfp w E A B b pmp pmp' \<longleftrightarrow> (\<exists>A'. A \<subseteq> A' \<and> bitmaps pfp w pmp' E A' B) \<and> same_on E (pm_mem pmp) (pm_mem pmp')
     \<and> (\<forall>b'\<in>B - {b}. bits_of pmp' pfp b' = bits_of pmp pfp b')"

lemma bm_step_refl: "bitmaps pfp w pmp E A B \<Longrightarrow> bm_step pfp w E A B b pmp pmp"
  by (auto simp: bm_step_def)

text \<open>A new chunk in the table of a bitmap.\<close>

lemma new_chunk:
  assumes bm: "bitmaps pfp w pmp E A B" "b \<in> B" "k < 256" "bm_chunk (pb_addr pmp pfp) (pm_mem pmp) b k = 0"
    and room: "mm_room pmp w" and al: "pa_fixed_alloc_atom os pmp (pb_data pfp) = Some (pmp', a)" "a \<noteq> 0"
    and p: "pb_addr pmp pfp b = Some p"
  defines "pmp2 \<equiv> pmp'\<lparr>pm_mem := wr32 (pm_mem pmp') (p + 4 * k) a\<rparr>"
  shows "bitmaps pfp w pmp2 E (insert a A) B" "same_on E (pm_mem pmp) (pm_mem pmp2)"
    "\<forall>b\<in>B. bits_of pmp2 pfp b = bits_of pmp pfp b" "bm_chunk (pb_addr pmp2 pfp) (pm_mem pmp2) b k = a"
    "\<exists>q. pb_addr pmp2 pfp a = Some q"
proof -
  from bm(1) have inv: "zx_pool (pb_data pfp) 1024 w pmp E A" and ok: "bm_ok (pb_addr pmp pfp) (pm_mem pmp) A B"
    by (simp_all add: bitmaps_def)
  note n = zxp.alloc_bitmaps [OF inv refl ok [unfolded pb_addr_def] room al, folded pb_addr_def]
  have bA: "b \<in> A" using bm(2) bm_okD(1) [OF ok] by blast
  have p': "the (pb_addr pmp' pfp b) = p" using n(4) bA p by simp
  have old: "bm_chunk (pb_addr pmp' pfp) (pm_mem pmp') d j \<noteq> a" if "d \<in> B" "j < 256" for d j
    using n(8) that n(1) al(2) bm_okD(2) [OF ok that] by (metis DiffD1)
  have zero: "bm_unit (pb_addr pmp' pfp) (pm_mem pmp') a j = 0" if "j < 256" for j
    using n(7) [OF that] by (simp add: bm_unit_def)
  have k0: "bm_chunk (pb_addr pmp' pfp) (pm_mem pmp') b k = 0" using n(8) bm(2-4) by simp
  have aB: "a \<in> insert a A - B" using n(1) bm_okD(1) [OF ok] by blast
  note c = zxp.put_chunk [OF n(2) refl n(5) [unfolded pb_addr_def] bm(2,3) k0 [unfolded pb_addr_def] aB
      old [unfolded pb_addr_def] zero [unfolded pb_addr_def], folded pb_addr_def, unfolded p', folded pmp2_def]
  have m: "pm_mem pmp2 = wr32 (pm_mem pmp') (p + 4 * k) a" by (simp add: pmp2_def)
  have ad: "pb_addr pmp2 pfp = pa_fixed_atom_addr (wr32 (pm_mem pmp') (p + 4 * k) a) (pb_data pfp)"
    by (simp add: pb_addr_def m)
  show new: "bitmaps pfp w pmp2 E (insert a A) B" using c(1,2) by (simp add: bitmaps_def ad m pmp2_def)
  show "same_on E (pm_mem pmp) (pm_mem pmp2)" using n(3) c(3) unfolding m by (rule same_on_trans)
  show "\<forall>b\<in>B. bits_of pmp2 pfp b = bits_of pmp pfp b" using n(6) c(5) by (simp add: bits_of_def ad m)
  show "bm_chunk (pb_addr pmp2 pfp) (pm_mem pmp2) b k = a" using c(4) by (simp add: ad m)
  show "\<exists>q. pb_addr pmp2 pfp a = Some q"
    using new zxp.atom_at [of "pb_data pfp" 1024 w pmp2 E "insert a A" a] unfolding bitmaps_def pb_addr_def by blast
qed

lemma bitmap_set_ok:
  assumes bm: "bitmaps pfp w pmp E A B" "b \<in> B" and room: "mm_room pmp w"
  shows "ok_with (pa_bitmap_set os pmp pfp b num) (\<lambda>pmp'. bm_step pfp w E A B b pmp pmp'
    \<and> (bits_of pmp' pfp b = insert (unat num) (bits_of pmp pfp b)
       \<or> pmp' = pmp \<and> (PA_BITMAP_MAX_BIT \<le> num \<or> pa_fixed_alloc_atom os pmp (pb_data pfp) = Some (pmp, 0))))"
proof (cases "PA_BITMAP_MAX_BIT \<le> num")
  case True
  then show ?thesis using bm_step_refl [OF bm(1)] by (simp add: pa_bitmap_set_def)
next
  case False
  then have "num < PA_BITMAP_MAX_BIT" by simp
  then have n: "unat num < 2097152" by (simp add: less_max_bit)
  define k where "k = unat num div 8192"
  have k: "k < 256" "unat (pa_bitmap_chunknum num) = k"
    using n by (simp_all add: unat_chunknum k_def div_less_iff_less_mult)
  obtain p where p: "pb_addr pmp pfp b = Some p" using bitmaps_at [OF bm] by blast
  define c where "c = bm_chunk (pb_addr pmp pfp) (pm_mem pmp) b k"
  have c: "rd32 (pm_mem pmp) (p + 4 * k) = c" by (simp add: c_def bm_chunk_def p)
  note unfold = pa_bitmap_set_def if_not_P [OF False] pa_bitmap_chunk_addr_def p [unfolded pb_addr_def] option.case
    chunk_at_def k(2) c Let_def
  show ?thesis
  proof (cases "c = 0")
    case False
    obtain q where q: "pb_addr pmp pfp c = Some q" using bitmaps_chunk_at [OF bm k(1) _ False] c_def by blast
    note s = set_clear_unit [OF bm n c_def [unfolded k_def, symmetric] False q]
    have "bm_step pfp w E A B b pmp (pmp\<lparr>pm_mem := wr32 (pm_mem pmp) (unit_at q (pa_bitmap_unitnum num))
        (rd32 (pm_mem pmp) (unit_at q (pa_bitmap_unitnum num)) OR unit_bit num)\<rparr>)"
      using s(1,2,4) by (auto simp: bm_step_def)
    then show ?thesis unfolding unfold using False s(3) q by (simp add: pb_addr_def)
  next
    case True
    then have nil: "bm_chunk (pb_addr pmp pfp) (pm_mem pmp) b k = 0" using c_def by simp
    have inv: "zx_pool (pb_data pfp) 1024 w pmp E A" using bm(1) by (simp add: bitmaps_def)
    from zxp.alloc_total [OF inv room, of os]
    consider "pa_fixed_alloc_atom os pmp (pb_data pfp) = Some (pmp, 0)"
      | pmp1 a where "pa_fixed_alloc_atom os pmp (pb_data pfp) = Some (pmp1, a)" "a \<noteq> 0" by blast
    then show ?thesis
    proof cases
      case 1
      then show ?thesis unfolding unfold using True bm_step_refl [OF bm(1)] by simp
    next
      case 2
      define pmp2 where "pmp2 = pmp1\<lparr>pm_mem := wr32 (pm_mem pmp1) (p + 4 * k) a\<rparr>"
      note w = new_chunk [OF bm k(1) nil room 2 p, folded pmp2_def]
      from w(5) obtain q where q: "pb_addr pmp2 pfp a = Some q" by blast
      note s = set_clear_unit [OF w(1) bm(2) n w(4) [unfolded k_def] 2(2) q]
      let ?pmp3 = "pmp2\<lparr>pm_mem := wr32 (pm_mem pmp2) (unit_at q (pa_bitmap_unitnum num))
        (rd32 (pm_mem pmp2) (unit_at q (pa_bitmap_unitnum num)) OR unit_bit num)\<rparr>"
      have "bm_step pfp w E A B b pmp ?pmp3"
        unfolding bm_step_def
        using s(1,4) w(3) same_on_trans [OF w(2) s(2)] by (auto intro: exI [of _ "insert a A"])
      moreover have "bits_of ?pmp3 pfp b = insert (unat num) (bits_of pmp pfp b)" using s(3) w(3) bm(2) by simp
      ultimately show ?thesis
        unfolding unfold using True 2 q by (simp add: pb_addr_def pmp2_def [symmetric])
    qed
  qed
qed

lemma bitmap_clear_ok:
  assumes bm: "bitmaps pfp w pmp E A B" "b \<in> B"
  shows "bitmaps pfp w (pa_bitmap_clear pmp pfp b num) E A B" "same_on E (pm_mem pmp) (pm_mem (pa_bitmap_clear pmp pfp b num))"
    "\<forall>b'\<in>B - {b}. bits_of (pa_bitmap_clear pmp pfp b num) pfp b' = bits_of pmp pfp b'"
    "bits_of (pa_bitmap_clear pmp pfp b num) pfp b = bits_of pmp pfp b - {unat num}"
proof -
  let ?t = "pa_bitmap_clear pmp pfp b num"
  have "bitmaps pfp w ?t E A B \<and> same_on E (pm_mem pmp) (pm_mem ?t) \<and> (\<forall>b'\<in>B - {b}. bits_of ?t pfp b' = bits_of pmp pfp b')
    \<and> bits_of ?t pfp b = bits_of pmp pfp b - {unat num}"
  proof (cases "PA_BITMAP_MAX_BIT \<le> num")
    case True
    then have "\<not> num < PA_BITMAP_MAX_BIT" by simp
    then have "unat num \<notin> bits_of pmp pfp b" by (simp add: bits_of_def bm_bits_def less_max_bit)
    with True bm(1) show ?thesis by (simp add: pa_bitmap_clear_def)
  next
    case False
    then have "num < PA_BITMAP_MAX_BIT" by simp
    then have n: "unat num < 2097152" by (simp add: less_max_bit)
    define k where "k = unat num div 8192"
    have k: "k < 256" "unat (pa_bitmap_chunknum num) = k"
      using n by (simp_all add: unat_chunknum k_def div_less_iff_less_mult)
    obtain p where p: "pb_addr pmp pfp b = Some p" using bitmaps_at [OF bm] by blast
    define c where "c = bm_chunk (pb_addr pmp pfp) (pm_mem pmp) b k"
    have c: "rd32 (pm_mem pmp) (p + 4 * k) = c" by (simp add: c_def bm_chunk_def p)
    note unfold = pa_bitmap_clear_def if_not_P [OF False] pa_bitmap_chunk_addr_def p [unfolded pb_addr_def] option.case
      chunk_at_def k(2) c Let_def
    show ?thesis
    proof (cases "c = 0")
      case True
      then have "unat num \<notin> bits_of pmp pfp b" using c_def by (simp add: bits_of_def bm_bits_def k_def)
      with True bm(1) show ?thesis unfolding unfold by simp
    next
      case False
      obtain q where q: "pb_addr pmp pfp c = Some q" using bitmaps_chunk_at [OF bm k(1) _ False] c_def by blast
      note t = set_clear_unit(5-8) [OF bm n c_def [unfolded k_def, symmetric] False q]
      show ?thesis unfolding unfold using False t q by (simp add: pb_addr_def)
    qed
  qed
  then show "bitmaps pfp w ?t E A B" "same_on E (pm_mem pmp) (pm_mem ?t)"
    "\<forall>b'\<in>B - {b}. bits_of ?t pfp b' = bits_of pmp pfp b'" "bits_of ?t pfp b = bits_of pmp pfp b - {unat num}" by blast+
qed

lemma bitmap_alloc_ok:
  assumes bm: "bitmaps pfp w pmp E A B" and room: "mm_room pmp w"
    and al: "pa_bitmap_alloc os pmp pfp = Some (pmp', a)" "a \<noteq> 0"
  shows "a \<notin> A" "bitmaps pfp w pmp' E (insert a A) (insert a B)" "same_on E (pm_mem pmp) (pm_mem pmp')"
    "\<forall>b\<in>B. bits_of pmp' pfp b = bits_of pmp pfp b" "bits_of pmp' pfp a = {}"
    "k < 256 \<Longrightarrow> bm_chunk (pb_addr pmp' pfp) (pm_mem pmp') a k = 0"
proof -
  from bm have inv: "zx_pool (pb_data pfp) 1024 w pmp E A" and ok: "bm_ok (pb_addr pmp pfp) (pm_mem pmp) A B"
    by (simp_all add: bitmaps_def)
  note n = zxp.alloc_bitmaps [OF inv refl ok [unfolded pb_addr_def] room al(1) [unfolded pa_bitmap_alloc_def] al(2), folded pb_addr_def]
  show "a \<notin> A" "same_on E (pm_mem pmp) (pm_mem pmp')" by (fact n)+
  show "\<forall>b\<in>B. bits_of pmp' pfp b = bits_of pmp pfp b" using n(6) by (simp add: bits_of_def)
  show zero: "bm_chunk (pb_addr pmp' pfp) (pm_mem pmp') a k = 0" if "k < 256" for k
    using n(7) [OF that] by (simp add: bm_chunk_def)
  show "bits_of pmp' pfp a = {}" using zero bm_index(1) by (auto simp: bits_of_def bm_bits_def)
  have old: "bm_chunk (pb_addr pmp' pfp) (pm_mem pmp') d j = 0 \<or> bm_chunk (pb_addr pmp' pfp) (pm_mem pmp') d j \<in> A - B"
    if "d \<in> B" "j < 256" for d j
    using n(8) that bm_okD(2) [OF ok that] by auto
  have "bm_ok (pb_addr pmp' pfp) (pm_mem pmp') (insert a A) (insert a B)"
    unfolding bm_ok_def
  proof (intro conjI ballI allI impI)
    show "insert a B \<subseteq> insert a A" using bm_okD(1) [OF ok] by blast
  next
    fix d j assume d: "d \<in> insert a B" "j < (256 :: nat)"
    show "bm_chunk (pb_addr pmp' pfp) (pm_mem pmp') d j = 0 \<or> bm_chunk (pb_addr pmp' pfp) (pm_mem pmp') d j \<in> insert a A - insert a B"
    proof (cases "d = a")
      case True
      then show ?thesis using zero [OF d(2)] by simp
    next
      case False
      then show ?thesis using old [OF _ d(2), of d] d(1) n(1) by auto
    qed
  next
    fix d d' j j' assume d: "d \<in> insert a B" "j < (256 :: nat)" "d' \<in> insert a B" "j' < (256 :: nat)"
      and nz: "bm_chunk (pb_addr pmp' pfp) (pm_mem pmp') d j \<noteq> 0"
      and eq: "bm_chunk (pb_addr pmp' pfp) (pm_mem pmp') d j = bm_chunk (pb_addr pmp' pfp) (pm_mem pmp') d' j'"
    have "d \<noteq> a" "d' \<noteq> a" using zero [OF d(2)] zero [OF d(4)] nz eq by auto
    then have "d \<in> B" "d' \<in> B" using d by auto
    from bm_okD(3) [OF n(5) this(1) d(2) this(2) d(4) nz eq] show "d = d'" "j = j'" by blast+
  qed
  with n(2) show "bitmaps pfp w pmp' E (insert a A) (insert a B)" by (simp add: bitmaps_def pb_addr_def)
qed

section \<open>Searching\<close>

lemma next_chunk_some:
  "next_chunk m p i n = Some c \<Longrightarrow> i \<le> c \<and> c < i + n \<and> rd32 m (p + 4 * c) \<noteq> 0 \<and> (\<forall>j. i \<le> j \<and> j < c \<longrightarrow> rd32 m (p + 4 * j) = 0)"
proof (induction m p i n rule: next_chunk.induct)
  case (2 m p i n)
  show ?case
  proof (cases "rd32 m (p + 4 * i) = 0")
    case True
    with 2 have "Suc i \<le> c \<and> c < Suc i + n \<and> rd32 m (p + 4 * c) \<noteq> 0 \<and> (\<forall>j. Suc i \<le> j \<and> j < c \<longrightarrow> rd32 m (p + 4 * j) = 0)"
      by simp
    with True show ?thesis by (auto simp: le_less_Suc_eq dest: le_neq_implies_less intro: Suc_leI)
  qed (use 2 in auto)
qed simp

lemma next_chunk_none: "next_chunk m p i n = None \<Longrightarrow> i \<le> j \<Longrightarrow> j < i + n \<Longrightarrow> rd32 m (p + 4 * j) = 0"
proof (induction m p i n rule: next_chunk.induct)
  case (2 m p i n)
  then show ?case by (cases "j = i") (auto split: if_splits)
qed simp

lemma ffs_from_least:
  "i \<le> k \<Longrightarrow> k \<le> i + n \<Longrightarrow> bit v k \<Longrightarrow> (\<And>j. i \<le> j \<Longrightarrow> j < k \<Longrightarrow> \<not> bit v j) \<Longrightarrow> ffs_from i n v = k"
proof (induction i n v rule: ffs_from.induct)
  case (2 i n v)
  then show ?case by (cases "i = k") auto
qed simp

text \<open>The numbers from \<open>x\<close> on, and the answer for them.\<close>

definition beyond :: "nat set \<Rightarrow> nat \<Rightarrow> nat set" where "beyond S x = {t \<in> S. x \<le> t}"

definition found :: "nat set \<Rightarrow> u32" where
  "found S = (if S = {} then PA_BITMAP_FIND_DONE else word_of_nat (LEAST t. t \<in> S))"

lemma beyond_skip: "x \<le> y \<Longrightarrow> (\<And>t. x \<le> t \<Longrightarrow> t < y \<Longrightarrow> t \<notin> S) \<Longrightarrow> beyond S x = beyond S y"
  unfolding beyond_def by (meson le_less_linear order_trans order_refl)

lemma found_least: "t \<in> beyond S x \<Longrightarrow> (\<And>y. x \<le> y \<Longrightarrow> y < t \<Longrightarrow> y \<notin> S) \<Longrightarrow> found (beyond S x) = word_of_nat t"
proof -
  assume t: "t \<in> beyond S x" and below: "\<And>y. x \<le> y \<Longrightarrow> y < t \<Longrightarrow> y \<notin> S"
  have "(LEAST t. t \<in> beyond S x) = t"
    using t below by (intro Least_equality) (auto simp: beyond_def not_less [symmetric])
  then show ?thesis using t by (auto simp: found_def)
qed

lemma unat_num: "x < 2097152 \<Longrightarrow> unat (word_of_nat x :: u32) = x"
  by (simp add: unat_of_nat)

lemma num_parts:
  assumes "x < 2097152"
  shows "pa_bitmap_chunknum (word_of_nat x) = word_of_nat (x div 8192)"
    and "pa_bitmap_unitnum (word_of_nat x) = word_of_nat (x div 32 mod 256)"
proof -
  have "x div 8192 < 256" using bm_index(1) [OF assms] .
  then show "pa_bitmap_chunknum (word_of_nat x) = word_of_nat (x div 8192)"
    using unat_chunknum [of "word_of_nat x"] unat_num [OF assms]
    by (simp add: word_unat_eq_iff unat_of_nat)
  have "x div 32 mod 256 < 256" by simp
  then show "pa_bitmap_unitnum (word_of_nat x) = word_of_nat (x div 32 mod 256)"
    using unat_unitnum [of "word_of_nat x"] unat_num [OF assms]
    by (simp add: word_unat_eq_iff unat_of_nat)
qed

lemma unit_mask: "bit (v AND NOT (unit_bit num - 1)) k \<longleftrightarrow> bit v k \<and> unat num mod 32 \<le> k"
proof -
  have e: "unat num mod 32 < 32" by simp
  have "unit_bit num - 1 = mask (unat num mod 32)"
    by (simp add: unit_bit_def unat_bitnum mask_eq_exp_minus_1 push_bit_eq_mult)
  then show ?thesis
    using bit_imp_le_length [of v k] by (auto simp: bit_and_iff bit_not_iff bit_mask_iff)
qed

text \<open>The search from a number on, and one turn of it: an answer, or a move past numbers that are not in the bitmap.\<close>

definition find_at :: "pa_mmap \<Rightarrow> pa_bitmap \<Rightarrow> nat \<Rightarrow> nat \<Rightarrow> u32 option" where
  "find_at pmp pfp p y = find_restart (pm_mem pmp) pfp p (word_of_nat y) (unit_bit (word_of_nat y) - 1)"

definition find_move :: "pa_mmap \<Rightarrow> pa_bitmap \<Rightarrow> nat \<Rightarrow> u32 \<Rightarrow> nat \<Rightarrow> nat \<Rightarrow> bool" where
  "find_move pmp pfp p b x y \<longleftrightarrow> x < y \<and> y < 2097152 \<and> y mod 32 = 0
     \<and> beyond (bits_of pmp pfp b) x = beyond (bits_of pmp pfp b) y \<and> find_at pmp pfp p x = find_at pmp pfp p y"

abbreviation table :: "pa_mmap \<Rightarrow> pa_bitmap \<Rightarrow> u32 \<Rightarrow> nat \<Rightarrow> u32" where
  "table pmp pfp \<equiv> bm_chunk (pb_addr pmp pfp) (pm_mem pmp)"

abbreviation units :: "pa_mmap \<Rightarrow> pa_bitmap \<Rightarrow> u32 \<Rightarrow> nat \<Rightarrow> u32" where
  "units pmp pfp \<equiv> bm_unit (pb_addr pmp pfp) (pm_mem pmp)"

lemma find_at_aligned:
  "y < 2097152 \<Longrightarrow> y mod 32 = 0 \<Longrightarrow> find_at pmp pfp p y = find_restart (pm_mem pmp) pfp p (word_of_nat y) 0"
  by (simp add: find_at_def unit_bit_def unat_bitnum unat_num)

lemma in_bits: "t \<in> bits_of pmp pfp b \<Longrightarrow> t < 2097152 \<and> table pmp pfp b (t div 8192) \<noteq> 0"
  by (simp add: bits_of_def bm_bits_def)

text \<open>A chunk that does not exist.\<close>

lemma find_missing:
  assumes p: "pb_addr pmp pfp b = Some p" and x: "x < 2097152" "x mod 32 = 0" and nil: "table pmp pfp b (x div 8192) = 0"
  shows "find_at pmp pfp p x = Some (found (beyond (bits_of pmp pfp b) x)) \<or> (\<exists>y. find_move pmp pfp p b x y)"
proof -
  define k where "k = x div 8192"
  have k: "k < 256" "unat (word_of_nat k :: u32) = k" using bm_index(1) [OF x(1)] by (simp_all add: k_def unat_of_nat)
  have cell: "rd32 (pm_mem pmp) (p + 4 * j) = table pmp pfp b j" for j by (simp add: bm_chunk_def p)
  note parts = num_parts [OF x(1), folded k_def]
  note eq = find_restart.simps [of "pm_mem pmp" pfp p "word_of_nat x" 0, unfolded parts Let_def chunk_at_def k(2) cell]
  have out: "t \<notin> bits_of pmp pfp b" if "x \<le> t" "\<And>j. k < j \<Longrightarrow> j \<le> t div 8192 \<Longrightarrow> j < 256 \<Longrightarrow> table pmp pfp b j = 0" for t
    using in_bits [of t pmp pfp b] that(2) [of "t div 8192"] bm_index(1) [of t] div_le_mono [OF that(1), of 8192] nil
    by (cases "t div 8192 = k") (auto simp: k_def)
  show ?thesis
  proof (cases "next_chunk (pm_mem pmp) p (Suc k) (256 - Suc k)")
    case None
    have "table pmp pfp b j = 0" if "k < j" "j < 256" for j
      using next_chunk_none [OF None, of j] that cell by simp
    then have "beyond (bits_of pmp pfp b) x = {}" using out by (auto simp: beyond_def)
    moreover have "find_at pmp pfp p x = Some PA_BITMAP_FIND_DONE"
      unfolding find_at_aligned [OF x] eq using nil None by (simp add: k_def [symmetric] bm_consts)
    ultimately show ?thesis by (simp add: found_def)
  next
    case (Some d)
    note d = next_chunk_some [OF Some]
    have d': "k < d" "d < 256" using d k by auto
    have "t \<notin> bits_of pmp pfp b" if "x \<le> t" "t < d * 8192" for t
    proof (rule out [OF that(1)])
      have "t div 8192 < d" using that(2) by (simp add: div_less_iff_less_mult)
      then show "table pmp pfp b j = 0" if "k < j" "j \<le> t div 8192" for j using d that cell by auto
    qed
    moreover have lt: "x < d * 8192" using d'(1) by (simp add: k_def div_less_iff_less_mult)
    ultimately have skip: "beyond (bits_of pmp pfp b) x = beyond (bits_of pmp pfp b) (d * 8192)"
      by (intro beyond_skip) auto
    have y: "d * 8192 < 2097152" "(d * 8192) mod 32 = 0" using d'(2) by simp_all
    have w: "(word_of_nat (d * 8192) :: u32) = word_of_nat d * 8192" by simp
    have "find_at pmp pfp p x = find_at pmp pfp p (d * 8192)"
      unfolding find_at_aligned [OF x] find_at_aligned [OF y] eq w using nil Some by (simp add: k_def [symmetric] bm_consts)
    with lt y skip have "find_move pmp pfp p b x (d * 8192)" unfolding find_move_def by (intro conjI)
    then show ?thesis by blast
  qed
qed

text \<open>The rest of the unit of a number.\<close>

definition rest_unit :: "pa_mmap \<Rightarrow> pa_bitmap \<Rightarrow> u32 \<Rightarrow> nat \<Rightarrow> u32" where
  "rest_unit pmp pfp c x = units pmp pfp c (x div 32 mod 256) AND NOT (unit_bit (word_of_nat x) - 1)"

lemma bit_rest: "x < 2097152 \<Longrightarrow> bit (rest_unit pmp pfp c x) j \<longleftrightarrow> bit (units pmp pfp c (x div 32 mod 256)) j \<and> x mod 32 \<le> j"
  by (simp add: rest_unit_def unit_mask unat_num)

lemma mod_mono: "x \<le> y \<Longrightarrow> x div 32 = y div 32 \<Longrightarrow> x mod 32 \<le> y mod (32 :: nat)"
  using div_mult_mod_eq [of x 32] div_mult_mod_eq [of y 32] by linarith

lemma in_rest:
  assumes "x < 2097152" "table pmp pfp b (x div 8192) = c" "c \<noteq> 0" "x \<le> y" "y div 32 = x div 32"
  shows "y \<in> bits_of pmp pfp b \<longleftrightarrow> bit (rest_unit pmp pfp c x) (y mod 32)"
proof -
  have "x div 32 = x div 8192 * 256 + x div 32 mod 256"
    using bm_pos [of "x div 32 mod 256" x "x div 8192"] by simp
  then have "y \<in> bits_of pmp pfp b \<longleftrightarrow> bit (units pmp pfp c (x div 32 mod 256)) (y mod 32)"
    using bits_in_unit [OF assms(2,3), of "x div 32 mod 256" y] bm_index(1) [OF assms(1)] assms(5) by simp
  with mod_mono [OF assms(4)] assms(1,5) show ?thesis by (simp add: bit_rest)
qed

lemma find_hit:
  assumes x: "x < 2097152" and c: "table pmp pfp b (x div 8192) = c" "c \<noteq> 0" and v: "rest_unit pmp pfp c x \<noteq> 0"
  shows "word_of_nat (x div 32 * 32 + ffs_from 0 31 (rest_unit pmp pfp c x)) = found (beyond (bits_of pmp pfp b) x)"
proof -
  define v where "v = rest_unit pmp pfp c x"
  obtain j0 where "bit v j0" using assms(4) unfolding v_def by (metis bit_0_eq bit_eq_iff bot_apply bot_bool_def)
  define j where "j = (LEAST j. bit v j)"
  have j: "bit v j" "\<And>i. i < j \<Longrightarrow> \<not> bit v i"
    unfolding j_def by (rule LeastI [of "bit v", OF \<open>bit v j0\<close>], rule not_less_Least [of _ "bit v"])
  have j32: "j < 32" using bit_imp_le_length [OF j(1)] by simp
  have f: "ffs_from 0 31 v = j" by (rule ffs_from_least) (use j j32 in auto)
  define t where "t = x div 32 * 32 + j"
  have t: "t div 32 = x div 32" "t mod 32 = j" using j32 by (simp_all add: t_def)
  have "x mod 32 \<le> j" using bit_rest [OF x] j(1) by (simp add: v_def)
  then have xt: "x \<le> t" using div_mult_mod_eq [of x 32] unfolding t_def by linarith
  have "t \<in> bits_of pmp pfp b" using in_rest [OF x c xt t(1)] j(1) t(2) by (simp add: v_def)
  then have "t \<in> beyond (bits_of pmp pfp b) x" using xt by (simp add: beyond_def)
  moreover have "y \<notin> bits_of pmp pfp b" if "x \<le> y" "y < t" for y
  proof -
    have yd: "y div 32 = x div 32" using div_le_mono [OF that(1), of 32] div_le_mono [of y t 32] that(2) t(1) by simp
    then have "y mod 32 < j" using that(2) t div_mult_mod_eq [of y 32] div_mult_mod_eq [of t 32] by linarith
    then show ?thesis using in_rest [OF x c that(1) yd] j(2) by (simp add: v_def)
  qed
  ultimately have "found (beyond (bits_of pmp pfp b) x) = word_of_nat t" by (rule found_least)
  with f show ?thesis by (simp add: t_def v_def)
qed

text \<open>No number in the rest of the unit, and none in the units up to the next one with a set bit.\<close>

lemma find_gap:
  assumes x: "x < 2097152" and c: "table pmp pfp b (x div 8192) = c" "c \<noteq> 0" and v: "rest_unit pmp pfp c x = 0"
    and d: "x div 32 mod 256 < d" "d \<le> 256" "\<And>j. x div 32 mod 256 < j \<Longrightarrow> j < d \<Longrightarrow> units pmp pfp c j = 0"
  defines "y \<equiv> x div 8192 * 8192 + d * 32"
  shows "x < y \<and> y mod 32 = 0 \<and> beyond (bits_of pmp pfp b) x = beyond (bits_of pmp pfp b) y"
proof -
  define k u where "k = x div 8192" and "u = x div 32 mod 256"
  have i: "k < 256" "u < 256" and pos: "x div 32 = k * 256 + u"
    using bm_index(1) [OF x] bm_pos [of u x k] by (simp_all add: k_def u_def)
  have yd: "y div 32 = k * 256 + d" "y mod 32 = 0" by (simp_all add: y_def k_def)
  have "u < d" using d(1) by (simp add: u_def)
  then have "\<not> y \<le> x" using div_le_mono [of y x 32] pos yd(1) by auto
  then have lt: "x < y" by simp
  have "t \<notin> bits_of pmp pfp b" if t: "x \<le> t" "t < y" for t
  proof -
    define j where "j = t div 32 - k * 256"
    have ge: "k * 256 + u \<le> t div 32" using div_le_mono [OF t(1), of 32] pos by simp
    have "t div 32 < k * 256 + d" using t(2) yd div_le_mono [of y t 32] div_mult_mod_eq [of t 32] div_mult_mod_eq [of y 32]
      by linarith
    with ge have j: "t div 32 = k * 256 + j" "u \<le> j" "j < d" by (simp_all add: j_def)
    show ?thesis
    proof (cases "j = u")
      case True
      then show ?thesis using in_rest [OF x c t(1)] j(1) pos v by simp
    next
      case False
      then have "units pmp pfp c j = 0" using d(3) [of j] j(2,3) by (simp add: u_def)
      then show ?thesis using bits_in_unit [OF c i(1) [unfolded k_def], of j t] j d(2) by (simp add: k_def)
    qed
  qed
  then have "beyond (bits_of pmp pfp b) x = beyond (bits_of pmp pfp b) y" using lt by (intro beyond_skip) auto
  with lt yd(2) show ?thesis by blast
qed

text \<open>A chunk that exists.\<close>

lemma find_present:
  assumes bm: "bitmaps pfp w pmp E A B" "b \<in> B" and p: "pb_addr pmp pfp b = Some p" and x: "x < 2097152"
    and c: "table pmp pfp b (x div 8192) = c" "c \<noteq> 0"
    and stop: "beyond (bits_of pmp pfp b) x \<noteq> {} \<or> table pmp pfp b 255 = 0"
  shows "find_at pmp pfp p x = Some (found (beyond (bits_of pmp pfp b) x)) \<or> (\<exists>y. find_move pmp pfp p b x y)"
proof -
  define k u where "k = x div 8192" and "u = x div 32 mod 256"
  have i: "k < 256" "u < 256" and pos: "x div 32 = k * 256 + u"
    using bm_index(1) [OF x] bm_pos [of u x k] by (simp_all add: k_def u_def)
  have ks: "unat (word_of_nat k :: u32) = k" "unat (word_of_nat u :: u32) = u" using i by (simp_all add: unat_of_nat)
  obtain q where q: "pb_addr pmp pfp c = Some q"
    using bitmaps_chunk_at [OF bm i(1) c(1) [folded k_def] c(2)] by blast
  have cell: "rd32 (pm_mem pmp) (p + 4 * k) = c" using c(1) by (simp add: bm_chunk_def p k_def)
  have word: "rd32 (pm_mem pmp) (q + 4 * j) = units pmp pfp c j" for j by (simp add: bm_unit_def q)
  note parts = num_parts [OF x, folded k_def u_def]
  define v where "v = rest_unit pmp pfp c x"
  have v: "units pmp pfp c u AND NOT (unit_bit (word_of_nat x) - 1) = v" by (simp add: v_def rest_unit_def u_def)
  note eq = find_restart.simps [of "pm_mem pmp" pfp p "word_of_nat x" "unit_bit (word_of_nat x) - 1",
      unfolded parts Let_def chunk_at_def unit_at_def ks cell if_not_P [OF c(2)] q [unfolded pb_addr_def] option.case word v bm_sizes]
  show ?thesis
  proof (cases "v = 0")
    case False
    have w: "word_of_nat (x div 32 * 32 + n) = (word_of_nat k * 8192 + word_of_nat u * 32 + word_of_nat n :: u32)" for n
      by (simp add: pos algebra_simps)
    have "find_at pmp pfp p x = Some (found (beyond (bits_of pmp pfp b) x))"
      unfolding find_at_def eq if_not_P [OF False]
      using find_hit [OF x c False [unfolded v_def], unfolded w] by (simp add: bm_consts v_def)
    then show ?thesis ..
  next
    case True
    have "\<exists>d. u < d \<and> d \<le> 256 \<and> (\<forall>j. u < j \<and> j < d \<longrightarrow> units pmp pfp c j = 0)
      \<and> find_at pmp pfp p x = find_restart (pm_mem pmp) pfp p (word_of_nat k * 8192 + word_of_nat d * 32) 0"
    proof (cases "next_chunk (pm_mem pmp) q (Suc u) (256 - Suc u)")
      case None
      have "units pmp pfp c j = 0" if "u < j" "j < 256" for j
        using next_chunk_none [OF None, of j] that word [of j] by simp
      moreover have "find_at pmp pfp p x = find_restart (pm_mem pmp) pfp p (word_of_nat k * 8192 + word_of_nat 256 * 32) 0"
        unfolding find_at_def eq if_P [OF True] None option.case by (simp add: bm_consts algebra_simps)
      ultimately show ?thesis using i(2) by (intro exI [of _ 256]) auto
    next
      case (Some d)
      note d = next_chunk_some [OF Some]
      have "find_at pmp pfp p x = find_restart (pm_mem pmp) pfp p (word_of_nat k * 8192 + word_of_nat d * 32) 0"
        unfolding find_at_def eq if_P [OF True] Some option.case by (simp add: bm_consts)
      then show ?thesis using d word i(2) by (intro exI [of _ d]) auto
    qed
    then obtain d where d: "u < d" "d \<le> 256" "\<And>j. u < j \<Longrightarrow> j < d \<Longrightarrow> units pmp pfp c j = 0"
      and go: "find_at pmp pfp p x = find_restart (pm_mem pmp) pfp p (word_of_nat k * 8192 + word_of_nat d * 32) 0" by blast
    define y where "y = k * 8192 + d * 32"
    have gap: "x < y" "y mod 32 = 0" "beyond (bits_of pmp pfp b) x = beyond (bits_of pmp pfp b) y"
      using find_gap [OF x c True [unfolded v_def] d [unfolded u_def]] by (simp_all add: y_def k_def)
    have "y < 2097152"
    proof (rule ccontr)
      assume "\<not> y < 2097152"
      then have big: "2097152 \<le> k * 8192 + d * 32" by (simp add: y_def)
      have "k = 255" using big d(2) i(1) by linarith
      then have "table pmp pfp b 255 \<noteq> 0" using c by (simp add: k_def)
      then obtain t where "t \<in> beyond (bits_of pmp pfp b) y" using stop gap(3) by auto
      then have "y \<le> t" "t < 2097152" using in_bits [of t pmp pfp b] by (simp_all add: beyond_def)
      with big show False by (simp add: y_def)
    qed
    moreover have "(word_of_nat y :: u32) = word_of_nat k * 8192 + word_of_nat d * 32" by (simp add: y_def)
    ultimately have "find_at pmp pfp p x = find_at pmp pfp p y" unfolding go using find_at_aligned [of y] gap(2) by simp
    with gap \<open>y < 2097152\<close> have "find_move pmp pfp p b x y" unfolding find_move_def by blast
    then show ?thesis by blast
  qed
qed

lemma find_at_ok:
  assumes bm: "bitmaps pfp w pmp E A B" "b \<in> B" and p: "pb_addr pmp pfp b = Some p"
  shows "x < 2097152 \<Longrightarrow> table pmp pfp b (x div 8192) \<noteq> 0 \<or> x mod 32 = 0
    \<Longrightarrow> beyond (bits_of pmp pfp b) x \<noteq> {} \<or> table pmp pfp b 255 = 0
    \<Longrightarrow> find_at pmp pfp p x = Some (found (beyond (bits_of pmp pfp b) x))"
proof (induction "2097152 - x" arbitrary: x rule: less_induct)
  case less
  have "find_at pmp pfp p x = Some (found (beyond (bits_of pmp pfp b) x)) \<or> (\<exists>y. find_move pmp pfp p b x y)"
  proof (cases "table pmp pfp b (x div 8192) = 0")
    case True
    with less.prems(2) have "x mod 32 = 0" by simp
    then show ?thesis by (rule find_missing [OF p less.prems(1) _ True])
  next
    case False
    then show ?thesis using find_present [OF bm p less.prems(1) refl] less.prems(3) by blast
  qed
  then show ?case
  proof (elim disjE exE)
    fix y assume "find_move pmp pfp p b x y"
    then have y: "x < y" "y < 2097152" "y mod 32 = 0" "beyond (bits_of pmp pfp b) x = beyond (bits_of pmp pfp b) y"
      "find_at pmp pfp p x = find_at pmp pfp p y" unfolding find_move_def by blast+
    have "2097152 - y < 2097152 - x" using y(1,2) by simp
    from less.hyps [OF this y(2)] y(3-5) less.prems(3) show ?thesis by simp
  qed
qed

lemma alloc_setup_page_len:
  assumes "pa_fixed_alloc_setup_page os pmp pfp base atom = Some pmp'"
  shows "\<exists>pmp1 t. pa_mmap_alloc os pmp (unat ((push_bit (unat (pf_shift (pm_mem pmp) pfp)) 1 :: u32)
      * ucast (pf_atom_size (pm_mem pmp) pfp))) = Some (pmp1, t) \<and> pm_len pmp' = pm_len pmp1"
proof -
  obtain pmp1 t where al: "pa_mmap_alloc os pmp (unat ((push_bit (unat (pf_shift (pm_mem pmp) pfp)) 1 :: u32)
      * ucast (pf_atom_size (pm_mem pmp) pfp))) = Some (pmp1, t)"
    using assms by (cases "pa_mmap_alloc os pmp (unat ((push_bit (unat (pf_shift (pm_mem pmp) pfp)) 1 :: u32)
      * ucast (pf_atom_size (pm_mem pmp) pfp)))") (auto simp: pa_fixed_alloc_setup_page_def Let_def)
  with assms have "pm_len pmp' = pm_len pmp1"
    unfolding pa_fixed_alloc_setup_page_def Let_def al by (cases "pa_mmap_addr t") auto
  with al show ?thesis by blast
qed

lemma pa_fixed_alloc_len:
  assumes al: "pa_fixed_alloc_atom os pmp pfp = Some (pmp', a)"
    and grow: "\<And>pmp1 t. pa_mmap_alloc os pmp (unat ((push_bit (unat (pf_shift (pm_mem pmp) pfp)) 1 :: u32)
      * ucast (pf_atom_size (pm_mem pmp) pfp))) = Some (pmp1, t) \<Longrightarrow> pm_len pmp1 = n" and n: "pm_len pmp = n"
  shows "pm_len pmp' = n"
proof (cases "pf_base pfp = None \<or> pf_free (pm_mem pmp) pfp = 0")
  case True
  then show ?thesis using al n by (auto simp: pa_fixed_alloc_atom_def Let_def split: option.splits)
next
  case False
  then obtain base where base: "pf_base pfp = Some base" by (cases "pf_base pfp") auto
  let ?atom = "pf_free (pm_mem pmp) pfp"
  define r where "r = (case pa_fixed_atom_addr (pm_mem pmp) pfp ?atom of
      None \<Rightarrow> pa_fixed_alloc_setup_page os pmp pfp base ?atom | Some _ \<Rightarrow> Some pmp)"
  have nz: "?atom \<noteq> 0" using False by simp
  obtain pmp1 where r: "r = Some pmp1"
    using al unfolding pa_fixed_alloc_atom_def base option.case Let_def if_not_P [OF nz] r_def [symmetric] by (cases r) auto
  have "pm_len pmp1 = n"
  proof (cases "pa_fixed_atom_addr (pm_mem pmp) pfp ?atom")
    case None
    then show ?thesis using r alloc_setup_page_len [of os pmp pfp base ?atom pmp1] grow by (auto simp: r_def)
  qed (use r n in \<open>simp add: r_def\<close>)
  moreover have "pm_len pmp' = pm_len pmp1"
    using al unfolding pa_fixed_alloc_atom_def base option.case Let_def if_not_P [OF nz] r_def [symmetric] r
    by (auto split: option.splits)
  ultimately show ?thesis by simp
qed

section \<open>Concrete bitmaps\<close>

text \<open>Blocks of 1024 bytes in pages of 2 blocks, the info block at offset 200.\<close>

definition demo_bg :: fx where
  "demo_bg = fx_new 1 1024 1250 30"

definition demo_bitmap :: pa_bitmap where
  "demo_bitmap = \<lparr>pb_data = \<lparr>pf_infop = 200, pf_base = Some (fx_base demo_bg)\<rparr>\<rparr>"

definition demo_bseg :: pa_mmap where
  "demo_bseg = demo_seg2\<lparr>pm_mem := fx_init_mem ((pm_mem demo_seg2)(201 := 1)) 200 demo_bg 1\<rparr>"

lemma demo_bg_fields: "fx_shift demo_bg = 1" "fx_size demo_bg = 1024" "fx_npages demo_bg = 625"
    "fx_table demo_bg = 30" "fx_pages demo_bg = []" "fx_per demo_bg = 2" "fx_base demo_bg = 122880"
  by (simp_all add: demo_bg_def fx_new_def fx_round4_def fx_per_def fx_base_def)

lemma demo_bparams: "fx_params 1 1024 1250"
  by (simp add: fx_params_def fx_round4_def)

lemma demo_bvalid: "mm_valid (demo_seg2\<lparr>pm_mem := (pm_mem demo_seg2)(201 := 1)\<rparr>) {(30, 2)}"
  by (rule mm_valid_write [OF demo_valid(2)]) (auto simp: owned_def header_bytes_def intro!: same_onI)

lemma demo_bfx_ok: "fx_ok demo_bseg {(30, 2)} (pb_data demo_bitmap) demo_bg []"
proof -
  have c: "word_of_nat (pa_count (fx_npages demo_bg * 8)) = (2 :: u32)"
    by (simp add: demo_bg_fields pa_count_def)
  let ?s = "demo_seg2\<lparr>pm_mem := (pm_mem demo_seg2)(201 := 1)\<rparr>"
  have "fx_ok (?s\<lparr>pm_mem := fx_init_mem (pm_mem ?s) 200 demo_bg 1\<rparr>)
      (insert (30, word_of_nat (pa_count (fx_npages demo_bg * 8))) {})
      \<lparr>pf_infop = 200, pf_base = Some (fx_base demo_bg)\<rparr> demo_bg []"
    by (rule fx_new_ok(1))
      (use demo_bvalid demo_params(3) fx_new_geo [OF demo_bparams, of 30] in
        \<open>simp_all add: c demo_bg_fields pa_count_def\<close>, simp_all add: demo_bg_def)
  then show ?thesis by (simp add: c demo_bseg_def demo_bitmap_def)
qed

lemma demo_bpool: "zx_pool (pb_data demo_bitmap) 1024 2048 demo_bseg {300..<400} {}"
proof -
  have live: "fx_live demo_bg [] = {}" by (simp add: fx_live_def fx_used_def demo_bg_fields)
  have "pm_mem demo_bseg 201 = 1"
    by (simp add: demo_bseg_def demo_bg_fields fx_init_mem_def Let_def wr32_outside wr16_outside zero_range_outside)
  then have "pa_fixed_test_flags (pm_mem demo_bseg) (pb_data demo_bitmap) PFF_INIT_ZERO"
    by (simp add: pa_fixed_test_flags_def pf_flags_def demo_bitmap_def PFF_INIT_ZERO_def)
  moreover have "fx_pool (pb_data demo_bitmap) 1024 2048 demo_bseg {300..<400} {}"
  proof (rule fx_poolI [OF demo_bfx_ok])
    show "{300..<400} \<subseteq> owned {(30, 2)}" by (auto simp: owned_def header_bytes_def)
    show "{300..<400} \<inter> ({pf_infop (pb_data demo_bitmap)..<pf_infop (pb_data demo_bitmap) + 8}
        \<union> fx_private (pb_data demo_bitmap) demo_bg [] \<union> (\<Union>x\<in>fx_live demo_bg []. fx_bytes demo_bg x)) = {}"
      by (auto simp: live fx_private_def fx_table_bytes_def demo_bg_fields demo_bitmap_def pf_free_at_def)
  qed (simp_all add: demo_bg_fields live)
  ultimately show ?thesis by (simp add: zx_pool_def)
qed

lemma demo_bitmaps: "bitmaps demo_bitmap 2048 demo_bseg {300..<400} {} {}"
  using demo_bpool by (simp add: bitmaps_def bm_ok_def)

lemma demo_bseg_alloc: "\<exists>m. pa_mmap_alloc demo_os demo_bseg 2048 = Some (demo_bseg\<lparr>pm_mem := m\<rparr>, 29)"
proof -
  have same: "same_on {0..<200} (pm_mem demo_seg2) (pm_mem demo_bseg)" "same_on {4096..<8192} (pm_mem demo_seg2) (pm_mem demo_bseg)"
    by (auto simp: demo_bseg_def demo_bg_fields intro!: same_onI simp: fx_init_mem_outside)
  have "rd32 (pm_mem demo_bseg) 24 = rd32 (pm_mem demo_seg2) 24" "rd32 (pm_mem demo_bseg) 4100 = rd32 (pm_mem demo_seg2) 4100"
    by (rule same_on_rd32 [OF same(1)], auto) (rule same_on_rd32 [OF same(2)], auto)
  then have "rd32 (pm_mem demo_bseg) 24 = 1" "rd32 (pm_mem demo_bseg) 4100 = 29"
    by (simp_all add: demo_seg2_def mem_simps demo_reads)
  then show ?thesis
    by (simp add: pa_mmap_alloc_def pa_mmap_alloc_scan.simps [of _ _ 24] pmi_free_at_def pmf_size_def
        demo_page PA_MMAP_ATOM_SIZE_def Let_def) (rule exI, rule refl)
qed

lemma demo_bseg_len: "pm_len demo_bseg = 131072"
  by (simp add: demo_bseg_def demo_len)

lemma demo_one_bitmap:
  "\<exists>pmp b. pa_bitmap_alloc demo_os demo_bseg demo_bitmap = Some (pmp, b) \<and> b \<noteq> 0 \<and> mm_room pmp 2048
     \<and> bitmaps demo_bitmap 2048 pmp {300..<400} {b} {b} \<and> bits_of pmp demo_bitmap b = {}
     \<and> table pmp demo_bitmap b 255 = 0"
proof -
  obtain m where m: "pa_mmap_alloc demo_os demo_bseg 2048 = Some (demo_bseg\<lparr>pm_mem := m\<rparr>, 29)"
    using demo_bseg_alloc by blast
  have room: "mm_room demo_bseg (fx_per demo_bg * fx_size demo_bg)" "mm_room demo_bseg 2048"
    by (simp_all add: mm_room_def demo_bseg_len demo_bg_fields)
  from pa_fixed_alloc_atom_ok [OF demo_bfx_ok room(1), of demo_os] m
  obtain pmp b where al: "pa_fixed_alloc_atom demo_os demo_bseg (pb_data demo_bitmap) = Some (pmp, b)" "b \<noteq> 0"
    by (auto simp: demo_bg_fields fx_got_def)
  then have al': "pa_bitmap_alloc demo_os demo_bseg demo_bitmap = Some (pmp, b)" by (simp add: pa_bitmap_alloc_def)
  have f: "pf_shift (pm_mem demo_bseg) (pb_data demo_bitmap) = 1" "pf_atom_size (pm_mem demo_bseg) (pb_data demo_bitmap) = 1024"
    using fx_okD(4) [OF demo_bfx_ok] by (simp_all add: fx_fields_def demo_bg_fields word_unat_eq_iff)
  have "pm_len pmp = 131072"
    by (rule pa_fixed_alloc_len [OF al(1)]) (use m in \<open>auto simp: f demo_bseg_len\<close>)
  then have "mm_room pmp 2048" by (simp add: mm_room_def)
  with bitmap_alloc_ok [OF demo_bitmaps room(2) al' al(2)] al' al(2) show ?thesis by auto
qed

lemma demo_bit:
  "\<exists>pmp b. bitmaps demo_bitmap 2048 pmp {300..<400} {b} {b} \<and> mm_room pmp 2048 \<and> bits_of pmp demo_bitmap b = {}
     \<and> table pmp demo_bitmap b 255 = 0"
  using demo_one_bitmap by blast

section \<open>Properties\<close>

lemma test_step:
  assumes "bitmaps pfp w pmp E A B" "bm_step pfp w E A B b pmp pmp'" "b \<in> B" "b' \<in> B"
  shows "pa_bitmap_test (pm_mem pmp') pfp b' n
    \<longleftrightarrow> (if b' = b then unat n \<in> bits_of pmp' pfp b else pa_bitmap_test (pm_mem pmp) pfp b' n)"
proof -
  obtain A' where "bitmaps pfp w pmp' E A' B" using assms(2) unfolding bm_step_def by blast
  then show ?thesis
    using test_bits [of pfp w pmp' E A' B b' n] test_bits [OF assms(1,4), of n] assms(2-4) by (auto simp: bm_step_def)
qed

text \<open>
  C10 (refinement): bitmaps are sets of numbers below \<^verbatim>\<open>PA_BITMAP_MAX_BIT\<close>. Setting a bit always returns, and
  then exactly that number of that bitmap tests as set beside the earlier ones, of all bitmaps, unless the
  number is too large or the array refuses a chunk, and then nothing changes; clearing a bit takes exactly that number
  away. Neither touches the bytes of others, whether the chunk of the bit exists or is taken from the array.
\<close>

theorem pa_bitmap_set_clear:
  assumes "bitmaps pfp w pmp E A B" "b \<in> B" "mm_room pmp w"
  shows "ok_with (pa_bitmap_set os pmp pfp b num) (\<lambda>pmp'. bm_step pfp w E A B b pmp pmp'
      \<and> ((\<forall>d n. d \<in> B \<longrightarrow> pa_bitmap_test (pm_mem pmp') pfp d n = (d = b \<and> n = num \<or> pa_bitmap_test (pm_mem pmp) pfp d n))
         \<or> pmp' = pmp \<and> (PA_BITMAP_MAX_BIT \<le> num \<or> pa_fixed_alloc_atom os pmp (pb_data pfp) = Some (pmp, 0))))
    \<and> bm_step pfp w E A B b pmp (pa_bitmap_clear pmp pfp b num)
    \<and> (\<forall>d n. d \<in> B \<longrightarrow> pa_bitmap_test (pm_mem (pa_bitmap_clear pmp pfp b num)) pfp d n
         = (\<not> (d = b \<and> n = num) \<and> pa_bitmap_test (pm_mem pmp) pfp d n))"
proof (intro conjI allI impI)
  note t = test_bits [OF assms(1,2)]
  show "ok_with (pa_bitmap_set os pmp pfp b num) (\<lambda>pmp'. bm_step pfp w E A B b pmp pmp'
      \<and> ((\<forall>d n. d \<in> B \<longrightarrow> pa_bitmap_test (pm_mem pmp') pfp d n = (d = b \<and> n = num \<or> pa_bitmap_test (pm_mem pmp) pfp d n))
         \<or> pmp' = pmp \<and> (PA_BITMAP_MAX_BIT \<le> num \<or> pa_fixed_alloc_atom os pmp (pb_data pfp) = Some (pmp, 0))))"
  proof (rule ok_with_mono [OF bitmap_set_ok [OF assms]])
    fix pmp'
    assume *: "bm_step pfp w E A B b pmp pmp' \<and> (bits_of pmp' pfp b = insert (unat num) (bits_of pmp pfp b)
       \<or> pmp' = pmp \<and> (PA_BITMAP_MAX_BIT \<le> num \<or> pa_fixed_alloc_atom os pmp (pb_data pfp) = Some (pmp, 0)))"
    have "\<forall>d n. d \<in> B \<longrightarrow> pa_bitmap_test (pm_mem pmp') pfp d n = (d = b \<and> n = num \<or> pa_bitmap_test (pm_mem pmp) pfp d n)"
      if "bits_of pmp' pfp b = insert (unat num) (bits_of pmp pfp b)"
    proof (intro allI impI)
      fix d n assume "d \<in> B"
      from test_step [OF assms(1) conjunct1 [OF *] assms(2) this, of n]
      show "pa_bitmap_test (pm_mem pmp') pfp d n = (d = b \<and> n = num \<or> pa_bitmap_test (pm_mem pmp) pfp d n)"
        unfolding that using t [of n] by (cases "d = b") (simp_all add: word_unat_eq_iff [of n num])
    qed
    with conjunct1 [OF *] conjunct2 [OF *] show "bm_step pfp w E A B b pmp pmp'
      \<and> ((\<forall>d n. d \<in> B \<longrightarrow> pa_bitmap_test (pm_mem pmp') pfp d n = (d = b \<and> n = num \<or> pa_bitmap_test (pm_mem pmp) pfp d n))
         \<or> pmp' = pmp \<and> (PA_BITMAP_MAX_BIT \<le> num \<or> pa_fixed_alloc_atom os pmp (pb_data pfp) = Some (pmp, 0)))"
      by argo
  qed
  note c = bitmap_clear_ok [OF assms(1,2), of num]
  show step: "bm_step pfp w E A B b pmp (pa_bitmap_clear pmp pfp b num)"
    unfolding bm_step_def using c(1-3) by (intro conjI exI [of _ A]) simp_all
  show "pa_bitmap_test (pm_mem (pa_bitmap_clear pmp pfp b num)) pfp d n
      = (\<not> (d = b \<and> n = num) \<and> pa_bitmap_test (pm_mem pmp) pfp d n)" if "d \<in> B" for d n
    using test_step [OF assms(1) step assms(2) that, of n] t [of n] unfolding c(4)
    by (cases "d = b") (simp_all add: word_unat_eq_iff [of n num] conj_commute)
qed

lemma pa_bitmap_set_clear_witness:
  "\<exists>pmp b. bitmaps demo_bitmap 2048 pmp {300..<400} {b} {b}
    \<and> ok_with (pa_bitmap_set demo_os pmp demo_bitmap b 70) (\<lambda>pmp'.
        pa_bitmap_test (pm_mem pmp') demo_bitmap b 70 \<and> \<not> pa_bitmap_test (pm_mem pmp') demo_bitmap b 71
        \<or> pmp' = pmp \<and> pa_fixed_alloc_atom demo_os pmp (pb_data demo_bitmap) = Some (pmp, 0))"
proof -
  obtain pmp b where d: "bitmaps demo_bitmap 2048 pmp {300..<400} {b} {b}" "mm_room pmp 2048"
    "bits_of pmp demo_bitmap b = {}" using demo_bit by blast
  have no: "\<not> pa_bitmap_test (pm_mem pmp) demo_bitmap b 71" using test_bits [OF d(1), of b 71] d(3) by simp
  have b: "b \<in> {b}" by simp
  have "ok_with (pa_bitmap_set demo_os pmp demo_bitmap b 70) (\<lambda>pmp'.
        pa_bitmap_test (pm_mem pmp') demo_bitmap b 70 \<and> \<not> pa_bitmap_test (pm_mem pmp') demo_bitmap b 71
        \<or> pmp' = pmp \<and> pa_fixed_alloc_atom demo_os pmp (pb_data demo_bitmap) = Some (pmp, 0))"
  proof (rule ok_with_mono [OF conjunct1 [OF pa_bitmap_set_clear [OF d(1) b d(2), of demo_os 70]]], elim conjE disjE)
    fix pmp' :: pa_mmap
    assume "\<forall>d n. d \<in> {b} \<longrightarrow> pa_bitmap_test (pm_mem pmp') demo_bitmap d n
      = (d = b \<and> n = 70 \<or> pa_bitmap_test (pm_mem pmp) demo_bitmap d n)"
    then have "pa_bitmap_test (pm_mem pmp') demo_bitmap b n = (n = 70 \<or> pa_bitmap_test (pm_mem pmp) demo_bitmap b n)" for n
      by simp
    then show "pa_bitmap_test (pm_mem pmp') demo_bitmap b 70 \<and> \<not> pa_bitmap_test (pm_mem pmp') demo_bitmap b 71
        \<or> pmp' = pmp \<and> pa_fixed_alloc_atom demo_os pmp (pb_data demo_bitmap) = Some (pmp, 0)" using no by simp
  qed (simp_all add: bm_consts)
  with d(1) show ?thesis by blast
qed

text \<open>
  C11 (functional): the search from the start, or from a number that is in the bitmap, answers the least
  number of the bitmap behind it. Without such a number it answers \<^verbatim>\<open>PA_BITMAP_FIND_DONE\<close>, provided the last chunk of the
  bitmap does not exist: with that chunk the search goes on at the first chunk again.
\<close>

theorem pa_bitmap_find_next:
  assumes bm: "bitmaps pfp w pmp E A B" "b \<in> B" and num: "num = PA_BITMAP_FIND_START \<or> unat num \<in> bits_of pmp pfp b"
  defines "S \<equiv> {n \<in> bits_of pmp pfp b. num = PA_BITMAP_FIND_START \<or> unat num < n}"
  assumes stop: "S \<noteq> {} \<or> bm_chunk (pb_addr pmp pfp) (pm_mem pmp) b 255 = 0"
  shows "pa_bitmap_find_next (pm_mem pmp) pfp b num
    = Some (if S = {} then PA_BITMAP_FIND_DONE else word_of_nat (LEAST n. n \<in> S))"
proof -
  obtain p where p: "pb_addr pmp pfp b = Some p" using bitmaps_at [OF bm] by blast
  note at = find_at_ok [OF bm p] and addr = p [unfolded pb_addr_def, folded pa_bitmap_chunk_addr_def]
  show ?thesis
  proof (cases "num = PA_BITMAP_FIND_START")
    case True
    then have S: "beyond (bits_of pmp pfp b) 0 = S" by (auto simp: S_def beyond_def)
    have "pa_bitmap_find_next (pm_mem pmp) pfp b num = find_at pmp pfp p 0"
      using True addr by (simp add: pa_bitmap_find_next_def find_at_aligned)
    with at [of 0] S stop show ?thesis by (simp add: found_def)
  next
    case False
    then have n: "unat num \<in> bits_of pmp pfp b" using num by blast
    define x where "x = Suc (unat num)"
    have S: "beyond (bits_of pmp pfp b) x = S" using False by (auto simp: S_def beyond_def x_def)
    have le: "unat num < 2097152" and c: "table pmp pfp b (unat num div 8192) \<noteq> 0" using in_bits [OF n] by auto
    have num1: "num + 1 = word_of_nat x" by (simp add: x_def)
    show ?thesis
    proof (cases "x = 2097152")
      case True
      then have "S = {}" using S in_bits [of _ pmp pfp b] by (fastforce simp: beyond_def)
      moreover have "num + 1 = PA_BITMAP_MAX_BIT" unfolding num1 True by (simp add: bm_consts)
      ultimately show ?thesis using False by (simp add: pa_bitmap_find_next_def)
    next
      case x: False
      then have x2: "x < 2097152" using le by (simp add: x_def)
      have "num + 1 \<noteq> PA_BITMAP_MAX_BIT"
        using x x2 unfolding num1 by (simp add: bm_consts word_unat_eq_iff unat_num)
      then have "pa_bitmap_find_next (pm_mem pmp) pfp b num = find_at pmp pfp p x"
        using False addr by (simp add: pa_bitmap_find_next_def find_at_def num1 [symmetric])
      moreover have "table pmp pfp b (x div 8192) \<noteq> 0 \<or> x mod 32 = 0"
      proof (cases "x mod 8192 = 0")
        case True
        then have "8192 dvd x" by auto
        then have "32 dvd x" by (rule dvd_trans [rotated]) simp
        then show ?thesis by auto
      next
        case nz: False
        then have "x div 8192 = unat num div 8192" by (simp add: x_def div_Suc)
        then show ?thesis using c by simp
      qed
      ultimately show ?thesis using at [OF x2] S stop by (simp add: found_def)
    qed
  qed
qed

lemma pa_bitmap_find_next_witness:
  "\<exists>pmp b. bitmaps demo_bitmap 2048 pmp {300..<400} {b} {b}
    \<and> pa_bitmap_find_next (pm_mem pmp) demo_bitmap b PA_BITMAP_FIND_START = Some PA_BITMAP_FIND_DONE"
proof -
  obtain pmp b where d: "bitmaps demo_bitmap 2048 pmp {300..<400} {b} {b}" "bits_of pmp demo_bitmap b = {}"
    and z: "table pmp demo_bitmap b 255 = 0" using demo_bit by blast
  have b: "b \<in> {b}" by simp
  from pa_bitmap_find_next [OF d(1) b, of PA_BITMAP_FIND_START] z d show ?thesis by auto
qed

end
