(* ===== verification/Papat.thy ===== *)
theory Papat
  imports Pafixed_Iface
begin

text \<open>
  \<^verbatim>\<open>parrotdb/papat.h\<close> and \<^verbatim>\<open>papat.c\<close>: the patricia tree. Nodes are atoms of a paged array and are
  named by their atom numbers, where the code passes pointers to them; \<open>None\<close> of such a name is the
  null pointer. The functions that only read take the reading of the nodes and the root atom. The
  key of a data atom comes from a callback of the client (\<^verbatim>\<open>pp_key_func\<close>) and is the parameter \<open>kf\<close>:
  the bytes its pointer points at. A result \<open>None\<close> of the outer option means that the call does not
  return (a null pointer is followed, or an assertion fails).
\<close>

section \<open>Nodes\<close>

record pa_pat_node_t =
  ppn_length :: u16
  ppn_bit :: u16
  ppn_left :: u32
  ppn_right :: u32
  ppn_data :: u32

type_synonym key = "nat \<Rightarrow> u8"
type_synonym nodes = "u32 \<Rightarrow> pa_pat_node_t option"

definition rd_node :: "mem \<Rightarrow> nat \<Rightarrow> pa_pat_node_t" where
  "rd_node m p = \<lparr>ppn_length = rd16 m p, ppn_bit = rd16 m (p + 2), ppn_left = rd32 m (p + 4),
     ppn_right = rd32 m (p + 8), ppn_data = rd32 m (p + 12)\<rparr>"

definition wr_node :: "mem \<Rightarrow> nat \<Rightarrow> pa_pat_node_t \<Rightarrow> mem" where
  "wr_node m p n = wr32 (wr32 (wr32 (wr16 (wr16 m p (ppn_length n)) (p + 2) (ppn_bit n))
     (p + 4) (ppn_left n)) (p + 8) (ppn_right n)) (p + 12) (ppn_data n)"

definition sizeof_pa_pat_node :: nat where "sizeof_pa_pat_node = 16"
definition sizeof_pa_pat_info :: nat where "sizeof_pa_pat_info = 8"
definition PA_PAT_MAXKEY :: u16 where "PA_PAT_MAXKEY = 256"
definition PA_PAT_NOBIT :: u16 where "PA_PAT_NOBIT = 0"
definition PA_TYPE_PAT :: u16 where "PA_TYPE_PAT = 5"

record pa_pat =
  pp_infop :: nat
  pp_nodes :: pa_fixed

definition pp_root :: "mem \<Rightarrow> pa_pat \<Rightarrow> u32" where "pp_root m root = rd32 m (pp_infop root)"
definition pp_key_bytes :: "mem \<Rightarrow> pa_pat \<Rightarrow> u16" where "pp_key_bytes m root = rd16 m (pp_infop root + 4)"

definition pa_pat_node :: "mem \<Rightarrow> pa_pat \<Rightarrow> nodes" where
  "pa_pat_node m root atom = map_option (rd_node m) (pa_fixed_atom_addr m (pp_nodes root) atom)"

definition pa_pat_node_data :: "pa_pat_node_t option \<Rightarrow> u32" where
  "pa_pat_node_data node = (case node of None \<Rightarrow> 0 | Some n \<Rightarrow> ppn_data n)"

text \<open>Assigning to the fields of the node at an atom.\<close>

definition pa_pat_set :: "mem \<Rightarrow> pa_pat \<Rightarrow> u32 \<Rightarrow> pa_pat_node_t \<Rightarrow> mem" where
  "pa_pat_set m root atom n =
     (case pa_fixed_atom_addr m (pp_nodes root) atom of None \<Rightarrow> m | Some p \<Rightarrow> wr_node m p n)"

section \<open>Bits of keys\<close>

definition pa_pat_hi_bit_table :: "u8 list" where
  "pa_pat_hi_bit_table = [0x00, 0x01] @ replicate 2 0x02 @ replicate 4 0x04 @ replicate 8 0x08
     @ replicate 16 0x10 @ replicate 32 0x20 @ replicate 64 0x40 @ replicate 128 0x80"

definition pa_pat_bit_masks :: "u8 list" where
  "pa_pat_bit_masks = [0x7f, 0xbf, 0xdf, 0xef, 0xf7, 0xfb, 0xfd, 0xfe]"

definition pat_key_test :: "key \<Rightarrow> u16 \<Rightarrow> bool" where
  "pat_key_test key b \<longleftrightarrow> key (unat (drop_bit 8 b)) AND ucast (NOT b) \<noteq> 0"

definition pa_pat_length :: "pa_pat_node_t \<Rightarrow> u16" where
  "pa_pat_length node = drop_bit 8 (ppn_length node) + 1"

definition pa_pat_length_to_bit :: "u16 \<Rightarrow> u16" where
  "pa_pat_length_to_bit len = (if len \<noteq> 0 then push_bit 8 (len - 1) OR 0xff else PA_PAT_NOBIT)"

definition pa_pat_makebit :: "u16 \<Rightarrow> u8 \<Rightarrow> u16" where
  "pa_pat_makebit offset bit_in_byte =
     push_bit 8 (offset AND 0xff) OR ucast (NOT (pa_pat_hi_bit_table ! unat bit_in_byte))"

definition pa_pat_plen_to_bit :: "u16 \<Rightarrow> u16" where
  "pa_pat_plen_to_bit plen =
     (let result = push_bit 5 (plen AND push_bit 3 0xff) in
      if plen AND 7 \<noteq> 0 then result OR ucast (pa_pat_bit_masks ! unat (plen AND 7))
      else result - 1)"

fun pa_pat_mismatch_from :: "key \<Rightarrow> key \<Rightarrow> u16 \<Rightarrow> nat \<Rightarrow> nat \<Rightarrow> u16" where
  "pa_pat_mismatch_from k1 k2 bitlen i 0 = bitlen"
| "pa_pat_mismatch_from k1 k2 bitlen i (Suc n) =
     (if k1 i \<noteq> k2 i then pa_pat_makebit (word_of_nat i) (k1 i XOR k2 i)
      else pa_pat_mismatch_from k1 k2 bitlen (Suc i) n)"

definition pa_pat_mismatch :: "key \<Rightarrow> key \<Rightarrow> u16 \<Rightarrow> u16" where
  "pa_pat_mismatch k1 k2 bitlen =
     pa_pat_mismatch_from k1 k2 bitlen 0 (unat (drop_bit 8 bitlen + 1))"

definition key_bytes_eq :: "key \<Rightarrow> key \<Rightarrow> nat \<Rightarrow> bool" where
  "key_bytes_eq k1 k2 n \<longleftrightarrow> map k1 [0..<n] = map k2 [0..<n]"

section \<open>Walking down the tree\<close>

lemma bit_up:
  fixes b c :: u16
  assumes "b < c"
  shows "65535 - unat c < 65535 - unat b"
proof -
  have "unat c < 2 ^ LENGTH(16)" by (rule unsigned_less)
  moreover have "unat b < unat c" using assms by (simp add: word_less_nat_alt)
  ultimately show ?thesis by simp
qed

text \<open>
  The loop of \<^verbatim>\<open>pa_pat_search\<close>, \<^verbatim>\<open>pa_pat_get_inline\<close>, \<^verbatim>\<open>pa_pat_find_next\<close>, \<^verbatim>\<open>pa_pat_find_prev\<close>,
  \<^verbatim>\<open>pa_pat_subtree_next\<close> and \<^verbatim>\<open>pa_pat_getnext\<close>, with the last atoms at which it went left and right.
\<close>

function pa_pat_walk ::
  "nodes \<Rightarrow> u16 \<Rightarrow> key \<Rightarrow> u16 \<Rightarrow> u32 \<Rightarrow> u32 \<Rightarrow> u32 \<Rightarrow> (u32 \<times> u32 \<times> u32) option" where
  "pa_pat_walk nd keylen key b current lastleft lastright =
     (case nd current of
        None \<Rightarrow> None
      | Some node \<Rightarrow>
          if b < ppn_bit node then
            (if ppn_bit node < keylen \<and> pat_key_test key (ppn_bit node)
             then pa_pat_walk nd keylen key (ppn_bit node) (ppn_right node) lastleft current
             else pa_pat_walk nd keylen key (ppn_bit node) (ppn_left node) current lastright)
          else Some (current, lastleft, lastright))"
  by pat_completeness auto
termination
  by (relation "measure (\<lambda>(nd, keylen, key, b, current, ll, lr). 65535 - unat b)") (auto simp: bit_up)

declare pa_pat_walk.simps [simp del]

definition pa_pat_search :: "nodes \<Rightarrow> u32 \<Rightarrow> u16 \<Rightarrow> key \<Rightarrow> u32 option" where
  "pa_pat_search nd root keylen key =
     map_option fst (pa_pat_walk nd keylen key PA_PAT_NOBIT root 0 0)"

function pa_pat_find_leftmost :: "nodes \<Rightarrow> u16 \<Rightarrow> u32 \<Rightarrow> u32 option" where
  "pa_pat_find_leftmost nd b a =
     (case nd a of
        None \<Rightarrow> None
      | Some node \<Rightarrow> if b < ppn_bit node then pa_pat_find_leftmost nd (ppn_bit node) (ppn_left node) else Some a)"
  by pat_completeness auto
termination
  by (relation "measure (\<lambda>(nd, b, a). 65535 - unat b)") (auto simp: bit_up)

function pa_pat_find_rightmost :: "nodes \<Rightarrow> u16 \<Rightarrow> u32 \<Rightarrow> u32 option" where
  "pa_pat_find_rightmost nd b a =
     (case nd a of
        None \<Rightarrow> None
      | Some node \<Rightarrow> if b < ppn_bit node then pa_pat_find_rightmost nd (ppn_bit node) (ppn_right node) else Some a)"
  by pat_completeness auto
termination
  by (relation "measure (\<lambda>(nd, b, a). 65535 - unat b)") (auto simp: bit_up)

declare pa_pat_find_leftmost.simps [simp del] pa_pat_find_rightmost.simps [simp del]

section \<open>Lookup\<close>

definition pa_pat_get_inline :: "nodes \<Rightarrow> u32 \<Rightarrow> (u32 \<Rightarrow> key) \<Rightarrow> u16 \<Rightarrow> key \<Rightarrow> u32 option option" where
  "pa_pat_get_inline nd root kf key_bytes key =
     (if key_bytes = 0 then None
      else if root = 0 then Some None
      else do {
        let bit_len = pa_pat_length_to_bit key_bytes;
        (current, _, _) \<leftarrow> pa_pat_walk nd bit_len key PA_PAT_NOBIT root 0 0;
        node \<leftarrow> nd current;
        Some (if ppn_length node \<noteq> bit_len
                \<or> \<not> key_bytes_eq (kf (ppn_data node)) key (unat key_bytes)
              then None else Some current)
      })"

definition pa_pat_get :: "nodes \<Rightarrow> u32 \<Rightarrow> (u32 \<Rightarrow> key) \<Rightarrow> u16 \<Rightarrow> key \<Rightarrow> u32 option option" where
  "pa_pat_get nd root kf key_bytes key = pa_pat_get_inline nd root kf key_bytes key"

definition pa_pat_get_atom :: "nodes \<Rightarrow> u32 \<Rightarrow> (u32 \<Rightarrow> key) \<Rightarrow> u16 \<Rightarrow> key \<Rightarrow> u32 option" where
  "pa_pat_get_atom nd root kf key_bytes key = do {
     nodep \<leftarrow> pa_pat_get nd root kf key_bytes key;
     Some (pa_pat_node_data (Option.bind nodep nd))
   }"

definition pa_pat_isempty :: "u32 \<Rightarrow> bool" where
  "pa_pat_isempty root \<longleftrightarrow> root = 0"

definition pa_pat_node_in_tree :: "pa_pat_node_t \<Rightarrow> bool" where
  "pa_pat_node_in_tree node \<longleftrightarrow>
     ppn_bit node \<noteq> PA_PAT_NOBIT \<or> ppn_right node = 0 \<or> ppn_left node = 0"

section \<open>Neighbours\<close>

definition pa_pat_find_next :: "nodes \<Rightarrow> u32 \<Rightarrow> (u32 \<Rightarrow> key) \<Rightarrow> u32 option \<Rightarrow> u32 option option" where
  "pa_pat_find_next nd root kf node =
     (if root = 0 then (if node = None then Some None else None)
      else case node of
        None \<Rightarrow> Some (pa_pat_find_leftmost nd PA_PAT_NOBIT root)
      | Some a \<Rightarrow> do {
          n \<leftarrow> nd a;
          (current, lastleft, _) \<leftarrow> pa_pat_walk nd (ppn_length n) (kf (ppn_data n)) PA_PAT_NOBIT root 0 0;
          if current \<noteq> a then None
          else if lastleft \<noteq> 0 then do {
            n \<leftarrow> nd lastleft;
            Some (pa_pat_find_leftmost nd (ppn_bit n) (ppn_right n))
          }
          else Some None
        })"

definition pa_pat_find_prev :: "nodes \<Rightarrow> u32 \<Rightarrow> (u32 \<Rightarrow> key) \<Rightarrow> u32 option \<Rightarrow> u32 option option" where
  "pa_pat_find_prev nd root kf node =
     (if root = 0 then (if node = None then Some None else None)
      else case node of
        None \<Rightarrow> Some (pa_pat_find_rightmost nd PA_PAT_NOBIT root)
      | Some a \<Rightarrow> do {
          n \<leftarrow> nd a;
          (current, _, lastright) \<leftarrow> pa_pat_walk nd (ppn_length n) (kf (ppn_data n)) PA_PAT_NOBIT root 0 0;
          if current \<noteq> a then None
          else if lastright \<noteq> 0 then do {
            n \<leftarrow> nd lastright;
            Some (pa_pat_find_rightmost nd (ppn_bit n) (ppn_left n))
          }
          else Some None
        })"

definition pa_pat_subtree_match ::
  "nodes \<Rightarrow> u32 \<Rightarrow> (u32 \<Rightarrow> key) \<Rightarrow> u16 \<Rightarrow> key \<Rightarrow> u32 option option" where
  "pa_pat_subtree_match nd root kf plen prefix =
     (if plen = 0 \<or> PA_PAT_MAXKEY * 8 < plen then None
      else if root = 0 then Some None
      else do {
        let p_bit = pa_pat_plen_to_bit plen;
        current \<leftarrow> pa_pat_search nd root p_bit prefix;
        Some (case nd current of
            None \<Rightarrow> None
          | Some n \<Rightarrow>
              if ppn_length n < p_bit then None
              else if pa_pat_mismatch prefix (kf (ppn_data n)) p_bit < p_bit then None
              else Some current)
      })"

definition pa_pat_subtree_next ::
  "nodes \<Rightarrow> u32 \<Rightarrow> (u32 \<Rightarrow> key) \<Rightarrow> u32 \<Rightarrow> u16 \<Rightarrow> u32 option option" where
  "pa_pat_subtree_next nd root kf a plen =
     (if plen = 0 \<or> root = 0 then None
      else do {
        let p_bit = pa_pat_plen_to_bit plen;
        n \<leftarrow> nd a;
        if ppn_length n < p_bit then None
        else do {
          (current, lastleft, _) \<leftarrow> pa_pat_walk nd (ppn_length n) (kf (ppn_data n)) PA_PAT_NOBIT root 0 0;
          if current \<noteq> a then None
          else Some (case nd lastleft of
              None \<Rightarrow> None
            | Some l \<Rightarrow> if ppn_bit l < p_bit then None
                         else pa_pat_find_leftmost nd (ppn_bit l) (ppn_right l))
        }
      })"

text \<open>The second search of \<^verbatim>\<open>pa_pat_getnext\<close>: the cursor goes on from the node found by the first one.\<close>

function pa_pat_getnext_again ::
  "nodes \<Rightarrow> key \<Rightarrow> u16 \<Rightarrow> u16 \<Rightarrow> u32 \<Rightarrow> pa_pat_node_t option \<Rightarrow> u32 \<Rightarrow> u32 option" where
  "pa_pat_getnext_again nd key diff_bit b current cur_node lastleft =
     (case cur_node of
        None \<Rightarrow> None
      | Some node \<Rightarrow>
          if b < ppn_bit node \<and> ppn_bit node < diff_bit then
            (if pat_key_test key (ppn_bit node)
             then pa_pat_getnext_again nd key diff_bit (ppn_bit node) (ppn_right node) (nd (ppn_right node)) lastleft
             else pa_pat_getnext_again nd key diff_bit (ppn_bit node) (ppn_left node) (nd (ppn_left node)) current)
          else Some lastleft)"
  by pat_completeness auto
termination
  by (relation "measure (\<lambda>(nd, key, d, b, current, c, ll). 65535 - unat b)") (auto simp: bit_up)

declare pa_pat_getnext_again.simps [simp del]

definition pa_pat_getnext ::
  "nodes \<Rightarrow> u32 \<Rightarrow> (u32 \<Rightarrow> key) \<Rightarrow> u16 \<Rightarrow> key \<Rightarrow> bool \<Rightarrow> u32 option option" where
  "pa_pat_getnext nd root kf klen key eq =
     (if klen = 0 then None
      else if nd root = None then Some None
      else do {
        let bit_len = pa_pat_length_to_bit klen;
        (current, lastleft, lastright) \<leftarrow> pa_pat_walk nd bit_len key PA_PAT_NOBIT root 0 0;
        cur_node \<leftarrow> nd current;
        let b = (if bit_len < ppn_length cur_node then bit_len else ppn_length cur_node);
        let diff_bit = pa_pat_mismatch key (kf (ppn_data cur_node)) b;
        let finish = (\<lambda>lastleft. if lastleft \<noteq> 0 then do {
            l \<leftarrow> nd lastleft;
            Some (pa_pat_find_leftmost nd (ppn_bit l) (ppn_right l))
          } else Some None);
        if b \<le> diff_bit then
          (if bit_len < ppn_length cur_node \<or> eq \<and> bit_len = ppn_length cur_node
           then Some (Some current) else finish lastleft)
        else if pat_key_test key diff_bit then
          (case nd lastleft of
             Some l \<Rightarrow>
               if diff_bit < ppn_bit l then do {
                 lastleft \<leftarrow> pa_pat_getnext_again nd key diff_bit PA_PAT_NOBIT root (Some cur_node) 0;
                 finish lastleft
               } else finish lastleft
           | None \<Rightarrow> finish lastleft)
        else
          (case nd lastright of
             Some r \<Rightarrow>
               if diff_bit \<le> ppn_bit r then do {
                 atom \<leftarrow> pa_pat_search nd root diff_bit key;
                 Some (if nd atom = None then None else Some atom)
               } else Some (Some current)
           | None \<Rightarrow> Some (Some current))
      })"

definition pa_pat_compare_nodes :: "(u32 \<Rightarrow> key) \<Rightarrow> pa_pat_node_t \<Rightarrow> pa_pat_node_t \<Rightarrow> int" where
  "pa_pat_compare_nodes kf node1 node2 =
     (let b = (if ppn_length node1 < ppn_length node2 then ppn_length node1 else ppn_length node2);
          diff_bit = pa_pat_mismatch (kf (ppn_data node1)) (kf (ppn_data node2)) b in
      if b \<le> diff_bit then 0
      else if pat_key_test (kf (ppn_data node1)) diff_bit then 1
      else - 1)"

definition pa_pat_lookup :: "mem \<Rightarrow> pa_pat \<Rightarrow> (u32 \<Rightarrow> key) \<Rightarrow> key \<Rightarrow> u32 option option" where
  "pa_pat_lookup m root kf key =
     pa_pat_get (pa_pat_node m root) (pp_root m root) kf (pp_key_bytes m root) key"

definition pa_pat_lookup_geq :: "mem \<Rightarrow> pa_pat \<Rightarrow> (u32 \<Rightarrow> key) \<Rightarrow> key \<Rightarrow> u32 option option" where
  "pa_pat_lookup_geq m root kf key =
     pa_pat_getnext (pa_pat_node m root) (pp_root m root) kf (pp_key_bytes m root) key True"

section \<open>Adding\<close>

text \<open>The field a link is stored in: the root, or a side of a node.\<close>

datatype pa_pat_ptr = RootPtr | LeftPtr u32 | RightPtr u32

function pa_pat_insert_walk ::
  "nodes \<Rightarrow> key \<Rightarrow> u16 \<Rightarrow> u16 \<Rightarrow> pa_pat_ptr \<Rightarrow> u32 \<Rightarrow> (pa_pat_ptr \<times> u32) option" where
  "pa_pat_insert_walk nd key diff_bit b ptr current =
     (case nd current of
        None \<Rightarrow> None
      | Some node \<Rightarrow>
          if b < ppn_bit node \<and> ppn_bit node < diff_bit then
            (if pat_key_test key (ppn_bit node)
             then pa_pat_insert_walk nd key diff_bit (ppn_bit node) (RightPtr current) (ppn_right node)
             else pa_pat_insert_walk nd key diff_bit (ppn_bit node) (LeftPtr current) (ppn_left node))
          else Some (ptr, current))"
  by pat_completeness auto
termination
  by (relation "measure (\<lambda>(nd, key, d, b, ptr, current). 65535 - unat b)") (auto simp: bit_up)

declare pa_pat_insert_walk.simps [simp del]

definition pa_pat_store :: "mem \<Rightarrow> pa_pat \<Rightarrow> pa_pat_ptr \<Rightarrow> u32 \<Rightarrow> mem" where
  "pa_pat_store m root ptr atom =
     (case ptr of
        RootPtr \<Rightarrow> wr32 m (pp_infop root) atom
      | LeftPtr a \<Rightarrow> (case pa_fixed_atom_addr m (pp_nodes root) a of None \<Rightarrow> m | Some p \<Rightarrow> wr32 m (p + 4) atom)
      | RightPtr a \<Rightarrow> (case pa_fixed_atom_addr m (pp_nodes root) a of None \<Rightarrow> m | Some p \<Rightarrow> wr32 m (p + 8) atom))"

definition pa_pat_add_node :: "mem \<Rightarrow> pa_pat \<Rightarrow> (u32 \<Rightarrow> key) \<Rightarrow> u32 \<Rightarrow> (mem \<times> bool) option" where
  "pa_pat_add_node m root kf atom = do {
     node \<leftarrow> pa_pat_node m root atom;
     if \<not> (ppn_bit node = PA_PAT_NOBIT \<and> ppn_right node = 0 \<and> ppn_left node = 0) then None
     else do {
       let node = (if ppn_length node = PA_PAT_NOBIT
                   then node\<lparr>ppn_length := pa_pat_length_to_bit (pp_key_bytes m root)\<rparr> else node);
       let m = pa_pat_set m root atom node;
       if pp_root m root = 0 then
         Some (wr32 (pa_pat_set m root atom (node\<lparr>ppn_left := atom, ppn_right := atom, ppn_bit := PA_PAT_NOBIT\<rparr>))
           (pp_infop root) atom, True)
       else do {
         let key = kf (ppn_data node);
         let nd = pa_pat_node m root;
         current \<leftarrow> pa_pat_search nd (pp_root m root) (ppn_length node) key;
         cur_node \<leftarrow> nd current;
         let b = (if ppn_length node < ppn_length cur_node then ppn_length node else ppn_length cur_node);
         let diff_bit = pa_pat_mismatch key (kf (ppn_data cur_node)) b;
         if b \<le> diff_bit then Some (m, False)
         else do {
           (ptr, current) \<leftarrow> pa_pat_insert_walk nd key diff_bit PA_PAT_NOBIT RootPtr (pp_root m root);
           let node = (if pat_key_test key diff_bit
                       then node\<lparr>ppn_bit := diff_bit, ppn_left := current, ppn_right := atom\<rparr>
                       else node\<lparr>ppn_bit := diff_bit, ppn_right := current, ppn_left := atom\<rparr>);
           let m = pa_pat_set m root atom node;
           Some (pa_pat_store m root ptr atom, True)
         }
       }
     }
   }"

definition pa_pat_node_init_length :: "u16 \<Rightarrow> u32 \<Rightarrow> pa_pat_node_t option" where
  "pa_pat_node_init_length key_bytes datom =
     (if key_bytes \<noteq> 0 \<and> PA_PAT_MAXKEY < key_bytes then None
      else Some \<lparr>ppn_length = (if key_bytes \<noteq> 0 then pa_pat_length_to_bit key_bytes else PA_PAT_NOBIT),
        ppn_bit = PA_PAT_NOBIT, ppn_left = 0, ppn_right = 0, ppn_data = datom\<rparr>)"

definition pa_pat_atom_alloc :: "pa_os \<Rightarrow> pa_mmap \<Rightarrow> pa_pat \<Rightarrow> (pa_mmap \<times> u32) option" where
  "pa_pat_atom_alloc os pmp root = pa_fixed_alloc_atom os pmp (pp_nodes root)"

text \<open>The node is answered as its atom, 0 for the null pointer.\<close>

definition pa_pat_node_alloc :: "pa_os \<Rightarrow> pa_mmap \<Rightarrow> pa_pat \<Rightarrow> u32 \<Rightarrow> u16 \<Rightarrow> (pa_mmap \<times> u32) option" where
  "pa_pat_node_alloc os pmp root datom key_bytes = do {
     (pmp, atom) \<leftarrow> pa_pat_atom_alloc os pmp root;
     if atom = 0 \<or> pa_pat_node (pm_mem pmp) root atom = None then Some (pmp, 0)
     else do {
       node \<leftarrow> pa_pat_node_init_length key_bytes datom;
       Some (pmp\<lparr>pm_mem := pa_pat_set (pm_mem pmp) root atom node\<rparr>, atom)
     }
   }"

definition pa_pat_add :: "pa_os \<Rightarrow> pa_mmap \<Rightarrow> pa_pat \<Rightarrow> (u32 \<Rightarrow> key) \<Rightarrow> u32 \<Rightarrow> u16 \<Rightarrow> (pa_mmap \<times> bool) option" where
  "pa_pat_add os pmp root kf datom key_bytes =
     (if datom = 0 then Some (pmp, False)
      else do {
        (pmp, atom) \<leftarrow> pa_pat_node_alloc os pmp root datom key_bytes;
        if atom = 0 then Some (pmp, False)
        else do {
          (m, added) \<leftarrow> pa_pat_add_node (pm_mem pmp) root kf atom;
          Some (pmp\<lparr>pm_mem := m\<rparr>, added)
        }
      })"

section \<open>Opening\<close>

text \<open>\<open>alloc\<close> tells whether \<^verbatim>\<open>pa_pat_root_alloc\<close> finds memory for the handle.\<close>

definition pa_pat_root_init ::
  "bool \<Rightarrow> mem \<Rightarrow> nat \<Rightarrow> pa_fixed \<Rightarrow> u16 \<Rightarrow> (mem \<times> pa_pat option) option" where
  "pa_pat_root_init alloc m ppip nodes klen =
     (if klen = 0 \<or> PA_PAT_MAXKEY < klen then None
      else if \<not> alloc then Some (m, None)
      else Some (wr16 (wr32 m ppip 0) (ppip + 4) klen, Some \<lparr>pp_infop = ppip, pp_nodes = nodes\<rparr>))"

definition pa_pat_open_nodes ::
  "bool \<Rightarrow> pa_mmap \<Rightarrow> string \<Rightarrow> pa_fixed \<Rightarrow> u16 \<Rightarrow> (pa_mmap \<times> pa_pat option) option" where
  "pa_pat_open_nodes alloc pmp name nodes klen =
     (case pa_mmap_header pmp (map of_char name) PA_TYPE_PAT 0 sizeof_pa_pat_info of
        (pmp, None) \<Rightarrow> Some (pmp, None)
      | (pmp, Some ppip) \<Rightarrow> do {
          (m, root) \<leftarrow> pa_pat_root_init alloc (pm_mem pmp) ppip nodes klen;
          Some (pmp\<lparr>pm_mem := m\<rparr>, root)
        })"

definition pa_pat_open ::
  "pa_os \<Rightarrow> pa_config_variable list \<Rightarrow> bool \<Rightarrow> bool \<Rightarrow> pa_mmap \<Rightarrow> string \<Rightarrow> u16 \<Rightarrow> u8 \<Rightarrow> u32
     \<Rightarrow> (pa_mmap \<times> pa_pat option) option" where
  "pa_pat_open os vars calloc alloc pmp name klen shift max_atoms = do {
     (pmp, pfp) \<leftarrow> pa_fixed_open os vars calloc pmp (Some name) shift (word_of_nat sizeof_pa_pat_node) max_atoms;
     (case pfp of
        None \<Rightarrow> Some (pmp, None)
      | Some pfp \<Rightarrow>
          pa_pat_open_nodes alloc pmp (pa_config_name PA_MMAP_HEADER_NAME_LEN name ''root'') pfp klen)
   }"

text \<open>Releasing the handle of a tree that is not empty fails an assertion.\<close>

definition pa_pat_root_delete :: "mem \<Rightarrow> pa_pat option \<Rightarrow> unit option" where
  "pa_pat_root_delete m root =
     (case root of None \<Rightarrow> Some () | Some r \<Rightarrow> if pp_root m r = 0 then Some () else None)"

end
