(* ===== verification/Papat_Bits.thy ===== *)
theory Papat_Bits
  imports Papat
begin

text \<open>
  The bit numbers of \<^verbatim>\<open>papat.c\<close>. Position \<open>p\<close> of a key is bit \<open>7 - p mod 8\<close> of byte \<open>p div 8\<close>; its
  patricia bit number grows with the position, \<^verbatim>\<open>pat_key_test\<close> reads the bit, and \<^verbatim>\<open>pa_pat_mismatch\<close>
  answers the number of the first position where two keys differ.
\<close>

definition pos_num :: "nat \<Rightarrow> nat" where
  "pos_num p = p div 8 * 256 + (255 - 2 ^ (7 - p mod 8))"

definition kbit :: "key \<Rightarrow> nat \<Rightarrow> bool" where
  "kbit k p = bit (k (p div 8)) (7 - p mod 8)"

lemma pos_low: "127 \<le> 255 - (2 :: nat) ^ (7 - p mod 8)" "255 - (2 :: nat) ^ (7 - p mod 8) < 255"
proof -
  have "(2 :: nat) ^ (7 - p mod 8) \<le> 2 ^ 7" by (intro power_increasing) auto
  then show "127 \<le> 255 - (2 :: nat) ^ (7 - p mod 8)" by simp
qed simp

lemma pos_num_pos: "0 < pos_num p"
  using pos_low(1) [of p] by (simp add: pos_num_def)

lemma pos_num_bounds: "p div 8 * 256 + 127 \<le> pos_num p" "pos_num p < p div 8 * 256 + 255"
  using pos_low [of p] by (simp_all only: pos_num_def add_le_cancel_left add_less_cancel_left)

lemma pos_num_mono: "p < q \<Longrightarrow> pos_num p < pos_num q"
proof -
  assume "p < q"
  then consider "p div 8 < q div 8" | "p div 8 = q div 8" "p mod 8 < q mod 8"
    by (metis div_le_mono div_mult_mod_eq le_neq_implies_less less_imp_le nat_add_left_cancel_less)
  then show ?thesis
  proof cases
    case 1
    moreover define i j where "i = p div 8" and "j = q div 8"
    ultimately show ?thesis
      using pos_num_bounds(2) [of p, folded i_def] pos_num_bounds(1) [of q, folded j_def] by linarith
  next
    case 2
    have "q mod 8 < 8" by simp
    then have "7 - q mod 8 < 7 - p mod 8" using 2(2) by linarith
    then have "(2 :: nat) ^ (7 - q mod 8) < 2 ^ (7 - p mod 8)" by (rule power_strict_increasing) simp
    moreover have "(2 :: nat) ^ (7 - q mod 8) \<le> 2 ^ 7" by (intro power_increasing) auto
    ultimately have "255 - (2 :: nat) ^ (7 - p mod 8) < 255 - 2 ^ (7 - q mod 8)"
      by (intro diff_less_mono2) simp_all
    then show ?thesis by (simp only: pos_num_def 2(1) add_less_cancel_left)
  qed
qed

lemma pos_num_less_iff: "pos_num p < pos_num q \<longleftrightarrow> p < q"
  using pos_num_mono [of p q] pos_num_mono [of q p] by (cases p q rule: linorder_cases) auto

lemma pos_num_eq_iff: "pos_num p = pos_num q \<longleftrightarrow> p = q"
  using pos_num_mono [of p q] pos_num_mono [of q p] by (cases p q rule: linorder_cases) auto

text \<open>Bit numbers against the length of a key in bytes.\<close>

lemma pos_num_less_len: "1 \<le> n \<Longrightarrow> pos_num p < n * 256 - 1 \<longleftrightarrow> p < 8 * n"
proof -
  assume n: "1 \<le> n"
  show ?thesis
  proof
    assume "pos_num p < n * 256 - 1"
    then have "p div 8 * 256 < n * 256" using pos_num_bounds(1) [of p] by linarith
    then show "p < 8 * n" by (simp add: div_less_iff_less_mult mult.commute)
  next
    assume "p < 8 * n"
    then have "p div 8 < n" by (simp add: div_less_iff_less_mult mult.commute)
    moreover define i where "i = p div 8"
    ultimately show "pos_num p < n * 256 - 1"
      using pos_num_bounds(2) [of p, folded i_def] by linarith
  qed
qed

lemma pa_pat_length_to_bit_nat:
  assumes "1 \<le> unat n" "unat n \<le> 256"
  shows "unat (pa_pat_length_to_bit n) = unat n * 256 - 1"
proof -
  have n1: "unat (n - 1) = unat n - 1" using assms(1) by (intro unat_minus_one) auto
  have ff: "(0xff :: u16) = mask 8" by (simp add: mask_eq_exp_minus_1)
  have "push_bit 8 (n - 1) OR 0xff = push_bit 8 (n - 1) + 0xff"
    unfolding ff by (rule disjunctive_add [symmetric]) (auto simp: bit_simps)
  moreover have "unat (push_bit 8 (n - 1)) = (unat n - 1) * 2 ^ 8"
    using assms by (subst unat_push_bit_less) (simp_all add: n1)
  moreover have "unat (push_bit 8 (n - 1) + 0xff) = (unat n - 1) * 2 ^ 8 + 255"
    using assms calculation(2) by (subst unat_add_less) simp_all
  ultimately show ?thesis using assms by (auto simp: pa_pat_length_to_bit_def)
qed

section \<open>Testing a bit\<close>

lemma pos_num_div: "pos_num p div 256 = p div 8" and pos_num_mod: "pos_num p mod 256 = 255 - 2 ^ (7 - p mod 8)"
  using pos_low(2) [of p] by (simp_all add: pos_num_def)

lemma unat_not: "unat (NOT x :: u8) = 255 - unat x"
proof -
  have "NOT x = - 1 - x" by (simp add: not_eq_complement)
  moreover have "unat (- 1 - x) = unat (- 1 :: u8) - unat x" by (rule unat_sub) simp
  ultimately show ?thesis by (simp add: unsigned_minus_1_eq_mask mask_eq_exp_minus_1)
qed

lemma pat_key_test_pos:
  assumes "unat b = pos_num p"
  shows "pat_key_test k b = kbit k p"
proof -
  let ?j = "7 - p mod 8"
  have "unat (drop_bit 8 b) = p div 8" using assms by (simp add: unat_drop_bit_div pos_num_div)
  moreover have "(ucast (NOT b) :: u8) = 2 ^ ?j"
  proof -
    have "unat (ucast b :: u8) = 255 - 2 ^ ?j"
      using assms pos_num_mod [of p] by (simp add: unsigned_ucast_eq take_bit_eq_mod)
    then have "unat (NOT (ucast b) :: u8) = 255 - (255 - 2 ^ ?j)"
      by (simp add: unat_not)
    moreover have "(2 :: nat) ^ ?j \<le> 2 ^ 7" by (intro power_increasing) auto
    ultimately have "unat (NOT (ucast b) :: u8) = 2 ^ ?j" by simp
    then have "NOT (ucast b) = (2 ^ ?j :: u8)" by (simp add: word_unat_eq_iff unat_exp)
    moreover have "(ucast (NOT b) :: u8) = NOT (ucast b)" by (rule bit_word_eqI) (simp add: bit_simps)
    ultimately show ?thesis by simp
  qed
  ultimately show ?thesis
    by (simp add: pat_key_test_def kbit_def and_exp_eq_0_iff_not_bit)
qed

section \<open>The first difference\<close>

lemma hi_bit_table:
  assumes "2 ^ h \<le> n" "n < 2 ^ Suc h" "h < 8"
  shows "pa_pat_hi_bit_table ! n = 2 ^ h"
proof -
  have tab: "pa_pat_hi_bit_table ! n = (if n = 0 then 0 else if n < 2 then 1 else if n < 4 then 2 else if n < 8 then 4
      else if n < 16 then 8 else if n < 32 then 16 else if n < 64 then 32 else if n < 128 then 64 else 128)"
    if "n < 256" using that by (auto simp: pa_pat_hi_bit_table_def nth_append nth_Cons' less_2_cases_iff)
  have "(2 :: nat) ^ Suc h \<le> 2 ^ 8" using assms(3) by (intro power_increasing) auto
  then have "n < 256" using assms(2) by simp
  note tab = tab [OF this]
  from assms(3) consider "h = 0" | "h = 1" | "h = 2" | "h = 3" | "h = 4" | "h = 5" | "h = 6" | "h = 7"
    by linarith
  then show ?thesis using assms(1,2) unfolding tab by cases auto
qed

lemma highest_bit:
  fixes x :: u8
  assumes "x \<noteq> 0"
  obtains h where "h < 8" "2 ^ h \<le> unat x" "unat x < 2 ^ Suc h"
proof -
  let ?P = "\<lambda>h. unat x < 2 ^ Suc h"
  have ex: "?P 7" using unsigned_less [of x, where 'a = nat] by simp
  define h where "h = (LEAST h. ?P h)"
  have h: "?P h" unfolding h_def by (rule LeastI [of ?P, OF ex])
  have "h \<le> 7" unfolding h_def by (rule Least_le [of ?P, OF ex])
  moreover have "2 ^ h \<le> unat x"
  proof (cases h)
    case 0
    with assms show ?thesis by (simp add: Suc_le_eq unat_gt_0)
  next
    case (Suc h')
    then have "\<not> ?P h'" unfolding h_def by (intro not_less_Least) simp
    with Suc show ?thesis by simp
  qed
  ultimately show thesis using h by (intro that [of h]) simp_all
qed

lemma bit_highest:
  fixes x :: u8
  assumes "2 ^ h \<le> unat x" "unat x < 2 ^ Suc h"
  shows "bit x h" "h < j \<Longrightarrow> \<not> bit x j"
proof -
  have "bit (unat x) h"
  proof -
    have "unat x div 2 ^ h = 1" using assms by (simp add: div_nat_eqI)
    then show ?thesis by (simp add: bit_iff_odd)
  qed
  then show "bit x h" by (simp add: bit_unsigned_iff)
  show "\<not> bit x j" if "h < j"
  proof -
    have "(2 :: nat) ^ Suc h \<le> 2 ^ j" using that by (intro power_increasing) auto
    with assms(2) have "unat x < 2 ^ j" by linarith
    then have "\<not> bit (unat x) j" by (simp add: bit_iff_odd)
    then show ?thesis using bit_imp_le_length [of x j] by (auto simp: bit_unsigned_iff)
  qed
qed

lemma pa_pat_makebit_pos:
  assumes "i < 256" "h < 8" "2 ^ h \<le> unat x" "unat x < 2 ^ Suc h"
  shows "unat (pa_pat_makebit (word_of_nat i) x) = pos_num (8 * i + (7 - h))"
proof -
  have tab: "pa_pat_hi_bit_table ! unat x = 2 ^ h" by (rule hi_bit_table [OF assms(3,4,2)])
  have ff: "(0xff :: u16) = mask 8" by (simp add: mask_eq_exp_minus_1)
  have i: "unat (word_of_nat i AND 0xff :: u16) = i"
    using unat_and_mask [of 8 "word_of_nat i :: u16"] assms(1) by (simp add: unat_of_nat)
  have hi: "unat (push_bit 8 (word_of_nat i AND 0xff :: u16)) = i * 256"
    using assms(1) by (subst unat_push_bit_less) (simp_all add: i)
  have "(2 :: nat) ^ h \<le> 2 ^ 7" using assms(2) by (intro power_increasing) auto
  then have lo: "unat (ucast (NOT (2 ^ h) :: u8) :: u16) = 255 - 2 ^ h"
    using assms(2) by (simp add: unat_ucast_up unat_not unat_exp)
  have "push_bit 8 (word_of_nat i AND 0xff) OR ucast (NOT (2 ^ h) :: u8)
      = push_bit 8 (word_of_nat i AND 0xff) + (ucast (NOT (2 ^ h) :: u8) :: u16)"
    by (rule disjunctive_add [symmetric]) (auto simp: bit_simps)
  moreover have "unat (push_bit 8 (word_of_nat i AND 0xff) + (ucast (NOT (2 ^ h) :: u8) :: u16)) = i * 256 + (255 - 2 ^ h)"
    using assms(1) by (subst unat_add_less) (simp_all only: hi lo, simp)
  moreover have pos: "(8 * i + j) div 8 = i \<and> (8 * i + j) mod 8 = j" if "j < 8" for j
    using that by simp
  have "7 - (7 - h) = h" using assms(2) by simp
  then have "pos_num (8 * i + (7 - h)) = i * 256 + (255 - 2 ^ h)"
    using pos [of "7 - h"] assms(2) by (simp only: pos_num_def)
  ultimately show ?thesis by (simp only: pa_pat_makebit_def tab)
qed

text \<open>Keys that agree on their first bytes, and keys that differ first at some position.\<close>

definition first_diff :: "key \<Rightarrow> key \<Rightarrow> nat \<Rightarrow> bool" where
  "first_diff k1 k2 p \<longleftrightarrow> kbit k1 p \<noteq> kbit k2 p \<and> (\<forall>q<p. kbit k1 q = kbit k2 q)"

lemma kbit_byte: "j < 8 \<Longrightarrow> kbit k (8 * i + j) = bit (k i) (7 - j)"
  by (simp add: kbit_def)

lemma byte_eq_iff: "k1 i = k2 i \<longleftrightarrow> (\<forall>j<8. kbit k1 (8 * i + j) = kbit k2 (8 * i + j))"
proof
  assume eq: "\<forall>j<8. kbit k1 (8 * i + j) = kbit k2 (8 * i + j)"
  show "k1 i = k2 i"
  proof (rule bit_word_eqI)
    fix n :: nat assume "n < LENGTH(8)"
    then have "7 - n < 8" "7 - (7 - n) = n" by auto
    with eq kbit_byte [of "7 - n" _ i] show "bit (k1 i) n = bit (k2 i) n" by metis
  qed
qed (simp add: kbit_byte)

lemma bytes_eq_iff: "(\<forall>i<n. k1 i = k2 i) \<longleftrightarrow> (\<forall>q<8 * n. kbit k1 q = kbit k2 q)"
proof
  assume eq: "\<forall>i<n. k1 i = k2 i"
  then show "\<forall>q<8 * n. kbit k1 q = kbit k2 q"
    by (auto simp: kbit_def div_less_iff_less_mult mult.commute)
next
  assume eq: "\<forall>q<8 * n. kbit k1 q = kbit k2 q"
  then show "\<forall>i<n. k1 i = k2 i" by (auto simp: byte_eq_iff)
qed

lemma mismatch_from:
  assumes "i + n \<le> 256" "\<forall>j<i. k1 j = k2 j"
  shows "(\<forall>j<i + n. k1 j = k2 j) \<and> pa_pat_mismatch_from k1 k2 bitlen i n = bitlen
    \<or> (\<exists>p<8 * (i + n). first_diff k1 k2 p \<and> unat (pa_pat_mismatch_from k1 k2 bitlen i n) = pos_num p)"
  using assms
proof (induction n arbitrary: i)
  case (Suc n)
  show ?case
  proof (cases "k1 i = k2 i")
    case True
    with Suc.prems have "\<forall>j<Suc i. k1 j = k2 j" by (auto simp: less_Suc_eq)
    with Suc.IH [of "Suc i"] Suc.prems(1) True show ?thesis by simp
  next
    case False
    let ?x = "k1 i XOR k2 i"
    have "?x \<noteq> 0"
    proof
      assume "?x = 0"
      then have "\<not> bit ?x j" for j by simp
      then have "bit (k1 i) j = bit (k2 i) j" for j by (simp add: bit_xor_iff)
      then have "k1 i = k2 i" by (simp add: bit_eq_iff)
      with False show False ..
    qed
    then obtain h where h: "h < 8" "2 ^ h \<le> unat ?x" "unat ?x < 2 ^ Suc h" by (rule highest_bit)
    let ?p = "8 * i + (7 - h)"
    have hi: "bit (k1 i) h \<noteq> bit (k2 i) h" "\<And>j. h < j \<Longrightarrow> bit (k1 i) j = bit (k2 i) j"
      using bit_highest [OF h(2,3)] by (auto simp: bit_xor_iff)
    have "first_diff k1 k2 ?p"
      unfolding first_diff_def
    proof (intro conjI allI impI)
      show "kbit k1 ?p \<noteq> kbit k2 ?p" using hi(1) h(1) kbit_byte [of "7 - h" _ i] by simp
      fix q assume "q < ?p"
      show "kbit k1 q = kbit k2 q"
      proof (cases "q < 8 * i")
        case True
        with Suc.prems(2) bytes_eq_iff [of i k1 k2] show ?thesis by blast
      next
        case False
        with \<open>q < ?p\<close> obtain j where "q = 8 * i + j" "j < 7 - h" by (metis le_iff_add nat_add_left_cancel_less not_le)
        with hi(2) [of "7 - j"] h(1) show ?thesis by (simp add: kbit_byte)
      qed
    qed
    moreover have "unat (pa_pat_makebit (word_of_nat i) ?x) = pos_num ?p"
      using Suc.prems(1) h by (intro pa_pat_makebit_pos) auto
    ultimately show ?thesis using False h(1) by (intro disjI2 exI [of _ ?p]) auto
  qed
qed simp

lemma pa_pat_mismatch_spec:
  assumes "unat bitlen div 256 = n"
  shows "(\<forall>j<n + 1. k1 j = k2 j) \<and> pa_pat_mismatch k1 k2 bitlen = bitlen
    \<or> (\<exists>p<8 * (n + 1). first_diff k1 k2 p \<and> unat (pa_pat_mismatch k1 k2 bitlen) = pos_num p)"
proof -
  have "unat bitlen < 2 ^ LENGTH(16)" by (rule unsigned_less)
  then have n: "n < 256" using assms by auto
  have "unat (drop_bit 8 bitlen) = n" using assms by (simp add: unat_drop_bit_div)
  then have "unat (drop_bit 8 bitlen + 1) = n + 1" using n by (subst unat_add_less) simp_all
  with mismatch_from [of 0 "n + 1" k1 k2 bitlen] n show ?thesis by (simp add: pa_pat_mismatch_def)
qed

text \<open>For a limit that is the length of a key: the answer is below the limit exactly when the keys
  differ within that many bytes, and then it is the first position where they do.\<close>

lemma pa_pat_mismatch_len:
  assumes "unat bitlen = n * 256 - 1" "1 \<le> n" "n \<le> 256"
  shows "pa_pat_mismatch k1 k2 bitlen < bitlen \<longleftrightarrow> (\<exists>i<n. k1 i \<noteq> k2 i)"
    and "pa_pat_mismatch k1 k2 bitlen < bitlen \<Longrightarrow>
      \<exists>p<8 * n. first_diff k1 k2 p \<and> unat (pa_pat_mismatch k1 k2 bitlen) = pos_num p"
proof -
  have d: "unat bitlen div 256 = n - 1" using assms by (cases n) auto
  have n: "n - 1 + 1 = n" using assms(2) by simp
  note spec = pa_pat_mismatch_spec [OF d, of k1 k2, unfolded n]
  have lt: "pa_pat_mismatch k1 k2 bitlen < bitlen" if "p < 8 * n" "unat (pa_pat_mismatch k1 k2 bitlen) = pos_num p" for p
    using that pos_num_less_len [OF assms(2), of p] assms(1) by (simp add: word_less_nat_alt)
  have ne: "\<exists>i<n. k1 i \<noteq> k2 i" if "p < 8 * n" "first_diff k1 k2 p" for p
    using that bytes_eq_iff [of n k1 k2] by (auto simp: first_diff_def)
  show "pa_pat_mismatch k1 k2 bitlen < bitlen \<longleftrightarrow> (\<exists>i<n. k1 i \<noteq> k2 i)"
    using spec lt ne by auto
  show "\<exists>p<8 * n. first_diff k1 k2 p \<and> unat (pa_pat_mismatch k1 k2 bitlen) = pos_num p"
    if "pa_pat_mismatch k1 k2 bitlen < bitlen" using spec that by auto
qed

end
