(* ===== verification/Papat_Tree.thy ===== *)
theory Papat_Tree
  imports Papat_Bits
begin

text \<open>
  The trees behind the node arrays of \<^verbatim>\<open>papat.c\<close>. A node of the program is met twice on the way
  down, as an inner node, where its bit number grows, and as a leaf, where a link leads up again. The
  datatype \<open>pt\<close> has both roles apart; \<open>link\<close> says that the nodes represent a tree, \<open>kwf\<close> that the
  positions of the inner nodes separate the keys of the leaves.
\<close>

section \<open>Trees\<close>

datatype pt = Lf u32 | Nd u32 nat pt pt

fun lv :: "pt \<Rightarrow> u32 list" where
  "lv (Lf y) = [y]"
| "lv (Nd x p l r) = lv l @ lv r"

fun inn :: "pt \<Rightarrow> u32 list" where
  "inn (Lf y) = []"
| "inn (Nd x p l r) = x # inn l @ inn r"

fun link :: "nodes \<Rightarrow> nat \<Rightarrow> u32 \<Rightarrow> pt \<Rightarrow> bool" where
  "link nd b a (Lf y) \<longleftrightarrow> y = a \<and> (\<exists>n. nd a = Some n \<and> unat (ppn_bit n) \<le> b)"
| "link nd b a (Nd x p l r) \<longleftrightarrow> x = a \<and> (\<exists>n. nd a = Some n \<and> unat (ppn_bit n) = pos_num p \<and> b < pos_num p
     \<and> link nd (pos_num p) (ppn_left n) l \<and> link nd (pos_num p) (ppn_right n) r)"

fun kwf :: "(u32 \<Rightarrow> key) \<Rightarrow> (u32 \<Rightarrow> nat) \<Rightarrow> pt \<Rightarrow> bool" where
  "kwf K L (Lf y) \<longleftrightarrow> True"
| "kwf K L (Nd x p l r) \<longleftrightarrow> (\<forall>y\<in>set (lv l) \<union> set (lv r). p < 8 * L y)
     \<and> (\<forall>y\<in>set (lv l). \<not> kbit (K y) p) \<and> (\<forall>y\<in>set (lv r). kbit (K y) p)
     \<and> (\<forall>y\<in>set (lv l) \<union> set (lv r). \<forall>z\<in>set (lv l) \<union> set (lv r). \<forall>q<p. kbit (K y) q = kbit (K z) q)
     \<and> kwf K L l \<and> kwf K L r"

definition parts :: "(u32 \<Rightarrow> key) \<Rightarrow> (u32 \<Rightarrow> nat) \<Rightarrow> nat \<Rightarrow> u32 set \<Rightarrow> u32 set \<Rightarrow> bool" where
  "parts K L p A B \<longleftrightarrow> (\<forall>y\<in>A \<union> B. p < 8 * L y) \<and> (\<forall>y\<in>A. \<not> kbit (K y) p) \<and> (\<forall>y\<in>B. kbit (K y) p)
     \<and> (\<forall>y\<in>A \<union> B. \<forall>z\<in>A \<union> B. \<forall>q<p. kbit (K y) q = kbit (K z) q)"

lemma kwf_Nd: "kwf K L (Nd x p l r) \<longleftrightarrow> parts K L p (set (lv l)) (set (lv r)) \<and> kwf K L l \<and> kwf K L r"
  by (simp add: parts_def)

lemma parts_insert_right:
  assumes "parts K L p A B" "c \<in> A \<union> B" "\<forall>q<p. kbit (K a) q = kbit (K c) q" "p < 8 * L a" "kbit (K a) p"
  shows "parts K L p A (insert a B)"
  using assms unfolding parts_def by (metis Un_insert_right insertE)

lemma parts_insert_left:
  assumes "parts K L p A B" "c \<in> A \<union> B" "\<forall>q<p. kbit (K a) q = kbit (K c) q" "p < 8 * L a" "\<not> kbit (K a) p"
  shows "parts K L p (insert a A) B"
  using assms unfolding parts_def by (metis Un_insert_left insertE)

lemma parts_split:
  assumes "\<forall>y\<in>A. (\<forall>q<p. kbit (K y) q = kbit (K a) q) \<and> kbit (K y) p \<noteq> kbit (K a) p \<and> p < 8 * L y" "p < 8 * L a"
  shows "kbit (K a) p \<Longrightarrow> parts K L p A {a}" "\<not> kbit (K a) p \<Longrightarrow> parts K L p {a} A"
  using assms by (auto simp: parts_def)

lemma parts_first_diff: "parts K L p A B \<Longrightarrow> y \<in> A \<Longrightarrow> z \<in> B \<Longrightarrow> first_diff (K y) (K z) p"
  by (auto simp: parts_def first_diff_def)

lemma lv_not_Nil [simp]: "lv t \<noteq> []" "[] \<noteq> lv t"
  by (induction t) auto

lemma kwf_disjoint: "kwf K L (Nd x p l r) \<Longrightarrow> set (lv l) \<inter> set (lv r) = {}"
  by auto

lemma kwf_distinct: "kwf K L t \<Longrightarrow> distinct (lv t)"
  by (induction t) auto

lemma kwf_cong: "(\<forall>y\<in>set (lv t). K' y = K y \<and> L' y = L y) \<Longrightarrow> kwf K' L' t = kwf K L t"
  by (induction t) auto

section \<open>Walking\<close>

definition goes_right :: "key \<Rightarrow> nat \<Rightarrow> nat \<Rightarrow> bool" where
  "goes_right k n p \<longleftrightarrow> p < n \<and> kbit k p"

fun srch :: "key \<Rightarrow> nat \<Rightarrow> pt \<Rightarrow> u32" where
  "srch k n (Lf y) = y"
| "srch k n (Nd x p l r) = (if goes_right k n p then srch k n r else srch k n l)"

fun last_left :: "key \<Rightarrow> nat \<Rightarrow> u32 \<Rightarrow> pt \<Rightarrow> u32" where
  "last_left k n c (Lf y) = c"
| "last_left k n c (Nd x p l r) = (if goes_right k n p then last_left k n c r else last_left k n x l)"

fun last_right :: "key \<Rightarrow> nat \<Rightarrow> u32 \<Rightarrow> pt \<Rightarrow> u32" where
  "last_right k n c (Lf y) = c"
| "last_right k n c (Nd x p l r) = (if goes_right k n p then last_right k n x r else last_right k n c l)"

lemma srch_lv: "srch k n t \<in> set (lv t)"
  by (induction t) auto

lemma pa_pat_walk_tree:
  assumes "link nd b a t" "unat bw = b" "\<And>p. pos_num p < unat keylen \<longleftrightarrow> p < n"
  shows "pa_pat_walk nd keylen k bw a ll lr = Some (srch k n t, last_left k n ll t, last_right k n lr t)"
  using assms(1,2)
proof (induction t arbitrary: b a bw ll lr)
  case (Lf y)
  then show ?case by (auto simp: pa_pat_walk.simps [of _ _ _ bw] word_less_nat_alt)
next
  case (Nd x p l r)
  then obtain m where m: "x = a" "nd a = Some m" "unat (ppn_bit m) = pos_num p" "b < pos_num p"
    "link nd (pos_num p) (ppn_left m) l" "link nd (pos_num p) (ppn_right m) r" by auto
  have "ppn_bit m < keylen \<longleftrightarrow> p < n"
    using m(3) assms(3) by (simp add: word_less_nat_alt)
  moreover have "pat_key_test k (ppn_bit m) = kbit k p" by (rule pat_key_test_pos) (rule m(3))
  moreover have "bw < ppn_bit m" using Nd.prems(2) m(3,4) by (simp add: word_less_nat_alt)
  moreover note Nd.IH(1) [OF m(5,3)] Nd.IH(2) [OF m(6,3)]
  ultimately show ?case
    using m(1,2) by (simp add: pa_pat_walk.simps [of _ _ _ bw] goes_right_def)
qed

lemma pa_pat_find_leftmost_tree:
  assumes "link nd b a t" "unat bw = b"
  shows "pa_pat_find_leftmost nd bw a = Some (hd (lv t))"
  using assms
proof (induction t arbitrary: b a bw)
  case (Lf y)
  then show ?case by (auto simp: pa_pat_find_leftmost.simps [of _ bw] word_less_nat_alt)
next
  case (Nd x p l r)
  then obtain m where m: "nd a = Some m" "unat (ppn_bit m) = pos_num p" "b < pos_num p"
    "link nd (pos_num p) (ppn_left m) l" by auto
  have "bw < ppn_bit m" using Nd.prems(2) m(2,3) by (simp add: word_less_nat_alt)
  with Nd.IH(1) [OF m(4,2)] m(1) show ?case by (simp add: pa_pat_find_leftmost.simps [of _ bw])
qed

lemma pa_pat_find_rightmost_tree:
  assumes "link nd b a t" "unat bw = b"
  shows "pa_pat_find_rightmost nd bw a = Some (last (lv t))"
  using assms
proof (induction t arbitrary: b a bw)
  case (Lf y)
  then show ?case by (auto simp: pa_pat_find_rightmost.simps [of _ bw] word_less_nat_alt)
next
  case (Nd x p l r)
  then obtain m where m: "nd a = Some m" "unat (ppn_bit m) = pos_num p" "b < pos_num p"
    "link nd (pos_num p) (ppn_right m) r" by auto
  have "bw < ppn_bit m" using Nd.prems(2) m(2,3) by (simp add: word_less_nat_alt)
  with Nd.IH(2) [OF m(4,2)] m(1) show ?case by (simp add: pa_pat_find_rightmost.simps [of _ bw])
qed

section \<open>Searching\<close>

text \<open>The search for the first \<open>n\<close> bits of a key ends at the first leaf that has them, if there is one.\<close>

definition has_bits :: "key \<Rightarrow> nat \<Rightarrow> key \<Rightarrow> nat \<Rightarrow> bool" where
  "has_bits k n k' n' \<longleftrightarrow> n \<le> 8 * n' \<and> (\<forall>q<n. kbit k q = kbit k' q)"

lemma find_append: "find P (xs @ ys) = (case find P xs of None \<Rightarrow> find P ys | Some x \<Rightarrow> Some x)"
  by (induction xs) auto

lemma find_none: "\<forall>x\<in>set xs. \<not> P x \<Longrightarrow> find P xs = None"
  by (simp add: find_None_iff)

lemma srch_prefix:
  assumes "kwf K L t"
  shows "find (\<lambda>z. has_bits k n (K z) (L z)) (lv t)
    = (if has_bits k n (K (srch k n t)) (L (srch k n t)) then Some (srch k n t) else None)"
  using assms
proof (induction t)
  case (Nd x p l r)
  let ?P = "\<lambda>z. has_bits k n (K z) (L z)"
  have pt: "parts K L p (set (lv l)) (set (lv r))" and kw: "kwf K L l" "kwf K L r"
    using Nd.prems unfolding kwf_Nd by simp_all
  show ?case
  proof (cases "p < n")
    case True
    have "\<not> ?P z" if "z \<in> set (lv (if kbit k p then l else r))" for z
      using that pt True by (cases "kbit k p") (auto simp: has_bits_def parts_def)
    then have "find ?P (lv (if kbit k p then l else r)) = None" by (simp add: find_None_iff)
    with Nd.IH kw True show ?thesis
      by (cases "kbit k p") (simp_all add: find_append goes_right_def split: option.split)
  next
    case False
    let ?c = "srch k n l"
    have c: "?c \<in> set (lv l)" by (rule srch_lv)
    have "?P z \<longleftrightarrow> ?P ?c" if "z \<in> set (lv r)" for z
    proof -
      have "n \<le> 8 * L z" "n \<le> 8 * L ?c" using pt that c False unfolding parts_def by (metis UnI1 UnI2 leI order.strict_implies_order order_trans)+
      moreover have "kbit (K z) q = kbit (K ?c) q" if "q < n" for q
        using pt c \<open>z \<in> set (lv r)\<close> that False unfolding parts_def by (meson UnI1 UnI2 leI less_le_trans)
      ultimately show ?thesis by (simp add: has_bits_def)
    qed
    then have "\<not> ?P ?c \<Longrightarrow> find ?P (lv r) = None" by (intro find_none) blast
    with Nd.IH(1) kw False show ?thesis by (simp add: find_append goes_right_def)
  qed
qed simp

lemma srch_found:
  assumes "kwf K L t" "z \<in> set (lv t)" "L z = n" "\<forall>q<8 * n. kbit k q = kbit (K z) q"
  shows "srch k (8 * n) t = z"
  using assms by (induction t) (auto simp: goes_right_def)

lemma srch_self: "kwf K L t \<Longrightarrow> z \<in> set (lv t) \<Longrightarrow> srch (K z) (8 * L z) t = z"
  by (rule srch_found) auto

text \<open>Two keys are related when they agree on their common length.\<close>

definition key_rel :: "key \<Rightarrow> nat \<Rightarrow> key \<Rightarrow> nat \<Rightarrow> bool" where
  "key_rel k1 n1 k2 n2 \<longleftrightarrow> (\<forall>i<min n1 n2. k1 i = k2 i)"

lemma key_rel_bits: "key_rel k1 n1 k2 n2 \<longleftrightarrow> (\<forall>q<8 * min n1 n2. kbit k1 q = kbit k2 q)"
  unfolding key_rel_def by (rule bytes_eq_iff)

lemma not_key_relI: "kbit k1 q \<noteq> kbit k2 q \<Longrightarrow> q < 8 * n1 \<Longrightarrow> q < 8 * n2 \<Longrightarrow> \<not> key_rel k1 n1 k2 n2"
  unfolding key_rel_bits by (auto simp: min_def)

lemma srch_unrelated:
  assumes "kwf K L t" "first_diff k (K (srch k (8 * n) t)) d" "d < 8 * n" "d < 8 * L (srch k (8 * n) t)" "z \<in> set (lv t)"
  shows "\<not> key_rel k n (K z) (L z)"
  using assms
proof (induction t)
  case (Lf y)
  then show ?case using not_key_relI [of k d "K y" n "L y"] by (simp add: first_diff_def)
next
  case (Nd x p l r)
  let ?c = "srch k (8 * n) (Nd x p l r)"
  let ?s = "if goes_right k (8 * n) p then r else l" and ?o = "if goes_right k (8 * n) p then l else r"
  have c: "?c = srch k (8 * n) ?s" by simp
  have cA: "?c \<in> set (lv l) \<union> set (lv r)" using srch_lv [of k "8 * n" "Nd x p l r"] by simp
  have pt: "parts K L p (set (lv l)) (set (lv r))" and ks: "kwf K L ?s"
    using Nd.prems(1) unfolding kwf_Nd by simp_all
  have zA: "z \<in> set (lv l) \<union> set (lv r)" using Nd.prems(5) by simp
  have zp: "p < 8 * L z" using pt zA unfolding parts_def by blast
  show ?case
  proof (cases "z \<in> set (lv ?s)")
    case True
    have "kwf K L l" "kwf K L r" using Nd.prems(1) unfolding kwf_Nd by simp_all
    then show ?thesis
      using Nd.IH Nd.prems(2-4) True unfolding c by (cases "goes_right k (8 * n) p") simp_all
  next
    case False
    with Nd.prems(5) have z: "z \<in> set (lv ?o)" by (cases "goes_right k (8 * n) p") simp_all
    show ?thesis
    proof (cases "p < 8 * n")
      case True
      then have "kbit k p \<noteq> kbit (K z) p"
        using z pt by (cases "kbit k p") (simp_all add: goes_right_def parts_def)
      then show ?thesis by (rule not_key_relI [OF _ True zp])
    next
      case False
      with Nd.prems(3) have d: "d < p" by linarith
      then have "kbit (K ?c) d = kbit (K z) d" using pt cA zA unfolding parts_def by blast
      then have ne: "kbit k d \<noteq> kbit (K z) d" using Nd.prems(2) by (simp add: first_diff_def)
      have "d < 8 * L z" using d zp by simp
      then show ?thesis by (rule not_key_relI [OF ne Nd.prems(3)])
    qed
  qed
qed

section \<open>Order\<close>

text \<open>Leaves from left to right differ first at a position where the left one has a zero.\<close>

definition key_less :: "key \<Rightarrow> nat \<Rightarrow> key \<Rightarrow> nat \<Rightarrow> bool" where
  "key_less k1 n1 k2 n2 \<longleftrightarrow> (\<exists>p. p < 8 * n1 \<and> p < 8 * n2 \<and> first_diff k1 k2 p \<and> \<not> kbit k1 p)"

lemma kwf_sorted: "kwf K L t \<Longrightarrow> sorted_wrt (\<lambda>y z. key_less (K y) (L y) (K z) (L z)) (lv t)"
proof (induction t)
  case (Nd x p l r)
  have "key_less (K y) (L y) (K z) (L z)" if "y \<in> set (lv l)" "z \<in> set (lv r)" for y z
    unfolding key_less_def first_diff_def using that Nd.prems by (intro exI [of _ p]) auto
  with Nd show ?case by (simp add: sorted_wrt_append)
qed simp

section \<open>Neighbours\<close>

definition after_in :: "u32 \<Rightarrow> u32 list \<Rightarrow> u32 list" where
  "after_in a zs = tl (dropWhile (\<lambda>x. x \<noteq> a) zs)"

definition before_in :: "u32 \<Rightarrow> u32 list \<Rightarrow> u32 list" where
  "before_in a zs = takeWhile (\<lambda>x. x \<noteq> a) zs"

lemma dropWhile_ne: "a \<in> set xs \<Longrightarrow> dropWhile (\<lambda>x. x \<noteq> a) xs \<noteq> []"
  by (induction xs) auto

lemma after_in_left: "a \<in> set xs \<Longrightarrow> after_in a (xs @ ys) = after_in a xs @ ys"
  using dropWhile_ne [of a xs] by (simp add: after_in_def dropWhile_append1)

lemma after_in_right: "a \<notin> set xs \<Longrightarrow> after_in a (xs @ ys) = after_in a ys"
  by (simp add: after_in_def dropWhile_append)

lemma before_in_left: "a \<in> set xs \<Longrightarrow> before_in a (xs @ ys) = before_in a xs"
  by (simp add: before_in_def takeWhile_append1)

lemma before_in_right: "a \<notin> set xs \<Longrightarrow> before_in a (xs @ ys) = xs @ before_in a ys"
  by (simp add: before_in_def takeWhile_append)

lemma after_before_split:
  assumes "distinct (xs @ a # ys)"
  shows "after_in a (xs @ a # ys) = ys" "before_in a (xs @ a # ys) = xs"
proof -
  have a: "a \<notin> set xs" using assms by simp
  show "after_in a (xs @ a # ys) = ys" by (simp add: after_in_right [OF a]) (simp add: after_in_def)
  show "before_in a (xs @ a # ys) = xs" by (simp add: before_in_right [OF a]) (simp add: before_in_def)
qed

lemma last_left_spec:
  assumes "link nd b a0 t" "kwf K L t" "a \<in> set (lv t)"
  shows "if after_in a (lv t) = [] then last_left (K a) (8 * L a) c t = c
    else last_left (K a) (8 * L a) c t \<in> set (inn t) \<and>
      (\<exists>n p r. nd (last_left (K a) (8 * L a) c t) = Some n \<and> unat (ppn_bit n) = pos_num p
        \<and> link nd (pos_num p) (ppn_right n) r \<and> hd (lv r) = hd (after_in a (lv t))
        \<and> first_diff (K a) (K (hd (after_in a (lv t)))) p)"
  using assms
proof (induction t arbitrary: b a0 c)
  case (Lf y)
  then show ?case by (simp add: after_in_def)
next
  case (Nd x p l r)
  then obtain m where m: "x = a0" "nd a0 = Some m" "unat (ppn_bit m) = pos_num p"
    "link nd (pos_num p) (ppn_left m) l" "link nd (pos_num p) (ppn_right m) r" by auto
  have kl: "kwf K L l" and kr: "kwf K L r" using Nd.prems(2) by auto
  show ?case
  proof (cases "a \<in> set (lv l)")
    case True
    then have g: "\<not> goes_right (K a) (8 * L a) p" using Nd.prems(2) by (auto simp: goes_right_def)
    show ?thesis
    proof (cases "after_in a (lv l) = []")
      case True': True
      with Nd.IH(1) [OF m(4) kl True, of x] have "last_left (K a) (8 * L a) x l = a0" using m(1) by simp
      moreover have "first_diff (K a) (K (hd (lv r))) p"
        using Nd.prems(2) True hd_in_set [OF lv_not_Nil(1) [of r]] unfolding kwf_Nd
        by (intro parts_first_diff) auto
      ultimately show ?thesis using g True' m by (auto simp: after_in_left [OF True])
    next
      case False
      with Nd.IH(1) [OF m(4) kl True, of x] g show ?thesis
        by (simp add: after_in_left [OF True])
    qed
  next
    case False
    with Nd.prems(3) have ar: "a \<in> set (lv r)" by simp
    then have "goes_right (K a) (8 * L a) p" using Nd.prems(2) by (auto simp: goes_right_def)
    with Nd.IH(2) [OF m(5) kr ar, of c] show ?thesis
      by (simp add: after_in_right [OF False] split: if_splits)
  qed
qed

lemma last_right_spec:
  assumes "link nd b a0 t" "kwf K L t" "a \<in> set (lv t)"
  shows "if before_in a (lv t) = [] then last_right (K a) (8 * L a) c t = c
    else last_right (K a) (8 * L a) c t \<in> set (inn t) \<and>
      (\<exists>n p l. nd (last_right (K a) (8 * L a) c t) = Some n \<and> unat (ppn_bit n) = pos_num p
        \<and> link nd (pos_num p) (ppn_left n) l \<and> last (lv l) = last (before_in a (lv t)))"
  using assms
proof (induction t arbitrary: b a0 c)
  case (Lf y)
  then show ?case by (simp add: before_in_def)
next
  case (Nd x p l r)
  then obtain m where m: "x = a0" "nd a0 = Some m" "unat (ppn_bit m) = pos_num p"
    "link nd (pos_num p) (ppn_left m) l" "link nd (pos_num p) (ppn_right m) r" by auto
  have kl: "kwf K L l" and kr: "kwf K L r" using Nd.prems(2) by auto
  show ?case
  proof (cases "a \<in> set (lv l)")
    case True
    then have "\<not> goes_right (K a) (8 * L a) p" using Nd.prems(2) by (auto simp: goes_right_def)
    with Nd.IH(1) [OF m(4) kl True, of c] show ?thesis
      by (simp add: before_in_left [OF True] split: if_splits)
  next
    case False
    with Nd.prems(3) have ar: "a \<in> set (lv r)" by simp
    then have g: "goes_right (K a) (8 * L a) p" using Nd.prems(2) by (auto simp: goes_right_def)
    show ?thesis
    proof (cases "before_in a (lv r) = []")
      case True
      with Nd.IH(2) [OF m(5) kr ar, of x] have "last_right (K a) (8 * L a) x r = a0" using m(1) by simp
      with g True m show ?thesis by (auto simp: before_in_right [OF False])
    next
      case ne: False
      with Nd.IH(2) [OF m(5) kr ar, of x] g show ?thesis
        by (simp add: before_in_right [OF False])
    qed
  qed
qed

end
