(* ===== verification/Papat_Insert.thy ===== *)
theory Papat_Insert
  imports Papat_Tree
begin

text \<open>
  Insertion into the trees of \<^verbatim>\<open>papat.c\<close>: \<open>ins\<close> puts a leaf at the first position where its key
  differs from the leaf the search ends at, which is what the walk of \<^verbatim>\<open>pa_pat_add_node\<close> and its
  store into the parent link do to the nodes.
\<close>

fun ins :: "key \<Rightarrow> nat \<Rightarrow> u32 \<Rightarrow> pt \<Rightarrow> pt" where
  "ins k d a (Lf y) = (if kbit k d then Nd a d (Lf y) (Lf a) else Nd a d (Lf a) (Lf y))"
| "ins k d a (Nd x p l r) =
     (if p < d then (if kbit k p then Nd x p l (ins k d a r) else Nd x p (ins k d a l) r)
      else (if kbit k d then Nd a d (Nd x p l r) (Lf a) else Nd a d (Lf a) (Nd x p l r)))"

text \<open>No inner node on the way has the position itself.\<close>

fun fits :: "key \<Rightarrow> nat \<Rightarrow> pt \<Rightarrow> bool" where
  "fits k d (Lf y) \<longleftrightarrow> True"
| "fits k d (Nd x p l r) \<longleftrightarrow> p \<noteq> d \<and> (p < d \<longrightarrow> (if kbit k p then fits k d r else fits k d l))"

lemma lv_ins: "set (lv (ins k d a t)) = insert a (set (lv t))"
  by (induction t) auto

lemma inn_ins: "set (inn (ins k d a t)) = insert a (set (inn t))"
  by (induction t) auto

lemma distinct_inn_ins: "distinct (inn t) \<Longrightarrow> a \<notin> set (inn t) \<Longrightarrow> distinct (inn (ins k d a t))"
  by (induction t) (auto simp: inn_ins)

lemma fits_srch:
  assumes "kwf K L t" "first_diff k (K (srch k (8 * n) t)) d" "d < 8 * n"
  shows "fits k d t"
  using assms
proof (induction t)
  case (Nd x p l r)
  have "p \<noteq> d"
  proof
    assume "p = d"
    then have "kbit (K (srch k (8 * n) (Nd x p l r))) d = kbit k d"
      using Nd.prems(1,3) srch_lv [of k "8 * n" l] srch_lv [of k "8 * n" r] by (auto simp: goes_right_def)
    with Nd.prems(2) show False by (simp add: first_diff_def)
  qed
  with Nd show ?case by (auto simp: goes_right_def)
qed simp

lemma kwf_ins:
  assumes "kwf K L t" "fits k d t" "first_diff k (K (srch k (8 * n) t)) d" "d < 8 * n" "d < 8 * L (srch k (8 * n) t)"
    and "K a = k" "L a = n"
  shows "kwf K L (ins k d a t)"
  using assms(1-5)
proof (induction t)
  case (Lf y)
  then have "\<forall>z\<in>{y}. (\<forall>q<d. kbit (K z) q = kbit (K a) q) \<and> kbit (K z) d \<noteq> kbit (K a) d \<and> d < 8 * L z"
    using assms(6) by (auto simp: first_diff_def)
  note sp = parts_split [OF this]
  show ?case using sp Lf.prems(4) assms(6,7) by (simp add: kwf_Nd del: kwf.simps(2))
next
  case (Nd x p l r)
  let ?c = "srch k (8 * n) (Nd x p l r)" and ?A = "set (lv l) \<union> set (lv r)"
  have c: "?c \<in> ?A" using srch_lv [of k "8 * n" "Nd x p l r"] by simp
  have pt: "parts K L p (set (lv l)) (set (lv r))" and kl: "kwf K L l" and kr: "kwf K L r"
    using Nd.prems(1) unfolding kwf_Nd by simp_all
  show ?case
  proof (cases "p < d")
    case True
    then have g: "goes_right k (8 * n) p = kbit k p" using Nd.prems(4) by (simp add: goes_right_def)
    have k: "\<forall>q<p. kbit (K a) q = kbit (K ?c) q" using Nd.prems(3) True assms(6) by (simp add: first_diff_def)
    have pn: "p < 8 * L a" using True Nd.prems(4) assms(7) by simp
    show ?thesis
    proof (cases "kbit k p")
      case kb: True
      then have "kwf K L (ins k d a r)" using Nd.IH(2) [OF kr] Nd.prems g True by simp
      with kb True kl parts_insert_right [OF pt c k pn] assms(6) show ?thesis
        by (simp add: kwf_Nd lv_ins del: kwf.simps(2))
    next
      case kb: False
      then have "kwf K L (ins k d a l)" using Nd.IH(1) [OF kl] Nd.prems g True by simp
      with kb True kr parts_insert_left [OF pt c k pn] assms(6) show ?thesis
        by (simp add: kwf_Nd lv_ins del: kwf.simps(2))
    qed
  next
    case False
    with Nd.prems(2) have "d < p" by simp
    have "\<forall>y\<in>?A. (\<forall>q<d. kbit (K y) q = kbit (K a) q) \<and> kbit (K y) d \<noteq> kbit (K a) d \<and> d < 8 * L y"
    proof
      fix y assume y: "y \<in> ?A"
      have agree: "kbit (K y) q = kbit (K ?c) q" if "q < p" for q
        using pt y c that unfolding parts_def by blast
      have "p < 8 * L y" using pt y unfolding parts_def by blast
      with agree \<open>d < p\<close> Nd.prems(3) assms(6)
      show "(\<forall>q<d. kbit (K y) q = kbit (K a) q) \<and> kbit (K y) d \<noteq> kbit (K a) d \<and> d < 8 * L y"
        by (simp add: first_diff_def)
    qed
    note sp = parts_split [OF this]
    have "d < 8 * L a" using Nd.prems(4) assms(7) by simp
    with sp Nd.prems(1) False assms(6) show ?thesis
      by (simp add: kwf_Nd [of _ _ a] del: kwf.simps(2))
  qed
qed

section \<open>The nodes after an insertion\<close>

fun ptrs :: "pt \<Rightarrow> pa_pat_ptr set" where
  "ptrs t = LeftPtr ` set (inn t) \<union> RightPtr ` set (inn t)"

declare ptrs.simps [simp del]

lemma ptrs_Lf [simp]: "ptrs (Lf y) = {}" by (simp add: ptrs.simps)
lemma ptrs_Nd [simp]: "ptrs (Nd x p l r) = {LeftPtr x, RightPtr x} \<union> ptrs l \<union> ptrs r"
  by (auto simp: ptrs.simps)
lemma ptrs_iff [simp]: "LeftPtr x \<in> ptrs t \<longleftrightarrow> x \<in> set (inn t)" "RightPtr x \<in> ptrs t \<longleftrightarrow> x \<in> set (inn t)"
  "RootPtr \<notin> ptrs t"
  by (auto simp: ptrs.simps)

lemma ptrs_disjoint: "set (inn l) \<inter> set (inn r) = {} \<Longrightarrow> ptr \<in> ptrs l \<Longrightarrow> ptr \<notin> ptrs r"
  by (auto simp: ptrs.simps)

text \<open>A node with the link at \<open>ptr\<close> replaced.\<close>

definition relink :: "pa_pat_ptr \<Rightarrow> u32 \<Rightarrow> u32 \<Rightarrow> pa_pat_node_t option \<Rightarrow> pa_pat_node_t option" where
  "relink ptr atom y n = (case ptr of RootPtr \<Rightarrow> n
     | LeftPtr x \<Rightarrow> if x = y then map_option (ppn_left_update (\<lambda>_. atom)) n else n
     | RightPtr x \<Rightarrow> if x = y then map_option (ppn_right_update (\<lambda>_. atom)) n else n)"

lemma relink_bit [simp]: "map_option ppn_bit (relink ptr atom y n) = map_option ppn_bit n"
  by (cases n) (simp_all add: relink_def split: pa_pat_ptr.splits)

lemma relink_other: "ptr \<noteq> LeftPtr y \<Longrightarrow> ptr \<noteq> RightPtr y \<Longrightarrow> relink ptr atom y n = n"
  by (auto simp: relink_def split: pa_pat_ptr.splits)

lemma relink_outside: "ptr \<notin> ptrs t \<Longrightarrow> y \<in> set (inn t) \<Longrightarrow> relink ptr atom y n = n"
  by (rule relink_other) auto

lemma link_frame:
  assumes "link nd b a t" "\<forall>y\<in>set (inn t). nd' y = nd y"
    and "\<forall>y\<in>set (lv t). map_option ppn_bit (nd' y) = map_option ppn_bit (nd y)"
  shows "link nd' b a t"
  using assms by (induction t arbitrary: b a) (auto simp: map_option_eq_Some)

lemma link_relinked:
  assumes "link nd b a t" "ptr \<notin> ptrs t" "\<forall>y\<in>set (lv t) \<union> set (inn t). nd' y = relink ptr atom y (nd y)"
  shows "link nd' b a t"
  by (rule link_frame [OF assms(1)]) (use assms(2,3) in \<open>simp_all add: relink_outside\<close>)

lemma link_stop:
  assumes "link nd b a t" "b \<le> c" "case t of Lf y \<Rightarrow> True | Nd x p l r \<Rightarrow> c < pos_num p"
  shows "link nd c a t"
  using assms by (cases t) auto

text \<open>The fields of the new node.\<close>

definition new_node :: "key \<Rightarrow> nat \<Rightarrow> u32 \<Rightarrow> u32 \<Rightarrow> pa_pat_node_t \<Rightarrow> bool" where
  "new_node k d cur atom n \<longleftrightarrow> unat (ppn_bit n) = pos_num d
     \<and> (if kbit k d then ppn_left n = cur \<and> ppn_right n = atom else ppn_right n = cur \<and> ppn_left n = atom)"

lemma pa_pat_insert_walk_tree:
  assumes "link nd b a t" "unat bw = b" "unat dw = pos_num d" "b < pos_num d" "fits k d t"
    and "distinct (inn t)" "ptr0 \<notin> ptrs t" "atom \<notin> set (lv t) \<union> set (inn t)"
  shows "\<exists>ptr cur. pa_pat_insert_walk nd k dw bw ptr0 a = Some (ptr, cur) \<and> ptr \<in> insert ptr0 (ptrs t)
    \<and> (\<forall>nd' n. nd' atom = Some n \<longrightarrow> new_node k d cur atom n
        \<longrightarrow> (\<forall>y\<in>set (lv t) \<union> set (inn t). nd' y = relink ptr atom y (nd y))
        \<longrightarrow> link nd' b (if ptr = ptr0 then atom else a) (ins k d atom t))"
  using assms(1,2,4-8)
proof (induction t arbitrary: b a bw ptr0)
  case (Lf y)
  then obtain m where m: "y = a" "nd a = Some m" "unat (ppn_bit m) \<le> b" by auto
  then have "pa_pat_insert_walk nd k dw bw ptr0 a = Some (ptr0, a)"
    using Lf.prems(2) by (simp add: pa_pat_insert_walk.simps [of _ _ _ bw] word_less_nat_alt)
  moreover have "link nd' b atom (ins k d atom (Lf y))"
    if "nd' atom = Some n" "new_node k d a atom n" "nd' a = relink ptr0 atom a (nd a)" for nd' n
  proof -
    have "link nd' (pos_num d) a (Lf a)"
      by (rule link_relinked [of nd _ _ _ ptr0 _ atom]) (use m Lf.prems that in auto)
    with that(1,2) m(1) Lf.prems(3) show ?thesis by (auto simp: new_node_def)
  qed
  ultimately show ?case using m(1) by (intro exI [of _ ptr0] exI [of _ a]) auto
next
  case (Nd x p l r)
  then obtain m where m: "x = a" "nd a = Some m" "unat (ppn_bit m) = pos_num p" "b < pos_num p"
    "link nd (pos_num p) (ppn_left m) l" "link nd (pos_num p) (ppn_right m) r" by auto
  have bit: "pat_key_test k (ppn_bit m) = kbit k p" by (rule pat_key_test_pos) (rule m(3))
  have cmp: "bw < ppn_bit m" "ppn_bit m < dw \<longleftrightarrow> p < d"
    using Nd.prems(2) m(3,4) assms(3) pos_num_less_iff [of p d] by (simp_all add: word_less_nat_alt)
  have disj: "set (inn l) \<inter> set (inn r) = {}" "a \<notin> set (inn l)" "a \<notin> set (inn r)"
    "distinct (inn l)" "distinct (inn r)" using Nd.prems(5) m(1) by auto
  show ?case
  proof (cases "p < d")
    case True
    then have lt: "pos_num p < pos_num d" by (simp add: pos_num_less_iff)
    show ?thesis
    proof (cases "kbit k p")
      case kb: True
      from Nd.IH(2) [OF m(6,3) lt, of "RightPtr a"] Nd.prems True kb disj obtain ptr cur where
        w: "pa_pat_insert_walk nd k dw (ppn_bit m) (RightPtr a) (ppn_right m) = Some (ptr, cur)"
          "ptr \<in> insert (RightPtr a) (ptrs r)"
        and ih: "\<And>nd' n. nd' atom = Some n \<Longrightarrow> new_node k d cur atom n
          \<Longrightarrow> \<forall>y\<in>set (lv r) \<union> set (inn r). nd' y = relink ptr atom y (nd y)
          \<Longrightarrow> link nd' (pos_num p) (if ptr = RightPtr a then atom else ppn_right m) (ins k d atom r)"
        by auto
      have "link nd' b a (ins k d atom (Nd x p l r))"
        if n: "nd' atom = Some n" "new_node k d cur atom n"
          and nd': "\<forall>y\<in>set (lv (Nd x p l r)) \<union> set (inn (Nd x p l r)). nd' y = relink ptr atom y (nd y)" for nd' n
      proof -
        have a: "nd' a = Some (if ptr = RightPtr a then m\<lparr>ppn_right := atom\<rparr> else m)"
          using nd' m(1,2) w(2) disj by (auto simp: relink_def split: pa_pat_ptr.splits)
        have "link nd' (pos_num p) (ppn_left m) l"
          by (rule link_relinked [OF m(5), of ptr _ atom])
            (use w(2) disj nd' ptrs_disjoint [of l r ptr] in auto)
        moreover have "link nd' (pos_num p) (if ptr = RightPtr a then atom else ppn_right m) (ins k d atom r)"
          using nd' by (intro ih [where n = n] n) auto
        ultimately show ?thesis using True kb m(1,3,4) a by auto
      qed
      moreover have "ptr \<noteq> ptr0" "ptr \<in> ptrs (Nd x p l r)" using w(2) Nd.prems(6) m(1) by auto
      moreover have "pa_pat_insert_walk nd k dw bw ptr0 a = Some (ptr, cur)"
        using w(1) cmp bit kb True m(2) by (simp add: pa_pat_insert_walk.simps [of _ _ _ bw])
      ultimately show ?thesis by (intro exI [of _ ptr] exI [of _ cur]) auto
    next
      case kb: False
      from Nd.IH(1) [OF m(5,3) lt, of "LeftPtr a"] Nd.prems True kb disj obtain ptr cur where
        w: "pa_pat_insert_walk nd k dw (ppn_bit m) (LeftPtr a) (ppn_left m) = Some (ptr, cur)"
          "ptr \<in> insert (LeftPtr a) (ptrs l)"
        and ih: "\<And>nd' n. nd' atom = Some n \<Longrightarrow> new_node k d cur atom n
          \<Longrightarrow> \<forall>y\<in>set (lv l) \<union> set (inn l). nd' y = relink ptr atom y (nd y)
          \<Longrightarrow> link nd' (pos_num p) (if ptr = LeftPtr a then atom else ppn_left m) (ins k d atom l)"
        by auto
      have "link nd' b a (ins k d atom (Nd x p l r))"
        if n: "nd' atom = Some n" "new_node k d cur atom n"
          and nd': "\<forall>y\<in>set (lv (Nd x p l r)) \<union> set (inn (Nd x p l r)). nd' y = relink ptr atom y (nd y)" for nd' n
      proof -
        have a: "nd' a = Some (if ptr = LeftPtr a then m\<lparr>ppn_left := atom\<rparr> else m)"
          using nd' m(1,2) w(2) disj by (auto simp: relink_def split: pa_pat_ptr.splits)
        have "link nd' (pos_num p) (ppn_right m) r"
          by (rule link_relinked [OF m(6), of ptr _ atom])
            (use w(2) disj nd' ptrs_disjoint [of l r ptr] in auto)
        moreover have "link nd' (pos_num p) (if ptr = LeftPtr a then atom else ppn_left m) (ins k d atom l)"
          using nd' by (intro ih [where n = n] n) auto
        ultimately show ?thesis using True kb m(1,3,4) a by auto
      qed
      moreover have "ptr \<noteq> ptr0" "ptr \<in> ptrs (Nd x p l r)" using w(2) Nd.prems(6) m(1) by auto
      moreover have "pa_pat_insert_walk nd k dw bw ptr0 a = Some (ptr, cur)"
        using w(1) cmp bit kb True m(2) by (simp add: pa_pat_insert_walk.simps [of _ _ _ bw])
      ultimately show ?thesis by (intro exI [of _ ptr] exI [of _ cur]) auto
    qed
  next
    case False
    with Nd.prems(4) have dp: "d < p" by simp
    have w: "pa_pat_insert_walk nd k dw bw ptr0 a = Some (ptr0, a)"
      using cmp False m(2) by (simp add: pa_pat_insert_walk.simps [of _ _ _ bw])
    have "link nd' b atom (ins k d atom (Nd x p l r))"
      if n: "nd' atom = Some n" "new_node k d a atom n"
        and nd': "\<forall>y\<in>set (lv (Nd x p l r)) \<union> set (inn (Nd x p l r)). nd' y = relink ptr0 atom y (nd y)" for nd' n
    proof -
      have "link nd (pos_num d) a (Nd x p l r)"
        by (rule link_stop [OF Nd.prems(1)]) (use Nd.prems(3) dp in \<open>simp_all add: pos_num_less_iff\<close>)
      then have "link nd' (pos_num d) a (Nd x p l r)" by (rule link_relinked) (use Nd.prems(6) nd' in auto)
      with n Nd.prems(3) False show ?thesis by (auto simp: new_node_def)
    qed
    with w show ?thesis by (intro exI [of _ ptr0] exI [of _ a]) auto
  qed
qed

end
