(* ===== verification/Papat_Ok.thy ===== *)
theory Papat_Ok
  imports Papat_Insert
begin

text \<open>
  The invariant of a patricia tree over its nodes, \<open>pat_ok\<close>: the nodes hold, from left to right, the
  list \<open>as\<close> of atoms. The functions of \<^verbatim>\<open>papat.c\<close> that only read are described by that list.
\<close>

section \<open>The invariant\<close>

definition nkey :: "nodes \<Rightarrow> (u32 \<Rightarrow> key) \<Rightarrow> u32 \<Rightarrow> key" where
  "nkey nd kf a = (case nd a of None \<Rightarrow> (\<lambda>_. 0) | Some n \<Rightarrow> kf (ppn_data n))"

definition nlen :: "nodes \<Rightarrow> u32 \<Rightarrow> nat" where
  "nlen nd a = (case nd a of None \<Rightarrow> 0 | Some n \<Rightarrow> (unat (ppn_length n) + 1) div 256)"

definition len_ok :: "pa_pat_node_t \<Rightarrow> bool" where
  "len_ok n \<longleftrightarrow> (\<exists>k. 1 \<le> k \<and> k \<le> 256 \<and> unat (ppn_length n) = k * 256 - 1)"

definition pat_tree :: "nodes \<Rightarrow> u32 \<Rightarrow> (u32 \<Rightarrow> key) \<Rightarrow> pt \<Rightarrow> bool" where
  "pat_tree nd root kf t \<longleftrightarrow> link nd 0 root t \<and> kwf (nkey nd kf) (nlen nd) t \<and> distinct (inn t)
     \<and> set (inn t) \<subseteq> set (lv t) \<and> 0 \<notin> set (lv t) \<and> (\<forall>a\<in>set (lv t). \<exists>n. nd a = Some n \<and> len_ok n)"

definition pat_ok :: "nodes \<Rightarrow> u32 \<Rightarrow> (u32 \<Rightarrow> key) \<Rightarrow> u32 list \<Rightarrow> bool" where
  "pat_ok nd root kf as \<longleftrightarrow> (if root = 0 then as = [] else \<exists>t. pat_tree nd root kf t \<and> lv t = as)"

lemma len_okD:
  assumes "nd a = Some n" "len_ok n"
  shows "unat (ppn_length n) = nlen nd a * 256 - 1" "1 \<le> nlen nd a" "nlen nd a \<le> 256"
proof -
  from assms(2) obtain k where k: "1 \<le> k" "k \<le> 256" "unat (ppn_length n) = k * 256 - 1"
    unfolding len_ok_def by blast
  then have "nlen nd a = k" using assms(1) by (simp add: nlen_def)
  with k show "unat (ppn_length n) = nlen nd a * 256 - 1" "1 \<le> nlen nd a" "nlen nd a \<le> 256" by simp_all
qed

lemma pat_treeD:
  assumes "pat_tree nd root kf t"
  shows "link nd 0 root t" "kwf (nkey nd kf) (nlen nd) t" "distinct (inn t)" "set (inn t) \<subseteq> set (lv t)"
    "0 \<notin> set (lv t)"
  using assms by (simp_all add: pat_tree_def)

lemma pat_tree_node:
  assumes "pat_tree nd root kf t" "a \<in> set (lv t)"
  obtains n where "nd a = Some n" "unat (ppn_length n) = nlen nd a * 256 - 1" "1 \<le> nlen nd a" "nlen nd a \<le> 256"
    "nkey nd kf a = kf (ppn_data n)"
proof -
  from assms obtain n where n: "nd a = Some n" "len_ok n" unfolding pat_tree_def by blast
  show thesis using that [OF n(1) len_okD [of nd a n, OF n]] n(1) by (simp add: nkey_def)
qed

lemma pat_root_nonzero: "pat_tree nd root kf t \<Longrightarrow> root \<noteq> 0"
  unfolding pat_tree_def by (cases t) auto

lemma pat_okE:
  assumes "pat_ok nd root kf as" "as \<noteq> []"
  obtains t where "pat_tree nd root kf t" "as = lv t" "root \<noteq> 0"
  using assms by (auto simp: pat_ok_def split: if_splits)

lemma pat_okI: "pat_tree nd root kf t \<Longrightarrow> pat_ok nd root kf (lv t)"
  using pat_root_nonzero by (auto simp: pat_ok_def)

lemma pat_ok_distinct: "pat_ok nd root kf as \<Longrightarrow> distinct as"
  by (auto simp: pat_ok_def dest!: pat_treeD(2) kwf_distinct split: if_splits)

lemma bit_key_len: "1 \<le> unat kb \<Longrightarrow> unat kb \<le> 256 \<Longrightarrow> pos_num p < unat (pa_pat_length_to_bit kb) \<longleftrightarrow> p < 8 * unat kb"
  by (simp only: pa_pat_length_to_bit_nat pos_num_less_len)

lemma bit_node_len: "unat x = n * 256 - 1 \<Longrightarrow> 1 \<le> n \<Longrightarrow> pos_num p < unat x \<longleftrightarrow> p < 8 * n"
  by (simp only: pos_num_less_len)

section \<open>Lookup\<close>

lemma key_bytes_eq_iff: "key_bytes_eq k1 k2 n \<longleftrightarrow> (\<forall>i<n. k1 i = k2 i)"
  by (auto simp: key_bytes_eq_def)

definition has_key :: "nodes \<Rightarrow> (u32 \<Rightarrow> key) \<Rightarrow> nat \<Rightarrow> key \<Rightarrow> u32 \<Rightarrow> bool" where
  "has_key nd kf n k a \<longleftrightarrow> nlen nd a = n \<and> key_bytes_eq (nkey nd kf a) k n"

lemma pa_pat_get_ok:
  assumes "pat_ok nd root kf as" "1 \<le> unat kb" "unat kb \<le> 256"
  shows "pa_pat_get nd root kf kb key = Some (find (has_key nd kf (unat kb) key) as)"
proof (cases "as = []")
  case True
  then have "root = 0" using assms(1) by (auto simp: pat_ok_def split: if_splits)
  moreover have "kb \<noteq> 0" using assms(2) by auto
  ultimately show ?thesis using True by (simp add: pa_pat_get_def pa_pat_get_inline_def)
next
  case False
  from pat_okE [OF assms(1) False] obtain t where t: "pat_tree nd root kf t" "as = lv t" "root \<noteq> 0" .
  note d = pat_treeD [OF t(1)]
  let ?c = "srch key (8 * unat kb) t"
  note walk = pa_pat_walk_tree [OF d(1), of PA_PAT_NOBIT, OF _ bit_key_len [OF assms(2,3)], of _ 0 0]
  have c: "?c \<in> set (lv t)" by (rule srch_lv)
  from pat_tree_node [OF t(1) c] obtain n where n: "nd ?c = Some n" "unat (ppn_length n) = nlen nd ?c * 256 - 1"
    "1 \<le> nlen nd ?c" "nlen nd ?c \<le> 256" "nkey nd kf ?c = kf (ppn_data n)" .
  have "ppn_length n = pa_pat_length_to_bit kb \<longleftrightarrow> nlen nd ?c = unat kb"
    using n(2,3) pa_pat_length_to_bit_nat [OF assms(2,3)] assms(2) by (auto simp: word_unat_eq_iff)
  moreover have "kb \<noteq> 0" using assms(2) by auto
  ultimately have "pa_pat_get nd root kf kb key
      = Some (if has_key nd kf (unat kb) key ?c then Some ?c else None)"
    using walk t(3) n by (auto simp: pa_pat_get_def pa_pat_get_inline_def has_key_def PA_PAT_NOBIT_def)
  moreover have "find (has_key nd kf (unat kb) key) (lv t)
      = (if has_key nd kf (unat kb) key ?c then Some ?c else None)"
  proof -
    have hk: "z = ?c" if "z \<in> set (lv t)" "has_key nd kf (unat kb) key z" for z
      using that srch_found [OF d(2) that(1), of "unat kb" key] bytes_eq_iff [of "unat kb" "nkey nd kf z" key]
      by (auto simp: has_key_def key_bytes_eq_iff)
    show ?thesis
    proof (cases "has_key nd kf (unat kb) key ?c")
      case True
      from c obtain xs ys where sp: "lv t = xs @ ?c # ys" by (auto simp: in_set_conv_decomp)
      moreover have "?c \<notin> set xs" using kwf_distinct [OF d(2)] sp by (metis distinct_append distinct.simps(2) not_distinct_conv_prefix)
      then have "find (has_key nd kf (unat kb) key) xs = None"
        using hk sp by (intro find_none) (metis Un_iff set_append)
      ultimately show ?thesis using True by (simp add: find_append)
    next
      case False
      with hk show ?thesis by (auto intro!: find_none)
    qed
  qed
  ultimately show ?thesis using t(2) by simp
qed

section \<open>Neighbours\<close>

lemma pa_pat_walk_self:
  assumes "pat_tree nd root kf t" "a \<in> set (lv t)" "nd a = Some n"
  shows "pa_pat_walk nd (ppn_length n) (kf (ppn_data n)) PA_PAT_NOBIT root 0 0
    = Some (a, last_left (nkey nd kf a) (8 * nlen nd a) 0 t, last_right (nkey nd kf a) (8 * nlen nd a) 0 t)"
proof -
  from pat_tree_node [OF assms(1,2)] obtain n' where n: "nd a = Some n'"
    "unat (ppn_length n') = nlen nd a * 256 - 1" "1 \<le> nlen nd a" "nkey nd kf a = kf (ppn_data n')" .
  note d = pat_treeD [OF assms(1)]
  show ?thesis
    using pa_pat_walk_tree [OF d(1), of PA_PAT_NOBIT, OF _ bit_node_len [OF n(2,3)], of "nkey nd kf a" 0 0]
      srch_self [OF d(2) assms(2)] n(1,4) assms(3) by (simp add: PA_PAT_NOBIT_def)
qed

lemma pat_split:
  assumes "pat_ok nd root kf (xs @ a # ys)"
  obtains t where "pat_tree nd root kf t" "lv t = xs @ a # ys" "a \<in> set (lv t)" "root \<noteq> 0"
    "after_in a (lv t) = ys" "before_in a (lv t) = xs"
proof -
  from pat_okE [OF assms] obtain t where t: "pat_tree nd root kf t" "xs @ a # ys = lv t" "root \<noteq> 0" by blast
  have "distinct (xs @ a # ys)" using kwf_distinct [OF pat_treeD(2) [OF t(1)]] t(2) by simp
  note ab = after_before_split [OF this]
  show thesis by (rule that [OF t(1) t(2) [symmetric] _ t(3)])
      (use ab in \<open>simp_all flip: t(2)\<close>)
qed

lemma pa_pat_find_next_ok:
  assumes "pat_ok nd root kf (xs @ a # ys)"
  shows "pa_pat_find_next nd root kf (Some a) = Some (if ys = [] then None else Some (hd ys))"
proof -
  from pat_split [OF assms] obtain t where t: "pat_tree nd root kf t" "lv t = xs @ a # ys" "a \<in> set (lv t)"
    "root \<noteq> 0" "after_in a (lv t) = ys" .
  note d = pat_treeD [OF t(1)]
  from pat_tree_node [OF t(1,3)] obtain n where n: "nd a = Some n" .
  let ?l = "last_left (nkey nd kf a) (8 * nlen nd a) 0 t"
  note ll = last_left_spec [OF d(1,2) t(3), of 0, unfolded t(5)]
  show ?thesis
  proof (cases "ys = []")
    case True
    with ll pa_pat_walk_self [OF t(1,3) n] n t(4) show ?thesis by (simp add: pa_pat_find_next_def)
  next
    case False
    with ll obtain m p r where m: "?l \<in> set (inn t)" "nd ?l = Some m" "unat (ppn_bit m) = pos_num p"
      "link nd (pos_num p) (ppn_right m) r" "hd (lv r) = hd ys" by auto
    have "?l \<noteq> 0" using m(1) d(4,5) by (metis subsetD)
    with pa_pat_find_leftmost_tree [OF m(4,3)] pa_pat_walk_self [OF t(1,3) n] n t(4) m(2,5) False
    show ?thesis by (simp add: pa_pat_find_next_def)
  qed
qed

lemma pa_pat_find_prev_ok:
  assumes "pat_ok nd root kf (xs @ a # ys)"
  shows "pa_pat_find_prev nd root kf (Some a) = Some (if xs = [] then None else Some (last xs))"
proof -
  from pat_split [OF assms] obtain t where t: "pat_tree nd root kf t" "lv t = xs @ a # ys" "a \<in> set (lv t)"
    "root \<noteq> 0" "before_in a (lv t) = xs" .
  note d = pat_treeD [OF t(1)]
  from pat_tree_node [OF t(1,3)] obtain n where n: "nd a = Some n" .
  let ?l = "last_right (nkey nd kf a) (8 * nlen nd a) 0 t"
  note ll = last_right_spec [OF d(1,2) t(3), of 0, unfolded t(5)]
  show ?thesis
  proof (cases "xs = []")
    case True
    with ll pa_pat_walk_self [OF t(1,3) n] n t(4) show ?thesis by (simp add: pa_pat_find_prev_def)
  next
    case False
    with ll obtain m p l where m: "?l \<in> set (inn t)" "nd ?l = Some m" "unat (ppn_bit m) = pos_num p"
      "link nd (pos_num p) (ppn_left m) l" "last (lv l) = last xs" by auto
    have "?l \<noteq> 0" using m(1) d(4,5) by (metis subsetD)
    with pa_pat_find_rightmost_tree [OF m(4,3)] pa_pat_walk_self [OF t(1,3) n] n t(4) m(2,5) False
    show ?thesis by (simp add: pa_pat_find_prev_def)
  qed
qed

lemma pa_pat_find_ends_ok:
  assumes "pat_ok nd root kf as"
  shows "pa_pat_find_next nd root kf None = Some (if as = [] then None else Some (hd as))"
    and "pa_pat_find_prev nd root kf None = Some (if as = [] then None else Some (last as))"
proof -
  have z: "unat PA_PAT_NOBIT = 0" by (simp add: PA_PAT_NOBIT_def)
  show "pa_pat_find_next nd root kf None = Some (if as = [] then None else Some (hd as))"
    "pa_pat_find_prev nd root kf None = Some (if as = [] then None else Some (last as))"
    using assms pat_treeD(1) [THEN pa_pat_find_leftmost_tree, OF _ z]
      pat_treeD(1) [THEN pa_pat_find_rightmost_tree, OF _ z]
    by (auto simp: pat_ok_def pa_pat_find_next_def pa_pat_find_prev_def split: if_splits)
qed

section \<open>The order of the keys\<close>

lemma first_diff_unique: "first_diff k1 k2 p \<Longrightarrow> first_diff k1 k2 q \<Longrightarrow> p = q"
  by (metis first_diff_def linorder_neqE_nat)

lemma first_diff_sym: "first_diff k1 k2 p \<longleftrightarrow> first_diff k2 k1 p"
  by (auto simp: first_diff_def)

lemma pa_pat_mismatch_diff:
  assumes "first_diff k1 k2 p" "p < 8 * n" "unat b = n * 256 - 1" "n \<le> 256"
  shows "pa_pat_mismatch k1 k2 b < b" "unat (pa_pat_mismatch k1 k2 b) = pos_num p"
proof -
  have n: "1 \<le> n" using assms(2) by (cases n) auto
  have "\<not> (\<forall>q<8 * n. kbit k1 q = kbit k2 q)" using assms(1,2) by (auto simp: first_diff_def)
  then have "\<exists>i<n. k1 i \<noteq> k2 i" using bytes_eq_iff [of n k1 k2] by blast
  then show lt: "pa_pat_mismatch k1 k2 b < b" using pa_pat_mismatch_len(1) [OF assms(3) n assms(4)] by blast
  from pa_pat_mismatch_len(2) [OF assms(3) n assms(4) lt] first_diff_unique [OF assms(1)]
  show "unat (pa_pat_mismatch k1 k2 b) = pos_num p" by blast
qed

lemma pa_pat_compare_ok:
  assumes "key_less (nkey nd kf a) (nlen nd a) (nkey nd kf b) (nlen nd b)"
    and "nd a = Some n" "nd b = Some m" "len_ok n" "len_ok m"
  shows "pa_pat_compare_nodes kf n m = - 1" "pa_pat_compare_nodes kf m n = 1"
proof -
  from assms(1) obtain p where p: "p < 8 * nlen nd a" "p < 8 * nlen nd b" "first_diff (nkey nd kf a) (nkey nd kf b) p"
    "\<not> kbit (nkey nd kf a) p" unfolding key_less_def by blast
  have k: "nkey nd kf a = kf (ppn_data n)" "nkey nd kf b = kf (ppn_data m)" using assms(2,3) by (simp_all add: nkey_def)
  note la = len_okD [of nd a n, OF assms(2,4)] and lb = len_okD [of nd b m, OF assms(3,5)]
  let ?n = "min (nlen nd a) (nlen nd b)"
  let ?b = "if ppn_length n < ppn_length m then ppn_length n else ppn_length m"
    and ?b' = "if ppn_length m < ppn_length n then ppn_length m else ppn_length n"
  have b: "unat ?b = ?n * 256 - 1" "unat ?b' = ?n * 256 - 1" "?n \<le> 256" "p < 8 * ?n"
    using la lb p(1,2) by (auto simp: word_less_nat_alt min_def)
  note m1 = pa_pat_mismatch_diff [OF p(3) b(4,1,3)]
  note m2 = pa_pat_mismatch_diff [OF p(3) [unfolded first_diff_sym [of "nkey nd kf a"]] b(4,2,3)]
  show "pa_pat_compare_nodes kf n m = - 1"
    using m1 pat_key_test_pos [OF m1(2)] p(4) k by (simp add: pa_pat_compare_nodes_def Let_def)
  have "kbit (nkey nd kf b) p" using p(3,4) by (simp add: first_diff_def)
  then show "pa_pat_compare_nodes kf m n = 1"
    using m2 pat_key_test_pos [OF m2(2)] k by (simp add: pa_pat_compare_nodes_def Let_def)
qed

lemma pat_ok_sorted:
  assumes "pat_ok nd root kf as"
  shows "sorted_wrt (\<lambda>a b. key_less (nkey nd kf a) (nlen nd a) (nkey nd kf b) (nlen nd b)) as"
  using assms kwf_sorted [OF pat_treeD(2)] by (auto simp: pat_ok_def split: if_splits)

section \<open>Subtrees\<close>

lemma pa_pat_plen_to_bit_nat:
  assumes "1 \<le> unat plen" "unat plen \<le> 2048"
  shows "unat (pa_pat_plen_to_bit plen) =
    (if unat plen mod 8 = 0 then unat plen div 8 * 256 - 1 else pos_num (unat plen))"
proof -
  let ?r = "push_bit 5 (plen AND push_bit 3 0xff)"
  have ff: "(0xff :: u16) = mask 8" by (simp add: mask_eq_exp_minus_1)
  have r: "?r = push_bit 8 (drop_bit 3 plen AND 0xff)"
    unfolding ff by (rule bit_word_eqI) (auto simp: bit_push_bit_iff bit_and_iff bit_mask_iff bit_drop_bit_eq ac_simps)
  have d: "unat (drop_bit 3 plen AND 0xff) = unat plen div 8 mod 256"
    using unat_and_mask [of 8 "drop_bit 3 plen"] by (simp add: unat_drop_bit_div)
  have ur: "unat ?r = unat plen div 8 mod 256 * 256"
    unfolding r using d by (subst unat_push_bit_less) simp_all
  have j: "unat (plen AND 7) = unat plen mod 8" using unat_and_mask [of 3 plen] by simp
  show ?thesis
  proof (cases "unat plen mod 8 = 0")
    case True
    then have pl: "pa_pat_plen_to_bit plen = ?r - 1"
      using j by (simp add: pa_pat_plen_to_bit_def Let_def word_unat_eq_iff)
    show ?thesis
    proof (cases "unat plen = 2048")
      case True
      then have "unat ?r = 0" using ur by simp
      then have "?r = 0" by (simp only: unat_eq_0)
      then show ?thesis using pl True by (simp add: unsigned_minus_1_eq_mask mask_eq_exp_minus_1)
    next
      case False
      then have m: "unat plen div 8 mod 256 = unat plen div 8" using assms(2) by simp
      have "0 < unat plen div 8" using True assms(1) by (auto simp: div_greater_zero_iff dvd_imp_le simp flip: dvd_eq_mod_eq_0)
      then have "?r \<noteq> 0" using ur m by (metis unat_0 mult_is_0 not_gr_zero zero_neq_numeral)
      then have "unat (?r - 1) = unat ?r - 1" by (rule unat_minus_one)
      with True pl ur m show ?thesis by simp
    qed
  next
    case False
    let ?j = "unat plen mod 8"
    have "unat plen \<noteq> 2048" using False by auto
    then have m: "unat plen div 8 mod 256 = unat plen div 8" using assms(2) by simp
    have "plen AND 7 \<noteq> 0" using False j by auto
    then have pl: "pa_pat_plen_to_bit plen = ?r OR ucast (pa_pat_bit_masks ! ?j)"
      using j by (simp add: pa_pat_plen_to_bit_def Let_def)
    have "?j < 8" by simp
    then consider "?j = 0" | "?j = 1" | "?j = 2" | "?j = 3" | "?j = 4" | "?j = 5" | "?j = 6" | "?j = 7" by linarith
    then have "unat (pa_pat_bit_masks ! ?j) = 255 - 2 ^ (7 - ?j)"
      by cases (simp_all add: pa_pat_bit_masks_def)
    then have u: "unat (ucast (pa_pat_bit_masks ! ?j) :: u16) = 255 - 2 ^ (7 - ?j)" by (simp add: unat_ucast_up)
    have "\<not> bit (ucast (pa_pat_bit_masks ! ?j) :: u16) i" if "8 \<le> i" for i
      using that bit_imp_le_length [of "pa_pat_bit_masks ! ?j" i] by (auto simp: bit_simps)
    then have "?r OR ucast (pa_pat_bit_masks ! ?j) = ?r + ucast (pa_pat_bit_masks ! ?j)"
      unfolding r by (intro disjunctive_add [symmetric]) (metis bit_push_bit_iff)
    moreover have "unat plen div 8 < 256" using m by (metis mod_less_divisor zero_less_numeral)
    then have "unat (?r + ucast (pa_pat_bit_masks ! ?j)) = unat plen div 8 * 256 + (255 - 2 ^ (7 - ?j))"
      by (subst unat_add_less) (simp_all only: ur m u, simp)
    ultimately show ?thesis using False pl by (simp only: pos_num_def if_False)
  qed
qed

lemma plen_bits:
  assumes "1 \<le> unat plen" "unat plen \<le> 2048"
  shows "pos_num p < unat (pa_pat_plen_to_bit plen) \<longleftrightarrow> p < unat plen"
    and "1 \<le> n \<Longrightarrow> unat x = n * 256 - 1 \<Longrightarrow> x < pa_pat_plen_to_bit plen \<longleftrightarrow> 8 * n < unat plen"
proof -
  note pl = pa_pat_plen_to_bit_nat [OF assms]
  let ?i = "unat plen div 8"
  have pm: "unat plen = 8 * ?i + unat plen mod 8" by simp
  show "pos_num p < unat (pa_pat_plen_to_bit plen) \<longleftrightarrow> p < unat plen"
  proof (cases "unat plen mod 8 = 0")
    case True
    then have "1 \<le> ?i" using pm assms(1) by linarith
    from pos_num_less_len [OF this, of p] pl True pm show ?thesis by simp
  qed (simp add: pl pos_num_less_iff)
  show "x < pa_pat_plen_to_bit plen \<longleftrightarrow> 8 * n < unat plen" if n: "1 \<le> n" "unat x = n * 256 - 1"
  proof (cases "unat plen mod 8 = 0")
    case True
    define i where "i = unat plen div 8"
    have "unat plen = 8 * i" using True pm i_def by simp
    moreover have "unat (pa_pat_plen_to_bit plen) = i * 256 - 1" using pl True i_def by simp
    moreover have "1 \<le> i" using assms(1) calculation(1) by simp
    ultimately show ?thesis using n unfolding word_less_nat_alt by simp linarith
  next
    case False
    then have u: "unat (pa_pat_plen_to_bit plen) = pos_num (unat plen)" using pl by simp
    have "unat x < pos_num (unat plen) \<longleftrightarrow> 8 * n < unat plen"
    proof
      assume "unat x < pos_num (unat plen)"
      then have "\<not> pos_num (unat plen) < n * 256 - 1" using n(2) by simp
      then have "8 * n \<le> unat plen" using pos_num_less_len [OF n(1), of "unat plen"] by simp
      moreover have "unat plen \<noteq> 8 * n" using False by auto
      ultimately show "8 * n < unat plen" by simp
    next
      assume "8 * n < unat plen"
      define i where "i = unat plen div 8"
      have "n \<le> i" using \<open>8 * n < unat plen\<close> i_def by linarith
      then have "n * 256 - 1 < i * 256 + 127" by linarith
      then show "unat x < pos_num (unat plen)"
        using pos_num_bounds(1) [of "unat plen", folded i_def] n(2) by linarith
    qed
    with u show ?thesis by (simp add: word_less_nat_alt)
  qed
qed

lemma pa_pat_mismatch_plen:
  assumes "1 \<le> unat plen" "unat plen \<le> 2048"
  shows "pa_pat_mismatch k1 k2 (pa_pat_plen_to_bit plen) < pa_pat_plen_to_bit plen
    \<longleftrightarrow> (\<exists>q<unat plen. kbit k1 q \<noteq> kbit k2 q)"
proof -
  let ?b = "pa_pat_plen_to_bit plen"
  define N where "N = unat ?b div 256 + 1"
  note spec = pa_pat_mismatch_spec [of ?b "unat ?b div 256" k1 k2, OF refl, folded N_def]
  show ?thesis
  proof
    assume lt: "pa_pat_mismatch k1 k2 ?b < ?b"
    then obtain p where "first_diff k1 k2 p" "unat (pa_pat_mismatch k1 k2 ?b) = pos_num p" using spec by auto
    with lt plen_bits(1) [OF assms, of p] show "\<exists>q<unat plen. kbit k1 q \<noteq> kbit k2 q"
      by (auto simp: word_less_nat_alt first_diff_def)
  next
    assume "\<exists>q<unat plen. kbit k1 q \<noteq> kbit k2 q"
    then obtain q where q: "q < unat plen" "kbit k1 q \<noteq> kbit k2 q" by blast
    have "pos_num q < unat ?b" using q(1) plen_bits(1) [OF assms] by blast
    then have "q div 8 < N" unfolding N_def using pos_num_bounds(1) [of q] by linarith
    then have "q < 8 * N" by (simp add: div_less_iff_less_mult mult.commute)
    with q(2) bytes_eq_iff [of N k1 k2] spec obtain p where
      p: "first_diff k1 k2 p" "unat (pa_pat_mismatch k1 k2 ?b) = pos_num p" by blast
    have "p \<le> q" using p(1) q(2) by (meson first_diff_def not_le)
    then have "p < unat plen" using q(1) by simp
    with p(2) plen_bits(1) [OF assms, of p] show "pa_pat_mismatch k1 k2 ?b < ?b" by (simp add: word_less_nat_alt)
  qed
qed

definition has_prefix :: "nodes \<Rightarrow> (u32 \<Rightarrow> key) \<Rightarrow> nat \<Rightarrow> key \<Rightarrow> u32 \<Rightarrow> bool" where
  "has_prefix nd kf n prefix a \<longleftrightarrow> has_bits prefix n (nkey nd kf a) (nlen nd a)"

lemma pa_pat_subtree_match_ok:
  assumes "pat_ok nd root kf as" "1 \<le> unat plen" "unat plen \<le> 2048"
  shows "pa_pat_subtree_match nd root kf plen prefix = Some (find (has_prefix nd kf (unat plen) prefix) as)"
proof -
  have p0: "plen \<noteq> 0" "\<not> PA_PAT_MAXKEY * 8 < plen"
    using assms(2,3) by (auto simp: PA_PAT_MAXKEY_def word_less_nat_alt)
  show ?thesis
  proof (cases "as = []")
    case True
    then have "root = 0" using assms(1) by (auto simp: pat_ok_def split: if_splits)
    with True p0 show ?thesis by (simp add: pa_pat_subtree_match_def)
  next
    case False
    from pat_okE [OF assms(1) False] obtain t where t: "pat_tree nd root kf t" "as = lv t" "root \<noteq> 0" .
    note d = pat_treeD [OF t(1)]
    let ?c = "srch prefix (unat plen) t" and ?b = "pa_pat_plen_to_bit plen"
    have s: "pa_pat_search nd root ?b prefix = Some ?c"
      unfolding pa_pat_search_def
      by (subst pa_pat_walk_tree [OF d(1) _ plen_bits(1) [OF assms(2,3)]]) (simp_all add: PA_PAT_NOBIT_def)
    have "?c \<in> set (lv t)" by (rule srch_lv)
    from pat_tree_node [OF t(1) this] obtain n where n: "nd ?c = Some n" "unat (ppn_length n) = nlen nd ?c * 256 - 1"
      "1 \<le> nlen nd ?c" "nkey nd kf ?c = kf (ppn_data n)" .
    have "has_prefix nd kf (unat plen) prefix ?c
        \<longleftrightarrow> \<not> ppn_length n < ?b \<and> \<not> pa_pat_mismatch prefix (kf (ppn_data n)) ?b < ?b"
      using plen_bits(2) [OF assms(2,3) n(3,2)] pa_pat_mismatch_plen [OF assms(2,3)] n(4)
      by (auto simp: has_prefix_def has_bits_def)
    with s p0 t(3) n(1) srch_prefix [OF d(2), of prefix "unat plen"] t(2) show ?thesis
      by (simp add: pa_pat_subtree_match_def Let_def has_prefix_def [abs_def])
  qed
qed

lemma pa_pat_subtree_next_ok:
  assumes "pat_ok nd root kf (xs @ a # ys)" "1 \<le> unat plen" "unat plen \<le> 8 * nlen nd a" "nd 0 = None"
  shows "pa_pat_subtree_next nd root kf a plen = Some (case ys of [] \<Rightarrow> None
    | y # _ \<Rightarrow> if has_prefix nd kf (unat plen) (nkey nd kf a) y then Some y else None)"
proof -
  from pat_split [OF assms(1)] obtain t where t: "pat_tree nd root kf t" "lv t = xs @ a # ys" "a \<in> set (lv t)"
    "root \<noteq> 0" "after_in a (lv t) = ys" .
  note d = pat_treeD [OF t(1)]
  from pat_tree_node [OF t(1,3)] obtain n where n: "nd a = Some n" "unat (ppn_length n) = nlen nd a * 256 - 1"
    "1 \<le> nlen nd a" "nlen nd a \<le> 256" .
  have pl: "unat plen \<le> 2048" using assms(3) n(4) by simp
  let ?b = "pa_pat_plen_to_bit plen"
  have nb: "\<not> ppn_length n < ?b" using plen_bits(2) [OF assms(2) pl n(3,2)] assms(3) by simp
  let ?l = "last_left (nkey nd kf a) (8 * nlen nd a) 0 t"
  note ll = last_left_spec [OF d(1,2) t(3), of 0, unfolded t(5)]
  note unf = pa_pat_subtree_next_def Let_def
  have p0: "plen \<noteq> 0" using assms(2) by auto
  show ?thesis
  proof (cases ys)
    case Nil
    with ll pa_pat_walk_self [OF t(1,3) n(1)] n(1) t(4) nb p0 assms(4) show ?thesis by (simp add: unf)
  next
    case (Cons y ys')
    with ll obtain m p r where m: "nd ?l = Some m" "unat (ppn_bit m) = pos_num p"
      "link nd (pos_num p) (ppn_right m) r" "hd (lv r) = y" "first_diff (nkey nd kf a) (nkey nd kf y) p" by auto
    have y: "y \<in> set (lv t)" using t(2) Cons by simp
    have "key_less (nkey nd kf a) (nlen nd a) (nkey nd kf y) (nlen nd y)"
      using kwf_sorted [OF d(2)] unfolding t(2) Cons by (simp add: sorted_wrt_append)
    then have py: "p < 8 * nlen nd y" using first_diff_unique [OF m(5)] unfolding key_less_def by blast
    have "ppn_bit m < ?b \<longleftrightarrow> p < unat plen" using plen_bits(1) [OF assms(2) pl] m(2) by (simp add: word_less_nat_alt)
    moreover have "has_prefix nd kf (unat plen) (nkey nd kf a) y \<longleftrightarrow> \<not> p < unat plen"
      using m(5) py by (auto simp: has_prefix_def has_bits_def first_diff_def)
    ultimately show ?thesis
      using pa_pat_walk_self [OF t(1,3) n(1)] n(1) t(4) nb p0 m(1) Cons pa_pat_find_leftmost_tree [OF m(3,2)] m(4)
      by (simp add: unf)
  qed
qed

end
