(* ===== verification/Papat_Add.thy ===== *)
theory Papat_Add
  imports Papat_Ok
begin

text \<open>
  \<^verbatim>\<open>pa_pat_add\<close>: what it does to the nodes, to the memory they live in and to the invariant.
\<close>

section \<open>On the nodes\<close>

lemma nkey_cong: "nd' a = nd a \<Longrightarrow> nkey nd' kf a = nkey nd kf a"
  by (simp add: nkey_def)

lemma nlen_cong: "nd' a = nd a \<Longrightarrow> nlen nd' a = nlen nd a"
  by (simp add: nlen_def)

lemma pat_tree_cong:
  assumes "pat_tree nd root kf t" "\<forall>a\<in>set (lv t). nd' a = nd a"
  shows "pat_tree nd' root kf t"
proof -
  note d = pat_treeD [OF assms(1)]
  have "\<forall>a\<in>set (inn t). nd' a = nd a" "\<forall>a\<in>set (lv t). map_option ppn_bit (nd' a) = map_option ppn_bit (nd a)"
    using assms(2) d(4) by auto
  then have "link nd' 0 root t" by (rule link_frame [OF d(1)])
  moreover have "kwf (nkey nd' kf) (nlen nd') t"
    using kwf_cong [of t "nkey nd' kf" "nkey nd kf" "nlen nd'" "nlen nd"] assms(2) d(2)
    by (metis nkey_cong nlen_cong)
  moreover have "\<forall>a\<in>set (lv t). \<exists>n. nd' a = Some n \<and> len_ok n" using assms unfolding pat_tree_def by metis
  ultimately show ?thesis using d(3-5) unfolding pat_tree_def by blast
qed

lemma pat_ok_cong:
  assumes "pat_ok nd root kf as" "\<forall>a\<in>set as. nd' a = nd a"
  shows "pat_ok nd' root kf as"
  using assms pat_tree_cong unfolding pat_ok_def by (metis (no_types, lifting))

lemma relink_keys:
  assumes "nd' y = relink ptr atom y (nd y)"
  shows "nkey nd' kf y = nkey nd kf y" "nlen nd' y = nlen nd y"
  using assms by (cases "nd y"; simp add: nkey_def nlen_def relink_def split: pa_pat_ptr.splits if_splits)+

lemma relink_data [simp]: "map_option ppn_data (relink ptr atom y n) = map_option ppn_data n"
  by (cases n) (simp_all add: relink_def split: pa_pat_ptr.splits)

lemma len_ok_relink: "\<exists>n. nd y = Some n \<and> len_ok n \<Longrightarrow> \<exists>n. relink ptr atom y (nd y) = Some n \<and> len_ok n"
  by (auto simp: relink_def len_ok_def split: pa_pat_ptr.splits)

text \<open>The search for the place: it fails exactly when a key of the tree is related to the new one.\<close>

lemma pa_pat_add_search:
  assumes "pat_tree nd root kf t" "unat len = n * 256 - 1" "1 \<le> n" "n \<le> 256"
  obtains c cn where "pa_pat_search nd root len key = Some c" "c = srch key (8 * n) t" "nd c = Some cn"
    "let b = (if len < ppn_length cn then len else ppn_length cn);
         diff = pa_pat_mismatch key (kf (ppn_data cn)) b in
     (b \<le> diff \<longleftrightarrow> (\<exists>z\<in>set (lv t). key_rel key n (nkey nd kf z) (nlen nd z)))
     \<and> (diff < b \<longrightarrow> (\<exists>d. first_diff key (nkey nd kf c) d \<and> d < 8 * n \<and> d < 8 * nlen nd c
          \<and> unat diff = pos_num d))"
proof -
  note d = pat_treeD [OF assms(1)]
  let ?c = "srch key (8 * n) t"
  have s: "pa_pat_search nd root len key = Some ?c"
    unfolding pa_pat_search_def
    by (subst pa_pat_walk_tree [OF d(1) _ bit_node_len [OF assms(2,3)]]) (simp_all add: PA_PAT_NOBIT_def)
  have c: "?c \<in> set (lv t)" by (rule srch_lv)
  from pat_tree_node [OF assms(1) c] obtain m where m: "nd ?c = Some m" "unat (ppn_length m) = nlen nd ?c * 256 - 1"
    "1 \<le> nlen nd ?c" "nlen nd ?c \<le> 256" "nkey nd kf ?c = kf (ppn_data m)" .
  let ?b = "if len < ppn_length m then len else ppn_length m" and ?n = "min n (nlen nd ?c)"
  have b: "unat ?b = ?n * 256 - 1" "1 \<le> ?n" "?n \<le> 256"
    using assms(2-4) m(2-4) by (auto simp: word_less_nat_alt min_def)
  note mm = pa_pat_mismatch_len [OF b, of key "nkey nd kf ?c"]
  let ?diff = "pa_pat_mismatch key (nkey nd kf ?c) ?b"
  have df: "\<exists>d. first_diff key (nkey nd kf ?c) d \<and> d < 8 * n \<and> d < 8 * nlen nd ?c \<and> unat ?diff = pos_num d"
    if "?diff < ?b" using mm(2) [OF that] by auto
  have "?b \<le> ?diff \<longleftrightarrow> (\<exists>z\<in>set (lv t). key_rel key n (nkey nd kf z) (nlen nd z))"
  proof
    assume "?b \<le> ?diff"
    then have "key_rel key n (nkey nd kf ?c) (nlen nd ?c)" using mm(1) by (auto simp: key_rel_def)
    with c show "\<exists>z\<in>set (lv t). key_rel key n (nkey nd kf z) (nlen nd z)" by blast
  next
    assume rel: "\<exists>z\<in>set (lv t). key_rel key n (nkey nd kf z) (nlen nd z)"
    show "?b \<le> ?diff"
    proof (rule ccontr)
      assume "\<not> ?b \<le> ?diff"
      then have "?diff < ?b" by simp
      from df [OF this] rel srch_unrelated [OF d(2)] show False by blast
    qed
  qed
  with df show thesis by (intro that [OF s refl m(1)]) (simp add: Let_def m(5) [symmetric])
qed

text \<open>The insertion into a tree that is not empty.\<close>

lemma pa_pat_add_place:
  assumes "pat_tree nd root kf t" "nd a = Some na" "len_ok na" "a \<noteq> 0" "a \<notin> set (lv t)" "key = kf (ppn_data na)"
    and "n = nlen nd a" "first_diff key (nkey nd kf (srch key (8 * n) t)) d" "d < 8 * n"
    and "d < 8 * nlen nd (srch key (8 * n) t)" "unat diff = pos_num d"
  obtains ptr cur where "pa_pat_insert_walk nd key diff PA_PAT_NOBIT RootPtr root = Some (ptr, cur)"
    "ptr \<in> insert RootPtr (LeftPtr ` set (lv t) \<union> RightPtr ` set (lv t))"
    "\<forall>nd' n'. nd' a = Some n' \<longrightarrow> new_node key d cur a n' \<longrightarrow> ppn_length n' = ppn_length na \<longrightarrow> ppn_data n' = ppn_data na
      \<longrightarrow> (\<forall>y\<in>set (lv t). nd' y = relink ptr a y (nd y))
      \<longrightarrow> (\<exists>t'. pat_tree nd' (if ptr = RootPtr then a else root) kf t' \<and> set (lv t') = insert a (set (lv t)))"
proof -
  note d = pat_treeD [OF assms(1)]
  have fit: "fits key d t" using fits_srch [OF d(2) assms(8,9)] .
  have ai: "a \<notin> set (lv t) \<union> set (inn t)" using assms(5) d(4) by auto
  from pa_pat_insert_walk_tree [OF d(1), of PA_PAT_NOBIT diff d, OF _ assms(11) pos_num_pos fit d(3) _ ai, of RootPtr]
  obtain ptr cur where w: "pa_pat_insert_walk nd key diff PA_PAT_NOBIT RootPtr root = Some (ptr, cur)"
      "ptr \<in> insert RootPtr (ptrs t)"
    and lk: "\<And>nd' n. nd' a = Some n \<Longrightarrow> new_node key d cur a n
        \<Longrightarrow> \<forall>y\<in>set (lv t) \<union> set (inn t). nd' y = relink ptr a y (nd y)
        \<Longrightarrow> link nd' 0 (if ptr = RootPtr then a else root) (ins key d a t)"
    by (auto simp: PA_PAT_NOBIT_def)
  have "\<exists>t'. pat_tree nd' (if ptr = RootPtr then a else root) kf t' \<and> set (lv t') = insert a (set (lv t))"
    if n': "nd' a = Some n'" "new_node key d cur a n'" "ppn_length n' = ppn_length na" "ppn_data n' = ppn_data na"
      and nd': "\<forall>y\<in>set (lv t). nd' y = relink ptr a y (nd y)" for nd' n'
  proof -
    have same: "\<forall>y\<in>insert a (set (lv t)). nkey nd' kf y = nkey nd kf y \<and> nlen nd' y = nlen nd y"
      using n' assms(2) nd' relink_keys [of nd' _ ptr a nd] by (auto simp: nkey_def [of _ _ a] nlen_def [of _ a])
    have "link nd' 0 (if ptr = RootPtr then a else root) (ins key d a t)"
      by (rule lk [of nd' n', OF n'(1,2)]) (use nd' d(4) in auto)
    moreover have "kwf (nkey nd' kf) (nlen nd') (ins key d a t)"
    proof -
      have "nkey nd kf a = key" using assms(2,6) by (simp add: nkey_def)
      then have "kwf (nkey nd kf) (nlen nd) (ins key d a t)"
        using kwf_ins [OF d(2) fit assms(8,9,10)] assms(7) by simp
      moreover have "kwf (nkey nd' kf) (nlen nd') (ins key d a t) = kwf (nkey nd kf) (nlen nd) (ins key d a t)"
        by (rule kwf_cong) (use same in \<open>simp add: lv_ins\<close>)
      ultimately show ?thesis by simp
    qed
    moreover have "distinct (inn (ins key d a t))" using d(3) ai by (intro distinct_inn_ins) auto
    moreover have "\<exists>n. nd' y = Some n \<and> len_ok n" if "y \<in> insert a (set (lv t))" for y
    proof (cases "y = a")
      case True
      then show ?thesis using n'(1,3) assms(3) by (simp add: len_ok_def)
    next
      case False
      with that have y: "y \<in> set (lv t)" by simp
      then have "\<exists>n. nd y = Some n \<and> len_ok n" using assms(1) unfolding pat_tree_def by blast
      from len_ok_relink [of nd y, OF this] nd' y show ?thesis by simp
    qed
    ultimately have "pat_tree nd' (if ptr = RootPtr then a else root) kf (ins key d a t)"
      using d(4,5) assms(4) unfolding pat_tree_def by (auto simp: lv_ins inn_ins)
    then show ?thesis using lv_ins by blast
  qed
  moreover have "ptr \<in> insert RootPtr (LeftPtr ` set (lv t) \<union> RightPtr ` set (lv t))"
    using w(2) d(4) by (auto simp: ptrs.simps)
  ultimately show thesis using w(1) by (intro that) blast+
qed

section \<open>Reading and writing nodes\<close>

lemma rd_wr_node [simp]: "rd_node (wr_node m p n) p = n"
  by (simp add: rd_node_def wr_node_def mem_simps)

lemma wr_node_outside: "same_on (- {p..<p + 16}) m (wr_node m p n)"
  by (rule same_onI) (auto simp: wr_node_def wr32_outside wr16_outside)

lemma rd_node_cong: "same_on {p..<p + 16} m m' \<Longrightarrow> rd_node m' p = rd_node m p"
  by (simp add: rd_node_def same_on_rd16 same_on_rd32)

lemma rd_node_left: "rd_node (wr32 m (p + 4) v) p = (rd_node m p)\<lparr>ppn_left := v\<rparr>"
  by (simp add: rd_node_def mem_simps)

lemma rd_node_right: "rd_node (wr32 m (p + 8) v) p = (rd_node m p)\<lparr>ppn_right := v\<rparr>"
  by (simp add: rd_node_def mem_simps)

section \<open>The pool of the nodes\<close>

type_synonym pool = "pa_mmap \<Rightarrow> nat set \<Rightarrow> u32 set \<Rightarrow> bool"

definition pat_pool :: "pa_pat \<Rightarrow> nat \<Rightarrow> pool" where
  "pat_pool root w pmp E A \<longleftrightarrow> fx_pool (pp_nodes root) 16 w pmp E A \<and> {pp_infop root..<pp_infop root + 8} \<subseteq> E"

lemma pat_pool_addr:
  assumes "pat_pool root w pmp E A" "a \<in> A"
  obtains p where "pa_fixed_atom_addr (pm_mem pmp) (pp_nodes root) a = Some p" "{p..<p + 16} \<inter> E = {}"
  using assms fxp.live [of "pp_nodes root" 16 w pmp E A a] unfolding pat_pool_def by blast

lemma info_frame:
  assumes "{pp_infop root..<pp_infop root + 8} \<subseteq> E" "same_on E m m'"
  shows "pp_root m' root = pp_root m root" "pp_key_bytes m' root = pp_key_bytes m root"
proof -
  have "{pp_infop root..<pp_infop root + 4} \<subseteq> E" "{pp_infop root + 4..<pp_infop root + 4 + 2} \<subseteq> E"
    using assms(1) by (auto simp: subset_iff)
  with assms(2) show "pp_root m' root = pp_root m root" "pp_key_bytes m' root = pp_key_bytes m root"
    unfolding pp_root_def pp_key_bytes_def by (blast intro: same_on_rd32 same_on_rd16)+
qed

text \<open>A write within the node of one atom.\<close>

lemma pat_pool_touch:
  assumes "pat_pool root w pmp E A" "a \<in> A" "pa_fixed_atom_addr (pm_mem pmp) (pp_nodes root) a = Some p"
    and "same_on (- {p..<p + 16}) (pm_mem pmp) m"
  shows "pat_pool root w (pmp\<lparr>pm_mem := m\<rparr>) E A" "same_on E (pm_mem pmp) m"
    "pa_pat_node m root a = Some (rd_node m p)"
    "\<forall>b\<in>A - {a}. pa_pat_node m root b = pa_pat_node (pm_mem pmp) root b"
    "pp_root m root = pp_root (pm_mem pmp) root" "pp_key_bytes m root = pp_key_bytes (pm_mem pmp) root"
proof -
  have p: "fx_pool (pp_nodes root) 16 w pmp E A" and i: "{pp_infop root..<pp_infop root + 8} \<subseteq> E"
    using assms(1) unfolding pat_pool_def by simp_all
  note t = fxp.touch [OF p assms(2-4)]
  show "pat_pool root w (pmp\<lparr>pm_mem := m\<rparr>) E A" using t(1) i unfolding pat_pool_def by simp
  show "same_on E (pm_mem pmp) m" by (rule t(3))
  then show "pp_root m root = pp_root (pm_mem pmp) root" "pp_key_bytes m root = pp_key_bytes (pm_mem pmp) root"
    by (rule info_frame [OF i])+
  show "pa_pat_node m root a = Some (rd_node m p)" using t(2) assms(2,3) by (simp add: pa_pat_node_def)
  show "\<forall>b\<in>A - {a}. pa_pat_node m root b = pa_pat_node (pm_mem pmp) root b"
  proof
    fix b assume b: "b \<in> A - {a}"
    then obtain q where q: "pa_fixed_atom_addr (pm_mem pmp) (pp_nodes root) b = Some q"
      using pat_pool_addr [OF assms(1), of b] by blast
    with b t(2) t(4) [of b q] show "pa_pat_node m root b = pa_pat_node (pm_mem pmp) root b"
      by (simp add: pa_pat_node_def rd_node_cong)
  qed
qed

lemma pat_pool_set:
  assumes "pat_pool root w pmp E A" "a \<in> A" and m_def: "m = pa_pat_set (pm_mem pmp) root a n"
  shows "pat_pool root w (pmp\<lparr>pm_mem := m\<rparr>) E A" "same_on E (pm_mem pmp) m" "pa_pat_node m root a = Some n"
    "\<forall>b\<in>A - {a}. pa_pat_node m root b = pa_pat_node (pm_mem pmp) root b"
    "pp_root m root = pp_root (pm_mem pmp) root" "pp_key_bytes m root = pp_key_bytes (pm_mem pmp) root"
proof -
  from pat_pool_addr [OF assms(1,2)] obtain p where p: "pa_fixed_atom_addr (pm_mem pmp) (pp_nodes root) a = Some p" .
  have m: "m = wr_node (pm_mem pmp) p n" by (simp add: m_def pa_pat_set_def p)
  note t = pat_pool_touch [OF assms(1,2) p wr_node_outside, of n, folded m]
  show "pat_pool root w (pmp\<lparr>pm_mem := m\<rparr>) E A" "same_on E (pm_mem pmp) m"
    "\<forall>b\<in>A - {a}. pa_pat_node m root b = pa_pat_node (pm_mem pmp) root b"
    "pp_root m root = pp_root (pm_mem pmp) root" "pp_key_bytes m root = pp_key_bytes (pm_mem pmp) root"
    using t by simp_all
  show "pa_pat_node m root a = Some n" using t(3) by (simp add: m)
qed

text \<open>Storing into the link that \<open>ptr\<close> names.\<close>

lemma pat_pool_store:
  assumes "pat_pool root w pmp E A" "ptr \<in> insert RootPtr (LeftPtr ` A \<union> RightPtr ` A)"
    and m_def: "m = pa_pat_store (pm_mem pmp) root ptr atom"
  shows "pat_pool root w (pmp\<lparr>pm_mem := m\<rparr>) E A"
    "same_on (E - {pp_infop root..<pp_infop root + 4}) (pm_mem pmp) m"
    "\<forall>b\<in>A. pa_pat_node m root b = relink ptr atom b (pa_pat_node (pm_mem pmp) root b)"
    "pp_root m root = (if ptr = RootPtr then atom else pp_root (pm_mem pmp) root)"
proof -
  have p: "fx_pool (pp_nodes root) 16 w pmp E A" and i: "{pp_infop root..<pp_infop root + 8} \<subseteq> E"
    using assms(1) unfolding pat_pool_def by simp_all
  have "pat_pool root w (pmp\<lparr>pm_mem := m\<rparr>) E A
    \<and> same_on (E - {pp_infop root..<pp_infop root + 4}) (pm_mem pmp) m
    \<and> (\<forall>b\<in>A. pa_pat_node m root b = relink ptr atom b (pa_pat_node (pm_mem pmp) root b))
    \<and> pp_root m root = (if ptr = RootPtr then atom else pp_root (pm_mem pmp) root)"
  proof (cases ptr)
    case RootPtr
    let ?X = "{pp_infop root..<pp_infop root + 4}"
    have m: "m = wr32 (pm_mem pmp) (pp_infop root) atom" by (simp add: m_def pa_pat_store_def RootPtr)
    have so: "same_on (- ?X) (pm_mem pmp) m" unfolding m by (rule same_onI) (auto intro: wr32_outside)
    have X: "?X \<subseteq> E" using i by (auto simp: subset_iff)
    note t = fxp.touch_out [OF p X so]
    have "pa_pat_node m root b = pa_pat_node (pm_mem pmp) root b" if b: "b \<in> A" for b
    proof -
      obtain q where q: "pa_fixed_atom_addr (pm_mem pmp) (pp_nodes root) b = Some q"
        using pat_pool_addr [OF assms(1) b] by blast
      with b t(2) t(3) [of b q] show ?thesis by (simp add: pa_pat_node_def rd_node_cong)
    qed
    moreover have "same_on (E - ?X) (pm_mem pmp) m" by (rule same_on_subset [OF so]) blast
    ultimately show ?thesis
      using t(1) i RootPtr by (simp add: pat_pool_def relink_def pp_root_def m)
  next
    case (LeftPtr x)
    with assms(2) have x: "x \<in> A" by auto
    from pat_pool_addr [OF assms(1) x] obtain q where q: "pa_fixed_atom_addr (pm_mem pmp) (pp_nodes root) x = Some q" .
    have m: "m = wr32 (pm_mem pmp) (q + 4) atom" by (simp add: m_def pa_pat_store_def LeftPtr q)
    have "same_on (- {q..<q + 16}) (pm_mem pmp) m" unfolding m by (rule same_onI) (auto intro: wr32_outside)
    note t = pat_pool_touch [OF assms(1) x q this]
    have "same_on (E - {pp_infop root..<pp_infop root + 4}) (pm_mem pmp) m" by (rule same_on_subset [OF t(2)]) blast
    with t q show ?thesis
      by (auto simp: relink_def LeftPtr pa_pat_node_def m rd_node_left)
  next
    case (RightPtr x)
    with assms(2) have x: "x \<in> A" by auto
    from pat_pool_addr [OF assms(1) x] obtain q where q: "pa_fixed_atom_addr (pm_mem pmp) (pp_nodes root) x = Some q" .
    have m: "m = wr32 (pm_mem pmp) (q + 8) atom" by (simp add: m_def pa_pat_store_def RightPtr q)
    have "same_on (- {q..<q + 16}) (pm_mem pmp) m" unfolding m by (rule same_onI) (auto intro: wr32_outside)
    note t = pat_pool_touch [OF assms(1) x q this]
    have "same_on (E - {pp_infop root..<pp_infop root + 4}) (pm_mem pmp) m" by (rule same_on_subset [OF t(2)]) blast
    with t q show ?thesis
      by (auto simp: relink_def RightPtr pa_pat_node_def m rd_node_right)
  qed
  then show "pat_pool root w (pmp\<lparr>pm_mem := m\<rparr>) E A"
    "same_on (E - {pp_infop root..<pp_infop root + 4}) (pm_mem pmp) m"
    "\<forall>b\<in>A. pa_pat_node m root b = relink ptr atom b (pa_pat_node (pm_mem pmp) root b)"
    "pp_root m root = (if ptr = RootPtr then atom else pp_root (pm_mem pmp) root)" by simp_all
qed

section \<open>Adding a node\<close>

definition pat_inv ::
  "pa_pat \<Rightarrow> nat \<Rightarrow> (u32 \<Rightarrow> key) \<Rightarrow> pa_mmap \<Rightarrow> nat set \<Rightarrow> u32 set \<Rightarrow> u32 list \<Rightarrow> bool" where
  "pat_inv root w kf pmp E A as \<longleftrightarrow> pat_pool root w pmp E A \<and> set as \<subseteq> A
     \<and> pat_ok (pa_pat_node (pm_mem pmp) root) (pp_root (pm_mem pmp) root) kf as"

definition same_keys :: "nodes \<Rightarrow> nodes \<Rightarrow> u32 set \<Rightarrow> bool" where
  "same_keys nd nd' B \<longleftrightarrow> (\<forall>b\<in>B. map_option ppn_data (nd' b) = map_option ppn_data (nd b) \<and> nlen nd' b = nlen nd b)"

definition related :: "(u32 \<Rightarrow> key) \<Rightarrow> nodes \<Rightarrow> key \<Rightarrow> nat \<Rightarrow> u32 list \<Rightarrow> bool" where
  "related kf nd k n as \<longleftrightarrow> (\<exists>z\<in>set as. key_rel k n (nkey nd kf z) (nlen nd z))"

definition pat_added :: "pa_pat \<Rightarrow> nat \<Rightarrow> (u32 \<Rightarrow> key) \<Rightarrow> pa_mmap \<Rightarrow> pa_mmap \<Rightarrow> nat set \<Rightarrow> u32 set \<Rightarrow> u32 list
    \<Rightarrow> u32 \<Rightarrow> u32 \<Rightarrow> nat \<Rightarrow> bool \<Rightarrow> bool" where
  "pat_added root w kf pmp pmp' E A as a datom n r \<longleftrightarrow>
     (\<exists>as'. pat_inv root w kf pmp' E A as' \<and> (if r then set as' = insert a (set as) else as' = as)
        \<and> (r \<longrightarrow> map_option ppn_data (pa_pat_node (pm_mem pmp') root a) = Some datom \<and> nlen (pa_pat_node (pm_mem pmp') root) a = n)
        \<and> same_keys (pa_pat_node (pm_mem pmp) root) (pa_pat_node (pm_mem pmp') root) (set as)
        \<and> same_on (E - {pp_infop root..<pp_infop root + 4}) (pm_mem pmp) (pm_mem pmp'))"

lemma same_keysI: "\<forall>b\<in>B. nd' b = nd b \<Longrightarrow> same_keys nd nd' B"
  unfolding same_keys_def by (metis nlen_cong)

lemma same_keys_nkey: "same_keys nd nd' B \<Longrightarrow> b \<in> B \<Longrightarrow> nkey nd' kf b = nkey nd kf b"
  by (auto simp: same_keys_def nkey_def split: option.splits)

lemma same_keys_trans: "same_keys nd nd' B \<Longrightarrow> same_keys nd' nd'' B \<Longrightarrow> same_keys nd nd'' B"
  by (simp add: same_keys_def)

lemma related_cong: "same_keys nd nd' (set as) \<Longrightarrow> related kf nd' k n as = related kf nd k n as"
proof -
  assume sk: "same_keys nd nd' (set as)"
  then have "nlen nd' z = nlen nd z" if "z \<in> set as" for z using that by (simp add: same_keys_def)
  with same_keys_nkey [OF sk] show ?thesis unfolding related_def by simp
qed

text \<open>The node with its length filled in, and the first node of a tree.\<close>

lemma pa_pat_add_first:
  assumes pool: "pat_pool root w pmp E A" and a: "a \<in> A" "a \<noteq> 0"
    and n: "1 \<le> n" "n \<le> 256" "unat (ppn_length node) = n * 256 - 1" "k = kf (ppn_data node)"
    and m2: "m2 = pa_pat_set (pm_mem pmp) root a (node\<lparr>ppn_left := a, ppn_right := a, ppn_bit := PA_PAT_NOBIT\<rparr>)"
  shows "pat_added root w kf pmp (pmp\<lparr>pm_mem := wr32 m2 (pp_infop root) a\<rparr>) E A [] a (ppn_data node) n True"
proof -
  let ?m3 = "wr32 m2 (pp_infop root) a" and ?I = "{pp_infop root..<pp_infop root + 4}"
  note s2 = pat_pool_set [OF pool a(1) m2]
  have m3: "?m3 = pa_pat_store (pm_mem (pmp\<lparr>pm_mem := m2\<rparr>)) root RootPtr a" by (simp add: pa_pat_store_def)
  note s3 = pat_pool_store [OF s2(1) _ m3, simplified]
  let ?nd = "pa_pat_node ?m3 root"
  have nd: "?nd a = Some (node\<lparr>ppn_left := a, ppn_right := a, ppn_bit := PA_PAT_NOBIT\<rparr>)"
    using s3(3) a(1) s2(3) by (simp add: relink_def)
  have "len_ok (node\<lparr>ppn_left := a, ppn_right := a, ppn_bit := PA_PAT_NOBIT\<rparr>)"
    unfolding len_ok_def using n by (intro exI [of _ n]) simp
  with nd a(2) have "pat_tree ?nd a kf (Lf a)" by (simp add: pat_tree_def PA_PAT_NOBIT_def)
  then have "pat_ok ?nd a kf (lv (Lf a))" by (rule pat_okI)
  then have "pat_ok ?nd a kf [a]" by simp
  moreover have "map_option ppn_data (?nd a) = Some (ppn_data node)" "nlen ?nd a = n" using nd n by (simp_all add: nlen_def)
  moreover have "same_on (E - ?I) (pm_mem pmp) m2" by (rule same_on_subset [OF s2(2)]) blast
  then have "same_on (E - ?I) (pm_mem pmp) ?m3" using s3(2) by (rule same_on_trans)
  ultimately show ?thesis
    using s3(1,4) a(1) unfolding pat_added_def by (intro exI [of _ "[a]"]) (simp add: pat_inv_def same_keys_def)
qed

lemma pa_pat_add_next:
  assumes pool: "pat_pool root w pmp E A" and a: "a \<in> A" "a \<noteq> 0" "a \<notin> set (lv t)" "set (lv t) \<subseteq> A"
    and t: "pat_tree (pa_pat_node (pm_mem pmp) root) (pp_root (pm_mem pmp) root) kf t"
    and nd: "pa_pat_node (pm_mem pmp) root a = Some node"
    and n: "1 \<le> n" "n \<le> 256" "unat (ppn_length node) = n * 256 - 1" "k = kf (ppn_data node)"
    and d: "first_diff k (nkey (pa_pat_node (pm_mem pmp) root) kf (srch k (8 * n) t)) d" "d < 8 * n"
      "d < 8 * nlen (pa_pat_node (pm_mem pmp) root) (srch k (8 * n) t)" "unat diff = pos_num d"
  shows "\<exists>ptr cur. pa_pat_insert_walk (pa_pat_node (pm_mem pmp) root) k diff PA_PAT_NOBIT RootPtr (pp_root (pm_mem pmp) root)
      = Some (ptr, cur)
    \<and> pat_added root w kf pmp (pmp\<lparr>pm_mem := pa_pat_store (pa_pat_set (pm_mem pmp) root a
        (if pat_key_test k diff then node\<lparr>ppn_bit := diff, ppn_left := cur, ppn_right := a\<rparr>
         else node\<lparr>ppn_bit := diff, ppn_right := cur, ppn_left := a\<rparr>)) root ptr a\<rparr>) E A (lv t) a (ppn_data node) n True"
proof -
  let ?nd = "pa_pat_node (pm_mem pmp) root" and ?I = "{pp_infop root..<pp_infop root + 4}"
  have la: "len_ok node" "n = nlen ?nd a" using n nd by (auto simp: len_ok_def nlen_def)
  obtain ptr cur where w: "pa_pat_insert_walk ?nd k diff PA_PAT_NOBIT RootPtr (pp_root (pm_mem pmp) root) = Some (ptr, cur)"
    and ptr: "ptr \<in> insert RootPtr (LeftPtr ` set (lv t) \<union> RightPtr ` set (lv t))"
    and tree: "\<forall>nd' n'. nd' a = Some n' \<longrightarrow> new_node k d cur a n' \<longrightarrow> ppn_length n' = ppn_length node
      \<longrightarrow> ppn_data n' = ppn_data node \<longrightarrow> (\<forall>y\<in>set (lv t). nd' y = relink ptr a y (?nd y))
      \<longrightarrow> (\<exists>t'. pat_tree nd' (if ptr = RootPtr then a else pp_root (pm_mem pmp) root) kf t'
        \<and> set (lv t') = insert a (set (lv t)))"
    by (rule pa_pat_add_place [OF t nd la(1) a(2,3) n(4) la(2) d])
  let ?n = "if pat_key_test k diff then node\<lparr>ppn_bit := diff, ppn_left := cur, ppn_right := a\<rparr>
    else node\<lparr>ppn_bit := diff, ppn_right := cur, ppn_left := a\<rparr>"
  define m2 where "m2 = pa_pat_set (pm_mem pmp) root a ?n"
  define m3 where "m3 = pa_pat_store m2 root ptr a"
  note s2 = pat_pool_set [OF pool a(1) m2_def]
  have ptrA: "ptr \<in> insert RootPtr (LeftPtr ` A \<union> RightPtr ` A)" using ptr a(4) by blast
  have m3': "m3 = pa_pat_store (pm_mem (pmp\<lparr>pm_mem := m2\<rparr>)) root ptr a" by (simp add: m3_def)
  note s3 = pat_pool_store [OF s2(1) ptrA m3', simplified]
  let ?nd3 = "pa_pat_node m3 root"
  have na: "?nd3 a = Some ?n"
  proof -
    have "ptr \<noteq> LeftPtr a" "ptr \<noteq> RightPtr a" using ptr a(3) by auto
    from relink_other [OF this] show ?thesis using s3(3) a(1) s2(3) by simp
  qed
  have new: "new_node k d cur a ?n" using d(4) pat_key_test_pos [OF d(4)] by (simp add: new_node_def)
  have others: "\<forall>y\<in>set (lv t). ?nd3 y = relink ptr a y (?nd y)"
  proof
    fix y assume y: "y \<in> set (lv t)"
    with a(3,4) have "y \<in> A - {a}" by auto
    with s2(4) have "pa_pat_node m2 root y = ?nd y" by blast
    moreover have "?nd3 y = relink ptr a y (pa_pat_node m2 root y)" using s3(3) \<open>y \<in> A - {a}\<close> by blast
    ultimately show "?nd3 y = relink ptr a y (?nd y)" by simp
  qed
  have fields: "ppn_length ?n = ppn_length node" "ppn_data ?n = ppn_data node" by simp_all
  have rt: "(if ptr = RootPtr then a else pp_root (pm_mem pmp) root) = pp_root m3 root"
    using s3(4) s2(5) by simp
  from tree [rule_format, of ?nd3 ?n, OF na new fields] others obtain t' where
    t': "pat_tree ?nd3 (pp_root m3 root) kf t'" "set (lv t') = insert a (set (lv t))"
    unfolding rt by blast
  have "pat_inv root w kf (pmp\<lparr>pm_mem := m3\<rparr>) E A (lv t')"
    using s3(1) pat_okI [OF t'(1)] t'(2) a(1,4) by (simp add: pat_inv_def)
  moreover have "map_option ppn_data (?nd3 a) = Some (ppn_data node)" "nlen ?nd3 a = n" using na n by (simp_all add: nlen_def)
  moreover have "same_keys ?nd ?nd3 (set (lv t))"
    unfolding same_keys_def
  proof
    fix y assume "y \<in> set (lv t)"
    with others have "?nd3 y = relink ptr a y (?nd y)" by blast
    from relink_keys(2) [of ?nd3 y ptr a ?nd, OF this] this
    show "map_option ppn_data (?nd3 y) = map_option ppn_data (?nd y) \<and> nlen ?nd3 y = nlen ?nd y" by simp
  qed
  moreover have "same_on (E - ?I) (pm_mem pmp) m2" by (rule same_on_subset [OF s2(2)]) blast
  then have "same_on (E - ?I) (pm_mem pmp) m3" using s3(2) by (rule same_on_trans)
  ultimately have "pat_added root w kf pmp (pmp\<lparr>pm_mem := m3\<rparr>) E A (lv t) a (ppn_data node) n True"
    using t'(2) unfolding pat_added_def by (intro exI [of _ "lv t'"]) simp
  with w show ?thesis unfolding m3_def m2_def by blast
qed

lemma pa_pat_add_node_ok:
  assumes inv: "pat_inv root w kf pmp E A as" and a: "a \<in> A" "a \<noteq> 0" "a \<notin> set as"
    and nd: "pa_pat_node (pm_mem pmp) root a = Some na"
    and na: "ppn_bit na = PA_PAT_NOBIT" "ppn_left na = 0" "ppn_right na = 0" "ppn_data na = datom" "kf datom = k"
    and n: "1 \<le> n" "n \<le> 256"
    and l: "if ppn_length na = PA_PAT_NOBIT then unat (pp_key_bytes (pm_mem pmp) root) = n
      else unat (ppn_length na) = n * 256 - 1"
    and r: "r \<longleftrightarrow> \<not> related kf (pa_pat_node (pm_mem pmp) root) k n as"
  shows "\<exists>m'. pa_pat_add_node (pm_mem pmp) root kf a = Some (m', r)
    \<and> pat_added root w kf pmp (pmp\<lparr>pm_mem := m'\<rparr>) E A as a datom n r"
proof -
  let ?nd = "pa_pat_node (pm_mem pmp) root" and ?I = "{pp_infop root..<pp_infop root + 4}"
  define node where "node = (if ppn_length na = PA_PAT_NOBIT
    then na\<lparr>ppn_length := pa_pat_length_to_bit (pp_key_bytes (pm_mem pmp) root)\<rparr> else na)"
  have pool: "pat_pool root w pmp E A" and as: "set as \<subseteq> A"
    and ok: "pat_ok ?nd (pp_root (pm_mem pmp) root) kf as" using inv unfolding pat_inv_def by simp_all
  define m1 where "m1 = pa_pat_set (pm_mem pmp) root a node"
  note s1 = pat_pool_set [OF pool a(1) m1_def]
  let ?pmp1 = "pmp\<lparr>pm_mem := m1\<rparr>" and ?nd1 = "pa_pat_node m1 root"
  have node: "unat (ppn_length node) = n * 256 - 1" "k = kf (ppn_data node)"
    using l n na(4,5) by (auto simp: pa_pat_length_to_bit_nat node_def)
  have keep: "\<forall>b\<in>set as. ?nd1 b = ?nd b" using s1(4) as a(3) by blast
  have sk: "same_keys ?nd ?nd1 (set as)" by (rule same_keysI [OF keep])
  have ok1: "pat_ok ?nd1 (pp_root m1 root) kf as" using pat_ok_cong [OF ok keep] s1(5) by simp
  have so: "same_on (E - ?I) (pm_mem pmp) m1" by (rule same_on_subset [OF s1(2)]) blast
  have lift: "pat_added root w kf pmp pmp' E A as a datom n r" if "pat_added root w kf ?pmp1 pmp' E A as a datom n r" for pmp' r
  proof -
    from that obtain as' where "pat_inv root w kf pmp' E A as'" "if r then set as' = insert a (set as) else as' = as"
      "r \<longrightarrow> map_option ppn_data (pa_pat_node (pm_mem pmp') root a) = Some datom \<and> nlen (pa_pat_node (pm_mem pmp') root) a = n"
      "same_keys ?nd1 (pa_pat_node (pm_mem pmp') root) (set as)" "same_on (E - ?I) m1 (pm_mem pmp')"
      unfolding pat_added_def by auto
    with same_keys_trans [OF sk] same_on_trans [OF so] show ?thesis unfolding pat_added_def by blast
  qed
  have rl: "related kf ?nd1 k n as = related kf ?nd k n as" by (rule related_cong [OF sk])
  have start: "\<not> \<not> (ppn_bit na = PA_PAT_NOBIT \<and> ppn_right na = 0 \<and> ppn_left na = 0)" using na by simp
  have nd': "ppn_data node = datom" using na(4) by (simp add: node_def)
  have kd: "kf (ppn_data node) = k" using node(2) by simp
  note unf = pa_pat_add_node_def nd Let_def node_def [symmetric] m1_def [symmetric]
  show ?thesis
  proof (cases "pp_root m1 root = 0")
    case True
    with ok1 have nil: "as = []" by (simp add: pat_ok_def)
    then have rt: "r = True" by (simp add: r related_def)
    define m2 where "m2 = pa_pat_set m1 root a (node\<lparr>ppn_left := a, ppn_right := a, ppn_bit := PA_PAT_NOBIT\<rparr>)"
    have "pat_added root w kf ?pmp1 (?pmp1\<lparr>pm_mem := wr32 m2 (pp_infop root) a\<rparr>) E A [] a datom n True"
      by (rule pa_pat_add_first [where kf = kf and node = node, OF s1(1) a(1,2) n node, unfolded nd']) (simp add: m2_def)
    then have "pat_added root w kf ?pmp1 (pmp\<lparr>pm_mem := wr32 m2 (pp_infop root) a\<rparr>) E A as a datom n r"
      by (simp add: nil rt)
    moreover have "pa_pat_add_node (pm_mem pmp) root kf a = Some (wr32 m2 (pp_infop root) a, True)"
      using start True by (simp add: unf m2_def)
    ultimately show ?thesis using lift rt by blast
  next
    case False
    with ok1 obtain t where t: "pat_tree ?nd1 (pp_root m1 root) kf t" "lv t = as" by (auto simp: pat_ok_def)
    obtain c cn where
      s: "pa_pat_search ?nd1 (pp_root m1 root) (ppn_length node) k = Some c" "c = srch k (8 * n) t" "?nd1 c = Some cn"
      and sl: "let b = (if ppn_length node < ppn_length cn then ppn_length node else ppn_length cn);
         diff = pa_pat_mismatch k (kf (ppn_data cn)) b in
       (b \<le> diff \<longleftrightarrow> (\<exists>z\<in>set (lv t). key_rel k n (nkey ?nd1 kf z) (nlen ?nd1 z)))
       \<and> (diff < b \<longrightarrow> (\<exists>d. first_diff k (nkey ?nd1 kf c) d \<and> d < 8 * n \<and> d < 8 * nlen ?nd1 c \<and> unat diff = pos_num d))"
      by (rule pa_pat_add_search [OF t(1) node(1) n])
    define b where "b = (if ppn_length node < ppn_length cn then ppn_length node else ppn_length cn)"
    define diff where "diff = pa_pat_mismatch k (kf (ppn_data cn)) b"
    note sl = sl [unfolded Let_def, folded b_def, folded diff_def]
    have br: "b \<le> diff \<longleftrightarrow> \<not> r" using sl t(2) r rl unfolding related_def by simp
    have run: "pa_pat_add_node (pm_mem pmp) root kf a = (if b \<le> diff then Some (m1, False)
        else do {
          (ptr, current) \<leftarrow> pa_pat_insert_walk ?nd1 k diff PA_PAT_NOBIT RootPtr (pp_root m1 root);
          Some (pa_pat_store (pa_pat_set m1 root a
            (if pat_key_test k diff then node\<lparr>ppn_bit := diff, ppn_left := current, ppn_right := a\<rparr>
             else node\<lparr>ppn_bit := diff, ppn_right := current, ppn_left := a\<rparr>)) root ptr a, True)
        })"
      using start False s(1,3)
      by (simp add: unf kd b_def [symmetric] diff_def [symmetric] cong: if_cong split del: if_split)
    show ?thesis
    proof (cases r)
      case True
      then have lt: "diff < b" using br by simp
      then obtain d where d: "first_diff k (nkey ?nd1 kf c) d" "d < 8 * n" "d < 8 * nlen ?nd1 c" "unat diff = pos_num d"
        using sl by blast
      have ta: "a \<notin> set (lv t)" "set (lv t) \<subseteq> A" using a(3) as t(2) by simp_all
      have nd1: "pa_pat_node (pm_mem ?pmp1) root a = Some node" using s1(3) by simp
      have t1: "pat_tree (pa_pat_node (pm_mem ?pmp1) root) (pp_root (pm_mem ?pmp1) root) kf t" using t(1) by simp
      from pa_pat_add_next [where kf = kf and node = node, OF s1(1) a(1,2) ta t1 nd1 n node, of d diff, unfolded nd'] d s(2) obtain ptr cur where
        w: "pa_pat_insert_walk ?nd1 k diff PA_PAT_NOBIT RootPtr (pp_root m1 root) = Some (ptr, cur)"
        and ad: "pat_added root w kf ?pmp1 (pmp\<lparr>pm_mem := pa_pat_store (pa_pat_set m1 root a
          (if pat_key_test k diff then node\<lparr>ppn_bit := diff, ppn_left := cur, ppn_right := a\<rparr>
           else node\<lparr>ppn_bit := diff, ppn_right := cur, ppn_left := a\<rparr>)) root ptr a\<rparr>) E A (lv t) a datom n True"
        by auto
      from lift [OF ad [unfolded t(2)]] w run lt True show ?thesis by auto
    next
      case False
      have "pat_added root w kf ?pmp1 ?pmp1 E A as a datom n False"
        using s1(1) as ok1 unfolding pat_added_def
        by (intro exI [of _ as]) (simp add: pat_inv_def same_keys_def)
      from lift [OF this] run br False show ?thesis by simp
    qed
  qed
qed

end
