(* ===== verification/Papat_Props.thy ===== *)
theory Papat_Props
  imports Papat_Add Pafixed_Props
begin

text \<open>
  The properties of the patricia tree (\<^verbatim>\<open>parrotdb/papat.c\<close>, \<^verbatim>\<open>papat.h\<close>): an ordered dictionary with a
  prefix-free set of keys, whose nodes are atoms of a paged array.
\<close>

section \<open>Opening, allocating, finding again\<close>

lemma pa_pat_root_init_inv:
  assumes "fx_pool nodes 16 w pmp E A" "{ppip..<ppip + 8} \<subseteq> E" "1 \<le> unat klen" "unat klen \<le> 256"
  shows "\<exists>m. pa_pat_root_init True (pm_mem pmp) ppip nodes klen = Some (m, Some \<lparr>pp_infop = ppip, pp_nodes = nodes\<rparr>)
    \<and> pat_inv \<lparr>pp_infop = ppip, pp_nodes = nodes\<rparr> w kf (pmp\<lparr>pm_mem := m\<rparr>) E A []
    \<and> pp_key_bytes m \<lparr>pp_infop = ppip, pp_nodes = nodes\<rparr> = klen
    \<and> same_on (E - {ppip..<ppip + 8}) (pm_mem pmp) m"
proof -
  let ?m = "wr16 (wr32 (pm_mem pmp) ppip 0) (ppip + 4) klen"
  have k: "klen \<noteq> 0" "\<not> PA_PAT_MAXKEY < klen" using assms(3,4) by (auto simp: PA_PAT_MAXKEY_def word_less_nat_alt)
  have so: "same_on (- {ppip..<ppip + 8}) (pm_mem pmp) ?m"
    by (rule same_onI) (auto simp: wr16_outside wr32_outside)
  note t = fxp.touch_out [OF assms(1,2) so]
  have "pp_root ?m \<lparr>pp_infop = ppip, pp_nodes = nodes\<rparr> = 0" "pp_key_bytes ?m \<lparr>pp_infop = ppip, pp_nodes = nodes\<rparr> = klen"
    by (simp_all add: pp_root_def pp_key_bytes_def mem_simps)
  moreover have "same_on (E - {ppip..<ppip + 8}) (pm_mem pmp) ?m" by (rule same_on_subset [OF so]) blast
  ultimately show ?thesis
    using k t(1) assms(2) by (simp add: pa_pat_root_init_def pat_inv_def pat_pool_def pat_ok_def)
qed

lemma pa_pat_node_init:
  assumes "unat kb \<le> 256"
  shows "\<exists>na. pa_pat_node_init_length kb datom = Some na \<and> ppn_bit na = PA_PAT_NOBIT \<and> ppn_left na = 0
    \<and> ppn_right na = 0 \<and> ppn_data na = datom
    \<and> ppn_length na = (if kb \<noteq> 0 then pa_pat_length_to_bit kb else PA_PAT_NOBIT)"
proof -
  have "\<not> PA_PAT_MAXKEY < kb" using assms by (simp add: PA_PAT_MAXKEY_def word_less_nat_alt)
  then show ?thesis by (simp add: pa_pat_node_init_length_def)
qed

lemma pat_inv_alloc:
  assumes "pat_inv root w kf pmp E A as" "pa_fixed_alloc_atom os pmp (pp_nodes root) = Some (pmp', a)"
    and "fx_pool (pp_nodes root) 16 w pmp' E (insert a A)" "a \<notin> A"
    and "same_on (E \<union> pool_bytes (pa_fixed_atom_addr (pm_mem pmp) (pp_nodes root)) 16 A) (pm_mem pmp) (pm_mem pmp')"
    and "\<forall>b\<in>A. pa_fixed_atom_addr (pm_mem pmp') (pp_nodes root) b = pa_fixed_atom_addr (pm_mem pmp) (pp_nodes root) b"
  shows "pat_inv root w kf pmp' E (insert a A) as"
    and "\<forall>b\<in>A. pa_pat_node (pm_mem pmp') root b = pa_pat_node (pm_mem pmp) root b"
    and "pp_key_bytes (pm_mem pmp') root = pp_key_bytes (pm_mem pmp) root"
proof -
  have pool: "pat_pool root w pmp E A" and as: "set as \<subseteq> A"
    and ok: "pat_ok (pa_pat_node (pm_mem pmp) root) (pp_root (pm_mem pmp) root) kf as"
    and i: "{pp_infop root..<pp_infop root + 8} \<subseteq> E"
    using assms(1) unfolding pat_inv_def pat_pool_def by simp_all
  have sE: "same_on E (pm_mem pmp) (pm_mem pmp')" by (rule same_on_subset [OF assms(5)]) blast
  note fr = info_frame [OF i sE]
  show nodes: "\<forall>b\<in>A. pa_pat_node (pm_mem pmp') root b = pa_pat_node (pm_mem pmp) root b"
  proof
    fix b assume b: "b \<in> A"
    then obtain q where q: "pa_fixed_atom_addr (pm_mem pmp) (pp_nodes root) b = Some q"
      using pat_pool_addr [OF pool b] by blast
    then have "{q..<q + 16} \<subseteq> pool_bytes (pa_fixed_atom_addr (pm_mem pmp) (pp_nodes root)) 16 A"
      using b unfolding pool_bytes_def by (auto intro!: bexI [of _ b])
    then have "same_on {q..<q + 16} (pm_mem pmp) (pm_mem pmp')" by (intro same_on_subset [OF assms(5)]) blast
    with q b assms(6) show "pa_pat_node (pm_mem pmp') root b = pa_pat_node (pm_mem pmp) root b"
      by (simp add: pa_pat_node_def rd_node_cong)
  qed
  show "pp_key_bytes (pm_mem pmp') root = pp_key_bytes (pm_mem pmp) root" by (rule fr(2))
  have keep: "\<forall>b\<in>set as. pa_pat_node (pm_mem pmp') root b = pa_pat_node (pm_mem pmp) root b"
    using nodes as by blast
  from pat_ok_cong [OF ok keep] have "pat_ok (pa_pat_node (pm_mem pmp') root) (pp_root (pm_mem pmp') root) kf as"
    by (simp only: fr(1))
  moreover have "pat_pool root w pmp' E (insert a A)" using assms(3) i unfolding pat_pool_def by blast
  ultimately show "pat_inv root w kf pmp' E (insert a A) as" using as unfolding pat_inv_def by blast
qed

text \<open>The outcome of an addition: no memory, or a new atom, linked in unless its key is related to one there.\<close>

definition pat_add_result :: "pa_pat \<Rightarrow> nat \<Rightarrow> (u32 \<Rightarrow> key) \<Rightarrow> pa_mmap \<Rightarrow> pa_mmap \<Rightarrow> nat set \<Rightarrow> u32 set \<Rightarrow> u32 list
    \<Rightarrow> u32 \<Rightarrow> nat \<Rightarrow> bool \<Rightarrow> bool" where
  "pat_add_result root w kf pmp pmp' E A as datom n r \<longleftrightarrow> (\<exists>a. a \<notin> insert 0 A
     \<and> (r \<longleftrightarrow> \<not> related kf (pa_pat_node (pm_mem pmp) root) (kf datom) n as)
     \<and> pat_added root w kf pmp pmp' E (insert a A) as a datom n r)"

lemma pat_added_after:
  assumes "pat_added root w kf pmp1 pmp' E A as a datom n r"
    and "\<forall>b\<in>set as. pa_pat_node (pm_mem pmp1) root b = pa_pat_node (pm_mem pmp) root b"
    and "same_on (E - {pp_infop root..<pp_infop root + 4}) (pm_mem pmp) (pm_mem pmp1)"
  shows "pat_added root w kf pmp pmp' E A as a datom n r"
proof -
  from assms(1) obtain as' where o: "pat_inv root w kf pmp' E A as'" "if r then set as' = insert a (set as) else as' = as"
    "r \<longrightarrow> map_option ppn_data (pa_pat_node (pm_mem pmp') root a) = Some datom \<and> nlen (pa_pat_node (pm_mem pmp') root) a = n"
    "same_keys (pa_pat_node (pm_mem pmp1) root) (pa_pat_node (pm_mem pmp') root) (set as)"
    "same_on (E - {pp_infop root..<pp_infop root + 4}) (pm_mem pmp1) (pm_mem pmp')"
    unfolding pat_added_def by blast
  from same_keys_trans [OF same_keysI [OF assms(2)] o(4)] same_on_trans [OF assms(3) o(5)] o(1-3)
  show ?thesis unfolding pat_added_def by blast
qed

lemma pa_pat_add_ok:
  assumes inv: "pat_inv root w kf pmp E A as" and room: "mm_room pmp w" and d: "datom \<noteq> 0"
    and n: "1 \<le> n" "n \<le> 256" "n = (if kb = 0 then unat (pp_key_bytes (pm_mem pmp) root) else unat kb)"
  shows "\<exists>pmp' r. pa_pat_add os pmp root kf datom kb = Some (pmp', r)
    \<and> (\<not> r \<and> pmp' = pmp \<and> pa_fixed_alloc_atom os pmp (pp_nodes root) = Some (pmp, 0)
       \<or> pat_add_result root w kf pmp pmp' E A as datom n r)"
proof -
  have pool: "fx_pool (pp_nodes root) 16 w pmp E A" and as: "set as \<subseteq> A"
    using inv unfolding pat_inv_def pat_pool_def by simp_all
  from fx_pool_alloc [OF pool room, of os] show ?thesis
  proof (elim disjE exE conjE)
    assume no: "pa_fixed_alloc_atom os pmp (pp_nodes root) = Some (pmp, 0)"
    then have "pa_pat_add os pmp root kf datom kb = Some (pmp, False)"
      using d by (simp add: pa_pat_add_def pa_pat_node_alloc_def pa_pat_atom_alloc_def)
    with no show ?thesis by blast
  next
    fix pmp1 a
    assume al: "pa_fixed_alloc_atom os pmp (pp_nodes root) = Some (pmp1, a)" "a \<noteq> 0" "a \<notin> A"
      and p1: "fx_pool (pp_nodes root) 16 w pmp1 E (insert a A)"
      and so: "same_on (E \<union> pool_bytes (pa_fixed_atom_addr (pm_mem pmp) (pp_nodes root)) 16 A) (pm_mem pmp) (pm_mem pmp1)"
      and ad: "\<forall>b\<in>A. pa_fixed_atom_addr (pm_mem pmp1) (pp_nodes root) b = pa_fixed_atom_addr (pm_mem pmp) (pp_nodes root) b"
    note a1 = pat_inv_alloc [OF inv al(1) p1 al(3) so ad]
    have pp1: "pat_pool root w pmp1 E (insert a A)" using a1(1) unfolding pat_inv_def by blast
    obtain p where "pa_fixed_atom_addr (pm_mem pmp1) (pp_nodes root) a = Some p"
      using pat_pool_addr [OF pp1, of a] by blast
    then have nn: "pa_pat_node (pm_mem pmp1) root a = Some (rd_node (pm_mem pmp1) p)" by (simp add: pa_pat_node_def)
    have kb: "unat kb \<le> 256" using n by (auto split: if_splits)
    from pa_pat_node_init [OF kb] obtain na where na: "pa_pat_node_init_length kb datom = Some na"
      "ppn_bit na = PA_PAT_NOBIT" "ppn_left na = 0" "ppn_right na = 0" "ppn_data na = datom"
      "ppn_length na = (if kb \<noteq> 0 then pa_pat_length_to_bit kb else PA_PAT_NOBIT)" by blast
    define m2 where "m2 = pa_pat_set (pm_mem pmp1) root a na"
    let ?pmp2 = "pmp1\<lparr>pm_mem := m2\<rparr>"
    note s2 = pat_pool_set [OF pp1 insertI1 m2_def]
    have keep1: "\<forall>b\<in>set as. pa_pat_node m2 root b = pa_pat_node (pm_mem pmp1) root b"
      using s2(4) as al(3) by blast
    have keep: "\<forall>b\<in>set as. pa_pat_node (pm_mem ?pmp2) root b = pa_pat_node (pm_mem pmp) root b"
      using a1(2) as by (simp add: keep1) blast
    have "pat_ok (pa_pat_node (pm_mem pmp1) root) (pp_root (pm_mem pmp1) root) kf as"
      using a1(1) unfolding pat_inv_def by blast
    from pat_ok_cong [OF this keep1] have "pat_ok (pa_pat_node (pm_mem ?pmp2) root) (pp_root (pm_mem ?pmp2) root) kf as"
      by (simp add: s2(5))
    then have inv2: "pat_inv root w kf ?pmp2 E (insert a A) as"
      using as s2(1) unfolding pat_inv_def by blast
    have len: "if ppn_length na = PA_PAT_NOBIT then unat (pp_key_bytes (pm_mem ?pmp2) root) = n
      else unat (ppn_length na) = n * 256 - 1"
    proof (cases "kb = 0")
      case True
      then show ?thesis using na(6) n(3) s2(6) a1(3) by simp
    next
      case False
      then have "unat (ppn_length na) = n * 256 - 1" using na(6) n pa_pat_length_to_bit_nat [of kb] by simp
      then show ?thesis using n(1) by (auto simp: PA_PAT_NOBIT_def)
    qed
    define r where "r = (\<not> related kf (pa_pat_node (pm_mem ?pmp2) root) (kf datom) n as)"
    have anew: "a \<notin> set as" using as al(3) by blast
    have nd2: "pa_pat_node (pm_mem ?pmp2) root a = Some na" using s2(3) by simp
    obtain m3 where m3: "pa_pat_add_node (pm_mem ?pmp2) root kf a = Some (m3, r)"
      "pat_added root w kf ?pmp2 (?pmp2\<lparr>pm_mem := m3\<rparr>) E (insert a A) as a datom n r"
      using pa_pat_add_node_ok [OF inv2 insertI1 al(2) anew nd2 na(2-5) refl n(1,2) len r_def] by blast
    have "pa_pat_node_alloc os pmp root datom kb = Some (?pmp2, a)"
      using al(1,2) nn na(1) by (simp add: pa_pat_node_alloc_def pa_pat_atom_alloc_def m2_def)
    then have run: "pa_pat_add os pmp root kf datom kb = Some (pmp1\<lparr>pm_mem := m3\<rparr>, r)"
      using d al(2) m3(1) by (simp add: pa_pat_add_def)
    have "same_on E (pm_mem pmp) (pm_mem pmp1)" by (rule same_on_subset [OF so]) blast
    then have "same_on E (pm_mem pmp) m2" using s2(2) by (rule same_on_trans)
    then have "same_on (E - {pp_infop root..<pp_infop root + 4}) (pm_mem pmp) m2"
      by (rule same_on_subset) blast
    then have sE: "same_on (E - {pp_infop root..<pp_infop root + 4}) (pm_mem pmp) (pm_mem ?pmp2)" by simp
    from pat_added_after [OF m3(2) keep sE]
    have "pat_added root w kf pmp (pmp1\<lparr>pm_mem := m3\<rparr>) E (insert a A) as a datom n r" by simp
    moreover have "r \<longleftrightarrow> \<not> related kf (pa_pat_node (pm_mem pmp) root) (kf datom) n as"
      unfolding r_def using related_cong [OF same_keysI [OF keep], of kf "kf datom" n] by simp
    ultimately have "pat_add_result root w kf pmp (pmp1\<lparr>pm_mem := m3\<rparr>) E A as datom n r"
      using al(2,3) unfolding pat_add_result_def by blast
    with run show ?thesis by blast
  qed
qed

lemma pa_pat_get_data:
  assumes "pat_ok nd root kf as" "a \<in> set as" "map_option ppn_data (nd a) = Some datom"
    and "nlen nd a = unat kb" "1 \<le> unat kb" "unat kb \<le> 256" "\<forall>i<unat kb. k i = kf datom i"
  shows "pa_pat_get_atom nd root kf kb k = Some datom"
proof -
  have na: "nkey nd kf a = kf datom" using assms(3) by (auto simp: nkey_def)
  from assms(1,2) obtain t where t: "pat_tree nd root kf t" "as = lv t" by (auto elim: pat_okE)
  note d = pat_treeD [OF t(1)]
  have has: "has_key nd kf (unat kb) k a" using assms(4,7) na by (simp add: has_key_def key_bytes_eq_iff)
  have bits: "\<forall>q<8 * unat kb. kbit k q = kbit (nkey nd kf z) q" if "has_key nd kf (unat kb) k z" for z
  proof -
    have "\<forall>i<unat kb. k i = nkey nd kf z i" using that unfolding has_key_def key_bytes_eq_iff by simp
    then show ?thesis unfolding bytes_eq_iff .
  qed
  have uniq: "z = a" if z: "z \<in> set as" "has_key nd kf (unat kb) k z" for z
  proof -
    have "nlen nd z = unat kb" using z(2) unfolding has_key_def by blast
    with srch_found [OF d(2) z(1) [unfolded t(2)] _ bits [OF z(2)]]
    have "srch k (8 * unat kb) t = z" by blast
    moreover have "srch k (8 * unat kb) t = a"
      using srch_found [OF d(2) assms(2) [unfolded t(2)] assms(4) bits [OF has]] .
    ultimately show ?thesis by simp
  qed
  have "find (has_key nd kf (unat kb) k) as = Some a"
  proof (cases "find (has_key nd kf (unat kb) k) as")
    case None
    with has assms(2) show ?thesis by (simp add: find_None_iff)
  next
    case (Some z)
    then have "z \<in> set as" "has_key nd kf (unat kb) k z" unfolding find_Some_iff by auto
    with uniq Some show ?thesis by simp
  qed
  with pa_pat_get_ok [OF assms(1,5,6), of k] have "pa_pat_get nd root kf kb k = Some (Some a)" by simp
  then show ?thesis using assms(3) by (auto simp: pa_pat_get_atom_def pa_pat_node_data_def)
qed

section \<open>A concrete tree\<close>

text \<open>The keys \<open>0x00\<close>, \<open>0x01\<close> and \<open>0x80\<close> of one byte, added in this order as the nodes 1, 2 and 3.\<close>

definition demo_kf :: "u32 \<Rightarrow> key" where
  "demo_kf d = (if d = 20 then (\<lambda>_. 0x01) else if d = 30 then (\<lambda>_. 0x80) else (\<lambda>_. 0))"

definition demo_nodes :: nodes where
  "demo_nodes = [
     1 \<mapsto> \<lparr>ppn_length = 255, ppn_bit = 0, ppn_left = 1, ppn_right = 1, ppn_data = 10\<rparr>,
     2 \<mapsto> \<lparr>ppn_length = 255, ppn_bit = 254, ppn_left = 1, ppn_right = 2, ppn_data = 20\<rparr>,
     3 \<mapsto> \<lparr>ppn_length = 255, ppn_bit = 127, ppn_left = 2, ppn_right = 3, ppn_data = 30\<rparr>]"

lemma demo_key_lens:
  "nkey demo_nodes demo_kf 1 = (\<lambda>_. 0)" "nkey demo_nodes demo_kf 2 = (\<lambda>_. 1)" "nkey demo_nodes demo_kf 3 = (\<lambda>_. 0x80)"
  "nlen demo_nodes 1 = 1" "nlen demo_nodes 2 = 1" "nlen demo_nodes 3 = 1"
  by (simp_all add: nkey_def nlen_def demo_nodes_def demo_kf_def)

lemma demo_node0: "demo_nodes 0 = None"
  by (simp add: demo_nodes_def)

lemma demo_bits: "\<not> kbit (\<lambda>_. 0) q" "kbit (\<lambda>_. 1) 7" "kbit (\<lambda>_. 0x80) 0" "q < 7 \<Longrightarrow> \<not> kbit (\<lambda>_. 1) q"
proof -
  show "\<not> kbit (\<lambda>_. 1) q" if "q < 7"
  proof -
    have "7 - q mod 8 \<noteq> 0" using that by auto
    then show ?thesis by (simp add: kbit_def bit_1_iff)
  qed
qed (simp_all add: kbit_def)

lemma demo_pat_ok: "pat_ok demo_nodes 3 demo_kf [1, 2, 3]"
proof -
  let ?t = "Nd 3 0 (Nd 2 7 (Lf 1) (Lf 2)) (Lf 3)"
  have "len_ok \<lparr>ppn_length = 255, ppn_bit = b, ppn_left = x, ppn_right = y, ppn_data = d\<rparr>" for b x y d
    unfolding len_ok_def by (intro exI [of _ 1]) simp
  then have l: "\<exists>n. demo_nodes 1 = Some n \<and> len_ok n" "\<exists>n. demo_nodes 2 = Some n \<and> len_ok n"
    "\<exists>n. demo_nodes 3 = Some n \<and> len_ok n" by (simp_all add: demo_nodes_def)
  have pn: "pos_num 0 = 127" "pos_num 7 = 254" by (simp_all add: pos_num_def)
  have nodes: "demo_nodes 1 = Some \<lparr>ppn_length = 255, ppn_bit = 0, ppn_left = 1, ppn_right = 1, ppn_data = 10\<rparr>"
    "demo_nodes 2 = Some \<lparr>ppn_length = 255, ppn_bit = 254, ppn_left = 1, ppn_right = 2, ppn_data = 20\<rparr>"
    "demo_nodes 3 = Some \<lparr>ppn_length = 255, ppn_bit = 127, ppn_left = 2, ppn_right = 3, ppn_data = 30\<rparr>"
    by (simp_all add: demo_nodes_def)
  have "link demo_nodes 0 3 ?t" by (simp add: nodes pn)
  moreover have "parts (nkey demo_nodes demo_kf) (nlen demo_nodes) 7 {1} {2}"
    "parts (nkey demo_nodes demo_kf) (nlen demo_nodes) 0 {1, 2} {3}"
    by (auto simp: parts_def demo_key_lens demo_bits)
  then have "kwf (nkey demo_nodes demo_kf) (nlen demo_nodes) ?t"
    unfolding kwf_Nd by (simp add: insert_commute)
  moreover have "distinct (inn ?t)" "set (inn ?t) \<subseteq> set (lv ?t)" "0 \<notin> set (lv ?t)"
    "\<forall>a\<in>set (lv ?t). \<exists>n. demo_nodes a = Some n \<and> len_ok n" using l by simp_all
  ultimately have "pat_tree demo_nodes 3 demo_kf ?t" unfolding pat_tree_def by blast
  then show ?thesis using pat_okI [of demo_nodes 3 demo_kf ?t] by simp
qed

text \<open>A tree in the paged array of the concrete segment, its root block at offset 300.\<close>

definition demo_pat :: pa_pat where
  "demo_pat = \<lparr>pp_infop = 300, pp_nodes = demo_fixed\<rparr>"

definition demo_pseg :: pa_mmap where
  "demo_pseg = demo_fseg\<lparr>pm_mem := wr16 (wr32 (pm_mem demo_fseg) 300 0) 304 1\<rparr>"

lemma demo_pat_init:
  "pa_pat_root_init True (pm_mem demo_fseg) 300 demo_fixed 1 = Some (pm_mem demo_pseg, Some demo_pat)"
  by (simp add: pa_pat_root_init_def demo_pseg_def demo_pat_def PA_PAT_MAXKEY_def)

lemma demo_pat_inv: "pat_inv demo_pat 256 kf demo_pseg {300..<400} {} []" "pp_key_bytes (pm_mem demo_pseg) demo_pat = 1"
proof -
  have "{300..<300 + 8} \<subseteq> {300..<400 :: nat}" by auto
  from pa_pat_root_init_inv [OF demo_pool this, of 1 kf] demo_pat_init
  show "pat_inv demo_pat 256 kf demo_pseg {300..<400} {} []" "pp_key_bytes (pm_mem demo_pseg) demo_pat = 1"
    by (auto simp: demo_pat_def demo_pseg_def)
qed

lemma demo_pseg_room: "mm_room demo_pseg 256"
  by (simp add: mm_room_def demo_pseg_def demo_fseg_len)

lemma demo_pat_first: "\<exists>pmp'. pa_pat_add demo_os demo_pseg demo_pat demo_kf 20 1 = Some (pmp', True)"
proof -
  have p: "fx_pool demo_fixed 16 256 demo_pseg {300..<400} {}"
    using demo_pat_inv(1) by (simp add: pat_inv_def pat_pool_def demo_pat_def)
  have same: "same_on (- {300..<306}) (pm_mem demo_fseg) (pm_mem demo_pseg)"
    by (rule same_onI) (auto simp: demo_pseg_def wr16_outside wr32_outside)
  have "pa_fixed_max_atoms (pm_mem demo_pseg) demo_fixed = pa_fixed_max_atoms (pm_mem demo_fseg) demo_fixed"
    unfolding pa_fixed_max_atoms_def pf_max_atoms_def
    by (rule same_on_rd32 [OF same]) (auto simp: demo_fixed_def)
  moreover have "unat (pa_fixed_max_atoms (pm_mem demo_fseg) demo_fixed) = 10000"
    using fx_okD(4) [OF demo_fx_ok] by (simp add: fx_fields_def pa_fixed_max_atoms_def demo_g_fields)
  moreover have "pa_mmap_alloc demo_os demo_pseg 256 \<noteq> Some (demo_pseg, 0)"
  proof -
    have "rd32 (pm_mem demo_pseg) 24 = rd32 (pm_mem demo_fseg) 24" "rd32 (pm_mem demo_pseg) 4100 = rd32 (pm_mem demo_fseg) 4100"
      by (rule same_on_rd32 [OF same], auto)+
    moreover have "same_on {0..<200} (pm_mem demo_seg2) (pm_mem demo_fseg)" "same_on {4096..<8192} (pm_mem demo_seg2) (pm_mem demo_fseg)"
      by (auto simp: demo_fseg_def demo_g_fields intro!: same_onI fx_init_mem_outside)
    then have "rd32 (pm_mem demo_fseg) 24 = rd32 (pm_mem demo_seg2) 24" "rd32 (pm_mem demo_fseg) 4100 = rd32 (pm_mem demo_seg2) 4100"
      using same_on_rd32 [of "{0..<200}" _ _ 24] same_on_rd32 [of "{4096..<8192}" _ _ 4100] by auto
    ultimately have "rd32 (pm_mem demo_pseg) 24 = 1" "rd32 (pm_mem demo_pseg) 4100 = 29"
      by (simp_all add: demo_seg2_def mem_simps demo_reads)
    then show ?thesis
      by (simp add: pa_mmap_alloc_def pa_mmap_alloc_scan.simps [of _ _ 24] pmi_free_at_def pmf_size_def
          demo_page PA_MMAP_ATOM_SIZE_def Let_def)
  qed
  ultimately have "pa_fixed_alloc_atom demo_os demo_pseg demo_fixed \<noteq> Some (demo_pseg, 0)"
    using fx_pool_exhausted [OF p demo_pseg_room, of demo_os demo_pseg] by auto
  then have "pa_fixed_alloc_atom demo_os demo_pseg (pp_nodes demo_pat) \<noteq> Some (demo_pseg, 0)"
    by (simp add: demo_pat_def)
  with pa_pat_add_ok [OF demo_pat_inv(1) demo_pseg_room, of 20 1 1 demo_os demo_kf]
  show ?thesis by (auto simp: pat_add_result_def related_def)
qed

section \<open>Properties\<close>

text \<open>C13. Adding a data atom returns. When the array has no atom left nothing changes;
  otherwise a new node is taken, and it becomes part of the tree, which keeps all its other nodes
  and its order, exactly when no key of the tree agrees with the new one on their common length.
  No other byte of the client is touched.\<close>

theorem pa_pat_add_correct:
  assumes "pat_inv root w kf pmp E A as" and "mm_room pmp w" and "datom \<noteq> 0" and "1 \<le> n" and "n \<le> 256"
    and "n = (if kb = 0 then unat (pp_key_bytes (pm_mem pmp) root) else unat kb)"
  shows "\<exists>pmp' r. pa_pat_add os pmp root kf datom kb = Some (pmp', r)
    \<and> (\<not> r \<and> pmp' = pmp \<and> pa_fixed_alloc_atom os pmp (pp_nodes root) = Some (pmp, 0)
       \<or> pat_add_result root w kf pmp pmp' E A as datom n r)"
  by (rule pa_pat_add_ok [OF assms])

theorem pa_pat_add_correct_witness:
  "\<exists>pmp' r. pa_pat_add demo_os demo_pseg demo_pat demo_kf 20 1 = Some (pmp', r)
    \<and> (\<not> r \<and> pmp' = demo_pseg \<and> pa_fixed_alloc_atom demo_os demo_pseg (pp_nodes demo_pat) = Some (demo_pseg, 0)
       \<or> pat_add_result demo_pat 256 demo_kf demo_pseg pmp' {300..<400} {} [] 20 1 r)"
  by (rule pa_pat_add_correct [OF demo_pat_inv(1) demo_pseg_room]) simp_all

text \<open>C14. A data atom that was added is found again by its key.\<close>

theorem pa_pat_add_get:
  assumes "pat_inv root w kf pmp E A as" and "mm_room pmp w" and "datom \<noteq> 0" and "1 \<le> unat kb" and "unat kb \<le> 256"
    and "pa_pat_add os pmp root kf datom kb = Some (pmp', True)"
  shows "pa_pat_get_atom (pa_pat_node (pm_mem pmp') root) (pp_root (pm_mem pmp') root) kf kb (kf datom) = Some datom"
proof -
  have "unat kb = (if kb = 0 then unat (pp_key_bytes (pm_mem pmp) root) else unat kb)" using assms(4) by auto
  from pa_pat_add_ok [OF assms(1-5) this, of os] assms(6)
  obtain a as' where o: "pat_inv root w kf pmp' E (insert a A) as'" "set as' = insert a (set as)"
    "map_option ppn_data (pa_pat_node (pm_mem pmp') root a) = Some datom" "nlen (pa_pat_node (pm_mem pmp') root) a = unat kb"
    unfolding pat_add_result_def pat_added_def by auto
  have "pat_ok (pa_pat_node (pm_mem pmp') root) (pp_root (pm_mem pmp') root) kf as'"
    using o(1) unfolding pat_inv_def by blast
  then show ?thesis by (rule pa_pat_get_data [OF _ _ o(3,4) assms(4,5)]) (use o(2) in auto)
qed

theorem pa_pat_add_get_witness:
  "\<exists>pmp'. pa_pat_add demo_os demo_pseg demo_pat demo_kf 20 1 = Some (pmp', True)
    \<and> pa_pat_get_atom (pa_pat_node (pm_mem pmp') demo_pat) (pp_root (pm_mem pmp') demo_pat) demo_kf 1 (demo_kf 20) = Some 20"
proof -
  from demo_pat_first obtain pmp' where a: "pa_pat_add demo_os demo_pseg demo_pat demo_kf 20 1 = Some (pmp', True)" by blast
  with pa_pat_add_get [OF demo_pat_inv(1) demo_pseg_room _ _ _ a] show ?thesis by simp
qed

text \<open>C15. A lookup returns, on every tree and for every key: the node whose key has the
  length and the bytes asked for, the null pointer when there is none.\<close>

theorem pa_pat_get_found:
  assumes "pat_ok nd root kf as" and "1 \<le> unat kb" and "unat kb \<le> 256"
  shows "pa_pat_get nd root kf kb key = Some (find (has_key nd kf (unat kb) key) as)"
  by (rule pa_pat_get_ok [OF assms])

theorem pa_pat_get_found_witness:
  "pa_pat_get demo_nodes 3 demo_kf 1 (\<lambda>_. 1) = Some (Some 2)
    \<and> pa_pat_get demo_nodes 3 demo_kf 1 (\<lambda>_. 2) = Some None"
  using pa_pat_get_found [OF demo_pat_ok, of 1 "\<lambda>_. 1"] pa_pat_get_found [OF demo_pat_ok, of 1 "\<lambda>_. 2"]
  by (simp add: has_key_def demo_key_lens key_bytes_eq_def)

text \<open>C16. \<^verbatim>\<open>pa_pat_find_next\<close> and \<^verbatim>\<open>pa_pat_find_prev\<close> walk the nodes of a tree in their
  order: from no node to the first and the last one, from a node to its neighbours, and from the
  ends to the null pointer.\<close>

theorem pa_pat_neighbours:
  assumes "pat_ok nd root kf (xs @ a # ys)"
  shows "pa_pat_find_next nd root kf None = Some (Some (hd (xs @ [a])))
    \<and> pa_pat_find_prev nd root kf None = Some (Some (last (a # ys)))
    \<and> pa_pat_find_next nd root kf (Some a) = Some (if ys = [] then None else Some (hd ys))
    \<and> pa_pat_find_prev nd root kf (Some a) = Some (if xs = [] then None else Some (last xs))"
  using pa_pat_find_ends_ok [OF assms] pa_pat_find_next_ok [OF assms] pa_pat_find_prev_ok [OF assms]
  by (simp add: hd_append)

theorem pa_pat_neighbours_witness:
  "pa_pat_find_next demo_nodes 3 demo_kf (Some 2) = Some (Some 3) \<and> pa_pat_find_prev demo_nodes 3 demo_kf (Some 2) = Some (Some 1)"
  using pa_pat_neighbours [of demo_nodes 3 demo_kf "[1]" 2 "[3]"] demo_pat_ok by simp

text \<open>C17. The order of the nodes is the one of \<^verbatim>\<open>pa_pat_compare_nodes\<close>: of two nodes of a tree
  the comparison puts the one on the left first, whichever way it is asked, and never takes them as equal.\<close>

theorem pa_pat_order:
  assumes "pat_ok nd root kf as" and "i < j" and "j < length as" and "nd (as ! i) = Some n" and "nd (as ! j) = Some m"
  shows "pa_pat_compare_nodes kf n m = - 1 \<and> pa_pat_compare_nodes kf m n = 1"
proof -
  from assms(1,3) obtain t where t: "pat_tree nd root kf t" "as = lv t" by (auto elim: pat_okE)
  have "as ! i \<in> set (lv t)" "as ! j \<in> set (lv t)" using assms(2,3) t(2) by simp_all
  then have "len_ok n" "len_ok m" using t(1) assms(4,5) unfolding pat_tree_def by fastforce+
  moreover have "key_less (nkey nd kf (as ! i)) (nlen nd (as ! i)) (nkey nd kf (as ! j)) (nlen nd (as ! j))"
    using sorted_wrt_nth_less [OF pat_ok_sorted [OF assms(1)] assms(2,3)] .
  ultimately show ?thesis using pa_pat_compare_ok [of nd kf "as ! i" "as ! j", OF _ assms(4,5)] by blast
qed

theorem pa_pat_order_witness:
  "pa_pat_compare_nodes demo_kf (the (demo_nodes 2)) (the (demo_nodes 3)) = - 1"
  using pa_pat_order [OF demo_pat_ok, of 1 2 "the (demo_nodes 2)" "the (demo_nodes 3)"]
  by (simp add: demo_nodes_def)

text \<open>C18. For a prefix of any number of bits, \<^verbatim>\<open>pa_pat_subtree_match\<close> answers the first node
  whose key starts with it, and \<^verbatim>\<open>pa_pat_subtree_next\<close> the next node after it if its key does so too.\<close>

theorem pa_pat_subtrees:
  assumes "pat_ok nd root kf (xs @ a # ys)" and "1 \<le> unat plen" and "unat plen \<le> 8 * nlen nd a"
    and "unat plen \<le> 2048" and "nd 0 = None"
  shows "pa_pat_subtree_match nd root kf plen prefix = Some (find (has_prefix nd kf (unat plen) prefix) (xs @ a # ys))
    \<and> pa_pat_subtree_next nd root kf a plen = Some (case ys of [] \<Rightarrow> None
        | y # _ \<Rightarrow> if has_prefix nd kf (unat plen) (nkey nd kf a) y then Some y else None)"
  using pa_pat_subtree_match_ok [OF assms(1,2,4)] pa_pat_subtree_next_ok [OF assms(1,2,3,5)] by simp

theorem pa_pat_subtrees_witness:
  "pa_pat_subtree_match demo_nodes 3 demo_kf 1 (\<lambda>_. 0) = Some (Some 1) \<and> pa_pat_subtree_next demo_nodes 3 demo_kf 2 1 = Some None"
  using pa_pat_subtrees [of demo_nodes 3 demo_kf "[1]" 2 "[3]" 1 "\<lambda>_. 0"] demo_pat_ok
  by (simp add: demo_key_lens has_prefix_def has_bits_def kbit_def demo_node0)

text \<open>\<^verbatim>\<open>pa_pat_getnext\<close> misses a successor: in a tree with the keys \<open>0x00\<close>,
  \<open>0x01\<close> and \<open>0x80\<close> it answers no node after the key \<open>0x02\<close>, though \<open>0x80\<close> is larger. Its second
  search starts at the node the first one ended at, not at the root.\<close>

theorem pa_pat_getnext_misses:
  "pat_ok demo_nodes 3 demo_kf [1, 2, 3]
    \<and> pa_pat_getnext demo_nodes 3 demo_kf 1 (\<lambda>_. 0x02) False = Some None
    \<and> key_less (\<lambda>_. 0x02) 1 (nkey demo_nodes demo_kf 3) (nlen demo_nodes 3)"
proof -
  have z: "unat PA_PAT_NOBIT = 0" "PA_PAT_NOBIT = 0" by (simp_all add: PA_PAT_NOBIT_def)
  have "pa_pat_walk demo_nodes 255 (\<lambda>_. 0x02) 0 3 0 0 = Some (1, 2, 0)"
    by (simp add: pa_pat_walk.simps demo_nodes_def pat_key_test_def)
  moreover have "pa_pat_mismatch (\<lambda>_. 0x02) (\<lambda>_. 0) 255 = 253"
  proof -
    have "unat (drop_bit 8 255 + 1 :: u16) = Suc 0" by simp
    moreover have "pa_pat_hi_bit_table ! 2 = 2" using hi_bit_table [of 1 2] by simp
    ultimately show ?thesis by (simp add: pa_pat_mismatch_def pa_pat_makebit_def)
  qed
  moreover have "pa_pat_length_to_bit 1 = 255" by (simp add: pa_pat_length_to_bit_def)
  ultimately have "pa_pat_getnext demo_nodes 3 demo_kf 1 (\<lambda>_. 0x02) False = Some None"
    by (simp add: pa_pat_getnext_def z demo_nodes_def Let_def demo_kf_def pat_key_test_def
        pa_pat_getnext_again.simps)
  moreover have "key_less (\<lambda>_. 0x02) 1 (nkey demo_nodes demo_kf 3) (nlen demo_nodes 3)"
    unfolding key_less_def first_diff_def demo_key_lens by (intro exI [of _ 0]) (simp add: kbit_def)
  ultimately show ?thesis using demo_pat_ok by blast
qed

end
