(* ===== verification/ExtBit.thy ===== *)
theory ExtBit
  imports Clib Complex_Main
begin

text \<open>
  \<^verbatim>\<open>extensions/bit/ext_bit.c\<close>: the functions on bit strings. What the code takes from libxml2 is the
  parameter \<open>x\<close>: the type and value of an object, its conversion to a string or a number, the order
  of strings, and whether memory is found. A function is given its arguments in the order of the call.
  \<open>None\<close> is undefined behaviour in C: a double that is converted to an integer it does not fit in, or a
  sum of two \<^verbatim>\<open>int\<close> values that is not an \<^verbatim>\<open>int\<close>. A string of libxml2 has fewer than \<open>2 ^ 31 - 1\<close>
  characters, so its length is an \<^verbatim>\<open>int\<close>.
\<close>

section \<open>XPath objects and results\<close>

datatype xdouble = Finite rat | PosInf | NegInf | NotANumber

datatype xtype = XPATH_NUMBER | XPATH_STRING | XPATH_OTHER

record 'o xpath =
  xo_type :: "'o \<Rightarrow> xtype"
  xo_float :: "'o \<Rightarrow> xdouble"
  xo_string :: "'o \<Rightarrow> string"
  xo_pop_string :: "'o \<Rightarrow> string option"
  xo_pop_number :: "'o \<Rightarrow> xdouble option"
  xo_strcmp :: "string \<Rightarrow> string \<Rightarrow> int"
  xo_malloc :: "nat \<Rightarrow> bool"

text \<open>A function reports an arity error, returns without a value, or returns a string (or a null
  string) or a number.\<close>

datatype xresult = ArityError | NoValue | RString "string option" | RNumber int

definition double_int :: "xdouble \<Rightarrow> int option" where
  "double_int d = (case d of
      Finite r \<Rightarrow> let z = (if r < 0 then \<lceil>r\<rceil> else \<lfloor>r\<rfloor>) in if - (2 ^ 31) \<le> z \<and> z < 2 ^ 31 then Some z else None
    | _ \<Rightarrow> None)"

text \<open>The code converts first and tests the range afterwards.\<close>

definition double_ull :: "xdouble \<Rightarrow> nat option" where
  "double_ull d = (case d of
      Finite r \<Rightarrow> if - 1 < r \<and> r < 2 ^ 64 then Some (if r < 0 then ULONG_MAX else nat \<lfloor>r\<rfloor>) else None
    | _ \<Rightarrow> None)"

text \<open>Addition of two \<^verbatim>\<open>int\<close> values.\<close>

definition int_plus :: "int \<Rightarrow> int \<Rightarrow> int option" where
  "int_plus a b = (if - (2 ^ 31) \<le> a + b \<and> a + b < 2 ^ 31 then Some (a + b) else None)"

text \<open>The number of binary digits of a value, 0 for zero.\<close>

fun ull_width :: "nat \<Rightarrow> nat" where
  "ull_width v2 = (if v2 = 0 then 0 else Suc (ull_width (v2 div 2)))"

declare ull_width.simps [simp del]

text \<open>The double nearest to an integer, ties to even.\<close>

definition ull_double :: "nat \<Rightarrow> nat" where
  "ull_double n = (let e = ull_width n - 53; q = n div 2 ^ e; r = n mod 2 ^ e in
     (if 2 * r < 2 ^ e \<or> 2 * r = 2 ^ e \<and> even q then q else q + 1) * 2 ^ e)"

section \<open>Bit strings\<close>

definition bit_char :: "nat \<Rightarrow> char" where
  "bit_char v2 = (if odd v2 then CHR ''1'' else CHR ''0'')"

fun ull_digits :: "nat \<Rightarrow> nat \<Rightarrow> string" where
  "ull_digits 0 v2 = []"
| "ull_digits (Suc width) v2 = ull_digits width (v2 div 2) @ [bit_char v2]"

definition ull_min_width :: "nat \<Rightarrow> nat" where
  "ull_min_width val = (if ull_width val = 0 then 1 else ull_width val)"

definition extBitStringVal :: "'o xpath \<Rightarrow> 'o \<Rightarrow> bool \<Rightarrow> string option option" where
  "extBitStringVal x xop parse_the_string =
     (if xo_type x xop = XPATH_NUMBER \<or> parse_the_string \<and> xo_type x xop = XPATH_STRING then do {
        val \<leftarrow> (if xo_type x xop = XPATH_NUMBER then double_ull (xo_float x xop)
                else Some (c_strtoul (xo_string x xop) 10));
        let width = ull_min_width val;
        Some (if xo_malloc x (width + 1) then Some (ull_digits width val) else None)
      } else Some (xo_pop_string x xop))"

text \<open>The values of the arguments, the last one first; a null string ends the call.\<close>

definition with_bits :: "'o xpath \<Rightarrow> 'o \<Rightarrow> bool \<Rightarrow> (string \<Rightarrow> xresult option) \<Rightarrow> xresult option" where
  "with_bits x xop parse k = do {
     res \<leftarrow> extBitStringVal x xop parse;
     (case res of None \<Rightarrow> Some NoValue | Some s \<Rightarrow> k s)
   }"

definition with_number :: "'o xpath \<Rightarrow> 'o \<Rightarrow> (int \<Rightarrow> xresult option) \<Rightarrow> xresult option" where
  "with_number x xop k =
     (case xo_pop_number x xop of
        None \<Rightarrow> Some NoValue
      | Some d \<Rightarrow> do { n \<leftarrow> double_int d; if n < 0 then Some NoValue else k n })"

section \<open>Two operands\<close>

definition extBitOperation :: "(char \<Rightarrow> char \<Rightarrow> char) \<Rightarrow> 'o xpath \<Rightarrow> 'o list \<Rightarrow> xresult option" where
  "extBitOperation func x args = (case args of
      [l, r] \<Rightarrow> with_bits x r False (\<lambda>rv. with_bits x l False (\<lambda>lv.
        let llen = length lv; rlen = length rv; width = (if rlen < llen then llen else rlen) in
        Some (RString (if xo_malloc x (width + 1) then
            Some (map (\<lambda>i. let lb = (if width - llen \<le> i then lv ! (i - (width - llen)) else CHR ''0'');
                              rb = (if width - rlen \<le> i then rv ! (i - (width - rlen)) else CHR ''0'')
                          in func lb rb) [0..<width])
          else None))))
    | _ \<Rightarrow> Some ArityError)"

definition extBitOpAnd :: "char \<Rightarrow> char \<Rightarrow> char" where
  "extBitOpAnd lb rb = (if lb = CHR ''1'' \<and> rb = CHR ''1'' then CHR ''1'' else CHR ''0'')"
definition extBitAnd :: "'o xpath \<Rightarrow> 'o list \<Rightarrow> xresult option" where
  "extBitAnd = extBitOperation extBitOpAnd"

definition extBitOpOr :: "char \<Rightarrow> char \<Rightarrow> char" where
  "extBitOpOr lb rb = (if lb = CHR ''1'' \<or> rb = CHR ''1'' then CHR ''1'' else CHR ''0'')"
definition extBitOr :: "'o xpath \<Rightarrow> 'o list \<Rightarrow> xresult option" where
  "extBitOr = extBitOperation extBitOpOr"

definition extBitOpNand :: "char \<Rightarrow> char \<Rightarrow> char" where
  "extBitOpNand lb rb = (if lb = CHR ''1'' \<and> rb = CHR ''1'' then CHR ''0'' else CHR ''1'')"
definition extBitNand :: "'o xpath \<Rightarrow> 'o list \<Rightarrow> xresult option" where
  "extBitNand = extBitOperation extBitOpNand"

definition extBitOpNor :: "char \<Rightarrow> char \<Rightarrow> char" where
  "extBitOpNor lb rb = (if lb = CHR ''1'' \<or> rb = CHR ''1'' then CHR ''0'' else CHR ''1'')"
definition extBitNor :: "'o xpath \<Rightarrow> 'o list \<Rightarrow> xresult option" where
  "extBitNor = extBitOperation extBitOpNor"

definition extBitOpXor :: "char \<Rightarrow> char \<Rightarrow> char" where
  "extBitOpXor lb rb = (if lb \<noteq> rb then CHR ''1'' else CHR ''0'')"
definition extBitXor :: "'o xpath \<Rightarrow> 'o list \<Rightarrow> xresult option" where
  "extBitXor = extBitOperation extBitOpXor"

definition extBitOpXnor :: "char \<Rightarrow> char \<Rightarrow> char" where
  "extBitOpXnor lb rb = (if lb = rb then CHR ''1'' else CHR ''0'')"
definition extBitXnor :: "'o xpath \<Rightarrow> 'o list \<Rightarrow> xresult option" where
  "extBitXnor = extBitOperation extBitOpXnor"

definition extBitCompare :: "'o xpath \<Rightarrow> 'o list \<Rightarrow> xresult option" where
  "extBitCompare x args = (case args of
      [l, r] \<Rightarrow> with_bits x r False (\<lambda>res2. with_bits x l False (\<lambda>res1.
        let width1 = length res1; width2 = length res2 in
        Some (RNumber
          (if width1 < width2 \<and> \<not> list_all (\<lambda>c. c = CHR ''0'') (take (width2 - width1) res2) then - 1
           else if width2 < width1 \<and> \<not> list_all (\<lambda>c. c = CHR ''0'') (take (width1 - width2) res1) then 1
           else xo_strcmp x (drop (width1 - width2) res1) (drop (width2 - width1) res2)))))
    | _ \<Rightarrow> Some ArityError)"

section \<open>One operand\<close>

definition extBitNot :: "'o xpath \<Rightarrow> 'o list \<Rightarrow> xresult option" where
  "extBitNot x args = (case args of
      [xop] \<Rightarrow> with_bits x xop False (\<lambda>res.
        Some (RString (Some (map (\<lambda>lb. if lb = CHR ''0'' then CHR ''1'' else CHR ''0'') res))))
    | _ \<Rightarrow> Some ArityError)"

text \<open>Some functions take a number as an optional last argument, 0 by default.\<close>

definition optional_number ::
  "'o xpath \<Rightarrow> 'o list \<Rightarrow> ('o \<Rightarrow> int \<Rightarrow> xresult option) \<Rightarrow> xresult option" where
  "optional_number x args k = (case args of
      [xop] \<Rightarrow> k xop 0
    | [xop, num] \<Rightarrow> with_number x num (k xop)
    | _ \<Rightarrow> Some ArityError)"

definition extBitMask :: "'o xpath \<Rightarrow> 'o list \<Rightarrow> xresult option" where
  "extBitMask x args = optional_number x args (\<lambda>xop maxw. with_number x xop (\<lambda>width.
     let maxw = (if maxw < width then width else maxw);
         maxw = (if maxw < 1 then 1 else maxw)
     in do {
       sz \<leftarrow> int_plus maxw 1;
       Some (RString (if xo_malloc x (nat sz)
          then Some (replicate (nat (maxw - width)) CHR ''0'' @ replicate (nat width) CHR ''1'') else None))
     }))"

text \<open>The loop over at most 65 characters; the value is an \<^verbatim>\<open>unsigned long long\<close>.\<close>

fun bit_scan :: "string \<Rightarrow> nat \<Rightarrow> u64 \<Rightarrow> nat \<times> u64" where
  "bit_scan [] i val = (i, val)"
| "bit_scan (c # res) i val =
     (if i \<le> 64 then bit_scan res (i + 1) (push_bit 1 val + (if c = CHR ''1'' then 1 else 0)) else (i, val))"

definition extBitToInt :: "'o xpath \<Rightarrow> 'o list \<Rightarrow> xresult option" where
  "extBitToInt x args = (case args of
      [xop] \<Rightarrow> with_bits x xop False (\<lambda>res.
        let (i, val) = bit_scan res 0 0 in
        Some (RNumber (if 64 < i then - 1 else int (ull_double (unat val)))))
    | _ \<Rightarrow> Some ArityError)"

definition extBitFromInt :: "'o xpath \<Rightarrow> 'o list \<Rightarrow> xresult option" where
  "extBitFromInt x args = optional_number x args (\<lambda>xop width. with_bits x xop True (\<lambda>res.
     let len = length res in
     if len < nat width then do {
       sz \<leftarrow> int_plus width 1;
       Some (RString (if xo_malloc x (nat sz) then Some (replicate (nat width - len) CHR ''0'' @ res) else None))
     }
     else Some (RString (Some res))))"

definition extBitToHex :: "'o xpath \<Rightarrow> 'o list \<Rightarrow> xresult option" where
  "extBitToHex x args = (case args of
      [xop] \<Rightarrow> with_bits x xop False (\<lambda>res.
        let (i, val) = bit_scan res 0 0 in
        if 64 < i then Some (RNumber (- 1))
        else let hex = ''0x'' @ print_base 16 (unat val) in
          Some (RString (if length res < length hex \<and> \<not> xo_malloc x (length hex + 1) then None else Some hex)))
    | _ \<Rightarrow> Some ArityError)"

fun hex_fill :: "nat \<Rightarrow> int \<Rightarrow> nat \<Rightarrow> string" where
  "hex_fill 0 width v2 = []"
| "hex_fill (Suc i) width v2 =
     (if width \<le> 0 then hex_fill i (width - 1) v2 @ [CHR ''0'']
      else hex_fill i (width - 1) (v2 div 2) @ [bit_char v2])"

definition extBitFromHex :: "'o xpath \<Rightarrow> 'o list \<Rightarrow> xresult option" where
  "extBitFromHex x args = optional_number x args (\<lambda>xop maxw.
     case xo_pop_string x xop of
       None \<Rightarrow> Some NoValue
     | Some res \<Rightarrow>
         let val = (if CHR ''e'' \<in> set res then 0 else c_strtoul res 0);
             width = ull_min_width val;
             maxw = (if maxw < int width then int width else maxw)
         in do {
           sz \<leftarrow> int_plus maxw 1;
           Some (RString (if xo_malloc x (nat sz) then Some (hex_fill (nat maxw) (int width) val) else None))
         })"

definition extBitClearOrSet :: "char \<Rightarrow> 'o xpath \<Rightarrow> 'o list \<Rightarrow> xresult option" where
  "extBitClearOrSet v x args = optional_number x args (\<lambda>xop bitnum. with_bits x xop False (\<lambda>res.
     let width = length res; delta = int width - bitnum - 1 in
     if delta < 0 then do {
       sz \<leftarrow> int_plus bitnum 2;
       if xo_malloc x (nat sz)
       then Some (RString (Some (v # replicate (nat (- delta) - 1) CHR ''0'' @ res)))
       else Some NoValue
     }
     else Some (RString (Some (res[nat delta := v])))))"

definition extBitClear :: "'o xpath \<Rightarrow> 'o list \<Rightarrow> xresult option" where
  "extBitClear = extBitClearOrSet CHR ''0''"
definition extBitSet :: "'o xpath \<Rightarrow> 'o list \<Rightarrow> xresult option" where
  "extBitSet = extBitClearOrSet CHR ''1''"

section \<open>Shifts\<close>

definition extBitShift :: "bool \<Rightarrow> bool \<Rightarrow> 'o xpath \<Rightarrow> 'o list \<Rightarrow> xresult option" where
  "extBitShift fill right x args = (case args of
      [xop, count] \<Rightarrow>
        (case xo_pop_number x count of
           None \<Rightarrow> Some NoValue
         | Some d \<Rightarrow> do {
             num \<leftarrow> double_int d;
             if num < 0 then Some ArityError
             else with_bits x xop False (\<lambda>val.
               let width = length val; num = nat num in
               Some (RString (Some
                 (if num = 0 then val
                  else if num < width then
                    (if right then replicate num (if fill then val ! 0 else CHR ''0'') @ take (width - num) val
                     else drop num val @ replicate num CHR ''0'')
                  else replicate width (if fill \<and> right then val ! 0 else CHR ''0'')))))
           })
    | _ \<Rightarrow> Some ArityError)"

definition extBitShiftRight :: "'o xpath \<Rightarrow> 'o list \<Rightarrow> xresult option" where
  "extBitShiftRight = extBitShift False True"
definition extBitShiftLeft :: "'o xpath \<Rightarrow> 'o list \<Rightarrow> xresult option" where
  "extBitShiftLeft = extBitShift False False"
definition extBitAShiftRight :: "'o xpath \<Rightarrow> 'o list \<Rightarrow> xresult option" where
  "extBitAShiftRight = extBitShift True True"

section \<open>The function table\<close>

record 'o slax_function =
  ft_name :: string
  ft_func :: "'o xpath \<Rightarrow> 'o list \<Rightarrow> xresult option"
  ft_desc :: string
  ft_arghelp :: string
  ft_returns :: xtype

definition slaxBitTable :: "'o slax_function list" where
  "slaxBitTable = [
     \<lparr>ft_name = ''and'', ft_func = extBitAnd, ft_desc = ''Bit-wise AND operator'',
       ft_arghelp = ''(bit-string, bit-string)'', ft_returns = XPATH_STRING\<rparr>,
     \<lparr>ft_name = ''ashift-right'', ft_func = extBitAShiftRight, ft_desc = ''Arithmentic shift a value to the right'',
       ft_arghelp = ''(bit-string, count)'', ft_returns = XPATH_STRING\<rparr>,
     \<lparr>ft_name = ''clear'', ft_func = extBitClear, ft_desc = ''Clear a bit inside a bit string'',
       ft_arghelp = ''(bit-string, bit-number)'', ft_returns = XPATH_STRING\<rparr>,
     \<lparr>ft_name = ''compare'', ft_func = extBitCompare, ft_desc = ''Compare two bit strings, returning 1, 0, or -1'',
       ft_arghelp = ''(bit-string, bit-string)'', ft_returns = XPATH_NUMBER\<rparr>,
     \<lparr>ft_name = ''from-hex'', ft_func = extBitFromHex, ft_desc = ''Return a bit string based on a hexidecimal number'',
       ft_arghelp = ''(hex-value, len?)'', ft_returns = XPATH_STRING\<rparr>,
     \<lparr>ft_name = ''from-int'', ft_func = extBitFromInt, ft_desc = ''Return a bit string based on a number'',
       ft_arghelp = ''(value, len?)'', ft_returns = XPATH_STRING\<rparr>,
     \<lparr>ft_name = ''mask'', ft_func = extBitMask, ft_desc = ''Return a bit string of len with the low count bits set'',
       ft_arghelp = ''(count, len?)'', ft_returns = XPATH_STRING\<rparr>,
     \<lparr>ft_name = ''nand'', ft_func = extBitNand, ft_desc = ''Bit-wise NAND operator'',
       ft_arghelp = ''(bit-string, bit-string)'', ft_returns = XPATH_STRING\<rparr>,
     \<lparr>ft_name = ''nor'', ft_func = extBitNor, ft_desc = ''Bit-wise NOR operator'',
       ft_arghelp = ''(bit-string, bit-string)'', ft_returns = XPATH_STRING\<rparr>,
     \<lparr>ft_name = ''not'', ft_func = extBitNot, ft_desc = ''Bit-wise NOT operation'',
       ft_arghelp = ''(bit-string)'', ft_returns = XPATH_STRING\<rparr>,
     \<lparr>ft_name = ''or'', ft_func = extBitOr, ft_desc = ''Bit-wise OR operator'',
       ft_arghelp = ''(bit-string, bit-string)'', ft_returns = XPATH_STRING\<rparr>,
     \<lparr>ft_name = ''set'', ft_func = extBitSet, ft_desc = ''Set a bit within a bit-string'',
       ft_arghelp = ''(bit-string, bit-number)'', ft_returns = XPATH_STRING\<rparr>,
     \<lparr>ft_name = ''shift-left'', ft_func = extBitShiftLeft, ft_desc = ''Shift a value to the left'',
       ft_arghelp = ''(bit-string, count)'', ft_returns = XPATH_STRING\<rparr>,
     \<lparr>ft_name = ''shift-right'', ft_func = extBitShiftRight, ft_desc = ''Shift a value to the right'',
       ft_arghelp = ''(bit-string, count)'', ft_returns = XPATH_STRING\<rparr>,
     \<lparr>ft_name = ''to-hex'', ft_func = extBitToHex, ft_desc = ''Return the hexidecimal value of a bit-string'',
       ft_arghelp = ''(bit-string)'', ft_returns = XPATH_STRING\<rparr>,
     \<lparr>ft_name = ''to-int'', ft_func = extBitToInt, ft_desc = ''Return the numeric value of a bit-string'',
       ft_arghelp = ''(bit-string)'', ft_returns = XPATH_NUMBER\<rparr>,
     \<lparr>ft_name = ''xnor'', ft_func = extBitXnor, ft_desc = ''Bit-wise XNOR operator'',
       ft_arghelp = ''(bit-string, bit-string)'', ft_returns = XPATH_STRING\<rparr>,
     \<lparr>ft_name = ''xor'', ft_func = extBitXor, ft_desc = ''Bit-wise XOR operator'',
       ft_arghelp = ''(bit-string, bit-string)'', ft_returns = XPATH_STRING\<rparr>]"

end
