(* ===== verification/ExtBit_Props.thy ===== *)
theory ExtBit_Props
  imports ExtBit
begin

text \<open>
  The properties of the bit string functions (\<^verbatim>\<open>extensions/bit/ext_bit.c\<close>) against the value \<open>bval\<close> of
  a bit string as a binary number.
\<close>

section \<open>The value of a bit string\<close>

definition digit_of :: "char \<Rightarrow> nat" where
  "digit_of c = (if c = CHR ''1'' then 1 else 0)"

definition bval :: "string \<Rightarrow> nat" where
  "bval s = foldl (\<lambda>v c. 2 * v + digit_of c) 0 s"

definition is_bits :: "string \<Rightarrow> bool" where
  "is_bits s \<longleftrightarrow> set s \<subseteq> {CHR ''0'', CHR ''1''}"

definition gives :: "xresult option \<Rightarrow> nat \<Rightarrow> nat \<Rightarrow> bool" where
  "gives r w v \<longleftrightarrow> (\<exists>s. r = Some (RString (Some s)) \<and> is_bits s \<and> length s = w \<and> bval s = v)"

named_theorems bval_simps \<open>values of bit strings\<close>

lemma bval_Nil [bval_simps]: "bval [] = 0"
  by (simp add: bval_def)

lemma bval_snoc [bval_simps]: "bval (s @ [c]) = 2 * bval s + digit_of c"
  by (simp add: bval_def)

lemma bval_append [bval_simps]: "bval (xs @ ys) = bval xs * 2 ^ length ys + bval ys"
proof (induction ys rule: rev_induct)
  case (snoc c ys)
  have "bval (xs @ ys @ [c]) = 2 * bval (xs @ ys) + digit_of c" using bval_snoc [of "xs @ ys" c] by simp
  with snoc show ?case by (simp add: bval_snoc algebra_simps)
qed (simp add: bval_def)

lemma digit_of_less: "digit_of c < 2"
  by (simp add: digit_of_def)

lemma bval_less: "bval s < 2 ^ length s"
proof (induction s rule: rev_induct)
  case (snoc c s)
  with digit_of_less [of c] show ?case by (simp add: bval_snoc)
qed (simp add: bval_def)

lemma bval_zeros [bval_simps]: "bval (replicate n CHR ''0'') = 0"
  by (induction n) (simp_all add: bval_Nil bval_snoc digit_of_def flip: replicate_append_same)

lemma bval_ones [bval_simps]: "bval (replicate n CHR ''1'') = 2 ^ n - 1"
proof (induction n)
  case (Suc n)
  have "(1 :: nat) \<le> 2 ^ n" by simp
  then have "2 * (2 ^ n - 1) + 1 = 2 ^ Suc n - (1 :: nat)" unfolding power_Suc by linarith
  with Suc show ?case by (simp add: bval_snoc digit_of_def flip: replicate_append_same)
qed (simp add: bval_Nil)

lemma is_bits_simps [simp]:
  "is_bits []" "is_bits (xs @ ys) \<longleftrightarrow> is_bits xs \<and> is_bits ys"
  "is_bits (c # xs) \<longleftrightarrow> (c = CHR ''0'' \<or> c = CHR ''1'') \<and> is_bits xs"
  "is_bits (replicate n c) \<longleftrightarrow> n = 0 \<or> c = CHR ''0'' \<or> c = CHR ''1''"
  by (auto simp: is_bits_def)

lemma is_bits_take: "is_bits s \<Longrightarrow> is_bits (take n s)" and is_bits_drop: "is_bits s \<Longrightarrow> is_bits (drop n s)"
  by (auto simp: is_bits_def dest: in_set_takeD in_set_dropD)

lemma snoc_cancel: "(d :: nat) < 2 \<Longrightarrow> e < 2 \<Longrightarrow> 2 * a + d = 2 * b + e \<longleftrightarrow> a = b \<and> d = e"
  by presburger

lemma bit_bval: "bit (bval s) i \<longleftrightarrow> i < length s \<and> s ! (length s - Suc i) = CHR ''1''"
proof (induction s arbitrary: i rule: rev_induct)
  case Nil
  show ?case by (simp add: bval_Nil)
next
  case (snoc c s)
  show ?case
  proof (cases i)
    case 0
    then show ?thesis by (cases "c = CHR ''1''") (simp_all add: bval_snoc digit_of_def bit_0)
  next
    case (Suc j)
    have "(2 * bval s + digit_of c) div 2 = bval s" using digit_of_less [of c] by simp
    then have "bit (bval (s @ [c])) (Suc j) = bit (bval s) j" by (simp add: bval_snoc bit_Suc)
    moreover have "(s @ [c]) ! (length (s @ [c]) - Suc (Suc j)) = s ! (length s - Suc j)" if "j < length s"
    proof -
      have "length s - Suc j < length s" using that by simp
      then show ?thesis by (simp add: nth_append)
    qed
    ultimately show ?thesis using Suc snoc.IH [of j] by auto
  qed
qed

lemma bval_inj: "is_bits s \<Longrightarrow> is_bits t \<Longrightarrow> length s = length t \<Longrightarrow> bval s = bval t \<Longrightarrow> s = t"
proof (induction s arbitrary: t rule: rev_induct)
  case (snoc c s)
  from snoc.prems(3) obtain d t' where t: "t = t' @ [d]" by (cases t rule: rev_cases) auto
  have v: "bval s = bval t'" "digit_of c = digit_of d"
    using snoc.prems(4) unfolding t bval_snoc snoc_cancel [OF digit_of_less digit_of_less] by blast+
  have b: "is_bits s" "is_bits t'" "length s = length t'" using snoc.prems(1-3) unfolding t by simp_all
  have "c = d" using snoc.prems(1,2) v(2) unfolding t by (auto simp: digit_of_def)
  with snoc.IH [OF b v(1)] t show ?case by simp
qed simp

section \<open>The digits of a number\<close>

lemma ull_width_bound: "n < 2 ^ ull_width n"
proof (induction n rule: ull_width.induct)
  case (1 n)
  show ?case
  proof (cases "n = 0")
    case False
    with 1 have "n div 2 < 2 ^ ull_width (n div 2)" by simp
    then have "n < 2 * 2 ^ ull_width (n div 2)" by linarith
    with False show ?thesis by (simp add: ull_width.simps [of n])
  qed (simp add: ull_width.simps)
qed

lemma ull_width_least: "n < 2 ^ k \<Longrightarrow> ull_width n \<le> k"
proof (induction n arbitrary: k rule: ull_width.induct)
  case (1 n)
  show ?case
  proof (cases "n = 0")
    case False
    with 1(2) obtain k' where k: "k = Suc k'" by (cases k) auto
    with 1(2) have "n div 2 < 2 ^ k'" by simp
    with 1(1) False k show ?thesis by (simp add: ull_width.simps [of n])
  qed (simp add: ull_width.simps)
qed

lemma ull_min_width: "n < 2 ^ ull_min_width n" "0 < ull_min_width n" "n < 2 ^ k \<Longrightarrow> 0 < k \<Longrightarrow> ull_min_width n \<le> k"
  using ull_width_bound [of n] ull_width_least [of n k] by (auto simp: ull_min_width_def)

lemma bit_char_digit [simp]: "digit_of (bit_char v) = v mod 2" "bit_char v = CHR ''0'' \<or> bit_char v = CHR ''1''"
  by (auto simp: bit_char_def digit_of_def odd_iff_mod_2_eq_one even_iff_mod_2_eq_zero)

lemma ull_digits_facts: "length (ull_digits w n) = w" "is_bits (ull_digits w n)" "bval (ull_digits w n) = n mod 2 ^ w"
proof (induction w n rule: ull_digits.induct)
  case (2 w n)
  have "n mod 2 ^ Suc w = 2 * (n div 2 mod 2 ^ w) + n mod 2" by (simp add: mod_mult2_eq add.commute)
  moreover have "is_bits [bit_char n]" using bit_char_digit(2) [of n] by simp
  ultimately show "length (ull_digits (Suc w) n) = Suc w" "is_bits (ull_digits (Suc w) n)"
    "bval (ull_digits (Suc w) n) = n mod 2 ^ Suc w"
    using "2.IH" by (simp_all only: ull_digits.simps bval_snoc bit_char_digit(1) length_append is_bits_simps) simp_all
qed (simp_all add: bval_Nil)

lemma ull_min_digits: "bval (ull_digits (ull_min_width n) n) = n"
  using ull_min_width(1) [of n] by (simp add: ull_digits_facts)

lemma hex_fill_facts:
  "n < 2 ^ w \<Longrightarrow> w \<le> i \<Longrightarrow> hex_fill i (int w) n = replicate (i - w) CHR ''0'' @ ull_digits w n"
proof (induction i arbitrary: w n)
  case (Suc i)
  have zeros: "hex_fill j k m = replicate j CHR ''0''" if "k \<le> 0" for j k m
    using that by (induction j arbitrary: k) (simp_all flip: replicate_append_same)
  show ?case
  proof (cases w)
    case 0
    then show ?thesis using zeros [of 0 "Suc i" n] by simp
  next
    case (Suc w')
    then have "n div 2 < 2 ^ w'" using Suc.prems(1) by simp
    from Suc.IH [OF this] Suc.prems(2) Suc show ?thesis by simp
  qed
qed simp

section \<open>Scanning a bit string\<close>

lemma bit_scan_short:
  "i + length s \<le> 65 \<Longrightarrow> bit_scan s i v = (i + length s, push_bit (length s) v + word_of_nat (bval s))"
proof (induction s arbitrary: i v)
  case (Cons c s)
  have "bval (c # s) = digit_of c * 2 ^ length s + bval s" using bval_append [of "[c]" s] by (simp add: bval_def)
  moreover have "push_bit (length s) (push_bit 1 v + (if c = CHR ''1'' then 1 else 0))
      = push_bit (Suc (length s)) v + word_of_nat (digit_of c * 2 ^ length s)"
    by (simp add: digit_of_def push_bit_eq_mult algebra_simps)
  ultimately show ?case using Cons by (simp add: add.assoc)
qed (simp add: bval_Nil)

lemma bit_scan_long: "i \<le> 65 \<Longrightarrow> 65 \<le> i + length s \<Longrightarrow> fst (bit_scan s i v) = 65"
proof (induction s arbitrary: i v)
  case (Cons c s)
  then show ?case by (cases "i \<le> 64") simp_all
qed simp

lemma bit_scan_value:
  "bit_scan s 0 0 = (k, v) \<Longrightarrow> (64 < k \<longleftrightarrow> 64 < length s) \<and> (length s \<le> 64 \<longrightarrow> unat v = bval s)"
proof (cases "length s \<le> 64")
  case True
  moreover have "bval s < 2 ^ 64"
  proof -
    have "bval s < 2 ^ length s" by (rule bval_less)
    also have "\<dots> \<le> 2 ^ 64" using True by (intro power_increasing) auto
    finally show ?thesis .
  qed
  moreover assume "bit_scan s 0 0 = (k, v)"
  ultimately show ?thesis using bit_scan_short [of 0 s 0] by (auto simp: unat_of_nat)
next
  case False
  moreover assume "bit_scan s 0 0 = (k, v)"
  ultimately show ?thesis using bit_scan_long [of 0 s 0] by simp
qed

lemma ull_double_exact: "n < 2 ^ 53 \<Longrightarrow> ull_double n = n"
  using ull_width_least [of n 53] by (simp add: ull_double_def)

section \<open>The operations on values\<close>

definition zext :: "nat \<Rightarrow> string \<Rightarrow> string" where
  "zext w s = replicate (w - length s) CHR ''0'' @ s"

lemma zext_facts: "length s \<le> w \<Longrightarrow> length (zext w s) = w" "bval (zext w s) = bval s" "is_bits s \<Longrightarrow> is_bits (zext w s)"
  by (simp_all add: zext_def bval_simps)

lemma zext_nth:
  "j < w \<Longrightarrow> length s \<le> w \<Longrightarrow>
    (if w - length s \<le> j then s ! (j - (w - length s)) else CHR ''0'') = zext w s ! j"
  by (simp add: zext_def nth_append)

lemma op_map:
  assumes "length lv \<le> w" "length rv \<le> w"
  shows "map (\<lambda>i. let lb = (if w - length lv \<le> i then lv ! (i - (w - length lv)) else CHR ''0'');
           rb = (if w - length rv \<le> i then rv ! (i - (w - length rv)) else CHR ''0'') in func lb rb) [0..<w]
    = map2 func (zext w lv) (zext w rv)"
proof (rule nth_equalityI)
  fix j assume "j < length (map (\<lambda>i. let lb = (if w - length lv \<le> i then lv ! (i - (w - length lv)) else CHR ''0'');
           rb = (if w - length rv \<le> i then rv ! (i - (w - length rv)) else CHR ''0'') in func lb rb) [0..<w])"
  then have j: "j < w" by simp
  with zext_nth [OF j assms(1)] zext_nth [OF j assms(2)]
  show "map (\<lambda>i. let lb = (if w - length lv \<le> i then lv ! (i - (w - length lv)) else CHR ''0'');
           rb = (if w - length rv \<le> i then rv ! (i - (w - length rv)) else CHR ''0'') in func lb rb) [0..<w] ! j
      = map2 func (zext w lv) (zext w rv) ! j"
    by (simp add: zext_facts(1) assms Let_def cong: if_cong split del: if_split)
qed (simp add: zext_facts(1) assms)

lemma bits_nth: "is_bits s \<Longrightarrow> j < length s \<Longrightarrow> s ! j = CHR ''0'' \<or> s ! j = CHR ''1''"
  using nth_mem [of j s] unfolding is_bits_def by blast

lemma bit_map2:
  assumes "is_bits a" "is_bits b" "length a = w" "length b = w"
    and "\<And>c d. c = CHR ''0'' \<or> c = CHR ''1'' \<Longrightarrow> d = CHR ''0'' \<or> d = CHR ''1'' \<Longrightarrow>
      func c d = (if F (c = CHR ''1'') (d = CHR ''1'') then CHR ''1'' else CHR ''0'')"
  shows "is_bits (map2 func a b)"
    and "bit (bval (map2 func a b)) i \<longleftrightarrow> i < w \<and> F (bit (bval a) i) (bit (bval b) i)"
proof -
  have f: "map2 func a b ! j = (if F (a ! j = CHR ''1'') (b ! j = CHR ''1'') then CHR ''1'' else CHR ''0'')" if "j < w" for j
    using that assms bits_nth [of a j] bits_nth [of b j] by simp
  have len: "length (map2 func a b) = w" using assms(3,4) by simp
  have "\<forall>c\<in>set (map2 func a b). c = CHR ''0'' \<or> c = CHR ''1''"
    unfolding all_set_conv_all_nth len using f by simp
  then show "is_bits (map2 func a b)" unfolding is_bits_def by blast
  show "bit (bval (map2 func a b)) i \<longleftrightarrow> i < w \<and> F (bit (bval a) i) (bit (bval b) i)"
  proof (cases "i < w")
    case True
    then have "w - Suc i < w" by simp
    with True show ?thesis unfolding bit_bval len assms(3,4) by (simp add: f)
  next
    case False
    then show ?thesis unfolding bit_bval len by simp
  qed
qed

lemma nat_bit_above: "v < 2 ^ w \<Longrightarrow> w \<le> i \<Longrightarrow> \<not> bit (v :: nat) i"
proof -
  assume "v < 2 ^ w" "w \<le> i"
  moreover have "(2 :: nat) ^ w \<le> 2 ^ i" using \<open>w \<le> i\<close> by (intro power_increasing) auto
  ultimately have "v < 2 ^ i" by linarith
  then show "\<not> bit v i" by (simp add: bit_iff_odd)
qed

lemma extBitOperation_gives:
  assumes "extBitStringVal x l False = Some (Some lv)" "extBitStringVal x r False = Some (Some rv)"
    and "is_bits lv" "is_bits rv" and mem: "\<forall>n. xo_malloc x n" and w: "w = max (length lv) (length rv)"
    and F: "\<And>c d. c = CHR ''0'' \<or> c = CHR ''1'' \<Longrightarrow> d = CHR ''0'' \<or> d = CHR ''1'' \<Longrightarrow>
      func c d = (if F (c = CHR ''1'') (d = CHR ''1'') then CHR ''1'' else CHR ''0'')"
    and v: "\<And>i. i < w \<Longrightarrow> bit v i \<longleftrightarrow> F (bit (bval lv) i) (bit (bval rv) i)" "v < 2 ^ w"
  shows "gives (extBitOperation func x [l, r]) w v"
proof -
  have le: "length lv \<le> w" "length rv \<le> w" by (simp_all add: w)
  have w': "(if length rv < length lv then length lv else length rv) = w" by (auto simp: w)
  have res: "extBitOperation func x [l, r] = Some (RString (Some (map2 func (zext w lv) (zext w rv))))"
    using assms(1,2) mem op_map [OF le, of func]
    by (simp add: extBitOperation_def with_bits_def w' Let_def cong: if_cong split del: if_split)
  note z = zext_facts(3) [OF assms(3), of w] zext_facts(3) [OF assms(4), of w] zext_facts(1) [OF le(1)] zext_facts(1) [OF le(2)]
  have b: "is_bits (map2 func (zext w lv) (zext w rv))"
    "bit (bval (map2 func (zext w lv) (zext w rv))) i \<longleftrightarrow> i < w \<and> F (bit (bval lv) i) (bit (bval rv) i)" for i
    using bit_map2 [where F = F and func = func, OF z] F unfolding zext_facts(2) by blast+
  have "bval (map2 func (zext w lv) (zext w rv)) = v"
  proof (rule bit_eqI)
    fix i show "bit (bval (map2 func (zext w lv) (zext w rv))) i = bit v i"
      unfolding b(2) using v(1) nat_bit_above [OF v(2)] by (cases "i < w") auto
  qed
  with res b(1) z(3,4) show ?thesis unfolding gives_def by auto
qed

lemma bit_mask_nat: "bit (2 ^ w - 1 :: nat) i \<longleftrightarrow> i < w"
  using bit_mask_iff [of w i, where 'a = nat] by (simp add: mask_eq_exp_minus_1)

lemma take_bit_less: "take_bit w v = v \<Longrightarrow> v < (2 :: nat) ^ w"
  by (metis take_bit_nat_less_exp)

lemma word_less:
  assumes "a < 2 ^ w" "b < 2 ^ w"
  shows "a AND b < (2 :: nat) ^ w" "a OR b < 2 ^ w" "a XOR b < 2 ^ w" "(2 ^ w - 1) XOR a < 2 ^ w"
proof -
  have t: "take_bit w a = a" "take_bit w b = b" "take_bit w (2 ^ w - 1) = (2 ^ w - 1 :: nat)"
    using assms by (simp_all add: take_bit_nat_eq_self)
  show "a AND b < 2 ^ w" "a OR b < 2 ^ w" "a XOR b < 2 ^ w" "(2 ^ w - 1) XOR a < 2 ^ w"
    by (rule take_bit_less, simp only: t take_bit_and take_bit_or take_bit_xor)+
qed

lemma bval_max: "bval lv < 2 ^ max (length lv) (length rv)" "bval rv < 2 ^ max (length lv) (length rv)"
proof -
  have "(2 :: nat) ^ length lv \<le> 2 ^ max (length lv) (length rv)" "(2 :: nat) ^ length rv \<le> 2 ^ max (length lv) (length rv)"
    by (intro power_increasing; simp)+
  then show "bval lv < 2 ^ max (length lv) (length rv)" "bval rv < 2 ^ max (length lv) (length rv)"
    using bval_less [of lv] bval_less [of rv] by linarith+
qed

section \<open>Shifts\<close>

definition sval :: "string \<Rightarrow> int" where
  "sval s = (if s \<noteq> [] \<and> s ! 0 = CHR ''1'' then int (bval s) - 2 ^ length s else int (bval s))"

lemma bval_take_drop: 
  assumes "n \<le> length s"
  shows "bval (take (length s - n) s) = bval s div 2 ^ n" "bval (drop (length s - n) s) = bval s mod 2 ^ n"
proof -
  have "bval s = bval (take (length s - n) s) * 2 ^ n + bval (drop (length s - n) s)"
    using bval_append [of "take (length s - n) s" "drop (length s - n) s"] assms by simp
  moreover have "bval (drop (length s - n) s) < 2 ^ n" using bval_less [of "drop (length s - n) s"] assms by simp
  ultimately show "bval (take (length s - n) s) = bval s div 2 ^ n" "bval (drop (length s - n) s) = bval s mod 2 ^ n"
    by simp_all
qed

lemma shift_left_value:
  assumes "n < length s"
  shows "bval (drop n s @ replicate n CHR ''0'') = bval s * 2 ^ n mod 2 ^ length s"
proof -
  have "bval (drop n s) = bval s mod 2 ^ (length s - n)"
    using bval_take_drop(2) [of "length s - n" s] assms by simp
  moreover have "bval s mod 2 ^ (length s - n) * 2 ^ n = bval s * 2 ^ n mod (2 ^ (length s - n) * 2 ^ n)"
    by (simp only: mult_mod_left)
  moreover have "(2 :: nat) ^ (length s - n) * 2 ^ n = 2 ^ length s" using assms by (simp flip: power_add)
  ultimately show ?thesis by (simp add: bval_append bval_zeros)
qed

lemma shift_right_value:
  assumes "n < length s"
  shows "bval (replicate n CHR ''0'' @ take (length s - n) s) = bval s div 2 ^ n"
  using bval_take_drop(1) [of n s] assms by (simp add: bval_append bval_zeros)

lemma is_bits_head: "is_bits s \<Longrightarrow> s \<noteq> [] \<Longrightarrow> s ! 0 = CHR ''0'' \<or> s ! 0 = CHR ''1''"
  using bits_nth [of s 0] by simp

lemma bval_past:
  assumes n: "length s \<le> n"
  shows "bval s div 2 ^ n = 0" "bval s * 2 ^ n mod 2 ^ length s = 0"
proof -
  from n have "(2 :: nat) ^ length s dvd 2 ^ n" by (rule le_imp_power_dvd)
  then show "bval s * 2 ^ n mod 2 ^ length s = 0" by simp
  have "(2 :: nat) ^ length s \<le> 2 ^ n" using n by (intro power_increasing) auto
  then have "bval s < 2 ^ n" using bval_less [of s] by linarith
  then show "bval s div 2 ^ n = 0" by simp
qed

text \<open>The character that fills from the left, and the value as a two's complement number.\<close>

lemma arith_shift_value:
  assumes "is_bits s" "s \<noteq> []" "n < length s"
  shows "sval (replicate n (s ! 0) @ take (length s - n) s) = sval s div 2 ^ n"
proof (cases "s ! 0 = CHR ''1''")
  case False
  then have z: "s ! 0 = CHR ''0''" using is_bits_head [OF assms(1,2)] by simp
  have "(replicate n (s ! 0) @ take (length s - n) s) ! 0 = CHR ''0''"
    using z assms(3) by (cases n) (simp_all add: nth_append)
  with z shift_right_value [OF assms(3)] show ?thesis by (simp add: sval_def zdiv_int)
next
  case True
  let ?t = "replicate n CHR ''1'' @ take (length s - n) s"
  have hd: "?t ! 0 = CHR ''1''" using True assms(3) by (cases n) (simp_all add: nth_append)
  have len: "length ?t = length s" using assms(3) by simp
  have p: "(2 :: int) ^ length s = 2 ^ (length s - n) * 2 ^ n" using assms(3) by (simp flip: power_add)
  have "int (bval ?t) = (2 ^ n - 1) * 2 ^ (length s - n) + int (bval s) div 2 ^ n"
    using bval_take_drop(1) [of n s] assms(3) by (simp add: bval_append bval_ones of_nat_diff zdiv_int)
  then have "int (bval ?t) - 2 ^ length s = int (bval s) div 2 ^ n - 2 ^ (length s - n)"
    by (simp add: p algebra_simps)
  also have "\<dots> = (int (bval s) + (- (2 ^ (length s - n))) * 2 ^ n) div 2 ^ n"
    by (subst div_mult_self1) simp_all
  also have "\<dots> = (int (bval s) - 2 ^ length s) div 2 ^ n" by (simp add: p)
  finally have "int (bval ?t) - 2 ^ length s = (int (bval s) - 2 ^ length s) div 2 ^ n" .
  moreover have "sval ?t = int (bval ?t) - 2 ^ length s"
    using hd len assms(2) unfolding sval_def by (metis list.size(3) length_0_conv)
  moreover have "sval s = int (bval s) - 2 ^ length s" using True assms(2) by (simp add: sval_def)
  ultimately show ?thesis unfolding True by simp
qed

lemma arith_shift_past:
  assumes "is_bits s" "length s \<le> n"
  shows "sval (replicate (length s) (s ! 0)) = sval s div 2 ^ n"
proof (cases "s = []")
  case True
  then show ?thesis by (simp add: sval_def bval_Nil)
next
  case ne: False
  have le: "(2 :: nat) ^ length s \<le> 2 ^ n" using assms(2) by (intro power_increasing) auto
  then have lei: "(2 :: int) ^ length s \<le> 2 ^ n" using of_nat_le_iff [of "2 ^ length s" "2 ^ n", where 'a = int] by simp
  show ?thesis
  proof (cases "s ! 0 = CHR ''1''")
    case True
    have b: "int (bval s) < 2 ^ length s" using bval_less [of s] of_nat_less_iff [of "bval s" "2 ^ length s", where 'a = int] by simp
    have "(int (bval s) - 2 ^ length s) div 2 ^ n = - 1"
      by (rule int_div_pos_eq [where r = "int (bval s) - 2 ^ length s + 2 ^ n"]) (use b lei in linarith)+
    with True ne show ?thesis by (simp add: sval_def bval_ones of_nat_diff)
  next
    case False
    then have z: "s ! 0 = CHR ''0''" using is_bits_head [OF assms(1) ne] by simp
    have "int (bval s) div 2 ^ n = int (bval s div 2 ^ n)" by (simp add: zdiv_int)
    then have "int (bval s) div 2 ^ n = 0" by (simp add: bval_past(1) [OF assms(2)])
    moreover have "replicate (length s) CHR ''0'' ! 0 = CHR ''0''" using ne by simp
    ultimately show ?thesis using z ne by (simp add: sval_def bval_zeros)
  qed
qed

section \<open>Setting and clearing, comparing\<close>

lemma bval_update:
  assumes "n < length s" "v = CHR ''0'' \<or> v = CHR ''1''"
  shows "bval (s[length s - Suc n := v]) = (if v = CHR ''1'' then set_bit n (bval s) else unset_bit n (bval s))"
proof (rule bit_eqI)
  fix i
  have "length s - Suc i = length s - Suc n \<longleftrightarrow> i = n" if "i < length s" using that assms(1) by auto
  then show "bit (bval (s[length s - Suc n := v])) i
      = bit (if v = CHR ''1'' then set_bit n (bval s) else unset_bit n (bval s)) i"
    using assms by (auto simp: bit_bval bit_set_bit_iff bit_unset_bit_iff nth_list_update)
qed

lemma bval_beyond:
  assumes "length s \<le> n" "v = CHR ''0'' \<or> v = CHR ''1''"
  shows "bval (v # replicate (n - length s) CHR ''0'' @ s) = (if v = CHR ''1'' then set_bit n (bval s) else unset_bit n (bval s))"
proof -
  have lt: "bval s < 2 ^ n"
  proof -
    have "(2 :: nat) ^ length s \<le> 2 ^ n" using assms(1) by (intro power_increasing) auto
    with bval_less [of s] show ?thesis by linarith
  qed
  have nb: "\<not> bit (bval s) n" using nat_bit_above [OF lt, of n] by simp
  have "bval (v # replicate (n - length s) CHR ''0'' @ s) = digit_of v * 2 ^ n + bval s"
    using bval_append [of "[v]" "replicate (n - length s) CHR ''0'' @ s"] assms(1)
    by (simp add: bval_append bval_zeros) (simp add: bval_def)
  moreover have "set_bit n (bval s) = 2 ^ n + bval s"
    using nb by (simp add: set_bit_eq)
  moreover have "unset_bit n (bval s) = bval s"
    using nb by (intro bit_eqI) (auto simp: bit_unset_bit_iff)
  ultimately show ?thesis using assms(2) by (auto simp: digit_of_def)
qed

lemma bval_Cons: "bval (c # s) = digit_of c * 2 ^ length s + bval s"
  using bval_append [of "[c]" s] by (simp add: bval_def)

lemma bval_leading: "is_bits s \<Longrightarrow> \<not> list_all (\<lambda>c. c = CHR ''0'') (take n s) \<Longrightarrow> n \<le> length s \<Longrightarrow> 2 ^ (length s - n) \<le> bval s"
proof (induction s arbitrary: n)
  case (Cons c s)
  then obtain m where n: "n = Suc m" by (cases n) auto
  show ?case
  proof (cases "c = CHR ''1''")
    case True
    have "(2 :: nat) ^ (length s - m) \<le> 2 ^ length s" by (intro power_increasing) auto
    then have "(2 :: nat) ^ (length s - m) \<le> 2 ^ length s + bval s" by (rule trans_le_add1)
    with True n show ?thesis by (simp add: bval_Cons digit_of_def)
  next
    case False
    with Cons.prems n have "\<not> list_all (\<lambda>c. c = CHR ''0'') (take m s)" "is_bits s" "m \<le> length s" by auto
    from Cons.IH [OF this(2,1,3)] n show ?thesis by (simp add: bval_Cons)
  qed
qed simp

lemma bval_skip_zeros: "list_all (\<lambda>c. c = CHR ''0'') (take n s) \<Longrightarrow> bval (drop n s) = bval s"
proof (induction s arbitrary: n)
  case (Cons c s)
  then show ?case by (cases n) (auto simp: bval_Cons digit_of_def)
qed simp

text \<open>The order of \<^verbatim>\<open>strcmp\<close>.\<close>

fun byte_order :: "string \<Rightarrow> string \<Rightarrow> int" where
  "byte_order [] [] = 0"
| "byte_order [] (d # t) = - 1"
| "byte_order (c # s) [] = 1"
| "byte_order (c # s) (d # t) =
     (if c = d then byte_order s t else if (of_char c :: nat) < of_char d then - 1 else 1)"

lemma byte_order_bval:
  "is_bits s \<Longrightarrow> is_bits t \<Longrightarrow> length s = length t \<Longrightarrow> byte_order s t = sgn (int (bval s) - int (bval t))"
proof (induction s t rule: byte_order.induct)
  case (4 c s d t)
  have less: "int (bval u) < 2 ^ length t + int (bval v)" if "length u = length t" for u v :: string
  proof -
    have "bval u < 2 ^ length t + bval v" using bval_less [of u] that by simp
    then show ?thesis by (metis of_nat_add of_nat_less_iff of_nat_numeral of_nat_power)
  qed
  from "4.prems" consider "c = d" | "c = CHR ''0''" "d = CHR ''1''" | "c = CHR ''1''" "d = CHR ''0''" by auto
  then show ?case
  proof cases
    case 1
    with 4 show ?thesis by (simp add: bval_Cons)
  next
    case 2
    with 4(4) less [of s t] show ?thesis by (simp add: bval_Cons digit_of_def)
  next
    case 3
    with 4(4) less [of t s] show ?thesis by (simp add: bval_Cons digit_of_def)
  qed
qed simp_all

section \<open>Properties\<close>

text \<open>Objects that are numbers or strings, in a library that finds memory.\<close>

definition demo_xpath :: "(xdouble + string) xpath" where
  "demo_xpath = \<lparr>xo_type = case_sum (\<lambda>_. XPATH_NUMBER) (\<lambda>_. XPATH_STRING), xo_float = case_sum (\<lambda>d. d) (\<lambda>_. NotANumber),
     xo_string = case_sum (\<lambda>_. []) (\<lambda>s. s), xo_pop_string = case_sum (\<lambda>_. None) Some,
     xo_pop_number = case_sum Some (\<lambda>_. None), xo_strcmp = byte_order, xo_malloc = (\<lambda>_. True)\<rparr>"

lemma demo_strings: "extBitStringVal demo_xpath (Inr s) False = Some (Some s)" "\<forall>n. xo_malloc demo_xpath n"
  "xo_pop_number demo_xpath (Inl d) = Some d" "xo_strcmp demo_xpath = byte_order"
  "xo_pop_string demo_xpath (Inr s) = Some s" "xo_type demo_xpath (Inr s) = XPATH_STRING"
  "xo_type demo_xpath (Inl d) = XPATH_NUMBER" "xo_float demo_xpath (Inl d) = d"
  by (simp_all add: demo_xpath_def extBitStringVal_def)

text \<open>C19. The two-operand functions are the operations on binary numbers: operands of
  different lengths are extended with zeros on the left, the result has the longer length, and its
  value is the bit-wise combination of the values.\<close>

theorem ext_bit_logic:
  fixes x :: "'o xpath"
  assumes "extBitStringVal x l False = Some (Some lv)" and "extBitStringVal x r False = Some (Some rv)"
    and "is_bits lv" and "is_bits rv" and "\<forall>n. xo_malloc x n"
  defines "w \<equiv> max (length lv) (length rv)" and "a \<equiv> bval lv" and "b \<equiv> bval rv"
  shows "gives (extBitAnd x [l, r]) w (a AND b) \<and> gives (extBitNand x [l, r]) w ((2 ^ w - 1) XOR (a AND b))
    \<and> gives (extBitOr x [l, r]) w (a OR b) \<and> gives (extBitNor x [l, r]) w ((2 ^ w - 1) XOR (a OR b))
    \<and> gives (extBitXor x [l, r]) w (a XOR b) \<and> gives (extBitXnor x [l, r]) w ((2 ^ w - 1) XOR (a XOR b))"
proof -
  note op = extBitOperation_gives [OF assms(1-5) w_def [THEN meta_eq_to_obj_eq]]
  have lt: "a < 2 ^ w" "b < 2 ^ w" unfolding w_def a_def b_def by (rule bval_max)+
  note wl = word_less [OF lt]
  note bits = bit_and_iff bit_or_iff bit_xor_iff bit_mask_nat bit_mask_nat [unfolded One_nat_def] a_def b_def
  show ?thesis
    unfolding extBitAnd_def extBitNand_def extBitOr_def extBitNor_def extBitXor_def extBitXnor_def
  proof (intro conjI)
    show "gives (extBitOperation extBitOpAnd x [l, r]) w (a AND b)"
      by (rule op [where F = "\<lambda>p q. p \<and> q"]) (use wl in \<open>auto simp: extBitOpAnd_def bits\<close>)
    show "gives (extBitOperation extBitOpNand x [l, r]) w ((2 ^ w - 1) XOR (a AND b))"
      by (rule op [where F = "\<lambda>p q. \<not> (p \<and> q)"]) (use word_less(4) [OF wl(1,1)] in \<open>auto simp: extBitOpNand_def bits\<close>)
    show "gives (extBitOperation extBitOpOr x [l, r]) w (a OR b)"
      by (rule op [where F = "\<lambda>p q. p \<or> q"]) (use wl in \<open>auto simp: extBitOpOr_def bits\<close>)
    show "gives (extBitOperation extBitOpNor x [l, r]) w ((2 ^ w - 1) XOR (a OR b))"
      by (rule op [where F = "\<lambda>p q. \<not> (p \<or> q)"]) (use word_less(4) [OF wl(2,2)] in \<open>auto simp: extBitOpNor_def bits\<close>)
    show "gives (extBitOperation extBitOpXor x [l, r]) w (a XOR b)"
      by (rule op [where F = "\<lambda>p q. p \<noteq> q"]) (use wl in \<open>auto simp: extBitOpXor_def bits\<close>)
    show "gives (extBitOperation extBitOpXnor x [l, r]) w ((2 ^ w - 1) XOR (a XOR b))"
      by (rule op [where F = "\<lambda>p q. p = q"]) (use word_less(4) [OF wl(3,3)] in \<open>auto simp: extBitOpXnor_def bits\<close>)
  qed
qed

theorem ext_bit_logic_witness:
  "gives (extBitAnd demo_xpath [Inr ''1100'', Inr ''101'']) (max (length ''1100'') (length ''101'')) (bval ''1100'' AND bval ''101'')"
  by (rule ext_bit_logic [OF demo_strings(1,1) _ _ demo_strings(2), THEN conjunct1]) simp_all

lemma extBitShift_result:
  assumes "extBitStringVal x l False = Some (Some s)" "xo_pop_number x c = Some (Finite (of_nat n))" "n < 2 ^ 31"
  shows "extBitShift fill right x [l, c] = Some (RString (Some
    (if n = 0 then s
     else if n < length s then
       (if right then replicate n (if fill then s ! 0 else CHR ''0'') @ take (length s - n) s
        else drop n s @ replicate n CHR ''0'')
     else replicate (length s) (if fill \<and> right then s ! 0 else CHR ''0''))))"
proof -
  have "double_int (Finite (of_nat n)) = Some (int n)"
    using assms(3) of_nat_less_iff [of n "2 ^ 31", where 'a = int] by (simp add: double_int_def)
  then show ?thesis by (simp add: extBitShift_def with_bits_def assms(1,2) Let_def)
qed

text \<open>C20. Shifts keep the length of the string, whatever the count: to the left the value is
  multiplied modulo the length, to the right it is divided, and the arithmetic shift to the right
  divides the value as a two's complement number, rounding down.\<close>

theorem ext_bit_shifts:
  fixes x :: "'o xpath"
  assumes "extBitStringVal x l False = Some (Some s)" and "is_bits s"
    and "xo_pop_number x c = Some (Finite (of_nat n))" and "n < 2 ^ 31"
  shows "gives (extBitShiftLeft x [l, c]) (length s) (bval s * 2 ^ n mod 2 ^ length s)
    \<and> gives (extBitShiftRight x [l, c]) (length s) (bval s div 2 ^ n)
    \<and> (\<exists>t. extBitAShiftRight x [l, c] = Some (RString (Some t)) \<and> is_bits t \<and> length t = length s \<and> sval t = sval s div 2 ^ n)"
proof -
  note res = extBitShift_result [OF assms(1,3,4)]
  note b = is_bits_take [OF assms(2)] is_bits_drop [OF assms(2)] is_bits_head [OF assms(2)]
  note unf = extBitShiftLeft_def extBitShiftRight_def extBitAShiftRight_def gives_def res
  consider "n = 0" | "n \<noteq> 0" "n < length s" | "n \<noteq> 0" "length s \<le> n" by linarith
  then show ?thesis
  proof cases
    case 1
    with bval_less [of s] assms(2) show ?thesis by (simp add: unf)
  next
    case 2
    then have ne: "s \<noteq> []" by auto
    from 2 assms(2) b(1,2) b(3) [OF ne] show ?thesis
      using shift_left_value [OF 2(2)] shift_right_value [OF 2(2)] arith_shift_value [OF assms(2) ne 2(2)]
      by (simp add: unf)
  next
    case 3
    from b(3) have "s = [] \<or> s ! 0 = CHR ''0'' \<or> s ! 0 = CHR ''1''" by blast
    with 3 show ?thesis
      using bval_past [OF 3(2)] arith_shift_past [OF assms(2) 3(2)] by (simp add: unf bval_zeros)
  qed
qed

theorem ext_bit_shifts_witness:
  "gives (extBitShiftLeft demo_xpath [Inr ''1011'', Inl (Finite (of_nat 2))]) (length ''1011'') (bval ''1011'' * 2 ^ 2 mod 2 ^ length ''1011'')"
  by (rule ext_bit_shifts [OF demo_strings(1) _ demo_strings(3), THEN conjunct1]) simp_all

text \<open>C21. \<^verbatim>\<open>bit:set\<close> and \<^verbatim>\<open>bit:clear\<close> set and clear the bit of that number, counted from
  the right; a number beyond the string extends it to the left. The number is below \<open>2 ^ 31 - 2\<close>, since
  the code adds 2 to it as an \<^verbatim>\<open>int\<close> for the size of the longer string.\<close>

theorem ext_bit_set_clear:
  fixes x :: "'o xpath"
  assumes "extBitStringVal x l False = Some (Some s)" and "is_bits s" and "\<forall>n. xo_malloc x n"
    and "xo_pop_number x c = Some (Finite (of_nat n))" and "n + 2 < 2 ^ 31"
  shows "gives (extBitSet x [l, c]) (max (length s) (n + 1)) (set_bit n (bval s))
    \<and> gives (extBitClear x [l, c]) (max (length s) (n + 1)) (unset_bit n (bval s))"
proof -
  have num: "double_int (Finite (of_nat n)) = Some (int n)"
    using assms(5) of_nat_less_iff [of n "2 ^ 31", where 'a = int] by (simp add: double_int_def)
  note unf = extBitClearOrSet_def optional_number_def with_number_def with_bits_def assms(1,3,4) num Let_def
  have "gives (extBitClearOrSet v x [l, c]) (max (length s) (n + 1)) (if v = CHR ''1'' then set_bit n (bval s) else unset_bit n (bval s))"
    if v: "v = CHR ''0'' \<or> v = CHR ''1''" for v
  proof (cases "n < length s")
    case True
    then have "extBitClearOrSet v x [l, c] = Some (RString (Some (s[length s - Suc n := v])))"
      by (simp add: unf nat_diff_distrib' Suc_le_eq)
    moreover have "is_bits (s[length s - Suc n := v])"
      using assms(2) v set_update_subset_insert [of s "length s - Suc n" v] by (auto simp: is_bits_def)
    ultimately show ?thesis using True bval_update [OF True v] by (simp add: gives_def max_def)
  next
    case False
    have "int_plus (int n) 2 = Some (int n + 2)" using assms(5) by (simp add: int_plus_def)
    with False have "extBitClearOrSet v x [l, c] = Some (RString (Some (v # replicate (n - length s) CHR ''0'' @ s)))"
      by (simp add: unf)
    with False assms(2) v bval_beyond [of s n v] show ?thesis by (auto simp: gives_def max_def)
  qed
  from this [of "CHR ''1''"] this [of "CHR ''0''"] show ?thesis by (simp add: extBitSet_def extBitClear_def)
qed

theorem ext_bit_set_clear_witness:
  "gives (extBitSet demo_xpath [Inr ''10'', Inl (Finite (of_nat 3))]) (max (length ''10'') (3 + 1)) (set_bit 3 (bval ''10''))"
  by (rule ext_bit_set_clear [OF demo_strings(1) _ demo_strings(2,3), THEN conjunct1]) simp_all

text \<open>C22. \<^verbatim>\<open>bit:compare\<close> has the sign of the difference of the two values, whatever their lengths,
  when the comparison of libxml2 has the sign of \<^verbatim>\<open>strcmp\<close>.\<close>

theorem ext_bit_compare:
  fixes x :: "'o xpath"
  assumes "extBitStringVal x l False = Some (Some s)" and "extBitStringVal x r False = Some (Some t)"
    and "is_bits s" and "is_bits t" and "\<forall>a b. sgn (xo_strcmp x a b) = byte_order a b"
  shows "\<exists>k. extBitCompare x [l, r] = Some (RNumber k) \<and> sgn k = sgn (int (bval s) - int (bval t))"
proof -
  note unf = extBitCompare_def with_bits_def assms(1,2) Let_def
  have lead: "sgn (int (bval u) - int (bval v)) = 1"
    if "is_bits u" "length v \<le> length u" "\<not> list_all (\<lambda>c. c = CHR ''0'') (take (length u - length v) u)" for u v
  proof -
    have "bval v < bval u" using bval_leading [OF that(1,3)] that(2) bval_less [of v] by simp
    then show ?thesis by simp
  qed
  have same: "byte_order (drop (length s - length t) s) (drop (length t - length s) t) = sgn (int (bval s) - int (bval t))"
    if "list_all (\<lambda>c. c = CHR ''0'') (take (length t - length s) t)" "list_all (\<lambda>c. c = CHR ''0'') (take (length s - length t) s)"
    using byte_order_bval [of "drop (length s - length t) s" "drop (length t - length s) t"] that assms(3,4)
    by (simp add: is_bits_drop bval_skip_zeros)
  have neg: "sgn (int (bval s) - int (bval t)) = - 1" if "sgn (int (bval t) - int (bval s)) = 1"
    using that by (simp add: sgn_if split: if_splits)
  show ?thesis
    using lead [OF assms(3), of t] neg lead [OF assms(4), of s] same assms(5)
    by (simp add: unf) auto
qed

theorem ext_bit_compare_witness:
  "\<exists>k. extBitCompare demo_xpath [Inr ''0101'', Inr ''11''] = Some (RNumber k) \<and> sgn k = sgn (int (bval ''0101'') - int (bval ''11''))"
proof -
  have "sgn (byte_order a b) = byte_order a b" for a b by (induction a b rule: byte_order.induct) simp_all
  then show ?thesis by (intro ext_bit_compare [OF demo_strings(1,1)]) (simp_all add: demo_strings(4))
qed

text \<open>C23. A bit string of at most 64 characters is read as its value, a longer one as -1; an integer
  that a double holds exactly comes back from its bit string, which has no leading zeros.\<close>

theorem ext_bit_int:
  fixes x :: "'o xpath"
  assumes "extBitStringVal x l False = Some (Some s)" and "\<forall>n. xo_malloc x n"
    and "xo_type x num = XPATH_NUMBER" and "xo_float x num = Finite (of_nat n)" and "n < 2 ^ 53"
  shows "extBitToInt x [l] = Some (RNumber (if 64 < length s then - 1 else int (ull_double (bval s))))
    \<and> gives (extBitFromInt x [num]) (ull_min_width n) n
    \<and> (gives (Some (RString (Some s))) (ull_min_width n) n \<longrightarrow> extBitToInt x [l] = Some (RNumber (int n)))"
proof -
  have to_int: "extBitToInt x [l] = Some (RNumber (if 64 < length s then - 1 else int (ull_double (bval s))))"
    using bit_scan_value [of s] assms(1)
    by (cases "bit_scan s 0 0") (auto simp: extBitToInt_def with_bits_def)
  have "(of_nat n :: rat) < of_nat (2 ^ 53)" using assms(5) by (simp only: of_nat_less_iff)
  then have "double_ull (Finite (of_nat n)) = Some n" by (simp add: double_ull_def)
  then have "extBitFromInt x [num] = Some (RString (Some (ull_digits (ull_min_width n) n)))"
    using assms(2-4) by (simp add: extBitFromInt_def optional_number_def with_bits_def extBitStringVal_def Let_def)
  then have from_int: "gives (extBitFromInt x [num]) (ull_min_width n) n"
    using ull_digits_facts [of "ull_min_width n" n] ull_min_digits [of n] by (simp add: gives_def)
  have "ull_min_width n \<le> 53" using ull_min_width(3) [OF assms(5)] by simp
  with to_int from_int ull_double_exact [OF assms(5)] show ?thesis by (auto simp: gives_def)
qed

theorem ext_bit_int_witness:
  "extBitToInt demo_xpath [Inr ''101''] = Some (RNumber (if 64 < length ''101'' then - 1 else int (ull_double (bval ''101''))))
    \<and> gives (extBitFromInt demo_xpath [Inl (Finite (of_nat 5))]) (ull_min_width 5) 5"
  using ext_bit_int [OF demo_strings(1) demo_strings(2) demo_strings(7,8), of 5 "''101''"] by simp

text \<open>C24. \<^verbatim>\<open>bit:to-hex\<close> writes the value of a string of at most 64 bits, and \<^verbatim>\<open>bit:from-hex\<close> reads it
  back, unless the digit \<^verbatim>\<open>e\<close> is among the digits.\<close>

theorem ext_bit_hex:
  fixes x :: "'o xpath"
  assumes "extBitStringVal x l False = Some (Some s)" and "\<forall>n. xo_malloc x n" and "length s \<le> 64"
    and "xo_pop_string x h = Some (''0x'' @ print_base 16 (bval s))" and "CHR ''e'' \<notin> set (print_base 16 (bval s))"
  shows "extBitToHex x [l] = Some (RString (Some (''0x'' @ print_base 16 (bval s))))
    \<and> gives (extBitFromHex x [h]) (ull_min_width (bval s)) (bval s)"
proof -
  have "extBitToHex x [l] = Some (RString (Some (''0x'' @ print_base 16 (bval s))))"
    using bit_scan_value [of s] assms(1-3)
    by (cases "bit_scan s 0 0") (auto simp: extBitToHex_def with_bits_def Let_def)
  moreover have "bval s < 2 ^ 64"
  proof -
    have "(2 :: nat) ^ length s \<le> 2 ^ 64" using assms(3) by (intro power_increasing) auto
    with bval_less [of s] show ?thesis by linarith
  qed
  then have "extBitFromHex x [h] = Some (RString (Some (hex_fill (ull_min_width (bval s)) (int (ull_min_width (bval s))) (bval s))))"
    using assms(2,4,5) c_strtoul_hex ull_min_width(2) [of "bval s"] ull_min_width(3) [of "bval s" 64]
    by (simp add: extBitFromHex_def optional_number_def Let_def int_plus_def)
  then have "gives (extBitFromHex x [h]) (ull_min_width (bval s)) (bval s)"
    using hex_fill_facts [OF ull_min_width(1) order_refl, of "bval s"] ull_digits_facts [of "ull_min_width (bval s)" "bval s"]
      ull_min_digits [of "bval s"] by (simp add: gives_def)
  ultimately show ?thesis by blast
qed

theorem ext_bit_hex_witness:
  "extBitToHex demo_xpath [Inr ''1011''] = Some (RString (Some (''0x'' @ print_base 16 (bval ''1011''))))"
  by (rule ext_bit_hex [where h = "Inr (''0x'' @ print_base 16 (bval ''1011''))", OF demo_strings(1,2) _ demo_strings(5), THEN conjunct1])
    (simp, code_simp)

text \<open>The test for a number in exponent notation takes every hexadecimal digit
  \<^verbatim>\<open>e\<close> for one: the bit string \<^verbatim>\<open>1110\<close> is written as \<^verbatim>\<open>0xe\<close>, which is read back as 0.\<close>

theorem ext_bit_hex_loses_e:
  "extBitToHex demo_xpath [Inr ''1110''] = Some (RString (Some ''0xe''))
    \<and> extBitFromHex demo_xpath [Inr ''0xe''] = Some (RString (Some ''0''))"
proof -
  have "extBitToHex demo_xpath [Inr ''1110''] = Some (RString (Some (''0x'' @ print_base 16 14)))"
    using demo_strings(1,2) by (simp add: extBitToHex_def with_bits_def Let_def)
  moreover have "print_base 16 14 = ''e''" by code_simp
  moreover have "ull_width 0 = 0" by (simp add: ull_width.simps)
  then have "extBitFromHex demo_xpath [Inr ''0xe''] = Some (RString (Some ''0''))"
    using demo_strings(2,5) by (simp add: extBitFromHex_def optional_number_def Let_def ull_min_width_def bit_char_def int_plus_def)
  ultimately show ?thesis by simp
qed

end
