(* ===== verification/Psubase64.thy ===== *)
theory Psubase64
  imports Prelude
begin

text \<open>
  \<^verbatim>\<open>libpsu/psubase64.c\<close>: base64. A buffer is the list of its bytes; \<^verbatim>\<open>char\<close> is signed, as on the machines
  whose byte order and pointer size the development takes, so a byte is sign-extended when it is
  shifted or added. \<open>mem\<close> tells whether memory is found. The outer \<open>None\<close> is an access outside of
  a buffer or a sum that is not an \<^verbatim>\<open>int\<close>, the inner one the null pointer.
\<close>

text \<open>The length of the output is an \<^verbatim>\<open>int\<close>: a \<^verbatim>\<open>size_t\<close> narrowed to 32 bits, and sign-extended again
  when it is the size of an allocation.\<close>

definition int_of_size :: "nat \<Rightarrow> int" where
  "int_of_size n = sint (word_of_nat n :: u32)"

definition size_of_int :: "int \<Rightarrow> nat" where
  "size_of_int i = nat (i mod 2 ^ 64)"

section \<open>The tables\<close>

definition encoder :: string where
  "encoder = ''ABCDEFGHIJKLMNOPQRSTUVWXYZabcdefghijklmnopqrstuvwxyz0123456789+/''"

definition char_byte :: "char \<Rightarrow> u8" where
  "char_byte c = word_of_nat (of_char c)"

text \<open>\<^verbatim>\<open>decoder\<close> is filled from \<^verbatim>\<open>encoder\<close>; the entries of all other characters are 0.\<close>

fun decoder_fill :: "string \<Rightarrow> u8 \<Rightarrow> (u8 \<Rightarrow> u8) \<Rightarrow> u8 \<Rightarrow> u8" where
  "decoder_fill [] i tab = tab"
| "decoder_fill (c # cs) i tab = decoder_fill cs (i + 1) (tab(char_byte c := i))"

definition decoder :: "u8 \<Rightarrow> u8" where
  "decoder = decoder_fill encoder 0 (\<lambda>_. 0)"

section \<open>Encoding\<close>

definition sext :: "u8 \<Rightarrow> u32" where
  "sext c = scast c"

definition encode_bits :: "u32 \<Rightarrow> u8 list" where
  "encode_bits bits = map (\<lambda>i. char_byte (encoder ! unat (drop_bit (i * 6) bits AND 0x3f))) [3, 2, 1, 0]"

fun encode_groups :: "u8 list \<Rightarrow> u8 list" where
  "encode_groups [] = []"
| "encode_groups [a] = encode_bits (push_bit 16 (sext a))"
| "encode_groups [a, b] = encode_bits (push_bit 16 (sext a) + push_bit 8 (sext b))"
| "encode_groups (a # b # c # cs) =
     encode_bits (push_bit 16 (sext a) + push_bit 8 (sext b) + sext c) @ encode_groups cs"

definition psu_base64_encode :: "(nat \<Rightarrow> bool) \<Rightarrow> u8 list \<Rightarrow> u8 list option option" where
  "psu_base64_encode mem buf =
     (let blen = length buf; olen = int_of_size ((blen + 2) mod 2 ^ 64 div 3 * 4); sz = size_of_int (olen + 1) in
      if \<not> mem sz then Some None
      else let out = encode_groups buf; n = length out;
             out = (if 0 < blen mod 3 then out[n - 1 := char_byte CHR ''=''] else out);
             out = (if blen mod 3 = 1 then out[n - 2 := char_byte CHR ''=''] else out)
           in if sz < n + 1 then None else Some (Some out))"

section \<open>Decoding\<close>

text \<open>The index of the table is the sign-extended character: from 128 on it is outside of the table.\<close>

definition decode_char :: "u8 \<Rightarrow> u32 option" where
  "decode_char c = (if c < 128 then Some (sext (decoder c)) else None)"

definition is_blank :: "u8 \<Rightarrow> bool" where
  "is_blank c \<longleftrightarrow> c = char_byte CHR ''\<newline>'' \<or> c = 13 \<or> c = char_byte CHR '' '' \<or> c = 9"

text \<open>The characters of a group, as many as there are, and the bytes it stores: the first one always, the
  others as long as the output has room.\<close>

fun decode_group :: "nat \<Rightarrow> u8 list \<Rightarrow> u32 option" where
  "decode_group 0 cs = Some 0"
| "decode_group (Suc k) [] = Some 0"
| "decode_group (Suc k) (c # cs) = do {
     b \<leftarrow> decode_char c;
     rest \<leftarrow> decode_group k cs;
     Some (push_bit (k * 6) b + rest)
   }"

definition decode_store :: "nat \<Rightarrow> u32 \<Rightarrow> u8 list \<Rightarrow> u8 list" where
  "decode_store stop bits out =
     (let out = out @ [ucast (drop_bit 16 bits AND 0xff)];
          out = (if length out < stop then out @ [ucast (drop_bit 8 bits AND 0xff)] else out);
          out = (if length out < stop then out @ [ucast (bits AND 0xff)] else out)
      in out)"

text \<open>A store beyond \<open>stop + 1\<close> bytes would be outside of the output buffer.\<close>

function decode_groups :: "nat \<Rightarrow> u8 list \<Rightarrow> u8 list \<Rightarrow> u8 list option" where
  "decode_groups stop cs out =
     (case cs of
        [] \<Rightarrow> if length out \<le> stop then Some out else None
      | c # rest \<Rightarrow>
          if is_blank c then decode_groups stop rest out
          else if stop < length out then None
          else do {
            bits \<leftarrow> decode_group 4 cs;
            decode_groups stop (drop 4 cs) (decode_store stop bits out)
          })"
  by pat_completeness auto
termination by (relation "measure (\<lambda>(stop, cs, out). length cs)") auto

declare decode_groups.simps [simp del]

definition psu_base64_decode :: "(nat \<Rightarrow> bool) \<Rightarrow> u8 list \<Rightarrow> u8 list option option" where
  "psu_base64_decode mem buf = do {
     let blen = length buf;
     let tail = (blen mod 4 = 1 \<and> (buf ! (blen - 1) = char_byte CHR ''\<newline>'' \<or> buf ! (blen - 1) = 0));
     if blen mod 4 \<noteq> 0 \<and> \<not> tail then Some None
     else do {
       let blen = (if blen mod 4 \<noteq> 0 then blen - 1 else blen);
       if blen = 0 then None
       else do {
         let pads = (if buf ! (blen - 1) = char_byte CHR ''='' then 1 else 0)
           + (if buf ! (blen - 2) = char_byte CHR ''='' then 1 else (0 :: nat));
         let olen = int_of_size (blen div 4 * 3) - int pads;
         if olen < - (2 ^ 31) \<or> 2 ^ 31 \<le> olen + 1 then None
         else if \<not> mem (size_of_int (olen + 1)) then Some None
         else if olen < 0 then None
         else map_option Some (decode_groups (nat olen) (take (blen - pads) buf) [])
       }
     }
   }"

end
