(* ===== verification/Psubase64_Props.thy ===== *)
theory Psubase64_Props
  imports Psubase64
begin

text \<open>
  The properties of base64 (\<^verbatim>\<open>libpsu/psubase64.c\<close>): decoding stays within its buffers, and undoes the
  encoding, except for bytes from 128 on in the second and third place of a group.
\<close>

section \<open>The tables\<close>

lemma encoder_length: "length encoder = 64"
  by (simp add: encoder_def)

lemma char_byte_inj: "char_byte c = char_byte d \<longleftrightarrow> c = d"
proof
  assume "char_byte c = char_byte d"
  moreover have "unat (char_byte e) = of_char e" for e
    using nat_of_char_less_256 [of e] by (simp add: char_byte_def unat_of_nat)
  ultimately have "(of_char c :: nat) = of_char d" by metis
  then show "c = d" by simp
qed simp

lemma decoder_fill_nth:
  "distinct cs \<Longrightarrow> k < length cs \<Longrightarrow> decoder_fill cs i tab (char_byte (cs ! k)) = i + word_of_nat k"
proof (induction cs i tab arbitrary: k rule: decoder_fill.induct)
  case (2 c cs i tab)
  have keep: "d \<notin> set ds \<Longrightarrow> decoder_fill ds j t (char_byte d) = t (char_byte d)" for d ds j t
    by (induction ds j t rule: decoder_fill.induct) (auto simp: char_byte_inj)
  show ?case
  proof (cases k)
    case 0
    with 2(2) keep show ?thesis by simp
  next
    case (Suc k')
    with 2(2,3) have "distinct cs" "k' < length cs" by simp_all
    from 2(1) [OF this] show ?thesis by (simp del: fun_upd_apply add: Suc)
  qed
qed simp

lemma encoder_distinct: "distinct encoder"
  by (simp add: encoder_def)

lemma decoder_encoder: "i < 64 \<Longrightarrow> decoder (char_byte (encoder ! i)) = word_of_nat i"
  using decoder_fill_nth [OF encoder_distinct, of i 0] by (simp add: decoder_def encoder_length)

lemma encoder_plain: "\<forall>c\<in>set encoder. \<not> is_blank (char_byte c) \<and> char_byte c \<noteq> char_byte CHR ''='' \<and> char_byte c < 128"
  by (simp add: encoder_def is_blank_def char_byte_def)

lemma bit7_less: "(b :: u8) < 128 \<Longrightarrow> n \<ge> 7 \<Longrightarrow> \<not> bit b n"
proof
  assume "b < 128" "7 \<le> n" "bit b n"
  moreover from this have "n = 7" using bit_imp_le_length [of b n] by simp
  moreover have "b = take_bit 7 b" using \<open>b < 128\<close>
    by (intro unsigned_word_eqI [where 'a = nat]) (simp add: unsigned_take_bit_eq take_bit_nat_eq_self word_less_nat_alt)
  ultimately show False by (metis bit_take_bit_iff less_irrefl)
qed

lemma sext_small: "b < 128 \<Longrightarrow> sext b = ucast b"
  by (rule bit_word_eqI) (use bit7_less [of b] bit_imp_le_length [of b] in \<open>auto simp: sext_def bit_simps min_def\<close>)

lemma mask6: "unat (x AND 0x3f :: u32) < 64"
  using unat_and_mask [of 6 x] by simp

text \<open>The character of a group of six bits.\<close>

definition sextet :: "u32 \<Rightarrow> u8" where
  "sextet x = char_byte (encoder ! unat (x AND 0x3f))"

lemma sextet_facts: "decode_char (sextet x) = Some (x AND 0x3f)" "\<not> is_blank (sextet x)"
  "sextet x \<noteq> char_byte CHR ''=''" "sextet x < 128"
proof -
  let ?i = "unat (x AND 0x3f)"
  have i: "?i < 64" by (rule mask6)
  have "decoder (char_byte (encoder ! ?i)) = word_of_nat ?i" by (rule decoder_encoder [OF i])
  moreover have "sext (word_of_nat ?i) = x AND 0x3f"
  proof -
    have "sext (word_of_nat k) = word_of_nat k" if "k < 64" for k :: nat
      using that sext_small [of "word_of_nat k"] by (simp add: word_less_nat_alt unat_of_nat) (simp add: unsigned_of_nat take_bit_nat_eq_self)
    from this [OF i] show ?thesis by simp
  qed
  moreover have "char_byte (encoder ! ?i) < 128"
    using encoder_plain i encoder_length by simp
  ultimately show "decode_char (sextet x) = Some (x AND 0x3f)" by (simp add: sextet_def decode_char_def)
  have "encoder ! ?i \<in> set encoder" using i by (simp add: encoder_length)
  with encoder_plain show "\<not> is_blank (sextet x)" "sextet x \<noteq> char_byte CHR ''=''" "sextet x < 128"
    unfolding sextet_def by blast+
qed

lemma encode_bits_sextets: "encode_bits x = [sextet (drop_bit 18 x), sextet (drop_bit 12 x), sextet (drop_bit 6 x), sextet x]"
  by (simp add: encode_bits_def sextet_def)

section \<open>One group\<close>

lemma decode_sextets:
  "decode_group 4 (sextet w # sextet x # sextet y # sextet z # cs)
     = Some (push_bit 18 (w AND 0x3f) + (push_bit 12 (x AND 0x3f) + (push_bit 6 (y AND 0x3f) + (z AND 0x3f))))"
  "decode_group 4 [sextet w, sextet x, sextet y]
     = Some (push_bit 18 (w AND 0x3f) + (push_bit 12 (x AND 0x3f) + push_bit 6 (y AND 0x3f)))"
  "decode_group 4 [sextet w, sextet x] = Some (push_bit 18 (w AND 0x3f) + push_bit 12 (x AND 0x3f))"
  by (simp_all add: eval_nat_numeral sextet_facts(1) del: push_bit_and)

lemma mask_3f: "(0x3f :: u32) = mask 6"
  by (simp add: mask_eq_exp_minus_1)

lemma join_sextets:
  fixes x :: u32
  shows "push_bit 18 (drop_bit 18 x AND 0x3f) + (push_bit 12 (drop_bit 12 x AND 0x3f)
      + (push_bit 6 (drop_bit 6 x AND 0x3f) + (x AND 0x3f))) = x AND mask 24"
    "push_bit 18 (drop_bit 18 x AND 0x3f) + (push_bit 12 (drop_bit 12 x AND 0x3f) + push_bit 6 (drop_bit 6 x AND 0x3f))
      = x AND mask 24 AND NOT (mask 6)"
    "push_bit 18 (drop_bit 18 x AND 0x3f) + push_bit 12 (drop_bit 12 x AND 0x3f) = x AND mask 24 AND NOT (mask 12)"
proof -
  have p: "push_bit n (drop_bit n x AND 0x3f) = x AND (mask m AND NOT (mask n))" if "m = n + 6" "m \<le> 32" for n m
    using that unfolding mask_3f by (intro bit_word_eqI) (auto simp: bit_simps)
  have q: "x AND 0x3f = x AND mask 6" by (simp only: mask_3f)
  have ps: "push_bit 18 (drop_bit 18 x AND 0x3f) = x AND (mask 24 AND NOT (mask 18))"
    "push_bit 12 (drop_bit 12 x AND 0x3f) = x AND (mask 18 AND NOT (mask 12))"
    "push_bit 6 (drop_bit 6 x AND 0x3f) = x AND (mask 12 AND NOT (mask 6))"
    by (rule p; simp)+
  have low: "(x AND (mask m AND NOT (mask n))) + (x AND mask n) = x AND mask m" if "n \<le> m" for m n
    by (subst disjunctive_add) (use that in \<open>auto simp: bit_simps intro!: bit_word_eqI\<close>)
  have mid: "(x AND (mask m AND NOT (mask n))) + (x AND (mask n AND NOT (mask k))) = x AND (mask m AND NOT (mask k))"
    if "n \<le> m" "k \<le> n" for m n k
    by (subst disjunctive_add) (use that in \<open>auto simp: bit_simps intro!: bit_word_eqI\<close>)
  show "push_bit 18 (drop_bit 18 x AND 0x3f) + (push_bit 12 (drop_bit 12 x AND 0x3f)
      + (push_bit 6 (drop_bit 6 x AND 0x3f) + (x AND 0x3f))) = x AND mask 24"
    unfolding ps q by (simp only: low numeral_le_iff semiring_norm)
  show "push_bit 18 (drop_bit 18 x AND 0x3f) + (push_bit 12 (drop_bit 12 x AND 0x3f) + push_bit 6 (drop_bit 6 x AND 0x3f))
      = x AND mask 24 AND NOT (mask 6)"
    unfolding ps by (simp only: mid numeral_le_iff semiring_norm and.assoc)
  show "push_bit 18 (drop_bit 18 x AND 0x3f) + push_bit 12 (drop_bit 12 x AND 0x3f) = x AND mask 24 AND NOT (mask 12)"
    unfolding ps by (simp only: mid numeral_le_iff semiring_norm and.assoc)
qed

text \<open>The bytes of a group, when the second and the third one are below 128.\<close>

lemma bit_sext: "bit (sext a) n \<longleftrightarrow> n < 32 \<and> bit a (min n 7)"
  by (auto simp: sext_def bit_simps min_def)

lemma group_or:
  assumes "b < 128" "c < 128"
  shows "push_bit 16 (sext a) + push_bit 8 (sext b) + sext c
    = push_bit 16 (sext a) OR push_bit 8 (ucast b) OR ucast c"
proof -
  have "push_bit 8 (ucast b) + ucast c = push_bit 8 (ucast b) OR (ucast c :: u32)"
    by (rule disjunctive_add) (use bit7_less [OF assms(2)] in \<open>auto simp: bit_simps\<close>)
  moreover have "push_bit 16 (sext a) + (push_bit 8 (ucast b) OR ucast c)
      = push_bit 16 (sext a) OR (push_bit 8 (ucast b) OR (ucast c :: u32))"
    by (rule disjunctive_add) (use bit_imp_le_length [of b] bit_imp_le_length [of c] in \<open>fastforce simp: bit_simps\<close>)
  ultimately show ?thesis
    by (simp add: sext_small assms add.assoc or.assoc)
qed

lemma group_bytes:
  assumes "b < 128" "c < 128" "x = push_bit 16 (sext a) + push_bit 8 (sext b) + sext c"
  shows "ucast (drop_bit 16 x AND 0xff) = a" "ucast (drop_bit 8 x AND 0xff) = b" "ucast (x AND 0xff) = c"
proof -
  have ff: "(0xff :: u32) = mask 8" by (simp add: mask_eq_exp_minus_1)
  note x = assms(3) [unfolded group_or [OF assms(1,2)]]
  note lb = bit7_less [OF assms(1)] bit7_less [OF assms(2)] bit_imp_le_length [of a] bit_imp_le_length [of b]
    bit_imp_le_length [of c]
  show "ucast (drop_bit 16 x AND 0xff) = a"
    unfolding x ff by (rule bit_word_eqI) (use lb in \<open>auto simp: bit_simps bit_sext min_def\<close>)
  show "ucast (drop_bit 8 x AND 0xff) = b"
    unfolding x ff by (rule bit_word_eqI) (use lb in \<open>auto simp: bit_simps bit_sext min_def\<close>)
  show "ucast (x AND 0xff) = c"
    unfolding x ff by (rule bit_word_eqI) (use lb in \<open>auto simp: bit_simps bit_sext min_def\<close>)
qed

section \<open>Decoding stays within its buffers\<close>

lemma decode_char_plain: "c < 128 \<Longrightarrow> \<exists>b. decode_char c = Some b"
  by (simp add: decode_char_def)

lemma decode_group_plain: "\<forall>c\<in>set cs. c < 128 \<Longrightarrow> \<exists>bits. decode_group k cs = Some bits"
proof (induction k cs rule: decode_group.induct)
  case (3 k c cs)
  then show ?case using decode_char_plain [of c] by auto
qed simp_all

lemma decode_store_length: "length out < stop \<Longrightarrow> length (decode_store stop bits out) \<le> stop"
  "length (decode_store stop bits out) \<le> length out + 3"
  by (auto simp: decode_store_def Let_def)

text \<open>The output has room for three bytes, less two, for every group of four characters left.\<close>

lemma decode_groups_bound:
  "\<forall>c\<in>set cs. c < 128 \<Longrightarrow> 3 * ((length cs + 3) div 4) + length out \<le> stop + 2 \<Longrightarrow> length out \<le> stop
   \<Longrightarrow> \<exists>r. decode_groups stop cs out = Some r \<and> length r \<le> stop"
proof (induction stop cs out rule: decode_groups.induct)
  case (1 stop cs out)
  show ?case
  proof (cases cs)
    case Nil
    with 1(5) show ?thesis by (simp add: decode_groups.simps)
  next
    case (Cons c rest)
    have plain: "\<forall>c\<in>set rest. c < 128" "\<forall>c\<in>set (drop 4 cs). c < 128"
      using 1(3) Cons by (auto dest: in_set_dropD)
    have one: "1 \<le> (length cs + 3) div 4" using Cons by simp
    with 1(4) have room: "length out < stop" by linarith
    show ?thesis
    proof (cases "is_blank c")
      case True
      have "3 * ((length rest + 3) div 4) \<le> 3 * ((length cs + 3) div 4)"
        using Cons by (intro mult_le_mono2 div_le_mono) simp
      with 1(4) have "3 * ((length rest + 3) div 4) + length out \<le> stop + 2" by simp
      from 1(1) [OF Cons True plain(1) this 1(5)] show ?thesis
        by (subst decode_groups.simps) (simp add: Cons True)
    next
      case False
      obtain bits where bits: "decode_group 4 cs = Some bits" using decode_group_plain [OF 1(3)] by blast
      have "(length (drop 4 cs) + 3) div 4 = (length cs + 3) div 4 - 1"
        using Cons by (cases "4 \<le> length cs") (simp_all add: field_simps)
      with one have "3 * ((length (drop 4 cs) + 3) div 4) + length (decode_store stop bits out) \<le> stop + 2"
        using 1(4) decode_store_length(2) [of stop bits out] by linarith
      from 1(2) [OF Cons False _ bits plain(2) this decode_store_length(1) [OF room]] room
      show ?thesis
        by (subst decode_groups.simps) (simp add: Cons False bits [unfolded Cons] less_imp_not_less)
    qed
  qed
qed

lemma mod4_pred: "n mod 4 = 1 \<Longrightarrow> (n - 1) mod 4 = 0 \<and> n \<noteq> 4" for n :: nat
  by (metis add_diff_cancel_left' eq_numeral_simps(1) mod_0 mod_add_self2 mod_mult_div_eq mod_mult_self1_is_0 mod_self zero_neq_one)

lemma groups_room: "n mod 4 = 0 \<Longrightarrow> k \<le> 2 \<Longrightarrow> 4 \<le> n \<Longrightarrow> (n - k + 3) div 4 = n div 4" for n k :: nat
proof -
  assume "n mod 4 = 0" "k \<le> 2" "4 \<le> n"
  moreover from this obtain q where "n = 4 * q" by auto
  ultimately have "n - k + 3 = (3 - k) + 4 * q" "3 - k < 4" by simp_all
  then have "(n - k + 3) div 4 = q" by simp
  with \<open>n = 4 * q\<close> show ?thesis by simp
qed

lemma int_of_size_small: "n < 2 ^ 31 \<Longrightarrow> int_of_size n = int n"
  by (simp add: int_of_size_def signed_of_nat signed_take_bit_int_eq_self)

lemma size_of_int_small: "n < 2 ^ 64 \<Longrightarrow> size_of_int (int n) = n"
  using of_nat_less_iff [of n "2 ^ 64", where 'a = int] by (simp add: size_of_int_def)

text \<open>The size of an output below 2 GB is allocated as it is.\<close>

lemma decoded_size:
  assumes "k \<le> n" "n < 2 ^ 31 - 1"
  shows "int_of_size n - int k = int (n - k)" "\<not> (int (n - k) < - (2 ^ 31) \<or> 2 ^ 31 \<le> int (n - k) + 1)"
    "size_of_int (int (n - k) + 1) = n - k + 1"
proof -
  show "int_of_size n - int k = int (n - k)" using assms int_of_size_small [of n] by simp
  have "int (n - k) < 2 ^ 31 - 1" using assms by simp
  then show "\<not> (int (n - k) < - (2 ^ 31) \<or> 2 ^ 31 \<le> int (n - k) + 1)" by simp
  show "size_of_int (int (n - k) + 1) = n - k + 1" using assms size_of_int_small [of "n - k + 1"] by (simp add: add.commute)
qed

lemma bytes_of_take: "\<forall>c\<in>set xs. P c \<Longrightarrow> \<forall>c\<in>set (take n xs). P c"
  by (auto dest: in_set_takeD)

text \<open>
  C27 (bounds): a buffer of four characters or more, all of them below 128, whose decoded bytes are
  counted by an \<^verbatim>\<open>int\<close>, is either refused or decoded into at most three bytes for four characters; neither
  the buffer read nor the buffer allocated is left.
\<close>

theorem psu_base64_decode_bounds:
  assumes "4 \<le> length buf" "\<forall>c\<in>set buf. c < 128" "3 * (length buf div 4) < 2 ^ 31 - 1"
  shows "\<exists>r. psu_base64_decode mem buf = Some r
    \<and> (case r of None \<Rightarrow> True | Some out \<Rightarrow> length out \<le> 3 * (length buf div 4))"
proof -
  define blen where "blen = (if length buf mod 4 \<noteq> 0 then length buf - 1 else length buf)"
  define pads where "pads = (if buf ! (blen - 1) = char_byte CHR ''='' then 1 else 0)
           + (if buf ! (blen - 2) = char_byte CHR ''='' then 1 else (0 :: nat))"
  let ?tail = "length buf mod 4 = 1 \<and> (buf ! (length buf - 1) = char_byte CHR ''\<newline>'' \<or> buf ! (length buf - 1) = 0)"
  note unf = psu_base64_decode_def Let_def blen_def [symmetric] pads_def [symmetric]
  have blen1: "blen \<noteq> 0" using assms(1) unfolding blen_def by auto
  show ?thesis
  proof (cases "length buf mod 4 \<noteq> 0 \<and> \<not> ?tail")
    case True
    then show ?thesis using blen1 unfolding unf by auto
  next
    case False
    have b4: "blen mod 4 = 0" "4 \<le> blen" "blen \<le> length buf" "blen div 4 \<le> length buf div 4"
      using False assms(1) mod4_pred [of "length buf"] unfolding blen_def by (auto simp: div_le_mono)
    have p2: "pads \<le> 2" unfolding pads_def by simp
    let ?k = "blen div 4 * 3 - pads"
    have "1 \<le> blen div 4" using b4(2) by simp
    then have "pads \<le> blen div 4 * 3" "blen div 4 * 3 < 2 ^ 31 - 1" using b4(4) p2 assms(3) by simp_all
    note sz = decoded_size [OF this]
    have "(length (take (blen - pads) buf) + 3) div 4 = blen div 4"
      using b4 p2 groups_room [of blen pads] by simp
    moreover have "3 * (blen div 4) \<le> ?k + 2" using p2 by simp
    ultimately have "3 * ((length (take (blen - pads) buf) + 3) div 4) + length ([] :: u8 list) \<le> ?k + 2" by simp
    from decode_groups_bound [OF bytes_of_take [OF assms(2)] this] obtain r where
      r: "decode_groups ?k (take (blen - pads) buf) [] = Some r" "length r \<le> ?k" by auto
    have "psu_base64_decode mem buf = Some (if mem (?k + 1) then Some r else None)"
      using False blen1 r(1) unfolding unf sz if_not_P [OF sz(2)] by simp
    moreover have "length r \<le> 3 * (length buf div 4)" using r(2) b4(4) by simp
    ultimately show ?thesis by simp
  qed
qed

lemma psu_base64_decode_bounds_witness:
  "\<exists>r. psu_base64_decode (\<lambda>_. True) [81, 81, 61, 61] = Some r
    \<and> (case r of None \<Rightarrow> True | Some out \<Rightarrow> length out \<le> 3 * (length [81, 81, 61, 61 :: u8] div 4))"
  by (rule psu_base64_decode_bounds) simp_all

section \<open>Decoding undoes encoding\<close>

text \<open>The text without its padding, and the padding.\<close>

fun encode_body :: "u8 list \<Rightarrow> u8 list" where
  "encode_body [] = []"
| "encode_body [a] = take 2 (encode_groups [a])"
| "encode_body [a, b] = take 3 (encode_groups [a, b])"
| "encode_body (a # b # c # cs) = encode_groups [a, b, c] @ encode_body cs"

definition encode_pads :: "u8 list \<Rightarrow> nat" where
  "encode_pads buf = (if length buf mod 3 = 1 then 2 else if length buf mod 3 = 2 then 1 else 0)"

definition unsigned_groups :: "u8 list \<Rightarrow> bool" where
  "unsigned_groups buf \<longleftrightarrow> (\<forall>i<length buf. i mod 3 \<noteq> 0 \<longrightarrow> buf ! i < 128)"

lemma unsigned_groups_simps [simp]:
  "unsigned_groups [a]" "unsigned_groups [a, b] \<longleftrightarrow> b < 128"
  "unsigned_groups (a # b # c # cs) \<longleftrightarrow> b < 128 \<and> c < 128 \<and> unsigned_groups cs"
proof -
  show "unsigned_groups [a]" "unsigned_groups [a, b] \<longleftrightarrow> b < 128"
    by (auto simp: unsigned_groups_def less_Suc_eq)
  have all: "(\<forall>i<Suc (Suc (Suc n)). P i) \<longleftrightarrow> P 0 \<and> P 1 \<and> P 2 \<and> (\<forall>i<n. P (Suc (Suc (Suc i))))" for P n
    by (simp add: All_less_Suc2 numeral_2_eq_2)
  show "unsigned_groups (a # b # c # cs) \<longleftrightarrow> b < 128 \<and> c < 128 \<and> unsigned_groups cs"
    by (auto simp: unsigned_groups_def all mod_Suc split: if_splits)
qed

lemma mod3: "Suc (Suc (Suc n)) mod 3 = n mod 3"
proof -
  have "Suc (Suc (Suc n)) = n + 3" by simp
  then show ?thesis by (metis mod_add_self2)
qed

lemma div3: "(n + 5) div 3 * 4 = 4 + (n + 2) div 3 * (4 :: nat)"
  using div_add_self2 [of 3 "n + 2"] by (simp add: add.commute)

lemma encode_groups_length: "length (encode_groups buf) = (length buf + 2) div 3 * 4"
  by (induction buf rule: encode_groups.induct) (use div3 in \<open>auto simp: encode_bits_sextets add.commute\<close>)

lemma encode_body_length: "length (encode_body buf) = (length buf + 2) div 3 * 4 - encode_pads buf"
proof (induction buf rule: encode_body.induct)
  case (4 a b c cs)
  have "encode_pads (a # b # c # cs) = encode_pads cs" by (simp add: encode_pads_def mod3)
  moreover have "encode_pads cs \<le> (length cs + 2) div 3 * 4" by (cases cs) (auto simp: encode_pads_def)
  moreover have "(length (a # b # c # cs) + 2) div 3 * 4 = 4 + (length cs + 2) div 3 * 4"
    using div3 [of "length cs"] by (simp add: add.commute)
  ultimately show ?case using 4 by (simp add: encode_bits_sextets)
qed (simp_all add: encode_bits_sextets encode_pads_def)

lemma pad_append:
  assumes "xs = [] \<longleftrightarrow> n mod 3 = 0 \<and> n = (0 :: nat)" "length xs \<ge> 2 \<or> xs = []"
  shows "(let out = ys @ xs; k = length out; out = (if 0 < n mod 3 then out[k - 1 := e] else out)
     in if n mod 3 = 1 then out[k - 2 := e] else out)
   = ys @ (let out = xs; k = length out; out = (if 0 < n mod 3 then out[k - 1 := e] else out)
     in if n mod 3 = 1 then out[k - 2 := e] else out)"
  using assms by (auto simp: Let_def list_update_append)

lemma encode_padded:
  "(let out = encode_groups buf; k = length out;
        out = (if 0 < length buf mod 3 then out[k - 1 := char_byte CHR ''=''] else out)
    in if length buf mod 3 = 1 then out[k - 2 := char_byte CHR ''=''] else out)
   = encode_body buf @ replicate (encode_pads buf) (char_byte CHR ''='')"
proof (induction buf rule: encode_body.induct)
  case (4 a b c cs)
  have len: "length (a # b # c # cs) mod 3 = length cs mod 3" by (simp add: mod3)
  have pads: "encode_pads (a # b # c # cs) = encode_pads cs" by (simp add: encode_pads_def len del: length_Cons)
  have g: "encode_groups (a # b # c # cs) = encode_groups [a, b, c] @ encode_groups cs" by simp
  have "encode_groups cs = [] \<longleftrightarrow> length cs mod 3 = 0 \<and> length cs = 0"
    "length (encode_groups cs) \<ge> 2 \<or> encode_groups cs = []"
    using encode_groups_length [of cs] by (cases cs; auto)+
  from pad_append [OF this] 4 show ?case
    by (simp only: len pads g encode_body.simps append_assoc)
qed (simp_all add: encode_bits_sextets encode_pads_def numeral_2_eq_2)

lemma psu_base64_encode_text:
  assumes "\<And>n. mem n" "(length buf + 2) div 3 * 4 < 2 ^ 31"
  shows "psu_base64_encode mem buf = Some (Some (encode_body buf @ replicate (encode_pads buf) (char_byte CHR ''='')))"
proof -
  let ?n = "(length buf + 2) div 3 * 4"
  have "(length buf + 2) mod 2 ^ 64 = length buf + 2" using assms(2) by simp
  then have "int_of_size ((length buf + 2) mod 2 ^ 64 div 3 * 4) = int ?n"
    using int_of_size_small [OF assms(2)] by simp
  moreover have "size_of_int (int ?n + 1) = ?n + 1"
    using size_of_int_small [of "?n + 1"] assms(2) by (simp add: add.commute)
  ultimately show ?thesis
    using encode_padded [of buf] encode_groups_length [of buf] assms(1) unfolding psu_base64_encode_def Let_def by simp
qed

lemma encode_body_chars: "c \<in> set (encode_body buf) \<Longrightarrow> \<exists>x. c = sextet x"
  by (induction buf rule: encode_body.induct) (auto simp: encode_bits_sextets)

lemma drop_and_mask24: "drop_bit 16 (x AND mask 24) AND 0xff = drop_bit 16 x AND (0xff :: u32)"
  "drop_bit 8 (x AND mask 24) AND 0xff = drop_bit 8 x AND (0xff :: u32)"
  "(x AND mask 24) AND 0xff = x AND (0xff :: u32)"
  "drop_bit 16 (x AND mask 24 AND NOT (mask 6)) AND 0xff = drop_bit 16 x AND (0xff :: u32)"
  "drop_bit 8 (x AND mask 24 AND NOT (mask 6)) AND 0xff = drop_bit 8 x AND (0xff :: u32)"
  "drop_bit 16 (x AND mask 24 AND NOT (mask 12)) AND 0xff = drop_bit 16 x AND (0xff :: u32)"
proof -
  have ff: "(0xff :: u32) = mask 8" by (simp add: mask_eq_exp_minus_1)
  show "drop_bit 16 (x AND mask 24) AND 0xff = drop_bit 16 x AND (0xff :: u32)"
    "drop_bit 8 (x AND mask 24) AND 0xff = drop_bit 8 x AND (0xff :: u32)"
    "(x AND mask 24) AND 0xff = x AND (0xff :: u32)"
    "drop_bit 16 (x AND mask 24 AND NOT (mask 6)) AND 0xff = drop_bit 16 x AND (0xff :: u32)"
    "drop_bit 8 (x AND mask 24 AND NOT (mask 6)) AND 0xff = drop_bit 8 x AND (0xff :: u32)"
    "drop_bit 16 (x AND mask 24 AND NOT (mask 12)) AND 0xff = drop_bit 16 x AND (0xff :: u32)"
    unfolding ff by (auto simp: bit_simps intro!: bit_word_eqI)
qed

lemma decode_groups_sextet:
  "decode_groups stop (sextet x # cs) out = (if stop < length out then None
     else do { bits \<leftarrow> decode_group 4 (sextet x # cs);
       decode_groups stop (drop 3 cs) (decode_store stop bits out) })"
  by (subst decode_groups.simps) (simp add: sextet_facts)

lemma decode_two:
  assumes "length out < stop"
  shows "decode_groups stop (encode_body [a, b]) out
    = (let out = decode_store stop ((push_bit 16 (sext a) + push_bit 8 (sext b)) AND mask 24 AND NOT (mask 6)) out
       in if length out \<le> stop then Some out else None)"
proof -
  let ?x = "push_bit 16 (sext a) + push_bit 8 (sext b)"
  have "decode_group 4 (encode_body [a, b]) = Some (?x AND mask 24 AND NOT (mask 6))"
    by (simp add: encode_bits_sextets decode_sextets join_sextets del: push_bit_and drop_bit_and)
  then show ?thesis
    using assms by (simp add: encode_bits_sextets decode_groups_sextet) (simp add: decode_groups.simps Let_def)
qed

lemma decode_body:
  "unsigned_groups buf \<Longrightarrow> stop = length out + length buf \<Longrightarrow> decode_groups stop (encode_body buf) out = Some (out @ buf)"
proof (induction buf arbitrary: out rule: encode_body.induct)
  case 1
  then show ?case by (simp add: decode_groups.simps)
next
  case (2 a)
  let ?x = "push_bit 16 (sext a)"
  have "?x = push_bit 16 (sext a) + push_bit 8 (sext 0) + sext 0" by (simp add: sext_def)
  note bytes = group_bytes [OF _ _ this, simplified]
  have "decode_store stop (?x AND mask 24 AND NOT (mask 12)) out = out @ [a]"
    using 2(2) by (simp add: decode_store_def Let_def drop_and_mask24 bytes del: drop_bit_and)
  moreover have "decode_group 4 (encode_body [a]) = Some (?x AND mask 24 AND NOT (mask 12))"
    by (simp add: encode_bits_sextets decode_sextets join_sextets del: push_bit_and drop_bit_and)
  ultimately show ?case
    using 2(2) by (simp add: encode_bits_sextets decode_groups_sextet) (simp add: decode_groups.simps)
next
  case (3 a b)
  let ?x = "push_bit 16 (sext a) + push_bit 8 (sext b)"
  have "?x = push_bit 16 (sext a) + push_bit 8 (sext b) + sext 0" by (simp add: sext_def)
  note bytes = group_bytes [OF _ _ this, simplified]
  have "decode_store stop (?x AND mask 24 AND NOT (mask 6)) out = out @ [a, b]"
    using 3 by (simp add: decode_store_def Let_def drop_and_mask24 bytes del: drop_bit_and)
  then show ?case using 3(2) by (simp add: decode_two Let_def del: encode_body.simps)
next
  case (4 a b c cs)
  let ?x = "push_bit 16 (sext a) + push_bit 8 (sext b) + sext c"
  have u: "b < 128" "c < 128" "unsigned_groups cs" using 4(2) by simp_all
  note bytes = group_bytes [OF u(1,2) refl, of a]
  have "decode_store stop (?x AND mask 24) out = out @ [a, b, c]"
    using 4(3) by (simp add: decode_store_def Let_def drop_and_mask24 bytes del: drop_bit_and)
  moreover have "decode_group 4 (encode_body (a # b # c # cs)) = Some (?x AND mask 24)"
    by (simp add: encode_bits_sextets decode_sextets join_sextets del: push_bit_and drop_bit_and)
  moreover have "decode_groups stop (encode_body cs) (out @ [a, b, c]) = Some ((out @ [a, b, c]) @ cs)"
    by (rule 4(1) [OF u(3)]) (use 4(3) in simp)
  ultimately show ?case
    using 4(3) by (simp add: encode_bits_sextets decode_groups_sextet)
qed

lemma pads_room: "(length buf + 2) div 3 * 4 div 4 * 3 - encode_pads buf = length buf"
proof -
  obtain q r where l: "length buf = 3 * q + r" "r < 3" using mult_div_mod_eq [of 3 "length buf"] mod_less_divisor [of 3 "length buf"] by (metis zero_less_numeral)
  then have "r = 0 \<or> r = 1 \<or> r = 2" by linarith
  with l(1) show ?thesis by (auto simp: encode_pads_def)
qed

lemma pads_read:
  assumes "n = length body + k" "k \<le> 2" "2 \<le> length body" "\<forall>c\<in>set body. c \<noteq> e"
  shows "(if (body @ replicate k e) ! (n - 1) = e then 1 else 0)
    + (if (body @ replicate k e) ! (n - 2) = e then 1 else (0 :: nat)) = k"
proof -
  have "k = 0 \<or> k = 1 \<or> k = 2" using assms(2) by linarith
  then show ?thesis using assms by (auto simp: nth_append)
qed

lemma decode_encoded:
  assumes "buf \<noteq> []" "decode_groups (length buf) (encode_body buf) [] = Some r" "\<And>n. mem n"
    and "(length buf + 2) div 3 * 4 < 2 ^ 31"
  shows "psu_base64_decode mem (encode_body buf @ replicate (encode_pads buf) (char_byte CHR ''='')) = Some (Some r)"
proof -
  let ?e = "char_byte CHR ''=''" and ?k = "encode_pads buf" and ?body = "encode_body buf"
  let ?text = "?body @ replicate ?k ?e" and ?n = "(length buf + 2) div 3 * 4"
  have k2: "?k \<le> 2" by (simp add: encode_pads_def)
  have n: "length ?text = ?n" "?n = length ?body + ?k"
    using k2 assms(1) encode_body_length [of buf] by (cases buf; simp)+
  moreover have "4 \<le> ?n" using assms(1) by (cases buf) simp_all
  ultimately have body2: "2 \<le> length ?body" "?n \<noteq> 0" "length ?text mod 4 = 0" using k2 by simp_all
  have "\<forall>c\<in>set ?body. c \<noteq> ?e" using encode_body_chars sextet_facts(3) by metis
  note pads = pads_read [OF n(2) k2 body2(1) this]
  define t64 where "t64 = ?text"
  define n where "n = ?n"
  have t: "length t64 = n" "(if n mod 4 \<noteq> 0 then n - 1 else n) = n" "n mod 4 = 0" "n \<noteq> 0"
    "n div 4 * 3 - ?k = length buf" "take (n - ?k) t64 = ?body"
    using n body2 pads_room [of buf] unfolding t64_def n_def by simp_all
  have "length buf > 0" using assms(1) by simp
  with t(5) have "?k \<le> n div 4 * 3" by linarith
  moreover have "n div 4 * 3 < 2 ^ 31 - 1" using assms(4) unfolding n_def by simp
  ultimately have sz: "int_of_size (n div 4 * 3) - int ?k = int (length buf)"
    "\<not> (int (length buf) < - (2 ^ 31) \<or> 2 ^ 31 \<le> int (length buf) + 1)"
    using decoded_size [of ?k "n div 4 * 3"] t(5) by metis+
  show ?thesis
    using assms(2,3) t unfolding psu_base64_decode_def Let_def t64_def [symmetric] n_def [symmetric]
      t(1,2) pads [folded t64_def n_def] sz(1) if_not_P [OF sz(2)] by simp
qed

text \<open>
  C26 (roundtrip): decoding gives back every buffer whose bytes in the second and third place of
  a group are below 128 and whose text is shorter than 2 GB.
\<close>

theorem psu_base64_roundtrip:
  assumes "buf \<noteq> []" "unsigned_groups buf" "\<And>n. mem n" "(length buf + 2) div 3 * 4 < 2 ^ 31"
  shows "\<exists>text. psu_base64_encode mem buf = Some (Some text) \<and> psu_base64_decode mem text = Some (Some buf)"
proof -
  have "decode_groups (length buf) (encode_body buf) [] = Some buf" using decode_body [OF assms(2), of "length buf" "[]"] by simp
  from decode_encoded [of buf buf mem, OF assms(1) this] psu_base64_encode_text [of mem buf] assms(3,4) show ?thesis by simp
qed

lemma psu_base64_roundtrip_witness:
  "\<exists>text. psu_base64_encode (\<lambda>_. True) [200, 66] = Some (Some text)
    \<and> psu_base64_decode (\<lambda>_. True) text = Some (Some [200, 66])"
  by (rule psu_base64_roundtrip) simp_all

text \<open>
  A byte from 128 on in the second place of a group is sign-extended into the
  first byte, which decoding does not give back.
\<close>

lemma psu_base64_loses_bytes:
  "\<exists>text. psu_base64_encode (\<lambda>_. True) [0, 128] = Some (Some text)
    \<and> psu_base64_decode (\<lambda>_. True) text = Some (Some [255, 128])"
proof -
  have "length [0, 128 :: u8] = 2" by simp
  then have "decode_groups (length [0, 128 :: u8]) (encode_body [0, 128]) [] = Some (decode_store 2
      ((push_bit 16 (sext 0) + push_bit 8 (sext 128)) AND mask 24 AND NOT (mask 6)) [])"
    using decode_two [of "[]" 2 0 128] decode_store_length(1) [of "[]" 2] by (simp only: Let_def) simp
  also have "decode_store 2 ((push_bit 16 (sext 0) + push_bit 8 (sext 128)) AND mask 24 AND NOT (mask 6)) [] = [255, 128]"
    by code_simp
  finally show ?thesis
    using decode_encoded [of "[0, 128]" _ "\<lambda>_. True"] psu_base64_encode_text [of "\<lambda>_. True" "[0, 128]"] by simp
qed

end
