(* ===== verification/Slaxtoken.thy ===== *)
theory Slaxtoken
  imports Main
begin

text \<open>
  The token types of \<^verbatim>\<open>libslax/slaxparser.y\<close>. Bison numbers them from 258 on in the order of their
  declarations, which the lexer's range tests rely on; 0 is no token and -1 the end of the input.
\<close>

type_synonym ttype = int

named_theorems ttypes \<open>the numbers of the token types\<close>

definition V_FIRST :: ttype where [ttypes]: "V_FIRST = 258"
definition V_TOP_LEVEL :: ttype where [ttypes]: "V_TOP_LEVEL = 259"
definition V_BLOCK_LEVEL :: ttype where [ttypes]: "V_BLOCK_LEVEL = 260"
definition V_XPATH :: ttype where [ttypes]: "V_XPATH = 261"
definition V_PATTERN :: ttype where [ttypes]: "V_PATTERN = 262"
definition V_LAST :: ttype where [ttypes]: "V_LAST = 263"
definition L_ASSIGN :: ttype where [ttypes]: "L_ASSIGN = 264"
definition L_AT :: ttype where [ttypes]: "L_AT = 265"
definition L_CBRACE :: ttype where [ttypes]: "L_CBRACE = 266"
definition L_COMMA :: ttype where [ttypes]: "L_COMMA = 267"
definition L_COLON :: ttype where [ttypes]: "L_COLON = 268"
definition L_DAMPER :: ttype where [ttypes]: "L_DAMPER = 269"
definition L_DCOLON :: ttype where [ttypes]: "L_DCOLON = 270"
definition L_DEQUALS :: ttype where [ttypes]: "L_DEQUALS = 271"
definition L_DOTDOT :: ttype where [ttypes]: "L_DOTDOT = 272"
definition L_DOTDOTDOT :: ttype where [ttypes]: "L_DOTDOTDOT = 273"
definition L_DSLASH :: ttype where [ttypes]: "L_DSLASH = 274"
definition L_DVBAR :: ttype where [ttypes]: "L_DVBAR = 275"
definition L_EOS :: ttype where [ttypes]: "L_EOS = 276"
definition L_EQUALS :: ttype where [ttypes]: "L_EQUALS = 277"
definition L_GRTR :: ttype where [ttypes]: "L_GRTR = 278"
definition L_GRTREQ :: ttype where [ttypes]: "L_GRTREQ = 279"
definition L_LESS :: ttype where [ttypes]: "L_LESS = 280"
definition L_LESSEQ :: ttype where [ttypes]: "L_LESSEQ = 281"
definition L_MINUS :: ttype where [ttypes]: "L_MINUS = 282"
definition L_NOT :: ttype where [ttypes]: "L_NOT = 283"
definition L_NOTEQUALS :: ttype where [ttypes]: "L_NOTEQUALS = 284"
definition L_OBRACE :: ttype where [ttypes]: "L_OBRACE = 285"
definition L_OBRACK :: ttype where [ttypes]: "L_OBRACK = 286"
definition L_OPAREN :: ttype where [ttypes]: "L_OPAREN = 287"
definition L_PLUS :: ttype where [ttypes]: "L_PLUS = 288"
definition L_PLUSEQUALS :: ttype where [ttypes]: "L_PLUSEQUALS = 289"
definition L_QUESTION :: ttype where [ttypes]: "L_QUESTION = 290"
definition L_SLASH :: ttype where [ttypes]: "L_SLASH = 291"
definition L_STAR :: ttype where [ttypes]: "L_STAR = 292"
definition L_UNDERSCORE :: ttype where [ttypes]: "L_UNDERSCORE = 293"
definition L_VBAR :: ttype where [ttypes]: "L_VBAR = 294"
definition L_LAST :: ttype where [ttypes]: "L_LAST = 295"
definition K_APPEND :: ttype where [ttypes]: "K_APPEND = 296"
definition K_APPLY_IMPORTS :: ttype where [ttypes]: "K_APPLY_IMPORTS = 297"
definition K_APPLY_TEMPLATES :: ttype where [ttypes]: "K_APPLY_TEMPLATES = 298"
definition K_ATTRIBUTE :: ttype where [ttypes]: "K_ATTRIBUTE = 299"
definition K_ATTRIBUTE_SET :: ttype where [ttypes]: "K_ATTRIBUTE_SET = 300"
definition K_CALL :: ttype where [ttypes]: "K_CALL = 301"
definition K_CASE_ORDER :: ttype where [ttypes]: "K_CASE_ORDER = 302"
definition K_CDATA_SECTION_ELEMENTS :: ttype where [ttypes]: "K_CDATA_SECTION_ELEMENTS = 303"
definition K_COMMENT :: ttype where [ttypes]: "K_COMMENT = 304"
definition K_COPY_NODE :: ttype where [ttypes]: "K_COPY_NODE = 305"
definition K_COPY_OF :: ttype where [ttypes]: "K_COPY_OF = 306"
definition K_COUNT :: ttype where [ttypes]: "K_COUNT = 307"
definition K_DATA_TYPE :: ttype where [ttypes]: "K_DATA_TYPE = 308"
definition K_DECIMAL_FORMAT :: ttype where [ttypes]: "K_DECIMAL_FORMAT = 309"
definition K_DECIMAL_SEPARATOR :: ttype where [ttypes]: "K_DECIMAL_SEPARATOR = 310"
definition K_DIE :: ttype where [ttypes]: "K_DIE = 311"
definition K_DIGIT :: ttype where [ttypes]: "K_DIGIT = 312"
definition K_DOCTYPE_PUBLIC :: ttype where [ttypes]: "K_DOCTYPE_PUBLIC = 313"
definition K_DOCTYPE_SYSTEM :: ttype where [ttypes]: "K_DOCTYPE_SYSTEM = 314"
definition K_ELEMENT :: ttype where [ttypes]: "K_ELEMENT = 315"
definition K_ELSE :: ttype where [ttypes]: "K_ELSE = 316"
definition K_ENCODING :: ttype where [ttypes]: "K_ENCODING = 317"
definition K_EXCLUDE :: ttype where [ttypes]: "K_EXCLUDE = 318"
definition K_EXPR :: ttype where [ttypes]: "K_EXPR = 319"
definition K_EXTENSION :: ttype where [ttypes]: "K_EXTENSION = 320"
definition K_FALLBACK :: ttype where [ttypes]: "K_FALLBACK = 321"
definition K_FALSE :: ttype where [ttypes]: "K_FALSE = 322"
definition K_FOR :: ttype where [ttypes]: "K_FOR = 323"
definition K_FORMAT :: ttype where [ttypes]: "K_FORMAT = 324"
definition K_FOR_EACH :: ttype where [ttypes]: "K_FOR_EACH = 325"
definition K_FROM :: ttype where [ttypes]: "K_FROM = 326"
definition K_FUNCTION :: ttype where [ttypes]: "K_FUNCTION = 327"
definition K_GROUPING_SEPARATOR :: ttype where [ttypes]: "K_GROUPING_SEPARATOR = 328"
definition K_GROUPING_SIZE :: ttype where [ttypes]: "K_GROUPING_SIZE = 329"
definition K_ID :: ttype where [ttypes]: "K_ID = 330"
definition K_IF :: ttype where [ttypes]: "K_IF = 331"
definition K_IMPORT :: ttype where [ttypes]: "K_IMPORT = 332"
definition K_IN :: ttype where [ttypes]: "K_IN = 333"
definition K_INCLUDE :: ttype where [ttypes]: "K_INCLUDE = 334"
definition K_INDENT :: ttype where [ttypes]: "K_INDENT = 335"
definition K_INFINITY :: ttype where [ttypes]: "K_INFINITY = 336"
definition K_KEY :: ttype where [ttypes]: "K_KEY = 337"
definition K_LANGUAGE :: ttype where [ttypes]: "K_LANGUAGE = 338"
definition K_LETTER_VALUE :: ttype where [ttypes]: "K_LETTER_VALUE = 339"
definition K_LEVEL :: ttype where [ttypes]: "K_LEVEL = 340"
definition K_MATCH :: ttype where [ttypes]: "K_MATCH = 341"
definition K_MAIN :: ttype where [ttypes]: "K_MAIN = 342"
definition K_MEDIA_TYPE :: ttype where [ttypes]: "K_MEDIA_TYPE = 343"
definition K_MESSAGE :: ttype where [ttypes]: "K_MESSAGE = 344"
definition K_MINUS_SIGN :: ttype where [ttypes]: "K_MINUS_SIGN = 345"
definition K_MODE :: ttype where [ttypes]: "K_MODE = 346"
definition K_MVAR :: ttype where [ttypes]: "K_MVAR = 347"
definition K_NAN :: ttype where [ttypes]: "K_NAN = 348"
definition K_NODE :: ttype where [ttypes]: "K_NODE = 349"
definition K_NS :: ttype where [ttypes]: "K_NS = 350"
definition K_NS_ALIAS :: ttype where [ttypes]: "K_NS_ALIAS = 351"
definition K_NS_TEMPLATE :: ttype where [ttypes]: "K_NS_TEMPLATE = 352"
definition K_NULL :: ttype where [ttypes]: "K_NULL = 353"
definition K_NUMBER :: ttype where [ttypes]: "K_NUMBER = 354"
definition K_OMIT_XML_DECLARATION :: ttype where [ttypes]: "K_OMIT_XML_DECLARATION = 355"
definition K_ORDER :: ttype where [ttypes]: "K_ORDER = 356"
definition K_OUTPUT_METHOD :: ttype where [ttypes]: "K_OUTPUT_METHOD = 357"
definition K_PARAM :: ttype where [ttypes]: "K_PARAM = 358"
definition K_PATTERN_SEPARATOR :: ttype where [ttypes]: "K_PATTERN_SEPARATOR = 359"
definition K_PERCENT :: ttype where [ttypes]: "K_PERCENT = 360"
definition K_PER_MILLE :: ttype where [ttypes]: "K_PER_MILLE = 361"
definition K_PRESERVE_SPACE :: ttype where [ttypes]: "K_PRESERVE_SPACE = 362"
definition K_PRIORITY :: ttype where [ttypes]: "K_PRIORITY = 363"
definition K_PROCESSING_INSTRUCTION :: ttype where [ttypes]: "K_PROCESSING_INSTRUCTION = 364"
definition K_RESULT :: ttype where [ttypes]: "K_RESULT = 365"
definition K_SET :: ttype where [ttypes]: "K_SET = 366"
definition K_SORT :: ttype where [ttypes]: "K_SORT = 367"
definition K_STANDALONE :: ttype where [ttypes]: "K_STANDALONE = 368"
definition K_STRIP_SPACE :: ttype where [ttypes]: "K_STRIP_SPACE = 369"
definition K_TEMPLATE :: ttype where [ttypes]: "K_TEMPLATE = 370"
definition K_TERMINATE :: ttype where [ttypes]: "K_TERMINATE = 371"
definition K_TEXT :: ttype where [ttypes]: "K_TEXT = 372"
definition K_TRACE :: ttype where [ttypes]: "K_TRACE = 373"
definition K_TRUE :: ttype where [ttypes]: "K_TRUE = 374"
definition K_UEXPR :: ttype where [ttypes]: "K_UEXPR = 375"
definition K_USE_ATTRIBUTE_SETS :: ttype where [ttypes]: "K_USE_ATTRIBUTE_SETS = 376"
definition K_VALUE :: ttype where [ttypes]: "K_VALUE = 377"
definition K_VAR :: ttype where [ttypes]: "K_VAR = 378"
definition K_VERSION :: ttype where [ttypes]: "K_VERSION = 379"
definition K_WHILE :: ttype where [ttypes]: "K_WHILE = 380"
definition K_WITH :: ttype where [ttypes]: "K_WITH = 381"
definition K_ZERO_DIGIT :: ttype where [ttypes]: "K_ZERO_DIGIT = 382"
definition M_OPERATOR_FIRST :: ttype where [ttypes]: "M_OPERATOR_FIRST = 383"
definition K_AND :: ttype where [ttypes]: "K_AND = 384"
definition K_DIV :: ttype where [ttypes]: "K_DIV = 385"
definition K_MOD :: ttype where [ttypes]: "K_MOD = 386"
definition K_OR :: ttype where [ttypes]: "K_OR = 387"
definition M_OPERATOR_LAST :: ttype where [ttypes]: "M_OPERATOR_LAST = 388"
definition M_MULTIPLICATION_TEST_LAST :: ttype where [ttypes]: "M_MULTIPLICATION_TEST_LAST = 389"
definition L_ASTERISK :: ttype where [ttypes]: "L_ASTERISK = 390"
definition L_CBRACK :: ttype where [ttypes]: "L_CBRACK = 391"
definition L_CPAREN :: ttype where [ttypes]: "L_CPAREN = 392"
definition L_DOT :: ttype where [ttypes]: "L_DOT = 393"
definition T_AXIS_NAME :: ttype where [ttypes]: "T_AXIS_NAME = 394"
definition T_BARE :: ttype where [ttypes]: "T_BARE = 395"
definition T_FUNCTION_NAME :: ttype where [ttypes]: "T_FUNCTION_NAME = 396"
definition T_NUMBER :: ttype where [ttypes]: "T_NUMBER = 397"
definition T_QUOTED :: ttype where [ttypes]: "T_QUOTED = 398"
definition T_UNTERMINATED_STRING :: ttype where [ttypes]: "T_UNTERMINATED_STRING = 399"
definition T_VAR :: ttype where [ttypes]: "T_VAR = 400"
definition M_SEQUENCE :: ttype where [ttypes]: "M_SEQUENCE = 401"
definition M_CONCAT :: ttype where [ttypes]: "M_CONCAT = 402"
definition M_TERNARY :: ttype where [ttypes]: "M_TERNARY = 403"
definition M_TERNARY_END :: ttype where [ttypes]: "M_TERNARY_END = 404"
definition M_ERROR :: ttype where [ttypes]: "M_ERROR = 405"
definition M_XPATH :: ttype where [ttypes]: "M_XPATH = 406"
definition M_PARSE_FULL :: ttype where [ttypes]: "M_PARSE_FULL = 407"
definition M_PARSE_SLAX :: ttype where [ttypes]: "M_PARSE_SLAX = 408"
definition M_PARSE_XPATH :: ttype where [ttypes]: "M_PARSE_XPATH = 409"
definition M_PARSE_PARTIAL :: ttype where [ttypes]: "M_PARSE_PARTIAL = 410"
definition M_JSON :: ttype where [ttypes]: "M_JSON = 411"

end
