(* ===== verification/Slaxtables.thy ===== *)
theory Slaxtables
  imports Slaxtoken Prelude
begin

text \<open>
  The tables of the lexer (\<^verbatim>\<open>libslax/slaxlexer.c\<close>) and the set-up of the lookup tables. A lookup
  table of the size of the characters is a function; the tables indexed by bison's symbol numbers
  (\<^verbatim>\<open>slaxTokenTranslate\<close>, one number per token type) are functions of the token type.
\<close>

definition singleWideData :: "(ttype \<times> char) list" where
  "singleWideData = [
   (L_AT, CHR ''@''), (L_CBRACE, CHR ''}''), (L_CBRACK, CHR '']''), (L_COMMA, CHR '',''),
   (L_COLON, CHR '':''), (L_CPAREN, CHR '')''), (L_DOT, CHR ''.''), (L_EOS, CHR '';''),
   (L_EQUALS, CHR ''=''), (L_GRTR, CHR ''>''), (L_LESS, CHR ''<''), (L_MINUS, CHR ''-''),
   (L_NOT, CHR ''!''), (L_OBRACE, CHR ''{''), (L_OBRACK, CHR ''[''), (L_OPAREN, CHR ''(''),
   (L_PLUS, CHR ''+''), (L_QUESTION, CHR ''?''), (L_SLASH, CHR ''/''), (L_STAR, CHR ''*''),
   (L_UNDERSCORE, CHR ''_''), (L_VBAR, CHR ''|'')
  ]"

definition doubleWideData :: "(ttype \<times> char \<times> char) list" where
  "doubleWideData = [
   (L_ASSIGN, CHR '':'', CHR ''=''), (L_DAMPER, CHR ''&'', CHR ''&''),
   (L_DCOLON, CHR '':'', CHR '':''), (L_DEQUALS, CHR ''='', CHR ''=''),
   (L_DOTDOT, CHR ''.'', CHR ''.''), (L_DSLASH, CHR ''/'', CHR ''/''),
   (L_DVBAR, CHR ''|'', CHR ''|''), (L_GRTREQ, CHR ''>'', CHR ''=''),
   (L_LESSEQ, CHR ''<'', CHR ''=''), (L_NOTEQUALS, CHR ''!'', CHR ''=''),
   (L_PLUSEQUALS, CHR ''+'', CHR ''='')
  ]"

text \<open>The keywords: a token type, its text, and where it is reserved.\<close>

definition KMF_NODE_TEST :: nat where "KMF_NODE_TEST = 1"
definition KMF_SLAX_KW :: nat where "KMF_SLAX_KW = 2"
definition KMF_XPATH_KW :: nat where "KMF_XPATH_KW = 4"
definition KMF_STMT_KW :: nat where "KMF_STMT_KW = 8"
definition KMF_JSON_KW :: nat where "KMF_JSON_KW = 16"

lemmas kmf_defs = KMF_NODE_TEST_def KMF_SLAX_KW_def KMF_XPATH_KW_def KMF_STMT_KW_def KMF_JSON_KW_def

record keyword_mapping =
  km_ttype :: ttype
  km_string :: string
  km_flags :: nat

definition keywordMap :: "keyword_mapping list" where
  "keywordMap = map (\<lambda>(t, s, f). \<lparr>km_ttype = t, km_string = s, km_flags = f\<rparr>) [
   (K_AND, ''and'', KMF_XPATH_KW), (K_APPEND, ''append'', KMF_SLAX_KW),
   (K_APPLY_IMPORTS, ''apply-imports'', KMF_SLAX_KW),
   (K_APPLY_TEMPLATES, ''apply-templates'', KMF_SLAX_KW),
   (K_ATTRIBUTE, ''attribute'', KMF_SLAX_KW),
   (K_ATTRIBUTE_SET, ''attribute-set'', KMF_SLAX_KW),
   (K_CALL, ''call'', KMF_SLAX_KW OR KMF_STMT_KW), (K_CASE_ORDER, ''case-order'', KMF_SLAX_KW),
   (K_CDATA_SECTION_ELEMENTS, ''cdata-section-elements'', KMF_SLAX_KW),
   (K_COMMENT, ''comment'', KMF_SLAX_KW OR KMF_NODE_TEST),
   (K_COPY_NODE, ''copy-node'', KMF_SLAX_KW), (K_COPY_OF, ''copy-of'', KMF_SLAX_KW),
   (K_COUNT, ''count'', KMF_SLAX_KW), (K_DATA_TYPE, ''data-type'', KMF_SLAX_KW),
   (K_DECIMAL_FORMAT, ''decimal-format'', KMF_SLAX_KW),
   (K_DECIMAL_SEPARATOR, ''decimal-separator'', KMF_SLAX_KW), (K_DIE, ''die'', KMF_SLAX_KW),
   (K_DIGIT, ''digit'', KMF_SLAX_KW), (K_DIV, ''div'', KMF_XPATH_KW),
   (K_DOCTYPE_PUBLIC, ''doctype-public'', KMF_SLAX_KW),
   (K_DOCTYPE_SYSTEM, ''doctype-system'', KMF_SLAX_KW), (K_ELEMENT, ''element'', KMF_SLAX_KW),
   (K_ELSE, ''else'', KMF_SLAX_KW), (K_ELSE, ''else'', KMF_SLAX_KW),
   (K_ENCODING, ''encoding'', KMF_SLAX_KW), (K_EXCLUDE, ''exclude'', KMF_SLAX_KW),
   (K_EXPR, ''expr'', KMF_SLAX_KW), (K_EXTENSION, ''extension'', KMF_SLAX_KW),
   (K_FALLBACK, ''fallback'', KMF_SLAX_KW), (K_FALSE, ''false'', KMF_JSON_KW),
   (K_FORMAT, ''format'', KMF_SLAX_KW), (K_FOR, ''for'', KMF_SLAX_KW),
   (K_FOR_EACH, ''for-each'', KMF_SLAX_KW), (K_FROM, ''from'', KMF_SLAX_KW),
   (K_FUNCTION, ''function'', KMF_SLAX_KW),
   (K_GROUPING_SEPARATOR, ''grouping-separator'', KMF_SLAX_KW),
   (K_GROUPING_SIZE, ''grouping-size'', KMF_SLAX_KW), (K_ID, ''id'', KMF_NODE_TEST),
   (K_IF, ''if'', KMF_SLAX_KW), (K_IMPORT, ''import'', KMF_SLAX_KW),
   (K_IN, ''in'', KMF_SLAX_KW), (K_INCLUDE, ''include'', KMF_SLAX_KW),
   (K_INDENT, ''indent'', KMF_SLAX_KW), (K_INFINITY, ''infinity'', KMF_SLAX_KW),
   (K_KEY, ''key'', KMF_SLAX_KW OR KMF_NODE_TEST), (K_LANGUAGE, ''language'', KMF_SLAX_KW),
   (K_LETTER_VALUE, ''letter-value'', KMF_SLAX_KW), (K_LEVEL, ''level'', KMF_SLAX_KW),
   (K_MATCH, ''match'', KMF_SLAX_KW), (K_MAIN, ''main'', KMF_SLAX_KW),
   (K_MEDIA_TYPE, ''media-type'', KMF_SLAX_KW), (K_MESSAGE, ''message'', KMF_SLAX_KW),
   (K_MINUS_SIGN, ''minus-sign'', KMF_SLAX_KW), (K_MOD, ''mod'', KMF_XPATH_KW),
   (K_MODE, ''mode'', KMF_SLAX_KW), (K_MVAR, ''mvar'', KMF_SLAX_KW),
   (K_NAN, ''nan'', KMF_SLAX_KW), (K_NODE, ''node'', KMF_NODE_TEST),
   (K_NS, ''ns'', KMF_SLAX_KW), (K_NS_ALIAS, ''ns-alias'', KMF_SLAX_KW),
   (K_NS_TEMPLATE, ''ns-template'', KMF_SLAX_KW), (K_NULL, ''null'', KMF_JSON_KW),
   (K_NUMBER, ''number'', KMF_SLAX_KW),
   (K_OMIT_XML_DECLARATION, ''omit-xml-declaration'', KMF_SLAX_KW),
   (K_OR, ''or'', KMF_XPATH_KW), (K_ORDER, ''order'', KMF_SLAX_KW),
   (K_OUTPUT_METHOD, ''output-method'', KMF_SLAX_KW), (K_PARAM, ''param'', KMF_SLAX_KW),
   (K_PATTERN_SEPARATOR, ''pattern-separator'', KMF_SLAX_KW),
   (K_PERCENT, ''percent'', KMF_SLAX_KW), (K_PER_MILLE, ''per-mille'', KMF_SLAX_KW),
   (K_PRESERVE_SPACE, ''preserve-space'', KMF_SLAX_KW),
   (K_PRIORITY, ''priority'', KMF_SLAX_KW),
   (K_PROCESSING_INSTRUCTION, ''processing-instruction'', KMF_SLAX_KW OR KMF_NODE_TEST),
   (K_RESULT, ''result'', KMF_SLAX_KW), (K_SET, ''set'', KMF_SLAX_KW),
   (K_SORT, ''sort'', KMF_SLAX_KW), (K_STANDALONE, ''standalone'', KMF_SLAX_KW),
   (K_STRIP_SPACE, ''strip-space'', KMF_SLAX_KW), (K_TEMPLATE, ''template'', KMF_SLAX_KW),
   (K_TERMINATE, ''terminate'', KMF_SLAX_KW), (K_TEXT, ''text'', KMF_NODE_TEST),
   (K_TRACE, ''trace'', KMF_SLAX_KW), (K_TRUE, ''true'', KMF_JSON_KW),
   (K_UEXPR, ''uexpr'', KMF_SLAX_KW),
   (K_USE_ATTRIBUTE_SETS, ''use-attribute-sets'', KMF_SLAX_KW),
   (K_VALUE, ''value'', KMF_SLAX_KW), (K_VAR, ''var'', KMF_SLAX_KW),
   (K_VERSION, ''version'', KMF_SLAX_KW), (K_WHILE, ''while'', KMF_SLAX_KW),
   (K_WITH, ''with'', KMF_SLAX_KW), (K_ZERO_DIGIT, ''zero-digit'', KMF_SLAX_KW)
  ]"

text \<open>The readable names of the token types, a backquote standing for an apostrophe.\<close>

definition fancy :: "string \<Rightarrow> string" where
  "fancy s = map (\<lambda>c. if c = CHR ''`'' then CHR 0x27 else c) s"

definition slaxTtnameMap :: "(ttype \<times> string) list" where
  "slaxTtnameMap = map (\<lambda>(t, s). (t, fancy s)) [
   (L_ASSIGN, ''assignment operator (`:=`)''), (L_AT, ''attribute axis (`@`)''),
   (L_CBRACE, ''close brace (`}`)''), (L_OBRACK, ''close bracket (`]`)''),
   (L_COLON, ''colon (`:`)''), (L_COMMA, ''comma (`,`)''),
   (L_DAMPER, ''logical AND operator (`&&`)''), (L_DCOLON, ''axis operator (`::`)''),
   (L_DEQUALS, ''equality operator (`==`)''), (L_DOTDOT, ''parent axis (`..`)''),
   (L_DOTDOTDOT, ''sequence operator (`...`)''), (L_DSLASH, ''descendant operator (`//`)''),
   (L_DVBAR, ''logical OR operator (`||`)''), (L_EOS, ''semi-colon (`;`)''),
   (L_EQUALS, ''equal sign (`=`)''), (L_GRTR, ''greater-than operator (`>`)''),
   (L_GRTREQ, ''greater-or-equals operator (`>=`)''), (L_LESS, ''less-than operator (`<`)''),
   (L_LESSEQ, ''less-or-equals operator (`<=`)''), (L_MINUS, ''minus sign (`-`)''),
   (L_NOT, ''not sign (`!`)''), (L_NOTEQUALS, ''not-equals sign (`!=`)''),
   (L_OBRACE, ''open brace (`{`)''), (L_OBRACK, ''open bracket (`[`)''),
   (L_OPAREN, ''open parentheses (`(`)''), (L_PLUS, ''plus sign (`+`)''),
   (L_PLUSEQUALS, ''increment assign operator (`+=`)''), (L_SLASH, ''slash (`/`)''),
   (L_STAR, ''star (`*`)''), (L_UNDERSCORE, ''concatenation operator (`_`)''),
   (L_VBAR, ''union operator (`|`)''), (K_APPEND, ''`append`''),
   (K_APPLY_IMPORTS, ''`apply-imports`''), (K_APPLY_TEMPLATES, ''`apply-templates`''),
   (K_ATTRIBUTE, ''`attribute`''), (K_ATTRIBUTE_SET, ''`attribute-set`''),
   (K_CALL, ''`call`''), (K_CASE_ORDER, ''`case-order`''),
   (K_CDATA_SECTION_ELEMENTS, ''`cdata-section-elements`''), (K_COMMENT, ''`comment`''),
   (K_COPY_NODE, ''`copy-node`''), (K_COPY_OF, ''`copy-of`''), (K_COUNT, ''`count`''),
   (K_DATA_TYPE, ''`data-type`''), (K_DECIMAL_FORMAT, ''`decimal-format`''),
   (K_DECIMAL_SEPARATOR, ''`decimal-separator`''), (K_DIE, ''`die`''), (K_DIGIT, ''`digit`''),
   (K_DOCTYPE_PUBLIC, ''`doctype-public`''), (K_DOCTYPE_SYSTEM, ''`doctype-system`''),
   (K_ELEMENT, ''`element`''), (K_ELSE, ''`else`''), (K_ENCODING, ''`encoding`''),
   (K_EXCLUDE, ''`exclude`''), (K_EXPR, ''`expr`''), (K_EXTENSION, ''`extension`''),
   (K_FALLBACK, ''`fallback`''), (K_FALSE, ''`false`''), (K_FORMAT, ''`format`''),
   (K_FOR, ''`for`''), (K_FOR_EACH, ''`for-each`''), (K_FROM, ''`from`''),
   (K_FUNCTION, ''`function`''), (K_GROUPING_SEPARATOR, ''`grouping-separator`''),
   (K_GROUPING_SIZE, ''`grouping-size`''), (K_ID, ''`id`''), (K_IF, ''`if`''),
   (K_IMPORT, ''`import`''), (K_IN, ''`in`''), (K_INCLUDE, ''`include`''),
   (K_INDENT, ''`indent`''), (K_INFINITY, ''`infinity`''), (K_KEY, ''`key`''),
   (K_LANGUAGE, ''`language`''), (K_LETTER_VALUE, ''`letter-value`''), (K_LEVEL, ''`level`''),
   (K_MATCH, ''`match`''), (K_MAIN, ''`main`''), (K_MEDIA_TYPE, ''`media-type`''),
   (K_MESSAGE, ''`message`''), (K_MINUS_SIGN, ''`minus-sign`''), (K_MODE, ''`mode`''),
   (K_MVAR, ''`mvar`''), (K_NAN, ''`nan`''), (K_NODE, ''`node`''), (K_NS, ''`ns`''),
   (K_NS_ALIAS, ''`ns-alias`''), (K_NS_TEMPLATE, ''`ns-template`''), (K_NULL, ''`null`''),
   (K_NUMBER, ''`number`''), (K_OMIT_XML_DECLARATION, ''`omit-xml-declaration`''),
   (K_ORDER, ''`order`''), (K_OUTPUT_METHOD, ''`output-method`''), (K_PARAM, ''`param`''),
   (K_PATTERN_SEPARATOR, ''`pattern-separator`''), (K_PERCENT, ''`percent`''),
   (K_PER_MILLE, ''`per-mille`''), (K_PRESERVE_SPACE, ''`preserve-space`''),
   (K_PRIORITY, ''`priority`''), (K_PROCESSING_INSTRUCTION, ''`processing-instruction`''),
   (K_RESULT, ''`result`''), (K_SET, ''`set`''), (K_SORT, ''`sort`''),
   (K_STANDALONE, ''`standalone`''), (K_STRIP_SPACE, ''`strip-space`''),
   (K_TEMPLATE, ''`template`''), (K_TERMINATE, ''`terminate`''), (K_TEXT, ''`text`''),
   (K_TRACE, ''`trace`''), (K_TRUE, ''`true`''), (K_UEXPR, ''`uexpr`''),
   (K_USE_ATTRIBUTE_SETS, ''`use-attribute-set`''), (K_VALUE, ''`value`''), (K_VAR, ''`var`''),
   (K_VERSION, ''`version`''), (K_WHILE, ''`while`''), (K_WITH, ''`with`''),
   (K_ZERO_DIGIT, ''`zero-digit`''), (K_AND, ''`and`''), (K_DIV, ''`div`''),
   (K_MOD, ''`mod`''), (K_OR, ''`or`''), (L_ASTERISK, ''asterisk (`*`)''),
   (L_CBRACK, ''close bracket (`]`)''), (L_CPAREN, ''close parentheses (`)`)''),
   (L_DOT, ''dot (`.`)''), (T_AXIS_NAME, ''built-in axis name''),
   (T_BARE, ''bare word string''), (T_FUNCTION_NAME, ''function name''),
   (T_NUMBER, ''number''), (T_QUOTED, ''quoted string''),
   (T_UNTERMINATED_STRING, ''unterminated string''), (T_VAR, ''variable name'')
  ]"

section \<open>The lookup tables\<close>

record slax_tables =
  singleWide :: "char \<Rightarrow> ttype"
  doubleWide :: "char \<Rightarrow> nat"
  tripleWide :: "char \<Rightarrow> nat"
  slaxKeywordString :: "ttype \<Rightarrow> string option"
  slaxTokenNameFancy :: "ttype \<Rightarrow> string option"

fun setup_single :: "(ttype \<times> char) list \<Rightarrow> (char \<Rightarrow> ttype) \<Rightarrow> char \<Rightarrow> ttype" where
  "setup_single [] tab = tab"
| "setup_single ((t, c) # ds) tab = setup_single ds (tab(c := t))"

fun setup_double :: "nat \<Rightarrow> (ttype \<times> char \<times> char) list \<Rightarrow> (char \<Rightarrow> nat) \<Rightarrow> char \<Rightarrow> nat" where
  "setup_double i [] tab = tab"
| "setup_double i ((t, c, d) # ds) tab = setup_double (i + 3) ds (tab(c := i + 2))"

fun setup_names :: "(ttype \<times> string) list \<Rightarrow> (ttype \<Rightarrow> string option) \<Rightarrow> ttype \<Rightarrow> string option" where
  "setup_names [] tab = tab"
| "setup_names ((t, s) # ds) tab = setup_names ds (tab(t \<mapsto> s))"

definition slaxSetupLexer :: "slax_tables \<Rightarrow> slax_tables" where
  "slaxSetupLexer tabs = tabs\<lparr>
     singleWide := setup_single singleWideData (singleWide tabs),
     doubleWide := setup_double 0 doubleWideData (doubleWide tabs),
     tripleWide := (tripleWide tabs)(CHR ''.'' := 1),
     slaxKeywordString := setup_names (map (\<lambda>km. (km_ttype km, km_string km)) keywordMap) (slaxKeywordString tabs),
     slaxTokenNameFancy := setup_names slaxTtnameMap (slaxTokenNameFancy tabs)\<rparr>"

text \<open>The static tables hold zeros until they are set up, which is done before the first token.\<close>

definition lexer_tables :: slax_tables where
  "lexer_tables = slaxSetupLexer \<lparr>singleWide = (\<lambda>_. 0), doubleWide = (\<lambda>_. 0), tripleWide = (\<lambda>_. 0),
     slaxKeywordString = (\<lambda>_. None), slaxTokenNameFancy = (\<lambda>_. None)\<rparr>"

text \<open>The tokens of two and of three characters.\<close>

definition slaxDoubleWide :: "char \<Rightarrow> char \<Rightarrow> ttype" where
  "slaxDoubleWide ch1 ch2 =
     (if ch1 = CHR '':'' \<and> ch2 = CHR ''='' then L_ASSIGN
      else if ch1 = CHR ''&'' \<and> ch2 = CHR ''&'' then L_DAMPER
      else if ch1 = CHR '':'' \<and> ch2 = CHR '':'' then L_DCOLON
      else if ch1 = CHR ''='' \<and> ch2 = CHR ''='' then L_DEQUALS
      else if ch1 = CHR ''.'' \<and> ch2 = CHR ''.'' then L_DOTDOT
      else if ch1 = CHR ''/'' \<and> ch2 = CHR ''/'' then L_DSLASH
      else if ch1 = CHR ''|'' \<and> ch2 = CHR ''|'' then L_DVBAR
      else if ch1 = CHR ''>'' \<and> ch2 = CHR ''='' then L_GRTREQ
      else if ch1 = CHR ''<'' \<and> ch2 = CHR ''='' then L_LESSEQ
      else if ch1 = CHR ''!'' \<and> ch2 = CHR ''='' then L_NOTEQUALS
      else if ch1 = CHR ''+'' \<and> ch2 = CHR ''='' then L_PLUSEQUALS
      else 0)"

definition slaxTripleWide :: "char \<Rightarrow> char \<Rightarrow> char \<Rightarrow> ttype" where
  "slaxTripleWide ch1 ch2 ch3 =
     (if ch1 = CHR ''.'' \<and> ch2 = CHR ''.'' \<and> ch3 = CHR ''.'' then L_DOTDOTDOT else 0)"

end
