(* ===== verification/Slaxdata.thy ===== *)
theory Slaxdata
  imports Slaxtables Clib
begin

text \<open>
  The state of the lexer (\<^verbatim>\<open>struct slax_data_s\<close>, \<^verbatim>\<open>libslax/slaxlexer.h\<close>), its reads of the input buffer and the
  filling of the buffer (\<^verbatim>\<open>libslax/slaxlexer.c\<close>). The outer \<open>None\<close> of a result is an access outside of
  the buffer, or a loop that does not end. Characters are in the C locale.
\<close>

section \<open>The state\<close>

text \<open>
  \<open>sd_file\<close> is what is left to read of the file, \<open>None\<close> when the input is a text in memory; \<open>sd_buf\<close> is the
  null pointer or the contents of the allocated buffer; \<open>sd_input\<close> is the line kept in libxml2's input, when
  there is one. The comments found are handed to libxml2, with whether they go to the parent of the
  context node, which is the case when the latter is an \<^verbatim>\<open>xsl:sort\<close> (\<open>sd_sort\<close>). \<open>sd_mem\<close> tells whether memory of
  a size is found, \<open>sd_fresh\<close> what memory just allocated holds. The positions and sizes are \<^verbatim>\<open>int\<close> in C and
  numbers without a bound here, which is the same for inputs below 2 GB.
\<close>

record slax_data =
  sd_errors :: nat
  sd_file :: "string option"
  sd_flags :: u32
  sd_flags_next :: u32
  sd_parse :: ttype
  sd_ttype :: ttype
  sd_last :: ttype
  sd_line :: nat
  sd_start :: nat
  sd_cur :: nat
  sd_len :: nat
  sd_size :: nat
  sd_buf :: "string option"
  sd_input :: "nat option"
  sd_sort :: bool
  sd_comments :: "(string \<times> bool) list"
  sd_mem :: "nat \<Rightarrow> bool"
  sd_fresh :: "nat \<Rightarrow> char"

definition SDF_EOF :: u32 where "SDF_EOF = 1"
definition SDF_NO_SLAX_KEYWORDS :: u32 where "SDF_NO_SLAX_KEYWORDS = 2"
definition SDF_NO_XPATH_KEYWORDS :: u32 where "SDF_NO_XPATH_KEYWORDS = 4"
definition SDF_OPEN_COMMENT :: u32 where "SDF_OPEN_COMMENT = 8"
definition SDF_JSON_KEYWORDS :: u32 where "SDF_JSON_KEYWORDS = 16"
definition SDF_SLSH_COMMENTS :: u32 where "SDF_SLSH_COMMENTS = 256"
definition SDF_SLSH_OPEN :: u32 where "SDF_SLSH_OPEN = 512"
definition SDF_STRING :: u32 where "SDF_STRING = 1024"
definition SDF_NO_KEYWORDS :: u32 where "SDF_NO_KEYWORDS = SDF_NO_SLAX_KEYWORDS OR SDF_NO_XPATH_KEYWORDS"

lemmas sdf_defs = SDF_EOF_def SDF_NO_SLAX_KEYWORDS_def SDF_NO_XPATH_KEYWORDS_def SDF_OPEN_COMMENT_def
  SDF_JSON_KEYWORDS_def SDF_SLSH_COMMENTS_def SDF_SLSH_OPEN_def SDF_STRING_def SDF_NO_KEYWORDS_def

definition sd_flag :: "slax_data \<Rightarrow> u32 \<Rightarrow> bool" where
  "sd_flag sdp f \<longleftrightarrow> sd_flags sdp AND f \<noteq> 0"

definition SLAX_KEYWORDS_ALLOWED :: "slax_data \<Rightarrow> bool" where
  "SLAX_KEYWORDS_ALLOWED sdp \<longleftrightarrow> \<not> sd_flag sdp SDF_NO_SLAX_KEYWORDS"

definition XPATH_KEYWORDS_ALLOWED :: "slax_data \<Rightarrow> bool" where
  "XPATH_KEYWORDS_ALLOWED sdp \<longleftrightarrow> \<not> sd_flag sdp SDF_NO_XPATH_KEYWORDS"

definition JSON_KEYWORDS_ALLOWED :: "slax_data \<Rightarrow> bool" where
  "JSON_KEYWORDS_ALLOWED sdp \<longleftrightarrow> sd_flag sdp SDF_JSON_KEYWORDS"

definition slaxParseIsSlax :: "slax_data \<Rightarrow> bool" where
  "slaxParseIsSlax sdp \<longleftrightarrow>
     sd_parse sdp = M_PARSE_FULL \<or> sd_parse sdp = M_PARSE_SLAX \<or> sd_parse sdp = M_PARSE_PARTIAL"

definition slaxParseIsXpath :: "slax_data \<Rightarrow> bool" where
  "slaxParseIsXpath sdp \<longleftrightarrow> sd_parse sdp = M_PARSE_XPATH"

section \<open>Characters\<close>

abbreviation (input) NUL :: char where
  "NUL \<equiv> CHR 0x00"

definition c_isdigit :: "char \<Rightarrow> bool" where
  "c_isdigit c \<longleftrightarrow> 48 \<le> (of_char c :: nat) \<and> (of_char c :: nat) \<le> 57"

definition c_isalpha :: "char \<Rightarrow> bool" where
  "c_isalpha c \<longleftrightarrow> 65 \<le> (of_char c :: nat) \<and> (of_char c :: nat) \<le> 90
     \<or> 97 \<le> (of_char c :: nat) \<and> (of_char c :: nat) \<le> 122"

definition c_isalnum :: "char \<Rightarrow> bool" where
  "c_isalnum c \<longleftrightarrow> c_isalpha c \<or> c_isdigit c"

definition slaxIsBareChar :: "char \<Rightarrow> bool" where
  "slaxIsBareChar ch \<longleftrightarrow> c_isalnum ch \<or> ch = CHR '':'' \<or> ch = CHR ''_'' \<or> ch = CHR ''.'' \<or> ch = CHR ''-''
     \<or> 128 \<le> (of_char ch :: nat)"

definition slaxIsVarChar :: "char \<Rightarrow> bool" where
  "slaxIsVarChar ch \<longleftrightarrow> c_isalnum ch \<or> ch = CHR ''-'' \<or> ch = CHR ''_'' \<or> ch = CHR ''.'' \<or> ch = CHR '':''"

definition slaxIsFinalChar :: "char \<Rightarrow> bool" where
  "slaxIsFinalChar ch \<longleftrightarrow> ch = CHR '';'' \<or> c_isspace ch"

section \<open>Reading the buffer\<close>

definition rd :: "slax_data \<Rightarrow> nat \<Rightarrow> char option" where
  "rd sdp i = do {
     buf \<leftarrow> sd_buf sdp;
     if i < length buf then Some (buf ! i) else None
   }"

definition rd_text :: "slax_data \<Rightarrow> nat \<Rightarrow> nat \<Rightarrow> string option" where
  "rd_text sdp i n = do {
     buf \<leftarrow> sd_buf sdp;
     if i + n \<le> length buf then Some (take n (drop i buf)) else None
   }"

section \<open>Filling the buffer\<close>

definition BUFSIZ :: nat where "BUFSIZ = 8192"
definition SD_BUF_FUDGE :: nat where "SD_BUF_FUDGE = BUFSIZ div 8"
definition SD_BUF_INCR :: nat where "SD_BUF_INCR = BUFSIZ"

text \<open>\<^verbatim>\<open>fgets\<close>: a line, at most \<open>n - 1\<close> characters of it, and what is left of the file.\<close>

definition c_fgets :: "nat \<Rightarrow> string \<Rightarrow> (string \<times> string) option" where
  "c_fgets n file =
     (if file = [] then None
      else let k = min (n - 1) (Suc (length (takeWhile (\<lambda>c. c \<noteq> CHR ''\<newline>'') file)))
           in Some (take k file, drop k file))"

definition buf_store :: "string \<Rightarrow> nat \<Rightarrow> string \<Rightarrow> string" where
  "buf_store buf i s = take i buf @ s @ drop (i + length s) buf"

text \<open>Room for the next read: the data is moved to the start of the buffer, or the buffer grows.\<close>

definition input_room :: "slax_data \<Rightarrow> (bool \<times> slax_data) option" where
  "input_room sdp =
     (if sd_len sdp + SD_BUF_FUDGE > sd_size sdp then
        if sd_start sdp > SD_BUF_FUDGE then do {
          buf \<leftarrow> sd_buf sdp;
          data \<leftarrow> rd_text sdp (sd_start sdp) (sd_len sdp - sd_start sdp);
          Some (False, sdp\<lparr>sd_buf := Some (buf_store buf 0 data), sd_len := sd_len sdp - sd_start sdp,
            sd_cur := sd_cur sdp - sd_start sdp, sd_start := 0\<rparr>)
        }
        else
          let new_size = sd_size sdp + SD_BUF_INCR; old = (case sd_buf sdp of None \<Rightarrow> [] | Some buf \<Rightarrow> buf) in
          if \<not> sd_mem sdp new_size then Some (True, sdp)
          else Some (False, sdp\<lparr>sd_size := new_size,
            sd_buf := Some (old @ map (sd_fresh sdp) [length old..<new_size])\<rparr>)
      else Some (False, sdp))"

text \<open>The byte order mark and the \<^verbatim>\<open>#!\<close> line at the start of a file.\<close>

definition input_first :: "slax_data \<Rightarrow> slax_data option" where
  "input_first sdp = do {
     b0 \<leftarrow> rd sdp 0;
     bom \<leftarrow> (if b0 \<noteq> CHR 0xef then Some False else do {
       b1 \<leftarrow> rd sdp 1;
       if b1 \<noteq> CHR 0xbb then Some False else do { b2 \<leftarrow> rd sdp 2; Some (b2 = CHR 0xbf) }
     });
     let sdp = (if bom then sdp\<lparr>sd_cur := sd_cur sdp + 3\<rparr> else sdp);
     c0 \<leftarrow> rd sdp (sd_cur sdp);
     if c0 \<noteq> CHR ''#'' then Some sdp else do {
       c1 \<leftarrow> rd sdp (sd_cur sdp + 1);
       Some (if c1 = CHR ''!'' then sdp\<lparr>sd_len := 0, sd_line := sd_line sdp + 1\<rparr> else sdp)
     }
   }"

text \<open>The loop of \<^verbatim>\<open>slaxGetInput\<close>; it answers whether there is no more input.\<close>

partial_function (option) input_loop :: "bool \<Rightarrow> bool \<Rightarrow> slax_data \<Rightarrow> (bool \<times> slax_data) option" where
  "input_loop first_read final sdp = do {
     (failed, sdp) \<leftarrow> input_room sdp;
     if failed then Some (True, sdp)
     else
       case (if sd_flag sdp SDF_EOF then None
             else c_fgets (sd_size sdp - sd_len sdp) (case sd_file sdp of None \<Rightarrow> [] | Some file \<Rightarrow> file)) of
         None \<Rightarrow>
           let sdp = sdp\<lparr>sd_flags := sd_flags sdp OR SDF_EOF\<rparr> in
           Some (\<not> sd_cur sdp < sd_len sdp, sdp)
       | Some (line, file) \<Rightarrow> do {
           buf \<leftarrow> sd_buf sdp;
           if length buf < sd_len sdp + length line + 1 then None
           else do {
             let n = length (takeWhile (\<lambda>c. c \<noteq> NUL) line);
             let sdp = sdp\<lparr>sd_file := Some file, sd_buf := Some (buf_store buf (sd_len sdp) (line @ [NUL])),
               sd_len := sd_len sdp + n\<rparr>;
             if sd_len sdp = 0 then input_loop first_read final sdp
             else if first_read then do {
               sdp \<leftarrow> input_first sdp;
               input_loop False final sdp
             }
             else if \<not> final then Some (False, sdp)
             else do {
               ch \<leftarrow> rd sdp (sd_len sdp - 1);
               if slaxIsFinalChar ch then Some (False, sdp) else input_loop False final sdp
             }
           }
         }
   }"

definition slaxGetInput :: "slax_data \<Rightarrow> bool \<Rightarrow> (bool \<times> slax_data) option" where
  "slaxGetInput sdp final =
     (if sd_parse sdp = M_PARSE_XPATH \<or> sd_parse sdp = M_PARSE_SLAX \<or> sd_file sdp = None then Some (True, sdp)
      else input_loop (sd_buf sdp = None) final sdp)"

text \<open>The next character; it answers whether there is none.\<close>

definition slaxMoveCur :: "slax_data \<Rightarrow> (bool \<times> slax_data) option" where
  "slaxMoveCur sdp = do {
     let moved = (sd_cur sdp < sd_len sdp);
     let sdp = (if moved then sdp\<lparr>sd_cur := sd_cur sdp + 1\<rparr> else sdp);
     if sd_cur sdp = sd_len sdp then do {
       (eof, sdp) \<leftarrow> slaxGetInput sdp False;
       if eof then Some (True, if moved then sdp\<lparr>sd_cur := sd_cur sdp - 1\<rparr> else sdp)
       else Some (False, sdp)
     }
     else Some (False, sdp)
   }"

end
