(* ===== verification/Slaxstring.thy ===== *)
theory Slaxstring
  imports Slaxdata
begin

text \<open>
  Segments of a string (\<^verbatim>\<open>libslax/slaxstring.c\<close>): the type, the flags and the text, which is a C string. The links
  between segments are in \<^verbatim>\<open>Slaxheap\<close>; here a linked list of segments is a list. Memory is found according to
  \<^verbatim>\<open>mem\<close>; a segment takes 24 bytes besides its text.
\<close>

section \<open>Segments\<close>

record slax_string =
  ss_ttype :: ttype
  ss_flags :: u32
  ss_token :: string

definition SSF_QUOTES :: u32 where "SSF_QUOTES = 1"
definition SSF_BRACES :: u32 where "SSF_BRACES = 2"
definition SSF_SINGLEQ :: u32 where "SSF_SINGLEQ = 4"
definition SSF_DOUBLEQ :: u32 where "SSF_DOUBLEQ = 8"
definition SSF_BOTHQS :: u32 where "SSF_BOTHQS = 16"
definition SSF_SLAXNS :: u32 where "SSF_SLAXNS = 64"
definition SSF_ESCAPE :: u32 where "SSF_ESCAPE = 128"
definition SSF_XPATH :: u32 where "SSF_XPATH = 256"
definition SSF_NOPARENS :: u32 where "SSF_NOPARENS = 512"
definition SSF_ATTRIB :: u32 where "SSF_ATTRIB = 1024"
definition SSF_QUOTE_MASK :: u32 where "SSF_QUOTE_MASK = SSF_SINGLEQ OR SSF_DOUBLEQ OR SSF_BOTHQS"

lemmas ssf_defs = SSF_QUOTES_def SSF_BRACES_def SSF_SINGLEQ_def SSF_DOUBLEQ_def SSF_BOTHQS_def SSF_SLAXNS_def
  SSF_ESCAPE_def SSF_XPATH_def SSF_NOPARENS_def SSF_ATTRIB_def SSF_QUOTE_MASK_def

definition has :: "u32 \<Rightarrow> u32 \<Rightarrow> bool" where
  "has flags f \<longleftrightarrow> flags AND f \<noteq> 0"

abbreviation (input) SQUOTE :: char where "SQUOTE \<equiv> CHR 0x27"
abbreviation (input) DQUOTE :: char where "DQUOTE \<equiv> CHR 0x22"
abbreviation (input) BSLASH :: char where "BSLASH \<equiv> CHR 0x5c"
abbreviation (input) NEWLINE :: char where "NEWLINE \<equiv> CHR 0x0a"
abbreviation (input) CRETURN :: char where "CRETURN \<equiv> CHR 0x0d"
abbreviation (input) TAB :: char where "TAB \<equiv> CHR 0x09"

definition slaxEscapedFrom :: string where "slaxEscapedFrom = [TAB, NEWLINE, CRETURN, BSLASH]"
definition slaxEscapedTo :: string where "slaxEscapedTo = [CHR ''t'', CHR ''n'', CHR ''r'', BSLASH]"

text \<open>Which quotes a text has; both of them end the search.\<close>

fun qflags_loop :: "string \<Rightarrow> char option \<Rightarrow> u32 \<Rightarrow> u32" where
  "qflags_loop [] quote rc = rc"
| "qflags_loop (c # cs) quote rc =
     (if c = SQUOTE \<or> c = DQUOTE then
        if quote \<noteq> None \<and> quote \<noteq> Some c then SSF_SINGLEQ OR SSF_DOUBLEQ OR SSF_BOTHQS
        else qflags_loop cs (Some c) (rc OR (if c = SQUOTE then SSF_SINGLEQ else SSF_DOUBLEQ))
      else qflags_loop cs quote rc)"

definition slaxStringQFlags :: "string \<Rightarrow> u32" where
  "slaxStringQFlags token = qflags_loop token None 0"

text \<open>A segment for a text, which ends at its first NUL.\<close>

definition c_string :: "string \<Rightarrow> string" where
  "c_string s = takeWhile (\<lambda>c. c \<noteq> NUL) s"

definition segment :: "string \<Rightarrow> ttype \<Rightarrow> slax_string" where
  "segment str ttype = \<lparr>ss_ttype = ttype, ss_flags = slaxStringQFlags (c_string str),
     ss_token = c_string str\<rparr>"

section \<open>The value of a token\<close>

definition slaxHex :: "char \<Rightarrow> int" where
  "slaxHex x =
     (let n = of_char x :: int in
      if 48 \<le> n \<and> n \<le> 57 then n - 48
      else if 97 \<le> n \<and> n \<le> 102 then n - 97 + 10
      else if 65 \<le> n \<and> n \<le> 70 then n - 65 + 10
      else -1)"

definition SLAX_UTF_INVALID_NUMBER :: nat where "SLAX_UTF_INVALID_NUMBER = 0xfffd"
definition SLAX_UTF_WIDTH4 :: nat where "SLAX_UTF_WIDTH4 = 4"
definition SLAX_UTF_WIDTH6 :: nat where "SLAX_UTF_WIDTH6 = 6"

definition rd_hex :: "slax_data \<Rightarrow> nat \<Rightarrow> int option" where
  "rd_hex sdp i = map_option slaxHex (rd sdp i)"

definition slaxUtfWord :: "slax_data \<Rightarrow> nat \<Rightarrow> nat \<Rightarrow> nat option" where
  "slaxUtfWord sdp cp width = do {
     v1 \<leftarrow> rd_hex sdp cp;
     v2 \<leftarrow> rd_hex sdp (cp + 1);
     v3 \<leftarrow> rd_hex sdp (cp + 2);
     v4 \<leftarrow> rd_hex sdp (cp + 3);
     if v1 < 0 \<or> v2 < 0 \<or> v3 < 0 \<or> v4 < 0 then Some SLAX_UTF_INVALID_NUMBER
     else do {
       let val = nat (((v1 * 16 + v2) * 16 + v3) * 16 + v4);
       if width = SLAX_UTF_WIDTH6 then do {
         v5 \<leftarrow> rd_hex sdp (cp + 4);
         v6 \<leftarrow> rd_hex sdp (cp + 5);
         Some (if v5 < 0 \<or> v6 < 0 then SLAX_UTF_INVALID_NUMBER else (val * 16 + nat v5) * 16 + nat v6)
       }
       else Some val
     }
   }"

text \<open>The bytes of a character number.\<close>

definition utf_bytes :: "nat \<Rightarrow> string" where
  "utf_bytes w =
     map char_of
      (if w \<le> 0x7f then [w]
       else if w \<le> 0x7ff then [0xc0 OR (drop_bit 6 w AND 0x1f), 0x80 OR (w AND 0x3f)]
       else if w \<le> 0xffff then [0xe0 OR drop_bit 12 w, 0x80 OR (drop_bit 6 w AND 0x3f), 0x80 OR (w AND 0x3f)]
       else [0xf0 OR (drop_bit 18 w AND 0x7), 0x80 OR (drop_bit 12 w AND 0x3f), 0x80 OR (drop_bit 6 w AND 0x3f),
         0x80 OR (w AND 0x3f)])"

text \<open>An escape, \<open>ch\<close> being the character at \<open>i\<close> after the backslash: the bytes it stands for and the last
  position it takes.\<close>

definition create_escape :: "slax_data \<Rightarrow> nat \<Rightarrow> nat \<Rightarrow> nat \<Rightarrow> char \<Rightarrow> (string \<times> nat) option" where
  "create_escape sdp start len i ch =
     (if ch = CHR ''n'' then Some ([NEWLINE], i)
      else if ch = CHR ''r'' then Some ([CRETURN], i)
      else if ch = CHR ''t'' then Some ([TAB], i)
      else if ch = CHR ''x'' then do {
        v1 \<leftarrow> rd_hex sdp (start + i + 1);
        v2 \<leftarrow> rd_hex sdp (start + i + 2);
        let v = nat (v1 * 16 + v2);
        Some (if v1 \<ge> 0 \<and> v2 \<ge> 0 then
          if v > 0x7f then [char_of (0xc0 OR drop_bit 6 v), char_of (0x80 OR (v AND 0x3f))] else [char_of v]
          else [ch], i + 2)
      }
      else if ch = CHR ''u'' then do {
        c \<leftarrow> rd sdp (start + i + 1);
        let left = int len - int (i + 1);
        let width = (if c = CHR ''+'' \<and> left \<ge> int SLAX_UTF_WIDTH4 then SLAX_UTF_WIDTH4
          else if c = CHR ''-'' \<and> left \<ge> int SLAX_UTF_WIDTH6 then SLAX_UTF_WIDTH6 else 0);
        if width = 0 then Some ([CHR ''u''], i)
        else do {
          word \<leftarrow> slaxUtfWord sdp (start + i + 2) width;
          Some (utf_bytes word, i + 1 + width + 1)
        }
      }
      else Some ([ch], i))"

lemma create_escape_moves: "create_escape sdp start len i ch = Some (bytes, j) \<Longrightarrow> i \<le> j"
  by (auto simp: create_escape_def Let_def split: if_splits bind_splits)

text \<open>The text between the quotes; it also answers whether a backslash ends it.\<close>

function create_quoted :: "slax_data \<Rightarrow> nat \<Rightarrow> nat \<Rightarrow> nat \<Rightarrow> string \<Rightarrow> (string \<times> bool) option" where
  "create_quoted sdp start len i out =
     (if i < len then do {
        ch \<leftarrow> rd sdp (start + i);
        if ch = BSLASH \<and> \<not> slaxParseIsXpath sdp then
          if i = len - 1 then Some (out, True)
          else do {
            ch \<leftarrow> rd sdp (start + i + 1);
            (bytes, j) \<leftarrow> create_escape sdp start len (i + 1) ch;
            create_quoted sdp start len (j + 1) (out @ bytes)
          }
        else create_quoted sdp start len (i + 1) (out @ [ch])
      }
      else Some (out, False))"
  by pat_completeness auto
termination
  by (relation "measure (\<lambda>(sdp, start, len, i, out). len - i)") (auto dest!: create_escape_moves)

declare create_quoted.simps [simp del]

text \<open>The segment of a token, null for a semicolon or without memory. A hexadecimal number is
  turned into a decimal one; a trailing backslash is an error.\<close>

definition slaxStringCreate :: "slax_data \<Rightarrow> ttype \<Rightarrow> (slax_string option \<times> slax_data) option" where
  "slaxStringCreate sdp ttype =
     (if ttype = L_EOS then Some (None, sdp)
      else do {
        let len = int (sd_cur sdp) - int (sd_start sdp);
        let start = sd_start sdp;
        if len < 0 then None
        else if ttype = T_QUOTED then
          if len < 2 then None
          else if \<not> sd_mem sdp (24 + nat len - 2 + 1) then Some (None, sdp)
          else do {
            (out, trailing) \<leftarrow> create_quoted sdp (start + 1) (nat len - 2) 0 [];
            Some (Some (segment out ttype),
              if trailing then sdp\<lparr>sd_errors := sd_errors sdp + 1\<rparr> else sdp)
          }
        else do {
          txt \<leftarrow> rd_text sdp start (nat len);
          let txt = (if ttype = T_NUMBER \<and> take 2 txt = ''0x'' then print_base 10 (c_strtoul (c_string txt) 16) else txt);
          if \<not> sd_mem sdp (24 + length txt + 1) then Some (None, sdp)
          else Some (Some (segment txt ttype), sdp)
        }
      })"

definition slaxStringLiteral :: "(nat \<Rightarrow> bool) \<Rightarrow> string \<Rightarrow> ttype \<Rightarrow> slax_string option" where
  "slaxStringLiteral mem str ttype = (if mem (24 + length str + 1) then Some (segment str ttype) else None)"

end
