(* ===== verification/Slaxcopy.thy ===== *)
theory Slaxcopy
  imports Slaxstring
begin

text \<open>
  Building one text out of a list of segments (\<^verbatim>\<open>libslax/slaxstring.c\<close>). The bytes written to a buffer so far are a
  list; \<open>None\<close> is a write outside of the buffer. A second buffer of the same size can take a mark at every place
  that is good for a line break. Lengths are \<^verbatim>\<open>int\<close> in C and numbers without a bound here, which is the same
  for texts below 2 GB.
\<close>

section \<open>Measuring segments\<close>

fun length_parens :: "bool \<Rightarrow> bool \<Rightarrow> int \<Rightarrow> slax_string list \<Rightarrow> bool" where
  "length_parens first so_far depth [] = False"
| "length_parens first so_far depth (ssp # rest) =
     (let so_far = (if first then ss_ttype ssp = L_OPAREN else so_far);
          depth = (if ss_ttype ssp = L_OPAREN then depth + 1
                   else if ss_ttype ssp = L_CPAREN then depth - 1 else depth);
          so_far = (if ss_ttype ssp = L_CPAREN \<and> depth = 0 \<and> rest \<noteq> [] then False else so_far)
      in if rest = [] then so_far \<and> ss_ttype ssp = L_CPAREN
         else length_parens False so_far depth rest)"

definition char_count :: "string \<Rightarrow> string \<Rightarrow> nat" where
  "char_count cs s = length (filter (\<lambda>c. c \<in> set cs) s)"

definition segment_length :: "u32 \<Rightarrow> slax_string \<Rightarrow> nat" where
  "segment_length flags ssp =
     length (ss_token ssp)
     + (if ss_ttype ssp \<noteq> T_AXIS_NAME \<and> ss_ttype ssp \<noteq> L_DCOLON then 1 else 0)
     + (if ss_ttype ssp = T_QUOTED then
          (if has flags SSF_QUOTES then 2 + char_count [DQUOTE] (ss_token ssp) else 0)
          + (if has flags SSF_BRACES then char_count ''{}'' (ss_token ssp) else 0)
          + (if has flags SSF_ESCAPE then char_count slaxEscapedFrom (ss_token ssp) else 0)
        else if ss_ttype ssp = T_VAR \<and> has flags SSF_XPATH then 2 else 0)"

text \<open>The room a string takes, and whether parentheses enclose all of it when that is asked for.\<close>

definition slaxStringLengthCheck :: "slax_string list \<Rightarrow> u32 \<Rightarrow> bool \<Rightarrow> nat \<times> bool" where
  "slaxStringLengthCheck start flags check =
     (sum_list (map (segment_length flags) start) + 1, check \<and> length_parens True False 0 start)"

definition slaxStringLength :: "slax_string list \<Rightarrow> u32 \<Rightarrow> nat" where
  "slaxStringLength start flags = fst (slaxStringLengthCheck start flags False)"

section \<open>Spaces\<close>

definition slaxStringNoSpace :: "ttype \<Rightarrow> bool" where
  "slaxStringNoSpace t \<longleftrightarrow> t = L_AT \<or> t = L_SLASH \<or> t = L_DSLASH \<or> t = L_OPAREN \<or> t = L_CPAREN
     \<or> t = L_OBRACK \<or> t = L_CBRACK"

text \<open>Whether the space before a segment goes, given the bytes written up to it.\<close>

definition slaxStringTrimSpace :: "slax_string \<Rightarrow> ttype \<Rightarrow> string \<Rightarrow> bool" where
  "slaxStringTrimSpace ssp before out =
     (let this = ss_ttype ssp;
          comma = (\<not> (before = L_UNDERSCORE \<or> this = L_UNDERSCORE) \<and> this = L_COMMA);
          trim =
            (if before = L_UNDERSCORE \<or> this = L_UNDERSCORE then False
             else if this = L_COMMA then True
             else if (before = L_PLUS \<or> before = L_MINUS \<or> before = L_STAR \<or> before = L_UNDERSCORE
                 \<or> before = L_QUESTION \<or> before = L_COLON) \<and> this = L_OPAREN then False
             else if before = L_CBRACK \<and> this = L_OBRACK then True
             else if before = L_QUESTION \<and> this = L_COLON then True
             else if slaxStringNoSpace before \<or> slaxStringNoSpace this then
               2 \<le> length out \<and> out ! (length out - 2) \<noteq> CHR '',''
             else if before = T_NUMBER \<and> this = L_DOT then True
             else if before = L_DOT \<and> this = T_NUMBER then True
             else length out = 2 \<and> out ! 0 = CHR ''-'')
      in if (before = L_CPAREN \<or> before = L_CBRACK)
            \<and> \<not> (this = L_CPAREN \<or> this = L_CBRACK \<or> this = L_OBRACK \<or> this = L_SLASH \<or> this = L_DSLASH)
         then comma else trim)"

section \<open>Marks\<close>

text \<open>The buffer of the marks and the position in it, when there is one.\<close>

type_synonym marks = "(string \<times> nat) option"

definition slaxStringMark :: "marks \<Rightarrow> char \<Rightarrow> int \<Rightarrow> bool \<Rightarrow> marks option" where
  "slaxStringMark mp markp count pre = (case mp of
      None \<Rightarrow> Some None
    | Some (buf, pos) \<Rightarrow>
        let after = int pos + count; at = (if pre then int pos else after - 1);
            write = (markp \<noteq> NUL \<and> (pre \<or> count > 0)) in
        if after < 0 \<or> write \<and> \<not> (0 \<le> at \<and> at < int (length buf)) then None
        else Some (Some (if write then buf[nat at := markp] else buf, nat after)))"

text \<open>The mark of a plain segment, and whether it goes to its front.\<close>

definition plain_mark :: "u32 \<Rightarrow> slax_string \<Rightarrow> ttype \<Rightarrow> char \<times> bool" where
  "plain_mark flags ssp before =
     (let t = ss_ttype ssp; c = (case ss_token ssp of [] \<Rightarrow> NUL | d # _ \<Rightarrow> d) in
      if t = L_SLASH then (CHR ''/'', False)
      else if has flags SSF_ATTRIB \<and> t = L_EQUALS then (NUL, False)
      else if t = L_DCOLON \<or> t = L_DAMPER \<or> t = L_DEQUALS \<or> t = L_DOTDOT \<or> t = L_DSLASH \<or> t = L_DVBAR
        \<or> t = L_GRTREQ \<or> t = L_LESSEQ \<or> t = L_NOTEQUALS then (NUL, True)
      else if \<not> (t = L_CPAREN \<or> t = L_CBRACK) \<and> (before = L_CPAREN \<or> before = L_CBRACK) then (c, False)
      else if t = L_COMMA \<or> t = L_UNDERSCORE then (c, False)
      else (NUL, False))"

definition mark_plain :: "u32 \<Rightarrow> slax_string \<Rightarrow> ttype \<Rightarrow> marks \<Rightarrow> marks option" where
  "mark_plain flags ssp before mp =
     (if mp = None then Some None
      else do {
        let (markp, frontp) = plain_mark flags ssp before;
        let c = (case ss_token ssp of [] \<Rightarrow> NUL | d # _ \<Rightarrow> d);
        mp \<leftarrow> (if frontp then slaxStringMark mp c 1 True else Some mp);
        mp \<leftarrow> slaxStringMark mp markp (int (length (ss_token ssp)) - (if frontp then 1 else 0)) True;
        Some (if ss_ttype ssp = L_CPAREN \<or> ss_ttype ssp = L_CBRACK then
            map_option (\<lambda>(buf, pos). (if 0 < pos \<and> pos - 1 < length buf \<and> buf ! (pos - 1) = CHR ''x''
              then buf[pos - 1 := CHR '' ''] else buf, pos)) mp
          else mp)
      })"

section \<open>Copying\<close>

record copy_state =
  cp_out :: string
  cp_marks :: marks
  cp_len :: nat
  cp_last :: ttype

definition cp_put :: "nat \<Rightarrow> copy_state \<Rightarrow> string \<Rightarrow> copy_state option" where
  "cp_put bufsiz cs s =
     (if length (cp_out cs) + length s \<le> bufsiz then Some (cs\<lparr>cp_out := cp_out cs @ s\<rparr>) else None)"

definition cp_mark :: "copy_state \<Rightarrow> char \<Rightarrow> int \<Rightarrow> bool \<Rightarrow> copy_state option" where
  "cp_mark cs markp count pre = do {
     mp \<leftarrow> slaxStringMark (cp_marks cs) markp count pre;
     Some (cs\<lparr>cp_marks := mp\<rparr>)
   }"

text \<open>The text of a quoted segment with the characters of \<^verbatim>\<open>slaxEscapedFrom\<close> escaped; without room left
  such a character is dropped.\<close>

definition escape_char :: "char \<Rightarrow> char option" where
  "escape_char c = map_of (zip slaxEscapedFrom slaxEscapedTo) c"

fun copy_escaped :: "nat \<Rightarrow> string \<Rightarrow> copy_state \<Rightarrow> copy_state option" where
  "copy_escaped bufsiz [] cs = Some cs"
| "copy_escaped bufsiz (c # str) cs =
     (case escape_char c of
        Some e \<Rightarrow>
          let cs = cs\<lparr>cp_len := cp_len cs + 1\<rparr> in
          if cp_len cs < bufsiz then do {
            cs \<leftarrow> cp_put bufsiz cs [BSLASH, e];
            cs \<leftarrow> cp_mark cs NUL 2 False;
            copy_escaped bufsiz str cs
          }
          else copy_escaped bufsiz str cs
      | None \<Rightarrow> do {
          cs \<leftarrow> cp_put bufsiz cs [c];
          cs \<leftarrow> cp_mark cs NUL 1 False;
          copy_escaped bufsiz str cs
        })"

fun copy_braces :: "nat \<Rightarrow> string \<Rightarrow> copy_state \<Rightarrow> copy_state option" where
  "copy_braces bufsiz [] cs = Some cs"
| "copy_braces bufsiz (c # str) cs = do {
     cs \<leftarrow> cp_put bufsiz cs [c];
     cs \<leftarrow> cp_mark cs NUL 1 False;
     cs \<leftarrow> (if c = CHR ''{'' \<or> c = CHR ''}'' then do {
         cs \<leftarrow> cp_put bufsiz cs [c];
         cs \<leftarrow> cp_mark cs NUL 1 False;
         Some (cs\<lparr>cp_len := cp_len cs + 1\<rparr>)
       } else Some cs);
     copy_braces bufsiz str cs
   }"

definition quote_of :: "string \<Rightarrow> char" where
  "quote_of str = (if DQUOTE \<in> set str \<and> SQUOTE \<notin> set str then SQUOTE else DQUOTE)"

text \<open>One segment, written after the space before it has been dealt with.\<close>

definition copy_text :: "nat \<Rightarrow> u32 \<Rightarrow> slax_string \<Rightarrow> copy_state \<Rightarrow> copy_state option" where
  "copy_text bufsiz flags ssp cs =
     (let str = ss_token ssp; t = ss_ttype ssp in
      if has flags SSF_QUOTES \<and> t = T_QUOTED then do {
        cs \<leftarrow> cp_put bufsiz cs [quote_of str];
        cs \<leftarrow> cp_mark cs NUL 1 False;
        cs \<leftarrow> (if has flags SSF_ESCAPE then copy_escaped bufsiz str cs
          else do { cs \<leftarrow> cp_put bufsiz cs str; cp_mark cs NUL (int (length str)) False });
        cs \<leftarrow> cp_put bufsiz cs [quote_of str];
        cp_mark cs NUL 1 False
      }
      else if has flags SSF_BRACES \<and> t = T_QUOTED then copy_braces bufsiz str cs
      else if t = T_VAR \<and> has flags SSF_XPATH then do {
        cs \<leftarrow> cp_put bufsiz cs (''{'' @ str @ ''}'');
        cp_mark (cs\<lparr>cp_len := cp_len cs + 2\<rparr>) NUL (2 + int (length str)) False
      }
      else do {
        cs \<leftarrow> cp_put bufsiz cs str;
        mp \<leftarrow> mark_plain flags ssp (cp_last cs) (cp_marks cs);
        Some (cs\<lparr>cp_marks := mp\<rparr>)
      })"

text \<open>A segment; \<open>Inl\<close> ends the loop for want of room.\<close>

definition copy_segment :: "nat \<Rightarrow> u32 \<Rightarrow> slax_string \<Rightarrow> copy_state \<Rightarrow> (copy_state + copy_state) option" where
  "copy_segment bufsiz flags ssp cs =
     (let t = ss_ttype ssp;
          cs = cs\<lparr>cp_len := cp_len cs + length (ss_token ssp) + 1
            + (if has flags SSF_QUOTES \<and> t = T_QUOTED then 2 else 0)\<rparr> in
      if cp_len cs > bufsiz then Some (Inl cs)
      else do {
        cs \<leftarrow> (if 2 \<le> length (cp_out cs) \<and> last (cp_out cs) = CHR '' ''
              \<and> slaxStringTrimSpace ssp (cp_last cs) (cp_out cs)
            then do {
              cs \<leftarrow> cp_mark (cs\<lparr>cp_out := butlast (cp_out cs)\<rparr>) NUL (- 1) False;
              Some (cs\<lparr>cp_len := cp_len cs - 1\<rparr>)
            }
            else Some cs);
        cs \<leftarrow> copy_text bufsiz flags ssp cs;
        cs \<leftarrow> (if t = T_AXIS_NAME \<or> t = L_DCOLON then Some (cs\<lparr>cp_len := cp_len cs - 1\<rparr>)
          else do { cs \<leftarrow> cp_put bufsiz cs '' ''; cp_mark cs NUL 1 False });
        Some (Inr (cs\<lparr>cp_last := t\<rparr>))
      })"

text \<open>The segments; without the parentheses around all of them when that is asked for.\<close>

fun copy_loop :: "nat \<Rightarrow> u32 \<Rightarrow> bool \<Rightarrow> slax_string list \<Rightarrow> copy_state \<Rightarrow> copy_state option" where
  "copy_loop bufsiz flags first [] cs = Some cs"
| "copy_loop bufsiz flags first (ssp # rest) cs =
     (if has flags SSF_NOPARENS \<and>
         (if first then ss_ttype ssp = L_OPAREN else rest = [] \<and> ss_ttype ssp = L_CPAREN)
      then copy_loop bufsiz flags False rest cs
      else do {
        r \<leftarrow> copy_segment bufsiz flags ssp cs;
        case r of Inl cs \<Rightarrow> Some cs | Inr cs \<Rightarrow> copy_loop bufsiz flags False rest cs
      })"

text \<open>
  The result is the text in the buffer, null when the buffer is left without a terminating NUL or with bytes never
  written before it, the marks, and the length returned.
\<close>

definition slaxStringCopyMarked :: "nat \<Rightarrow> string option \<Rightarrow> slax_string list \<Rightarrow> u32
    \<Rightarrow> (string option \<times> string option \<times> nat) option" where
  "slaxStringCopyMarked bufsiz marks start flags = do {
     marks \<leftarrow> (case marks of
         None \<Rightarrow> Some None
       | Some m \<Rightarrow> if bufsiz = 0 \<or> length m < bufsiz then None
           else Some (Some (replicate (bufsiz - 1) CHR '' '' @ [NUL] @ drop bufsiz m, 0)));
     cs \<leftarrow> copy_loop bufsiz flags True start
       \<lparr>cp_out = [], cp_marks = marks, cp_len = 0, cp_last = 0\<rparr>;
     if cp_len cs = 0 then Some (None, map_option fst (cp_marks cs), 0)
     else if bufsiz = 0 then None
     else
       let n = (if cp_len cs < bufsiz then cp_len cs - 1 else bufsiz - 1) in
       Some (if n \<le> length (cp_out cs) then Some (take n (cp_out cs)) else None,
         map_option (\<lambda>(m, _). m[n := NUL]) (cp_marks cs), n)
   }"

definition slaxStringCopy :: "nat \<Rightarrow> slax_string list \<Rightarrow> u32 \<Rightarrow> (string option \<times> nat) option" where
  "slaxStringCopy bufsiz start flags = do {
     (out, _, n) \<leftarrow> slaxStringCopyMarked bufsiz None start flags;
     Some (out, n)
   }"

text \<open>The text of a string: no memory, or the buffer as above.\<close>

definition slaxStringAsChar :: "(nat \<Rightarrow> bool) \<Rightarrow> slax_string list \<Rightarrow> u32 \<Rightarrow> string option option option" where
  "slaxStringAsChar mem value flags = do {
     let (len, has_parens) = slaxStringLengthCheck value flags (has flags SSF_NOPARENS);
     let flags = (if \<not> has_parens then flags AND NOT SSF_NOPARENS else flags);
     if \<not> mem (len + 1) then Some None
     else do {
       (out, _) \<leftarrow> slaxStringCopy len value flags;
       Some (Some out)
     }
   }"

end
