(* ===== verification/Slaxheap.thy ===== *)
theory Slaxheap
  imports Slaxcopy
begin

text \<open>
  Linked strings (\<^verbatim>\<open>libslax/slaxstring.c\<close>): the segments are cells of a heap, linked by \<^verbatim>\<open>ss_next\<close>, and the markers of
  a concatenation by \<^verbatim>\<open>ss_concat\<close>. The parser's actions link, fuse, rewrite and free them in place. \<open>None\<close> is an
  access through a null pointer or to freed memory, or a loop that does not end.
\<close>

section \<open>The heap\<close>

record slax_cell =
  ss_next :: nat
  ss_concat :: nat
  ss_seg :: slax_string

text \<open>Allocation takes a new address; a field that is not initialised holds \<open>h_fresh\<close>. The counter is the one of the
  ternary operators.\<close>

record slax_heap =
  h_cell :: "nat \<rightharpoonup> slax_cell"
  h_brk :: nat
  h_mem :: "nat \<Rightarrow> bool"
  h_fresh :: nat
  h_varnumber :: u32

definition cell :: "slax_heap \<Rightarrow> nat \<Rightarrow> slax_cell option" where
  "cell h a = (if a = 0 then None else h_cell h a)"

definition set_cell :: "slax_heap \<Rightarrow> nat \<Rightarrow> slax_cell \<Rightarrow> slax_heap" where
  "set_cell h a c = h\<lparr>h_cell := (h_cell h)(a \<mapsto> c)\<rparr>"

definition set_next :: "slax_heap \<Rightarrow> nat \<Rightarrow> nat \<Rightarrow> slax_heap option" where
  "set_next h a b = do { c \<leftarrow> cell h a; Some (set_cell h a (c\<lparr>ss_next := b\<rparr>)) }"

definition set_concat :: "slax_heap \<Rightarrow> nat \<Rightarrow> nat \<Rightarrow> slax_heap option" where
  "set_concat h a b = do { c \<leftarrow> cell h a; Some (set_cell h a (c\<lparr>ss_concat := b\<rparr>)) }"

definition set_seg :: "slax_heap \<Rightarrow> nat \<Rightarrow> slax_string \<Rightarrow> slax_heap option" where
  "set_seg h a ssp = do { c \<leftarrow> cell h a; Some (set_cell h a (c\<lparr>ss_seg := ssp\<rparr>)) }"

text \<open>The first character of a text; that of an empty text is its terminating NUL.\<close>

definition set_first :: "slax_string \<Rightarrow> char \<Rightarrow> ttype \<Rightarrow> slax_string option" where
  "set_first ssp c t = (case ss_token ssp of [] \<Rightarrow> None | _ # cs \<Rightarrow> Some (ssp\<lparr>ss_token := c # cs, ss_ttype := t\<rparr>))"

text \<open>A new cell; the null pointer without memory.\<close>

definition new_cell :: "slax_heap \<Rightarrow> slax_string \<Rightarrow> nat \<Rightarrow> nat \<times> slax_heap" where
  "new_cell h ssp link =
     (h_brk h, h\<lparr>h_cell := (h_cell h)(h_brk h \<mapsto> \<lparr>ss_next = 0, ss_concat = link, ss_seg = ssp\<rparr>), h_brk := Suc (h_brk h)\<rparr>)"

definition string_literal :: "slax_heap \<Rightarrow> string \<Rightarrow> ttype \<Rightarrow> nat \<times> slax_heap" where
  "string_literal h str ttype = (case slaxStringLiteral (h_mem h) str ttype of
     None \<Rightarrow> (0, h)
   | Some ssp \<Rightarrow> new_cell h ssp 0)"

section \<open>Walking\<close>

text \<open>The last cell of a list that is not empty.\<close>

partial_function (option) list_end :: "slax_heap \<Rightarrow> nat \<Rightarrow> nat option" where
  "list_end h a = do {
     c \<leftarrow> cell h a;
     if ss_next c = 0 then Some a else list_end h (ss_next c)
   }"

partial_function (option) segments :: "slax_heap \<Rightarrow> nat \<Rightarrow> slax_string list option" where
  "segments h a =
     (if a = 0 then Some []
      else do {
        c \<leftarrow> cell h a;
        rest \<leftarrow> segments h (ss_next c);
        Some (ss_seg c # rest)
      })"

partial_function (option) slaxStringSkipToMarker :: "slax_heap \<Rightarrow> nat \<Rightarrow> nat \<Rightarrow> nat option" where
  "slaxStringSkipToMarker h a marker =
     (if a = 0 then Some 0
      else do {
        c \<leftarrow> cell h a;
        if ss_next c = marker then Some a else slaxStringSkipToMarker h (ss_next c) marker
      })"

partial_function (option) slaxNeedsSlaxNs :: "slax_heap \<Rightarrow> nat \<Rightarrow> bool option" where
  "slaxNeedsSlaxNs h a =
     (if a = 0 then Some False
      else do {
        c \<leftarrow> cell h a;
        if has (ss_flags (ss_seg c)) SSF_SLAXNS then Some True else slaxNeedsSlaxNs h (ss_next c)
      })"

partial_function (option) slaxStringFree :: "slax_heap \<Rightarrow> nat \<Rightarrow> slax_heap option" where
  "slaxStringFree h a =
     (if a = 0 then Some h
      else do {
        c \<leftarrow> cell h a;
        slaxStringFree (h\<lparr>h_cell := (h_cell h)(a := None)\<rparr>) (ss_next c)
      })"

definition slaxStringIsSimple :: "slax_heap \<Rightarrow> nat \<Rightarrow> ttype \<Rightarrow> bool option" where
  "slaxStringIsSimple h a t =
     (if a = 0 then Some False else do { c \<leftarrow> cell h a; Some (ss_ttype (ss_seg c) = t \<and> ss_next c = 0) })"

definition slaxStringIsSimple2 :: "slax_heap \<Rightarrow> nat \<Rightarrow> ttype \<Rightarrow> ttype \<Rightarrow> bool option" where
  "slaxStringIsSimple2 h a t u =
     (if a = 0 then Some False
      else do { c \<leftarrow> cell h a; Some ((ss_ttype (ss_seg c) = t \<or> ss_ttype (ss_seg c) = u) \<and> ss_next c = 0) })"

section \<open>Linking\<close>

text \<open>The strings of a piece of the parser's stack become one. The place of the next link is a cell, or the variable of
  the result.\<close>

fun link_stack :: "slax_heap \<Rightarrow> nat option \<Rightarrow> nat \<Rightarrow> nat list \<Rightarrow> (nat \<times> slax_heap) option" where
  "link_stack h place results [] =
     (case place of None \<Rightarrow> Some (0, h) | Some a \<Rightarrow> do { h \<leftarrow> set_next h a 0; Some (results, h) })"
| "link_stack h place results (ssp # stack) =
     (if ssp = 0 then link_stack h place results stack
      else do {
        h \<leftarrow> (case place of None \<Rightarrow> Some h | Some a \<Rightarrow> set_next h a ssp);
        e \<leftarrow> list_end h ssp;
        link_stack h (Some e) (if place = None then ssp else results) stack
      })"

text \<open>It answers the cleared stack as well.\<close>

definition slaxStringLink :: "slax_heap \<Rightarrow> nat list \<Rightarrow> (nat \<times> nat list \<times> slax_heap) option" where
  "slaxStringLink h stack = do {
     (results, h) \<leftarrow> link_stack h None 0 stack;
     Some (results, map (\<lambda>_. 0) stack, h)
   }"

text \<open>Adding at the end: the place of the end is 0 for the variable \<open>first\<close>, else a cell. It answers whether there is
  no memory.\<close>

definition slaxStringAddTailHelper ::
  "slax_heap \<Rightarrow> nat \<Rightarrow> nat \<Rightarrow> string \<Rightarrow> nat \<Rightarrow> ttype \<Rightarrow> (bool \<times> nat \<times> nat \<times> slax_heap) option" where
  "slaxStringAddTailHelper h first tail buf bufsiz ttype =
     (if \<not> h_mem h (24 + bufsiz + 1) then Some (True, first, tail, h)
      else do {
        let (ssp, h) = new_cell h (segment (take bufsiz buf) ttype) (h_fresh h);
        h \<leftarrow> (if tail = 0 then Some h else set_next h tail ssp);
        Some (False, if tail = 0 then ssp else first, ssp, h)
      })"

definition slaxStringAddTail ::
  "slax_heap \<Rightarrow> nat \<Rightarrow> nat \<Rightarrow> string \<Rightarrow> nat \<Rightarrow> ttype \<Rightarrow> (bool \<times> nat \<times> nat \<times> slax_heap) option" where
  "slaxStringAddTail h first tail buf bufsiz ttype = do {
     (failed, first', tail, h) \<leftarrow>
       (if first \<noteq> 0 then slaxStringAddTailHelper h first tail ''_'' 1 L_UNDERSCORE else Some (False, first, tail, h));
     if failed then Some (True, first', tail, h) else slaxStringAddTailHelper h first' tail buf bufsiz ttype
   }"

section \<open>Concatenation\<close>

definition slaxStringFuse :: "slax_heap \<Rightarrow> nat \<Rightarrow> (nat \<times> slax_heap) option" where
  "slaxStringFuse h a = do {
     segs \<leftarrow> segments h a;
     let token = List.concat (map ss_token segs);
     if token = [] then Some (0, h)
     else if \<not> h_mem h (24 + length token + 1) then Some (0, h)
     else Some (new_cell h (segment token (ss_ttype (hd segs))) (h_fresh h))
   }"

text \<open>The first underscore of an expression: a call of \<^verbatim>\<open>concat\<close> is built around both operands. The underscore becomes
  the closing parenthesis, which is done already.\<close>

definition concat_first :: "slax_heap \<Rightarrow> nat \<Rightarrow> nat \<Rightarrow> nat \<Rightarrow> (nat \<times> slax_heap) option" where
  "concat_first h left op right = do {
     let (conp, h) = string_literal h ''concat'' M_CONCAT;
     let (openp, h) = string_literal h ''('' L_OPAREN;
     let (commap, h) = string_literal h '','' L_COMMA;
     if conp \<noteq> 0 \<and> openp \<noteq> 0 \<and> commap \<noteq> 0 then do {
       h \<leftarrow> set_next h conp openp;
       h \<leftarrow> set_next h openp left;
       e \<leftarrow> list_end h left;
       h \<leftarrow> set_next h e commap;
       h \<leftarrow> set_concat h conp commap;
       h \<leftarrow> set_next h commap right;
       e \<leftarrow> list_end h right;
       h \<leftarrow> set_next h e op;
       h \<leftarrow> set_concat h commap op;
       Some (conp, h)
     }
     else do {
       h \<leftarrow> slaxStringFree h conp;
       h \<leftarrow> slaxStringFree h openp;
       h \<leftarrow> slaxStringFree h commap;
       h \<leftarrow> slaxStringFree h op;
       h \<leftarrow> slaxStringFree h right;
       Some (left, h)
     }
   }"

text \<open>A further underscore: the closing parenthesis of the call becomes a comma, and the right operand goes behind it.\<close>

definition concat_more :: "slax_heap \<Rightarrow> nat \<Rightarrow> nat \<Rightarrow> nat \<Rightarrow> (nat \<times> slax_heap) option" where
  "concat_more h left op right = do {
     commap \<leftarrow> list_end h left;
     c \<leftarrow> cell h commap;
     if ss_ttype (ss_seg c) = L_CPAREN then do {
       ssp \<leftarrow> set_first (ss_seg c) CHR '','' L_COMMA;
       h \<leftarrow> set_seg h commap ssp;
       h \<leftarrow> set_next h commap right;
       e \<leftarrow> list_end h right;
       h \<leftarrow> set_next h e op;
       h \<leftarrow> set_concat h commap op;
       Some (left, h)
     }
     else do {
       h \<leftarrow> slaxStringFree h op;
       h \<leftarrow> slaxStringFree h right;
       Some (left, h)
     }
   }"

definition fusable :: "slax_cell \<Rightarrow> slax_cell \<Rightarrow> bool" where
  "fusable l r \<longleftrightarrow> ss_ttype (ss_seg l) = T_QUOTED \<and> ss_ttype (ss_seg r) = T_QUOTED \<and> ss_next l = 0 \<and> ss_next r = 0
     \<and> ss_flags (ss_seg l) AND SSF_QUOTE_MASK = ss_flags (ss_seg r) AND SSF_QUOTE_MASK"

definition slaxConcatRewrite :: "slax_heap \<Rightarrow> nat \<Rightarrow> nat \<Rightarrow> nat \<Rightarrow> (nat \<times> slax_heap) option" where
  "slaxConcatRewrite h left op right =
     (if left = 0 \<or> op = 0 \<or> right = 0 then Some (left, h)
      else do {
        l \<leftarrow> cell h left;
        r \<leftarrow> cell h right;
        (fused, h) \<leftarrow> (if fusable l r then do { h \<leftarrow> set_next h left right; slaxStringFuse h left } else Some (0, h));
        if fused \<noteq> 0 then do {
          h \<leftarrow> slaxStringFree h left;
          h \<leftarrow> slaxStringFree h op;
          Some (fused, h)
        }
        else do {
          o' \<leftarrow> cell h op;
          ssp \<leftarrow> set_first (ss_seg o') CHR '')'' L_CPAREN;
          h \<leftarrow> set_seg h op ssp;
          if ss_ttype (ss_seg l) \<noteq> M_CONCAT then concat_first h left op right else concat_more h left op right
        }
      })"

section \<open>The ternary operator\<close>

definition slax_ternary_var :: "u32 \<Rightarrow> string" where
  "slax_ternary_var n = ''slax:value($slax-ternary-'' @ print_base 10 (unat n) @ '')''"

definition slaxTernaryRewrite :: "slax_heap \<Rightarrow> nat \<Rightarrow> nat \<Rightarrow> nat \<Rightarrow> nat \<Rightarrow> nat \<Rightarrow> (nat \<times> slax_heap) option" where
  "slaxTernaryRewrite h scond qsp strue csp sfalse = do {
     let h = h\<lparr>h_varnumber := h_varnumber h + 1\<rparr>;
     let varname = slax_ternary_var (h_varnumber h);
     let (tsp, h) = string_literal h varname M_TERNARY;
     let (esp, h) = string_literal h varname M_TERNARY_END;
     if tsp = 0 \<or> qsp = 0 \<or> csp = 0 \<or> esp = 0 then Some (0, h)
     else do {
       t \<leftarrow> cell h tsp;
       h \<leftarrow> set_seg h tsp (ss_seg t\<lparr>ss_flags := ss_flags (ss_seg t) OR SSF_SLAXNS\<rparr>);
       h \<leftarrow> set_next h tsp scond;
       h \<leftarrow> set_concat h tsp qsp;
       h \<leftarrow> set_next h qsp (if strue \<noteq> 0 then strue else csp);
       h \<leftarrow> set_concat h qsp csp;
       h \<leftarrow> set_next h csp sfalse;
       h \<leftarrow> set_concat h csp esp;
       e \<leftarrow> list_end h scond;
       h \<leftarrow> set_next h e qsp;
       h \<leftarrow> (if strue \<noteq> 0 then do { e \<leftarrow> list_end h strue; set_next h e csp } else Some h);
       e \<leftarrow> list_end h sfalse;
       h \<leftarrow> set_next h e esp;
       Some (tsp, h)
     }
   }"

section \<open>Attribute value templates\<close>

text \<open>An expression is put between braces where the attribute is not an XPath expression itself.\<close>

definition vt_braces :: "u32 \<Rightarrow> slax_cell \<Rightarrow> bool" where
  "vt_braces flags c \<longleftrightarrow> ss_ttype (ss_seg c) \<noteq> T_QUOTED \<and> \<not> has flags SSF_XPATH"

definition vt_flags :: "u32 \<Rightarrow> slax_cell \<Rightarrow> u32" where
  "vt_flags flags c = (if vt_braces flags c then flags OR SSF_QUOTES else flags)"

definition vt_part_length :: "u32 \<Rightarrow> slax_heap \<Rightarrow> nat \<Rightarrow> nat option" where
  "vt_part_length flags h ssp = do {
     c \<leftarrow> cell h ssp;
     segs \<leftarrow> segments h ssp;
     Some ((if vt_braces flags c then 2 else 0) + slaxStringLength segs (vt_flags flags c))
   }"

text \<open>Each operand of a concatenation is cut off at its marker for a while.\<close>

partial_function (option) vt_length_loop ::
  "u32 \<Rightarrow> nat \<Rightarrow> nat \<Rightarrow> nat \<Rightarrow> nat \<Rightarrow> slax_heap \<Rightarrow> (nat \<times> slax_heap) option" where
  "vt_length_loop flags ssp marker before len h =
     (if ssp = 0 \<or> before = 0 then Some (len, h)
      else do {
        h \<leftarrow> set_next h before 0;
        n \<leftarrow> vt_part_length flags h ssp;
        h \<leftarrow> set_next h before marker;
        m \<leftarrow> cell h marker;
        if ss_ttype (ss_seg m) = L_CPAREN then Some (len + n, h)
        else do {
          before \<leftarrow> slaxStringSkipToMarker h (ss_next m) (ss_concat m);
          vt_length_loop flags (ss_next m) (ss_concat m) before (len + n) h
        }
      })"

text \<open>The first operand of a concatenation, its marker and the last cell of it.\<close>

definition vt_start :: "slax_heap \<Rightarrow> nat \<Rightarrow> (nat \<times> nat \<times> nat) option" where
  "vt_start h a = do {
     c \<leftarrow> cell h a;
     c' \<leftarrow> cell h (ss_next c);
     before \<leftarrow> slaxStringSkipToMarker h (ss_next c') (ss_concat c);
     Some (ss_next c', ss_concat c, before)
   }"

definition slaxStringValueTemplateLength :: "slax_heap \<Rightarrow> nat \<Rightarrow> u32 \<Rightarrow> (nat \<times> slax_heap) option" where
  "slaxStringValueTemplateLength h a flags = do {
     c \<leftarrow> cell h a;
     if ss_ttype (ss_seg c) = M_CONCAT then do {
       (ssp, marker, before) \<leftarrow> vt_start h a;
       vt_length_loop flags ssp marker before 0 h
     }
     else do { n \<leftarrow> vt_part_length flags h a; Some (n, h) }
   }"

text \<open>The bytes written so far, in a buffer of \<open>room + 1\<close> bytes.\<close>

definition vt_part_copy :: "nat \<Rightarrow> u32 \<Rightarrow> slax_heap \<Rightarrow> nat \<Rightarrow> string \<Rightarrow> string option" where
  "vt_part_copy room flags h ssp out = do {
     c \<leftarrow> cell h ssp;
     out \<leftarrow> (if vt_braces flags c then if length out \<le> room then Some (out @ ''{'') else None else Some out);
     segs \<leftarrow> segments h ssp;
     (txt, n) \<leftarrow> slaxStringCopy (room - length out) segs (vt_flags flags c);
     out \<leftarrow> (case txt of Some s \<Rightarrow> Some (out @ s) | None \<Rightarrow> if n = 0 then Some out else None);
     if vt_braces flags c then if length out \<le> room then Some (out @ ''}'') else None else Some out
   }"

partial_function (option) vt_copy_loop ::
  "nat \<Rightarrow> u32 \<Rightarrow> nat \<Rightarrow> nat \<Rightarrow> nat \<Rightarrow> string \<Rightarrow> slax_heap \<Rightarrow> (string \<times> slax_heap) option" where
  "vt_copy_loop room flags ssp marker before out h =
     (if ssp = 0 \<or> before = 0 then Some (out, h)
      else do {
        h \<leftarrow> set_next h before 0;
        out \<leftarrow> vt_part_copy room flags h ssp out;
        h \<leftarrow> set_next h before marker;
        m \<leftarrow> cell h marker;
        if ss_ttype (ss_seg m) = L_CPAREN then Some (out, h)
        else do {
          before \<leftarrow> slaxStringSkipToMarker h (ss_next m) (ss_concat m);
          vt_copy_loop room flags (ss_next m) (ss_concat m) before out h
        }
      })"

definition slaxStringValueTemplateCopy :: "nat \<Rightarrow> slax_heap \<Rightarrow> nat \<Rightarrow> u32 \<Rightarrow> (string \<times> slax_heap) option" where
  "slaxStringValueTemplateCopy room h a flags = do {
     c \<leftarrow> cell h a;
     (out, h) \<leftarrow> (if ss_ttype (ss_seg c) = M_CONCAT then do {
         (ssp, marker, before) \<leftarrow> vt_start h a;
         vt_copy_loop room flags ssp marker before [] h
       }
       else do { out \<leftarrow> vt_part_copy room flags h a []; Some (out, h) });
     if length out \<le> room then Some (out, h) else None
   }"

text \<open>The result as for \<^verbatim>\<open>slaxStringAsChar\<close>.\<close>

definition slaxStringAsValueTemplate :: "slax_heap \<Rightarrow> nat \<Rightarrow> u32 \<Rightarrow> (string option option \<times> slax_heap) option" where
  "slaxStringAsValueTemplate h a flags = do {
     let flags = flags OR SSF_BRACES;
     simple \<leftarrow> slaxStringIsSimple2 h a T_QUOTED T_NUMBER;
     if simple then do {
       segs \<leftarrow> segments h a;
       txt \<leftarrow> slaxStringAsChar (h_mem h) segs flags;
       Some (txt, h)
     }
     else do {
       (len, h) \<leftarrow> slaxStringValueTemplateLength h a flags;
       if \<not> h_mem h (len + 1) then Some (None, h)
       else do {
         (out, h) \<leftarrow> slaxStringValueTemplateCopy len h a flags;
         Some (Some (Some out), h)
       }
     }
   }"

end
