(* ===== verification/Slaxcopy_Props.thy ===== *)
theory Slaxcopy_Props
  imports Slaxcopy
begin

text \<open>
  Building a text out of segments never runs out of room: the length computed beforehand bounds what is written, with
  the spaces, the quotes, the escapes and the marks. The reference (\<open>render\<close>) has no buffer at all.
\<close>

section \<open>The text without a buffer\<close>

definition escape_text :: "string \<Rightarrow> string" where
  "escape_text str = List.concat (map (\<lambda>c. case escape_char c of Some e \<Rightarrow> [BSLASH, e] | None \<Rightarrow> [c]) str)"

definition double_braces :: "string \<Rightarrow> string" where
  "double_braces str = List.concat (map (\<lambda>c. if c = CHR ''{'' \<or> c = CHR ''}'' then [c, c] else [c]) str)"

definition segment_text :: "u32 \<Rightarrow> slax_string \<Rightarrow> string" where
  "segment_text flags ssp =
     (let str = ss_token ssp; t = ss_ttype ssp in
      if has flags SSF_QUOTES \<and> t = T_QUOTED then
        [quote_of str] @ (if has flags SSF_ESCAPE then escape_text str else str) @ [quote_of str]
      else if has flags SSF_BRACES \<and> t = T_QUOTED then double_braces str
      else if t = T_VAR \<and> has flags SSF_XPATH then ''{'' @ str @ ''}''
      else str)"

definition trimmed :: "ttype \<Rightarrow> slax_string \<Rightarrow> string \<Rightarrow> string" where
  "trimmed before ssp out =
     (if 2 \<le> length out \<and> last out = CHR '' '' \<and> slaxStringTrimSpace ssp before out then butlast out else out)"

definition space_after :: "slax_string \<Rightarrow> string" where
  "space_after ssp = (if ss_ttype ssp = T_AXIS_NAME \<or> ss_ttype ssp = L_DCOLON then [] else '' '')"

fun render :: "u32 \<Rightarrow> ttype \<Rightarrow> string \<Rightarrow> slax_string list \<Rightarrow> string" where
  "render flags before out [] = out"
| "render flags before out (ssp # rest) =
     render flags (ss_ttype ssp) (trimmed before ssp out @ segment_text flags ssp @ space_after ssp) rest"

section \<open>Characters that take two places\<close>

lemma escape_from_iff: "escape_char c \<noteq> None \<longleftrightarrow> c \<in> set slaxEscapedFrom"
  by (auto simp: escape_char_def slaxEscapedFrom_def slaxEscapedTo_def)

lemma escape_text_simps [simp]:
  "escape_text [] = []"
  "escape_text (c # str) = (case escape_char c of Some e \<Rightarrow> [BSLASH, e] | None \<Rightarrow> [c]) @ escape_text str"
  by (simp_all add: escape_text_def)

lemma double_braces_simps [simp]:
  "double_braces [] = []"
  "double_braces (c # str) = (if c = CHR ''{'' \<or> c = CHR ''}'' then [c, c] else [c]) @ double_braces str"
  by (simp_all add: double_braces_def)

lemma char_count_simps [simp]:
  "char_count cs [] = 0"
  "char_count cs (c # str) = (if c \<in> set cs then 1 else 0) + char_count cs str"
  by (simp_all add: char_count_def)

lemma length_escape_text: "length (escape_text str) = length str + char_count slaxEscapedFrom str"
proof (induction str)
  case (Cons c str)
  then show ?case using escape_from_iff [of c] by (cases "escape_char c") auto
qed simp

lemma length_double_braces: "length (double_braces str) = length str + char_count ''{}'' str"
  by (induction str) auto

text \<open>What is written for a segment is at most what was computed for it, but for the space of an axis.\<close>

lemma segment_text_length: "length (segment_text flags ssp @ space_after ssp) \<le> segment_length flags ssp"
  by (simp add: segment_text_def space_after_def segment_length_def Let_def length_escape_text length_double_braces
      ttypes)

section \<open>Marks\<close>

text \<open>The position of the marks goes along with the position in the text.\<close>

definition marks_at :: "nat \<Rightarrow> nat \<Rightarrow> marks \<Rightarrow> bool" where
  "marks_at n pos mp \<longleftrightarrow> (case mp of None \<Rightarrow> True | Some (buf, p) \<Rightarrow> p = pos \<and> length buf = n)"

lemma slaxStringMark_forward:
  "marks_at n pos mp \<Longrightarrow> 0 \<le> k \<Longrightarrow> pos + nat k \<le> n \<Longrightarrow> pre \<longrightarrow> pos < n \<or> c = NUL
    \<Longrightarrow> ok_with (slaxStringMark mp c k pre) (marks_at n (pos + nat k))"
  by (auto simp: marks_at_def slaxStringMark_def Let_def nat_add_distrib split: option.splits)

lemma slaxStringMark_back:
  "marks_at n pos mp \<Longrightarrow> 0 < pos \<Longrightarrow> ok_with (slaxStringMark mp NUL (- 1) False) (marks_at n (pos - 1))"
  by (auto simp: marks_at_def slaxStringMark_def Let_def split: option.splits)

lemma mark_plain_ok:
  assumes m: "marks_at n pos mp" and room: "pos + length (ss_token ssp) < n"
    and front: "snd (plain_mark flags ssp before) \<longrightarrow> ss_token ssp \<noteq> []"
  shows "ok_with (mark_plain flags ssp before mp) (marks_at n (pos + length (ss_token ssp)))"
proof -
  obtain markp frontp where p: "plain_mark flags ssp before = (markp, frontp)" by fastforce
  define k where "k = length (ss_token ssp) - (if frontp then 1 else 0)"
  define c where "c = (case ss_token ssp of [] \<Rightarrow> NUL | d # _ \<Rightarrow> d)"
  have "frontp \<longrightarrow> ss_token ssp \<noteq> []" using front p by simp
  then have k: "int (length (ss_token ssp)) - (if frontp then 1 else 0) = int k"
    and len: "pos + (if frontp then 1 else 0) + k = pos + length (ss_token ssp)"
    by (cases "ss_token ssp"; simp add: k_def)+
  have 1: "ok_with (if frontp then slaxStringMark mp c 1 True else Some mp) (marks_at n (pos + (if frontp then 1 else 0)))"
    using slaxStringMark_forward [OF m, of 1 True c] room m by auto
  then obtain mp1 where mp1: "(if frontp then slaxStringMark mp c 1 True else Some mp) = Some mp1"
    and m1: "marks_at n (pos + (if frontp then 1 else 0)) mp1" by (auto simp: ok_with_iff)
  have "ok_with (slaxStringMark mp1 markp (int k) True) (marks_at n (pos + length (ss_token ssp)))"
  proof (cases "pos + (if frontp then 1 else 0) < n")
    case True
    with slaxStringMark_forward [OF m1, of "int k" True markp] room len show ?thesis by simp
  next
    case False
    then have "frontp" "length (ss_token ssp) = 0 \<or> pos + 1 = n" using room by (auto split: if_splits)
    with \<open>frontp \<longrightarrow> ss_token ssp \<noteq> []\<close> room show ?thesis by (cases "ss_token ssp") auto
  qed
  then obtain mp2 where mp2: "slaxStringMark mp1 markp (int k) True = Some mp2"
    and m2: "marks_at n (pos + length (ss_token ssp)) mp2" by (auto simp: ok_with_iff)
  have "mp \<noteq> None \<Longrightarrow> ?thesis"
    using m2 by (auto simp: mark_plain_def p c_def [symmetric] k mp1 mp2 Let_def marks_at_def split: option.splits)
  then show ?thesis using m by (cases "mp = None") (simp_all add: mark_plain_def marks_at_def)
qed

section \<open>One segment\<close>

definition copying :: "nat \<Rightarrow> string \<Rightarrow> nat \<Rightarrow> ttype \<Rightarrow> copy_state \<Rightarrow> bool" where
  "copying n out len before cs \<longleftrightarrow>
     cp_out cs = out \<and> cp_len cs = len \<and> cp_last cs = before \<and> marks_at n (length out) (cp_marks cs)"

lemma copying_put:
  assumes c: "copying n out len before cs" and room: "length (out @ s) \<le> bufsiz" "bufsiz \<le> n" and k: "k = int (length s)"
  shows "ok_with (do { cs \<leftarrow> cp_put bufsiz cs s; cp_mark (cs\<lparr>cp_len := len'\<rparr>) NUL k False })
    (copying n (out @ s) len' before)"
proof -
  have "marks_at n (length out) (cp_marks cs)" using c by (simp add: copying_def)
  from slaxStringMark_forward [OF this, of "int (length s)" False NUL] room
  obtain mp where "slaxStringMark (cp_marks cs) NUL (int (length s)) False = Some mp" "marks_at n (length out + length s) mp"
    by (auto simp: ok_with_iff)
  then show ?thesis using c room k by (simp add: copying_def cp_put_def cp_mark_def)
qed

lemma copying_put_same:
  assumes c: "copying n out len before cs" and room: "length (out @ s) \<le> bufsiz" "bufsiz \<le> n" and k: "k = int (length s)"
  shows "ok_with (do { cs \<leftarrow> cp_put bufsiz cs s; cp_mark cs NUL k False }) (copying n (out @ s) len before)"
proof -
  have "cp_len cs = len" using c by (simp add: copying_def)
  then have "cp_put bufsiz cs s = Some cs' \<Longrightarrow> cs'\<lparr>cp_len := len\<rparr> = cs'" for cs'
    by (auto simp: cp_put_def split: if_splits)
  then have "(do { cs \<leftarrow> cp_put bufsiz cs s; cp_mark (cs\<lparr>cp_len := len\<rparr>) NUL k False })
      = (do { cs \<leftarrow> cp_put bufsiz cs s; cp_mark cs NUL k False })"
    by (cases "cp_put bufsiz cs s") simp_all
  then show ?thesis using copying_put [OF assms, of len] by simp
qed

text \<open>The same where the rest of a block follows.\<close>

lemma copying_put_then:
  assumes c: "copying n out len before cs" and room: "length (out @ s) \<le> bufsiz" "bufsiz \<le> n" and k: "k = int (length s)"
    and rest: "\<And>cs. copying n (out @ s) len before cs \<Longrightarrow> ok_with (f cs) P"
  shows "ok_with (do { cs \<leftarrow> cp_put bufsiz cs s; cs \<leftarrow> cp_mark cs NUL k False; f cs }) P"
proof -
  obtain cs' where "(do { cs \<leftarrow> cp_put bufsiz cs s; cp_mark cs NUL k False }) = Some cs'"
    and "copying n (out @ s) len before cs'"
    using copying_put_same [OF c room k] unfolding ok_with_iff by blast
  then show ?thesis using rest by (cases "cp_put bufsiz cs s") auto
qed

lemma copy_escaped_ok:
  assumes "copying n out len before cs" "bufsiz \<le> n"
    and "length out + length (escape_text str) \<le> bufsiz" "len + char_count slaxEscapedFrom str < bufsiz"
  shows "ok_with (copy_escaped bufsiz str cs)
    (copying n (out @ escape_text str) (len + char_count slaxEscapedFrom str) before)"
  using assms
proof (induction str arbitrary: out len cs)
  case (Cons c str)
  show ?case
  proof (cases "escape_char c")
    case None
    then have "c \<notin> set slaxEscapedFrom" using escape_from_iff [of c] by simp
    then show ?thesis
      using None Cons.prems Cons.IH [of "out @ [c]" len]
      by (simp only: copy_escaped.simps option.case) (intro copying_put_then, auto)
  next
    case (Some e)
    then have i: "c \<in> set slaxEscapedFrom" using escape_from_iff [of c] by simp
    have l: "cp_len cs = len" using Cons.prems(1) by (simp add: copying_def)
    have c: "copying n out (len + 1) before (cs\<lparr>cp_len := cp_len cs + 1\<rparr>)"
      using Cons.prems(1) by (simp add: copying_def)
    have room: "cp_len (cs\<lparr>cp_len := cp_len cs + 1\<rparr>) < bufsiz" "length (out @ [BSLASH, e]) \<le> bufsiz"
      "length (out @ [BSLASH, e]) + length (escape_text str) \<le> bufsiz"
      "len + 1 + char_count slaxEscapedFrom str < bufsiz"
      using Some i l Cons.prems(3,4) by auto
    have eqs: "(out @ [BSLASH, e]) @ escape_text str = out @ escape_text (c # str)"
      "len + 1 + char_count slaxEscapedFrom str = len + char_count slaxEscapedFrom (c # str)" using Some i by simp_all
    have IH: "copying n (out @ [BSLASH, e]) (len + 1) before cs \<Longrightarrow> ok_with (copy_escaped bufsiz str cs)
      (copying n (out @ escape_text (c # str)) (len + char_count slaxEscapedFrom (c # str)) before)" for cs
      using Cons.IH [OF _ Cons.prems(2) room(3,4)] unfolding eqs .
    show ?thesis
      unfolding copy_escaped.simps Some option.case Let_def if_P [OF room(1)]
      by (rule copying_put_then [OF c room(2) Cons.prems(2) _ IH]) simp_all
  qed
qed simp

lemma copy_braces_ok:
  assumes "copying n out len before cs" "bufsiz \<le> n" "length out + length (double_braces str) \<le> bufsiz"
  shows "ok_with (copy_braces bufsiz str cs)
    (copying n (out @ double_braces str) (len + char_count ''{}'' str) before)"
  using assms
proof (induction str arbitrary: out len cs)
  case (Cons c str)
  show ?case
  proof (cases "c = CHR ''{'' \<or> c = CHR ''}''")
    case False
    then show ?thesis
      using Cons.prems Cons.IH [of "out @ [c]" len]
      by (simp only: copy_braces.simps) (intro copying_put_then, auto)
  next
    case True
    have len: "length (out @ [c]) \<le> bufsiz" "length ((out @ [c]) @ [c]) \<le> bufsiz" using True Cons.prems(3) by auto
    have IH: "ok_with (copy_braces bufsiz str (cs\<lparr>cp_len := cp_len cs + 1\<rparr>))
       (copying n (out @ double_braces (c # str)) (len + char_count ''{}'' (c # str)) before)"
      if "copying n (out @ [c, c]) len before cs" for cs
    proof -
      from that have "copying n (out @ [c, c]) (len + 1) before (cs\<lparr>cp_len := cp_len cs + 1\<rparr>)" by (simp add: copying_def)
      from Cons.IH [OF this Cons.prems(2)] Cons.prems(3) True show ?thesis by auto
    qed
    show ?thesis
      unfolding copy_braces.simps if_P [OF True] bind_assoc bind.bind_lunit
      by (intro copying_put_then [OF Cons.prems(1) len(1) Cons.prems(2)] copying_put_then [OF _ len(2) Cons.prems(2)])
        (use IH in \<open>simp_all del: double_braces_simps char_count_simps\<close>)
  qed
qed simp

definition token_front :: "slax_string \<Rightarrow> bool" where
  "token_front ssp \<longleftrightarrow> ss_ttype ssp = T_QUOTED \<or> ss_token ssp \<noteq> []"

lemma plain_mark_front: "snd (plain_mark flags ssp before) \<Longrightarrow> ss_ttype ssp \<noteq> T_QUOTED"
  by (auto simp: plain_mark_def Let_def ttypes split: if_splits)

text \<open>The text of a quoted segment between its quotes.\<close>

definition copy_between :: "nat \<Rightarrow> bool \<Rightarrow> char \<Rightarrow> string \<Rightarrow> copy_state \<Rightarrow> copy_state option" where
  "copy_between bufsiz escape q str cs = do {
     cs \<leftarrow> cp_put bufsiz cs [q];
     cs \<leftarrow> cp_mark cs NUL 1 False;
     cs \<leftarrow> (if escape then copy_escaped bufsiz str cs
       else do { cs \<leftarrow> cp_put bufsiz cs str; cp_mark cs NUL (int (length str)) False });
     cs \<leftarrow> cp_put bufsiz cs [q];
     cp_mark cs NUL 1 False
   }"

lemma copy_between_ok:
  fixes str defines "body e \<equiv> if e then escape_text str else str"
  assumes c: "copying n out (length out + length str + 3) before cs" and n: "bufsiz \<le> n"
    and room: "length out + length (body escape) + 3 < bufsiz"
  shows "ok_with (copy_between bufsiz escape q str cs)
    (copying n (out @ [q] @ body escape @ [q]) (length out + length (body escape) + 3) before)"
proof -
  define b where "b = body escape"
  note room' = room [folded b_def]
  have body: "ok_with (if escape then copy_escaped bufsiz str cs
        else do { cs \<leftarrow> cp_put bufsiz cs str; cp_mark cs NUL (int (length str)) False })
      (copying n (out @ [q] @ b) (length out + length b + 3) before)"
    if cs: "copying n (out @ [q]) (length out + length str + 3) before cs" for cs
  proof (cases escape)
    case True
    then have "length b = length str + char_count slaxEscapedFrom str"
      by (simp add: b_def body_def length_escape_text)
    with copy_escaped_ok [OF cs n, of str] True room' show ?thesis by (simp add: b_def body_def algebra_simps)
  next
    case False
    with copying_put_same [OF cs, of str bufsiz "int (length str)"] room' n show ?thesis
      by (simp add: b_def body_def del: ok_with_simps)
  qed
  have rest: "ok_with (do {
      cs \<leftarrow> (if escape then copy_escaped bufsiz str cs
        else do { cs \<leftarrow> cp_put bufsiz cs str; cp_mark cs NUL (int (length str)) False });
      cs \<leftarrow> cp_put bufsiz cs [q];
      cp_mark cs NUL 1 False })
      (copying n (out @ [q] @ b @ [q]) (length out + length b + 3) before)"
    if cs: "copying n (out @ [q]) (length out + length str + 3) before cs" for cs
  proof -
    obtain cs' where e: "(if escape then copy_escaped bufsiz str cs
        else do { cs \<leftarrow> cp_put bufsiz cs str; cp_mark cs NUL (int (length str)) False }) = Some cs'"
      and c': "copying n (out @ [q] @ b) (length out + length b + 3) before cs'"
      using body [OF cs] unfolding ok_with_iff by blast
    have "length ((out @ [q] @ b) @ [q]) \<le> bufsiz" "1 = int (length [q])" using room' by simp_all
    from copying_put_same [OF c' this(1) n this(2)] show ?thesis unfolding e bind.bind_lunit append_assoc .
  qed
  have "length (out @ [q]) \<le> bufsiz" "1 = int (length [q])" using room' by simp_all
  from copying_put_then [OF c this(1) n this(2) rest] show ?thesis unfolding copy_between_def b_def [symmetric] .
qed

lemma copy_text_ok:
  assumes c: "copying n out (length out + length (ss_token ssp) + 1
      + (if has flags SSF_QUOTES \<and> ss_ttype ssp = T_QUOTED then 2 else 0)) before cs"
    and n: "bufsiz \<le> n" and room: "length (out @ segment_text flags ssp @ space_after ssp) < bufsiz"
    and front: "token_front ssp"
  shows "ok_with (copy_text bufsiz flags ssp cs)
    (copying n (out @ segment_text flags ssp) (length (out @ segment_text flags ssp) + 1) before)"
proof -
  define str where "str = ss_token ssp"
  define t where "t = ss_ttype ssp"
  define q where "q = quote_of str"
  consider (quoted) "has flags SSF_QUOTES \<and> t = T_QUOTED"
    | (braces) "\<not> (has flags SSF_QUOTES \<and> t = T_QUOTED)" "has flags SSF_BRACES \<and> t = T_QUOTED"
    | (var) "t = T_VAR \<and> has flags SSF_XPATH"
    | (plain) "\<not> (has flags SSF_QUOTES \<and> t = T_QUOTED)" "\<not> (has flags SSF_BRACES \<and> t = T_QUOTED)"
      "\<not> (t = T_VAR \<and> has flags SSF_XPATH)" by blast
  then show ?thesis
  proof cases
    case quoted
    have tx: "segment_text flags ssp = [q] @ (if has flags SSF_ESCAPE then escape_text str else str) @ [q]"
      using quoted by (simp add: segment_text_def Let_def str_def t_def q_def)
    have sp: "space_after ssp = '' ''" using quoted by (simp add: space_after_def t_def ttypes)
    have c0: "copying n out (length out + length str + 3) before cs"
      using c quoted by (simp add: str_def t_def numeral_3_eq_3)
    have "copy_text bufsiz flags ssp cs = copy_between bufsiz (has flags SSF_ESCAPE) q str cs"
      using quoted by (simp add: copy_text_def copy_between_def Let_def str_def t_def q_def cong: if_cong)
    with copy_between_ok [OF c0 n, of "has flags SSF_ESCAPE" q] room show ?thesis
      by (simp add: tx sp numeral_3_eq_3 del: ok_with_simps split del: if_split)
  next
    case braces
    have tx: "segment_text flags ssp = double_braces str" using braces by (auto simp: segment_text_def Let_def str_def t_def)
    have sp: "space_after ssp = '' ''" using braces by (simp add: space_after_def t_def ttypes)
    have c0: "copying n out (length out + length str + 1) before cs" using c unfolding if_not_P [OF braces(1) [unfolded t_def]] by (simp add: str_def)
    have "copy_text bufsiz flags ssp cs = copy_braces bufsiz str cs"
      using braces by (auto simp: copy_text_def Let_def str_def t_def)
    with copy_braces_ok [OF c0 n, of str] room show ?thesis
      by (simp add: tx sp length_double_braces algebra_simps)
  next
    case var
    have tq: "T_VAR \<noteq> T_QUOTED" by (simp add: ttypes)
    have tx: "segment_text flags ssp = ''{'' @ str @ ''}''" using var tq by (simp add: segment_text_def Let_def str_def t_def)
    have c0: "copying n out (length out + length str + 1) before cs" using c var tq by (simp add: str_def t_def)
    have l: "cp_put bufsiz cs s = Some cs' \<Longrightarrow> cp_len cs' = length out + length str + 1" for s cs'
      using c0 by (auto simp: cp_put_def copying_def split: if_splits)
    have "copy_text bufsiz flags ssp cs = do { cs \<leftarrow> cp_put bufsiz cs (''{'' @ str @ ''}'');
        cp_mark (cs\<lparr>cp_len := length out + length str + 3\<rparr>) NUL (2 + int (length str)) False }"
      using var tq l by (cases "cp_put bufsiz cs (''{'' @ str @ ''}'')") (auto simp: copy_text_def Let_def str_def t_def numeral_3_eq_3)
    with copying_put [OF c0, of "''{'' @ str @ ''}''" bufsiz "2 + int (length str)" "length out + length str + 3"] room n
    show ?thesis by (simp add: tx numeral_3_eq_3 del: ok_with_simps append_Cons append_Nil)
  next
    case plain
    have tx: "segment_text flags ssp = str" using plain by (auto simp: segment_text_def Let_def str_def t_def)
    have c0: "copying n out (length out + length str + 1) before cs" using c unfolding if_not_P [OF plain(1) [unfolded t_def]] by (simp add: str_def)
    have "token_front ssp \<Longrightarrow> snd (plain_mark flags ssp before) \<longrightarrow> ss_token ssp \<noteq> []"
      using plain_mark_front [of flags ssp before] by (auto simp: token_front_def)
    then obtain mp where mp: "mark_plain flags ssp before (cp_marks cs) = Some mp" and m: "marks_at n (length out + length str) mp"
      using mark_plain_ok [of n "length out" "cp_marks cs" ssp flags before] c0 room n front
      by (auto simp: ok_with_iff copying_def tx str_def)
    have "copy_text bufsiz flags ssp cs = do {
        cs \<leftarrow> cp_put bufsiz cs str;
        mp \<leftarrow> mark_plain flags ssp (cp_last cs) (cp_marks cs);
        Some (cs\<lparr>cp_marks := mp\<rparr>)
      }"
      using plain by (auto simp: copy_text_def Let_def str_def t_def)
    with c0 m mp room n show ?thesis by (simp add: cp_put_def copying_def tx)
  qed
qed

lemma copy_segment_ok:
  assumes c: "copying n out (length out) before cs" and n: "bufsiz \<le> n"
    and room: "length out + segment_length flags ssp < bufsiz" and front: "token_front ssp"
  defines "out' \<equiv> trimmed before ssp out @ segment_text flags ssp @ space_after ssp"
  shows "\<exists>cs'. copy_segment bufsiz flags ssp cs = Some (Inr cs') \<and> copying n out' (length out') (ss_ttype ssp) cs'"
proof -
  define q :: nat where "q = (if has flags SSF_QUOTES \<and> ss_ttype ssp = T_QUOTED then 2 else 0)"
  define before_space where "before_space = trimmed before ssp out"
  define cs0 where "cs0 = cs\<lparr>cp_len := cp_len cs + length (ss_token ssp) + 1 + q\<rparr>"
  have c0: "copying n out (length out + length (ss_token ssp) + 1 + q) before cs0"
    using c by (simp add: copying_def cs0_def)
  have "length (ss_token ssp) + q \<le> segment_length flags ssp" by (simp add: segment_length_def q_def ttypes)
  then have fits: "\<not> cp_len cs0 > bufsiz" using c0 room by (simp add: copying_def)
  have "\<exists>cs1. (if 2 \<le> length (cp_out cs0) \<and> last (cp_out cs0) = CHR '' ''
        \<and> slaxStringTrimSpace ssp (cp_last cs0) (cp_out cs0)
      then do { cs \<leftarrow> cp_mark (cs0\<lparr>cp_out := butlast (cp_out cs0)\<rparr>) NUL (- 1) False; Some (cs\<lparr>cp_len := cp_len cs - 1\<rparr>) }
      else Some cs0) = Some cs1
    \<and> copying n before_space (length before_space + length (ss_token ssp) + 1 + q) before cs1"
    (is "\<exists>cs1. ?trim = _ \<and> _")
  proof (cases "2 \<le> length out \<and> last out = CHR '' '' \<and> slaxStringTrimSpace ssp before out")
    case True
    then have "out \<noteq> []" by auto
    with slaxStringMark_back [of n "length out" "cp_marks cs0"] c0
    obtain mp where "slaxStringMark (cp_marks cs0) NUL (- 1) False = Some mp" "marks_at n (length out - 1) mp"
      by (auto simp: ok_with_iff copying_def)
    with True c0 show ?thesis by (auto simp: before_space_def trimmed_def copying_def cp_mark_def)
  next
    case False
    with c0 show ?thesis by (auto simp: before_space_def trimmed_def copying_def)
  qed
  then obtain cs1 where trim: "?trim = Some cs1"
    and c1: "copying n before_space (length before_space + length (ss_token ssp) + 1 + q) before cs1" by blast
  have l: "length before_space \<le> length out" by (simp add: before_space_def trimmed_def)
  with segment_text_length [of flags ssp] room
  have room1: "length (before_space @ segment_text flags ssp @ space_after ssp) < bufsiz" by simp
  obtain cs2 where text2: "copy_text bufsiz flags ssp cs1 = Some cs2"
    and c2: "copying n (before_space @ segment_text flags ssp) (length (before_space @ segment_text flags ssp) + 1) before cs2"
    using copy_text_ok [OF c1 [unfolded q_def] n room1 front] unfolding ok_with_iff by blast
  have "\<exists>cs3. (if ss_ttype ssp = T_AXIS_NAME \<or> ss_ttype ssp = L_DCOLON then Some (cs2\<lparr>cp_len := cp_len cs2 - 1\<rparr>)
      else do { cs \<leftarrow> cp_put bufsiz cs2 '' ''; cp_mark cs NUL 1 False }) = Some cs3 \<and> copying n out' (length out') before cs3"
    (is "\<exists>cs3. ?space = _ \<and> _")
  proof (cases "ss_ttype ssp = T_AXIS_NAME \<or> ss_ttype ssp = L_DCOLON")
    case True
    with c2 show ?thesis by (auto simp: out'_def before_space_def space_after_def copying_def)
  next
    case False
    with copying_put_same [OF c2, of "'' ''" bufsiz 1] room1 n show ?thesis
      by (simp add: out'_def before_space_def space_after_def ok_with_iff del: ok_with_simps)
  qed
  then obtain cs3 where space: "?space = Some cs3" and c3: "copying n out' (length out') before cs3" by blast
  have "copying n out' (length out') (ss_ttype ssp) (cs3\<lparr>cp_last := ss_ttype ssp\<rparr>)" using c3 by (simp add: copying_def)
  then show ?thesis
    unfolding copy_segment_def Let_def cs0_def [unfolded q_def, symmetric] if_not_P [OF fits] trim
    by (simp add: text2 space split del: if_split)
qed

fun bare_segments :: "u32 \<Rightarrow> bool \<Rightarrow> slax_string list \<Rightarrow> slax_string list" where
  "bare_segments flags first [] = []"
| "bare_segments flags first (ssp # rest) =
     (if has flags SSF_NOPARENS \<and>
         (if first then ss_ttype ssp = L_OPAREN else rest = [] \<and> ss_ttype ssp = L_CPAREN)
      then bare_segments flags False rest else ssp # bare_segments flags False rest)"

lemma length_trimmed: "length (trimmed before ssp out) \<le> length out"
  by (simp add: trimmed_def)

lemma copy_loop_ok:
  assumes "copying n out (length out) before cs" "bufsiz \<le> n"
    and "length out + sum_list (map (segment_length flags) segs) < bufsiz" "\<forall>ssp \<in> set segs. token_front ssp"
  shows "\<exists>cs' t. copy_loop bufsiz flags first segs cs = Some cs'
    \<and> copying n (render flags before out (bare_segments flags first segs))
        (length (render flags before out (bare_segments flags first segs))) t cs'"
  using assms
proof (induction segs arbitrary: first out before cs)
  case (Cons ssp segs)
  let ?drop = "has flags SSF_NOPARENS \<and>
    (if first then ss_ttype ssp = L_OPAREN else segs = [] \<and> ss_ttype ssp = L_CPAREN)"
  show ?case
  proof (cases ?drop)
    case True
    have "length out + sum_list (map (segment_length flags) segs) < bufsiz" using Cons.prems(3) by simp
    from Cons.IH [OF Cons.prems(1,2) this, of False] Cons.prems(4)
    show ?thesis unfolding copy_loop.simps bare_segments.simps if_P [OF True] by simp
  next
    case False
    define out' where "out' = trimmed before ssp out @ segment_text flags ssp @ space_after ssp"
    have front: "token_front ssp" and room: "length out + segment_length flags ssp < bufsiz"
      using Cons.prems(3,4) by simp_all
    obtain cs' where s: "copy_segment bufsiz flags ssp cs = Some (Inr cs')"
      and c': "copying n out' (length out') (ss_ttype ssp) cs'"
      using copy_segment_ok [OF Cons.prems(1,2) room front] unfolding out'_def by blast
    have "length out' \<le> length out + segment_length flags ssp"
      using length_trimmed [of before ssp out] segment_text_length [of flags ssp] by (simp add: out'_def)
    then have "length out' + sum_list (map (segment_length flags) segs) < bufsiz" using Cons.prems(3) by simp
    from Cons.IH [OF c' Cons.prems(2) this, of False] Cons.prems(4)
    show ?thesis unfolding copy_loop.simps bare_segments.simps if_not_P [OF False] s by (simp add: out'_def)
  qed
qed auto

section \<open>The whole text\<close>

lemma length_render:
  "length (render flags before out segs) \<le> length out + sum_list (map (segment_length flags) segs)"
proof (induction segs arbitrary: before out)
  case (Cons ssp segs)
  have "length (trimmed before ssp out @ segment_text flags ssp @ space_after ssp) \<le> length out + segment_length flags ssp"
    using length_trimmed [of before ssp out] segment_text_length [of flags ssp] by simp
  with Cons [of "ss_ttype ssp" "trimmed before ssp out @ segment_text flags ssp @ space_after ssp"] show ?case
    by (simp del: length_append)
qed simp

lemma bare_segments_length:
  "sum_list (map (segment_length flags') (bare_segments flags first segs)) \<le> sum_list (map (segment_length flags') segs)"
  by (induction flags first segs rule: bare_segments.induct) auto

text \<open>What is written into a buffer of the computed size, without and with marks.\<close>

lemma copy_marked_ok:
  assumes size: "slaxStringLength start flags \<le> bufsiz" and front: "\<forall>ssp \<in> set start. token_front ssp"
    and marks: "\<And>m. marks = Some m \<Longrightarrow> bufsiz \<le> length m"
  defines "tx \<equiv> render flags 0 [] (bare_segments flags True start)"
  shows "\<exists>marks'. slaxStringCopyMarked bufsiz marks start flags
      = Some (if tx = [] then None else Some (butlast tx), marks', length tx - 1)"
proof -
  define n where "n = (case marks of None \<Rightarrow> bufsiz | Some m \<Rightarrow> length m)"
  have n: "bufsiz \<le> n" using marks by (simp add: n_def split: option.splits)
  have room: "sum_list (map (segment_length flags) start) < bufsiz"
    using size by (simp add: slaxStringLength_def slaxStringLengthCheck_def)
  obtain mp where mp: "(case marks of None \<Rightarrow> Some None
      | Some m \<Rightarrow> if bufsiz = 0 \<or> length m < bufsiz then None
          else Some (Some (replicate (bufsiz - 1) CHR '' '' @ [NUL] @ drop bufsiz m, 0))) = Some mp"
    and m0: "marks_at n 0 mp"
    using room marks by (cases marks) (auto simp: marks_at_def n_def)
  have c: "copying n [] (length ([] :: string)) 0 \<lparr>cp_out = [], cp_marks = mp, cp_len = 0, cp_last = 0\<rparr>"
    using m0 by (simp add: copying_def)
  obtain cs t where loop: "copy_loop bufsiz flags True start \<lparr>cp_out = [], cp_marks = mp, cp_len = 0, cp_last = 0\<rparr> = Some cs"
    and cs: "copying n tx (length tx) t cs"
    using copy_loop_ok [OF c n, of flags start True] room front by (auto simp: tx_def)
  have "length tx < bufsiz"
    using length_render [of flags 0 "[]" "bare_segments flags True start"] bare_segments_length [of flags flags True start] room
    by (simp add: tx_def)
  then show ?thesis
    using cs unfolding slaxStringCopyMarked_def mp bind.bind_lunit loop
    by (auto simp: copying_def Let_def butlast_conv_take)
qed

text \<open>
  C33 (bounds): a buffer of the length computed beforehand takes the whole text with its terminating NUL,
  whatever the segments, the quotes and the flags, and no write is outside of it or of a buffer of the
  same size for the marks; the text is the one built without any buffer.
\<close>

theorem slax_string_fits:
  assumes "slaxStringLength start flags \<le> bufsiz" "\<forall>ssp \<in> set start. token_front ssp"
    and "\<And>m. marks = Some m \<Longrightarrow> bufsiz \<le> length m"
  shows "\<exists>marks'. slaxStringCopyMarked bufsiz marks start flags
    = Some (let out = render flags 0 [] (bare_segments flags True start) in
        (if out = [] then None else Some (butlast out), marks', length out - 1))"
  using copy_marked_ok [OF assms] by (simp add: Let_def)

lemma slax_string_fits_witness:
  "\<exists>marks'. slaxStringCopyMarked 12 (Some (replicate 12 CHR ''x''))
      [segment ''a'' T_BARE, segment ''='' L_EQUALS, segment ''b\<newline>'' T_QUOTED] (SSF_QUOTES OR SSF_ESCAPE)
    = Some (Some (''a = '' @ [DQUOTE, CHR ''b'', BSLASH, CHR ''n'', DQUOTE]), marks', 9)"
proof -
  let ?segs = "[segment ''a'' T_BARE, segment ''='' L_EQUALS, segment ''b\<newline>'' T_QUOTED]"
  let ?flags = "SSF_QUOTES OR SSF_ESCAPE"
  have 1: "slaxStringLength ?segs ?flags \<le> 12" by code_simp
  have 2: "\<forall>ssp \<in> set ?segs. token_front ssp" by (simp add: token_front_def segment_def c_string_def)
  have 3: "render ?flags 0 [] (bare_segments ?flags True ?segs) = ''a = '' @ [DQUOTE, CHR ''b'', BSLASH, CHR ''n'', DQUOTE, CHR '' '']"
    by code_simp
  from slax_string_fits [OF 1 2, of "Some (replicate 12 CHR ''x'')"] show ?thesis unfolding 3 by (simp add: eval_nat_numeral)
qed

section \<open>A text of its own\<close>

text \<open>Parentheses around all of the segments are the first and the last one.\<close>

lemma length_parens_ends:
  "length_parens first ok depth segs \<Longrightarrow> segs \<noteq> [] \<and> ss_ttype (last segs) = L_CPAREN
     \<and> (if first then ss_ttype (hd segs) = L_OPAREN else ok)"
proof (induction segs arbitrary: first ok depth)
  case (Cons ssp rest)
  show ?case
  proof (cases "rest = []")
    case False
    define so_far where "so_far = (if first then ss_ttype ssp = L_OPAREN else ok)"
    define depth' where "depth' = (if ss_ttype ssp = L_OPAREN then depth + 1
      else if ss_ttype ssp = L_CPAREN then depth - 1 else depth)"
    have "length_parens False (if ss_ttype ssp = L_CPAREN \<and> depth' = 0 \<and> rest \<noteq> [] then False else so_far) depth' rest"
      using Cons(2) False unfolding length_parens.simps Let_def so_far_def [symmetric] depth'_def [symmetric] by simp
    from Cons.IH [OF this] False show ?thesis by (auto simp: so_far_def split: if_splits)
  qed (use Cons(2) in \<open>auto simp: Let_def split: if_splits\<close>)
qed simp

lemma bare_segments_keep: "\<not> has flags SSF_NOPARENS \<Longrightarrow> bare_segments flags first segs = segs"
  by (induction segs arbitrary: first) auto

lemma bare_segments_last:
  "has flags SSF_NOPARENS \<Longrightarrow> segs \<noteq> [] \<Longrightarrow> ss_ttype (last segs) = L_CPAREN \<Longrightarrow> bare_segments flags False segs = butlast segs"
  by (induction segs) auto

lemma has_clear: "has (flags AND NOT SSF_NOPARENS) SSF_QUOTES = has flags SSF_QUOTES"
  "has (flags AND NOT SSF_NOPARENS) SSF_BRACES = has flags SSF_BRACES"
  "has (flags AND NOT SSF_NOPARENS) SSF_ESCAPE = has flags SSF_ESCAPE"
  "has (flags AND NOT SSF_NOPARENS) SSF_XPATH = has flags SSF_XPATH"
  "\<not> has (flags AND NOT SSF_NOPARENS) SSF_NOPARENS"
  by (simp_all add: has_def ssf_defs and.assoc)

lemma render_clear: "render (flags AND NOT SSF_NOPARENS) before out segs = render flags before out segs"
  by (induction segs arbitrary: before out) (simp_all add: segment_text_def Let_def has_clear)

lemma length_clear: "slaxStringLength segs (flags AND NOT SSF_NOPARENS) = slaxStringLength segs flags"
  by (simp add: slaxStringLength_def slaxStringLengthCheck_def segment_length_def [abs_def] has_clear cong: if_cong)

lemma as_char_ok:
  assumes "mem (slaxStringLength segs flags + 1)" "\<forall>ssp \<in> set segs. token_front ssp"
  defines "out \<equiv> render flags 0 [] (if has flags SSF_NOPARENS \<and> length_parens True False 0 segs then butlast (tl segs) else segs)"
  shows "slaxStringAsChar mem segs flags = Some (Some (if out = [] then None else Some (butlast out)))"
proof (cases "has flags SSF_NOPARENS \<and> length_parens True False 0 segs")
  case True
  then have ends: "segs \<noteq> []" "ss_ttype (last segs) = L_CPAREN" "ss_ttype (hd segs) = L_OPAREN"
    using length_parens_ends [of True False 0 segs] by simp_all
  then have "tl segs \<noteq> []" by (cases segs) (auto simp: ttypes split: if_splits)
  then have bare: "bare_segments flags True segs = butlast (tl segs)"
    using ends True bare_segments_last [of flags "tl segs"] by (cases segs) auto
  from copy_marked_ok [of segs flags "slaxStringLength segs flags" None] assms(2)
  obtain m where "slaxStringCopyMarked (slaxStringLength segs flags) None segs flags
    = Some (if out = [] then None else Some (butlast out), m, length out - 1)"
    using True by (auto simp: bare out_def)
  with True assms(1) show ?thesis
    by (auto simp: slaxStringAsChar_def slaxStringCopy_def slaxStringLength_def slaxStringLengthCheck_def)
next
  case False
  let ?flags = "flags AND NOT SSF_NOPARENS"
  from copy_marked_ok [of segs ?flags "slaxStringLength segs flags" None] assms(2) False
  obtain m where "slaxStringCopyMarked (slaxStringLength segs flags) None segs ?flags
    = Some (if out = [] then None else Some (butlast out), m, length out - 1)"
    by (auto simp: length_clear render_clear bare_segments_keep has_clear out_def)
  with False assms(1) show ?thesis
    by (auto simp: slaxStringAsChar_def slaxStringCopy_def slaxStringLength_def slaxStringLengthCheck_def)
qed

end
