(* ===== verification/Slaxheap_Props.thy ===== *)
theory Slaxheap_Props
  imports Slaxheap Slaxcopy_Props
begin

text \<open>
  Concatenations in the heap of segments. A piece of the heap is described by the addresses that are owned and what the
  cells at them hold (\<open>owns\<close>), so that the rules for the operations are those of assignments to functions; lists are
  paths in it. Rewriting a concatenation extends the abstract list of its operands, and the attribute value template
  of it is the sequence of the templates of the operands.
\<close>

section \<open>Owned cells\<close>

definition owns :: "slax_heap \<Rightarrow> nat set \<Rightarrow> (nat \<Rightarrow> nat) \<Rightarrow> (nat \<Rightarrow> nat) \<Rightarrow> (nat \<Rightarrow> slax_string) \<Rightarrow> bool" where
  "owns h A n c s \<longleftrightarrow> 0 < h_brk h \<and> h_mem h = (\<lambda>_. True)
     \<and> (\<forall>a\<in>A. 0 < a \<and> a < h_brk h \<and> h_cell h a = Some \<lparr>ss_next = n a, ss_concat = c a, ss_seg = s a\<rparr>)"

lemma owns_cell: "owns h A n c s \<Longrightarrow> a \<in> A \<Longrightarrow> cell h a = Some \<lparr>ss_next = n a, ss_concat = c a, ss_seg = s a\<rparr>"
  by (auto simp: owns_def cell_def)

lemma owns_pos: "owns h A n c s \<Longrightarrow> a \<in> A \<Longrightarrow> 0 < a"
  by (auto simp: owns_def)

lemma owns_mono: "owns h A n c s \<Longrightarrow> B \<subseteq> A \<Longrightarrow> owns h B n c s"
  by (auto simp: owns_def)

lemma owns_cong: "owns h A n c s \<Longrightarrow> (\<And>a. a \<in> A \<Longrightarrow> n a = n' a \<and> c a = c' a \<and> s a = s' a) \<Longrightarrow> owns h A n' c' s'"
  by (auto simp: owns_def)

lemma owns_set_next: "owns h A n c s \<Longrightarrow> a \<in> A \<Longrightarrow> \<exists>h'. set_next h a b = Some h' \<and> owns h' A (n(a := b)) c s"
  by (auto simp: set_next_def owns_cell set_cell_def) (auto simp: owns_def)

lemma owns_set_concat: "owns h A n c s \<Longrightarrow> a \<in> A \<Longrightarrow> \<exists>h'. set_concat h a b = Some h' \<and> owns h' A n (c(a := b)) s"
  by (auto simp: set_concat_def owns_cell set_cell_def) (auto simp: owns_def)

lemma owns_set_seg: "owns h A n c s \<Longrightarrow> a \<in> A \<Longrightarrow> \<exists>h'. set_seg h a ssp = Some h' \<and> owns h' A n c (s(a := ssp))"
  by (auto simp: set_seg_def owns_cell set_cell_def) (auto simp: owns_def)

lemma owns_literal:
  assumes "owns h A n c s"
  shows "\<exists>a h'. string_literal h str t = (a, h') \<and> a \<notin> A \<and> a \<noteq> 0
    \<and> owns h' (insert a A) (n(a := 0)) (c(a := 0)) (s(a := segment str t))"
  using assms by (auto simp: string_literal_def slaxStringLiteral_def new_cell_def owns_def)

text \<open>The steps of a block, one after the other.\<close>

lemma ok_set_next:
  assumes "owns h A n c s" "a \<in> A" "\<And>h'. owns h' A (n(a := b)) c s \<Longrightarrow> ok_with (f h') P"
  shows "ok_with (do { h \<leftarrow> set_next h a b; f h }) P"
  using owns_set_next [OF assms(1,2), of b] assms(3) by auto

lemma ok_set_concat:
  assumes "owns h A n c s" "a \<in> A" "\<And>h'. owns h' A n (c(a := b)) s \<Longrightarrow> ok_with (f h') P"
  shows "ok_with (do { h \<leftarrow> set_concat h a b; f h }) P"
  using owns_set_concat [OF assms(1,2), of b] assms(3) by auto

lemma ok_set_seg:
  assumes "owns h A n c s" "a \<in> A" "\<And>h'. owns h' A n c (s(a := ssp)) \<Longrightarrow> ok_with (f h') P"
  shows "ok_with (do { h \<leftarrow> set_seg h a ssp; f h }) P"
  using owns_set_seg [OF assms(1,2), of ssp] assms(3) by auto

section \<open>Paths\<close>

primrec path :: "(nat \<Rightarrow> nat) \<Rightarrow> nat \<Rightarrow> nat list \<Rightarrow> nat \<Rightarrow> bool" where
  "path n a [] b \<longleftrightarrow> a = b"
| "path n a (x # xs) b \<longleftrightarrow> a = x \<and> path n (n a) xs b"

lemma path_append [simp]: "path n a (xs @ ys) b \<longleftrightarrow> (\<exists>z. path n a xs z \<and> path n z ys b)"
  by (induction xs arbitrary: a) auto

lemma path_upd [simp]: "u \<notin> set xs \<Longrightarrow> path (n(u := v)) a xs b = path n a xs b"
  by (induction xs arbitrary: a) auto

lemma path_cong: "(\<And>x. x \<in> set xs \<Longrightarrow> n x = n' x) \<Longrightarrow> path n a xs b = path n' a xs b"
  by (induction xs arbitrary: a) auto

text \<open>A list that is not empty, moved to another end.\<close>

lemma path_redirect:
  "path n a xs b \<Longrightarrow> xs \<noteq> [] \<Longrightarrow> distinct xs \<Longrightarrow> path (n(last xs := z)) a xs z"
  by (induction xs arbitrary: a) auto

lemma list_end_path:
  "owns h A n c s \<Longrightarrow> path n a xs 0 \<Longrightarrow> xs \<noteq> [] \<Longrightarrow> set xs \<subseteq> A \<Longrightarrow> list_end h a = Some (last xs)"
proof (induction xs arbitrary: a)
  case (Cons x xs)
  have "0 \<notin> A" using owns_pos [OF Cons.prems(1)] by blast
  with Cons show ?case by (subst list_end.simps) (cases xs; auto simp: owns_cell)
qed simp

lemma segments_path:
  "owns h A n c s \<Longrightarrow> path n a xs 0 \<Longrightarrow> set xs \<subseteq> A \<Longrightarrow> segments h a = Some (map s xs)"
proof (induction xs arbitrary: a)
  case Nil
  then show ?case by (simp add: segments.simps)
next
  case (Cons x xs)
  then show ?case using owns_pos [OF Cons.prems(1), of x] by (subst segments.simps) (auto simp: owns_cell)
qed

lemma skip_path:
  "owns h A n c s \<Longrightarrow> path n a xs m \<Longrightarrow> xs \<noteq> [] \<Longrightarrow> set xs \<subseteq> A \<Longrightarrow> m \<notin> set xs
    \<Longrightarrow> slaxStringSkipToMarker h a m = Some (last xs)"
proof (induction xs arbitrary: a)
  case (Cons x xs)
  then show ?case
    using owns_pos [OF Cons.prems(1), of x] by (subst slaxStringSkipToMarker.simps) (cases xs; auto simp: owns_cell)
qed simp

lemma free_path:
  "owns h A n c s \<Longrightarrow> path n a xs 0 \<Longrightarrow> set xs \<subseteq> A \<Longrightarrow> distinct xs
    \<Longrightarrow> \<exists>h'. slaxStringFree h a = Some h' \<and> owns h' (A - set xs) n c s"
proof (induction xs arbitrary: a h A)
  case Nil
  then show ?case by (subst slaxStringFree.simps) simp
next
  case (Cons x xs)
  let ?h = "h\<lparr>h_cell := (h_cell h)(x := None)\<rparr>"
  have "owns ?h (A - {x}) n c s" using Cons.prems(1) by (auto simp: owns_def)
  with Cons.IH [of ?h "A - {x}" "n x"] Cons.prems
  obtain h' where "slaxStringFree ?h (n x) = Some h'" "owns h' (A - {x} - set xs) n c s" by auto
  moreover have "A - {x} - set xs = A - set (x # xs)" by auto
  ultimately show ?case
    using Cons.prems owns_pos [OF Cons.prems(1), of x] by (subst slaxStringFree.simps) (auto simp: owns_cell)
qed

lemma ok_list_end:
  assumes "owns h A n c s" "path n a xs 0" "xs \<noteq> []" "set xs \<subseteq> A"
    "owns h A n c s \<Longrightarrow> ok_with (f (last xs)) P"
  shows "ok_with (do { e \<leftarrow> list_end h a; f e }) P"
  using list_end_path [OF assms(1-4)] assms(1,5) by simp

section \<open>Concatenations\<close>

definition mark :: "slax_string \<Rightarrow> ttype \<Rightarrow> string \<Rightarrow> bool" where
  "mark ssp t txt \<longleftrightarrow> ss_ttype ssp = t \<and> ss_token ssp = txt"

text \<open>The operands \<open>ps\<close> from \<open>a\<close> on with the markers behind them, linked by \<open>ss_concat\<close>.\<close>

fun chain :: "(nat \<Rightarrow> nat) \<Rightarrow> (nat \<Rightarrow> nat) \<Rightarrow> (nat \<Rightarrow> slax_string) \<Rightarrow> nat \<Rightarrow> nat \<Rightarrow> nat list list \<Rightarrow> nat list \<Rightarrow> bool" where
  "chain n c s a m [p] [x] \<longleftrightarrow> x = m \<and> p \<noteq> [] \<and> path n a p m \<and> mark (s m) L_CPAREN '')'' \<and> n m = 0"
| "chain n c s a m (p # q # ps) (x # y # ms) \<longleftrightarrow> x = m \<and> p \<noteq> [] \<and> path n a p m \<and> mark (s m) L_COMMA '',''
     \<and> chain n c s (n m) (c m) (q # ps) (y # ms)"
| "chain n c s a m _ _ \<longleftrightarrow> False"

lemma chain_length: "chain n c s a m ps ms \<Longrightarrow> length ps = length ms \<and> ps \<noteq> []"
  by (induction n c s a m ps ms rule: chain.induct) auto

text \<open>A concatenation at \<open>a\<close>: the word, the open parenthesis \<open>b\<close>, the operands and the markers.\<close>

definition concat_cells :: "(nat \<Rightarrow> nat) \<Rightarrow> (nat \<Rightarrow> nat) \<Rightarrow> (nat \<Rightarrow> slax_string) \<Rightarrow> nat \<Rightarrow> nat \<Rightarrow> nat list list \<Rightarrow> nat list \<Rightarrow> bool" where
  "concat_cells n c s a b ps ms \<longleftrightarrow> distinct (a # b # List.concat ps @ ms) \<and> mark (s a) M_CONCAT ''concat'' \<and> n a = b
     \<and> mark (s b) L_OPAREN ''('' \<and> chain n c s (n b) (c a) ps ms"

lemma mark_segment [simp]: "NUL \<notin> set str \<Longrightarrow> mark (segment str t) t str"
  by (simp add: mark_def segment_def c_string_def) (metis takeWhile_eq_all_conv)

lemma concat_first_ok:
  assumes own: "owns h (set (ls @ rs @ [op])) n c s" and left: "path n left ls 0" "ls \<noteq> []"
    and right: "path n right rs 0" "rs \<noteq> []" and dist: "distinct (ls @ rs @ [op])"
    and op: "n op = 0" "mark (s op) L_CPAREN '')''"
  shows "ok_with (concat_first h left op right) (\<lambda>(a, h'). \<exists>b m n' c' s'.
    owns h' (set (a # b # (ls @ rs) @ [m, op])) n' c' s' \<and> concat_cells n' c' s' a b [ls, rs] [m, op]
    \<and> (\<forall>x\<in>set (ls @ rs). s' x = s x))"
proof -
  define A where "A = set (ls @ rs @ [op])"
  obtain con h1 where 1: "string_literal h ''concat'' M_CONCAT = (con, h1)" "con \<notin> A" "con \<noteq> 0"
    "owns h1 (insert con A) (n(con := 0)) (c(con := 0)) (s(con := segment ''concat'' M_CONCAT))"
    using owns_literal [OF own] unfolding A_def by blast
  obtain b h2 where 2: "string_literal h1 ''('' L_OPAREN = (b, h2)" "b \<notin> insert con A" "b \<noteq> 0"
    "owns h2 (insert b (insert con A)) (n(con := 0, b := 0)) (c(con := 0, b := 0))
      (s(con := segment ''concat'' M_CONCAT, b := segment ''('' L_OPAREN))"
    using owns_literal [OF 1(4)] by blast
  define s3 where "s3 m = s(con := segment ''concat'' M_CONCAT, b := segment ''('' L_OPAREN, m := segment '','' L_COMMA)" for m
  obtain m h3 where 3: "string_literal h2 '','' L_COMMA = (m, h3)" "m \<notin> insert b (insert con A)" "m \<noteq> 0"
    "owns h3 (insert m (insert b (insert con A))) (n(con := 0, b := 0, m := 0)) (c(con := 0, b := 0, m := 0)) (s3 m)"
    using owns_literal [OF 2(4)] unfolding s3_def by blast
  define A3 where "A3 = insert m (insert b (insert con A))"
  note own3 = 3(4) [folded A3_def]
  have new: "con \<notin> set ls" "con \<notin> set rs" "con \<noteq> op" "b \<notin> set ls" "b \<notin> set rs" "b \<noteq> op" "b \<noteq> con"
    "m \<notin> set ls" "m \<notin> set rs" "m \<noteq> op" "m \<noteq> b" "m \<noteq> con"
    using 1(2) 2(2) 3(2) by (auto simp: A_def)
  have old: "last ls \<in> set ls" "last rs \<in> set rs" "last ls \<noteq> last rs" "last ls \<noteq> op" "last rs \<noteq> op"
    using left(2) right(2) dist by (auto dest: last_in_set)
  have A3: "set ls \<subseteq> A3" "set rs \<subseteq> A3" "op \<in> A3" "con \<in> A3" "b \<in> A3" "m \<in> A3"
    by (auto simp: A3_def A_def)
  have ne: "last ls \<noteq> con" "last ls \<noteq> b" "last ls \<noteq> m" "last rs \<noteq> con" "last rs \<noteq> b" "last rs \<noteq> m"
    "last ls \<notin> set rs" "last rs \<notin> set ls" "op \<notin> set ls" "op \<notin> set rs" using new old dist by auto
  define n' where "n' = n(con := 0, b := 0, m := 0, con := b, b := left, last ls := m, m := right, last rs := op)"
  define c' where "c' = c(con := 0, b := 0, m := 0, con := m, m := op)"
  have "ok_with (concat_first h left op right) (\<lambda>(a, h'). a = con \<and> owns h' A3 n' c' (s3 m))"
    unfolding concat_first_def 1(1) 2(1) 3(1) Let_def prod.case if_P [OF conjI [OF 1(3) conjI [OF 2(3) 3(3)]]] n'_def c'_def
    apply (rule ok_set_next [OF own3 A3(4)])
    apply (erule ok_set_next [OF _ A3(5)])
    apply (erule ok_list_end [of _ _ _ _ _ _ ls])
    subgoal using left(1) new by simp
    subgoal using left(2) .
    subgoal using A3(1) .
    apply (erule ok_set_next)
    subgoal using old A3 by auto
    apply (erule ok_set_concat [OF _ A3(4)])
    apply (erule ok_set_next [OF _ A3(6)])
    apply (erule ok_list_end [of _ _ _ _ _ _ rs])
    subgoal using right(1) new ne by simp
    subgoal using right(2) .
    subgoal using A3(2) .
    apply (erule ok_set_next)
    subgoal using old A3 by auto
    apply (erule ok_set_concat [OF _ A3(6)])
    apply simp
    done
  moreover have "concat_cells n' c' (s3 m) con b [ls, rs] [m, op]"
  proof -
    have "path n' left ls m = path (n(last ls := m)) left ls m"
      by (rule path_cong) (use new ne in \<open>auto simp: n'_def\<close>)
    then have "path n' left ls m" using path_redirect [OF left, of m] dist by simp
    moreover have "path n' right rs op = path (n(last rs := op)) right rs op"
      by (rule path_cong) (use new ne in \<open>auto simp: n'_def\<close>)
    then have "path n' right rs op" using path_redirect [OF right, of op] dist by simp
    ultimately show ?thesis
      using left(2) right(2) new ne old op dist
      by (simp add: concat_cells_def s3_def c'_def) (simp add: n'_def)
  qed
  moreover have "set (con # b # (ls @ rs) @ [m, op]) = A3" by (auto simp: A3_def A_def)
  moreover have "\<forall>x\<in>set (ls @ rs). s3 m x = s x" using new by (auto simp: s3_def)
  ultimately show ?thesis by (elim ok_with_mono) blast
qed

text \<open>The cells of a concatenation as one list, and what a further operand changes.\<close>

fun interleave :: "nat list list \<Rightarrow> nat list \<Rightarrow> nat list" where
  "interleave (p # ps) (m # ms) = p @ m # interleave ps ms"
| "interleave _ _ = []"

lemma interleave_path: "chain n c s a m ps ms \<Longrightarrow> path n a (interleave ps ms) 0"
  by (induction n c s a m ps ms rule: chain.induct) auto

lemma interleave_last: "chain n c s a m ps ms \<Longrightarrow> interleave ps ms \<noteq> [] \<and> last (interleave ps ms) = last ms"
  by (induction n c s a m ps ms rule: chain.induct) auto

lemma chain_closed: "chain n c s a m ps ms \<Longrightarrow> mark (s (last ms)) L_CPAREN '')''"
  by (induction n c s a m ps ms rule: chain.induct) auto

lemma interleave_set: "length ps = length ms \<Longrightarrow> set (interleave ps ms) = set (List.concat ps @ ms)"
  by (induction ps ms rule: interleave.induct) auto

lemma chain_extend:
  assumes "chain n c s a m ps ms" "distinct (List.concat ps @ ms @ rs @ [op])" "path n right rs 0" "rs \<noteq> []"
    and "n op = 0" "mark (s op) L_CPAREN '')''" "mark ssp L_COMMA '',''"
  shows "chain (n(last ms := right, last rs := op)) (c(last ms := op)) (s(last ms := ssp)) a m (ps @ [rs]) (ms @ [op])"
  using assms
proof (induction n c s a m ps ms rule: chain.induct)
  case (1 n c s a m p x)
  have l: "last rs \<in> set rs" using 1(4) by simp
  let ?n = "n(m := right, last rs := op)"
  have "path ?n a p m = path n a p m" by (rule path_cong) (use 1 l in auto)
  moreover have "path ?n right rs op = path (n(last rs := op)) right rs op" by (rule path_cong) (use 1 l in auto)
  ultimately have "path ?n a p m" "path ?n right rs op" using 1 path_redirect [OF 1(3,4), of op] by auto
  moreover have "?n m = right" "?n op = 0" "m \<noteq> op" using 1 l by auto
  ultimately show ?case using 1 by (simp add: mark_def del: fun_upd_apply) simp
next
  case (2 n c s a m p q ps x y ms)
  define k where "k = last (y # ms)"
  have k: "k \<in> set (y # ms)" "last (x # y # ms) = k" by (simp_all add: k_def)
  have l: "last rs \<in> set rs" using 2(5) by simp
  let ?n = "n(k := right, last rs := op)"
  have ch: "x = m" "p \<noteq> []" "path n a p m" "mark (s m) L_COMMA '',''" "chain n c s (n m) (c m) (q # ps) (y # ms)"
    using 2(2) by simp_all
  have new: "m \<noteq> k" "m \<noteq> last rs" "k \<notin> set p" "last rs \<notin> set p" using 2(3) ch(1) k(1) l by auto
  have "distinct (List.concat (q # ps) @ (y # ms) @ rs @ [op])" using 2(3) by simp
  then have "chain ?n (c(k := op)) (s(k := ssp)) (n m) (c m) ((q # ps) @ [rs]) ((y # ms) @ [op])"
    using 2(1) [OF ch(5)] 2(4-) unfolding k_def by blast
  moreover have "path ?n a p m = path n a p m" by (rule path_cong) (use new in auto)
  moreover have "?n m = n m" "(c(k := op)) m = c m" "(s(k := ssp)) m = s m" using new by auto
  ultimately show ?case unfolding k(2) using ch by (simp del: fun_upd_apply)
qed auto

lemma concat_more_ok:
  assumes own: "owns h (set (a # b # List.concat ps @ ms @ rs @ [op])) n c s" and cells: "concat_cells n c s a b ps ms"
    and right: "path n right rs 0" "rs \<noteq> []" and dist: "distinct ((a # b # List.concat ps @ ms) @ rs @ [op])"
    and op: "n op = 0" "mark (s op) L_CPAREN '')''"
  shows "ok_with (concat_more h a op right) (\<lambda>(a', h'). a' = a \<and> (\<exists>n' c' s'.
    owns h' (set (a # b # List.concat (ps @ [rs]) @ ms @ [op])) n' c' s' \<and> concat_cells n' c' s' a b (ps @ [rs]) (ms @ [op])
    \<and> (\<forall>x\<in>set (List.concat (ps @ [rs])). s' x = s x)))"
proof -
  define A where "A = set (a # b # List.concat ps @ ms @ rs @ [op])"
  define k where "k = last ms"
  have ch: "chain n c s (n b) (c a) ps ms" "n a = b" using cells by (simp_all add: concat_cells_def)
  have len: "length ps = length ms" "ms \<noteq> []" using chain_length [OF ch(1)] by auto
  have k: "k \<in> set ms" using len(2) by (simp add: k_def)
  have pth: "path n a (a # b # interleave ps ms) 0" using interleave_path [OF ch(1)] ch(2) by simp
  have at_last: "last (a # b # interleave ps ms) = k" using interleave_last [OF ch(1)] by (simp add: k_def)
  have sub: "set (a # b # interleave ps ms) \<subseteq> A" using interleave_set [OF len(1)] by (auto simp: A_def)
  have mk: "mark (s k) L_CPAREN '')''" using chain_closed [OF ch(1)] by (simp add: k_def)
  define ssp where "ssp = (s k)\<lparr>ss_token := '','', ss_ttype := L_COMMA\<rparr>"
  have set1: "set_first (s k) CHR '','' L_COMMA = Some ssp" using mk by (simp add: set_first_def mark_def ssp_def)
  have inA: "k \<in> A" "last rs \<in> A" "set rs \<subseteq> A" using k right(2) by (auto simp: A_def)
  have ne: "k \<noteq> last rs" "k \<notin> set rs" using k right(2) dist by (auto dest: last_in_set)
  define n' where "n' = n(k := right, last rs := op)"
  have "ok_with (concat_more h a op right) (\<lambda>(a', h'). a' = a \<and> owns h' A n' (c(k := op)) (s(k := ssp)))"
    unfolding concat_more_def n'_def
    apply (rule ok_list_end [OF own [folded A_def] pth _ sub])
    subgoal by simp
    unfolding at_last
    apply (simp only: owns_cell [OF own [folded A_def] inA(1)] bind.bind_lunit slax_cell.simps)
    using mk set1
    apply (simp add: mark_def del: ok_with_simps)
    apply (erule ok_set_seg [OF _ inA(1)])
    apply (erule ok_set_next [OF _ inA(1)])
    apply (erule ok_list_end [of _ _ _ _ _ _ rs])
    subgoal using right(1) ne by simp
    subgoal using right(2) .
    subgoal using inA(3) .
    apply (erule ok_set_next [OF _ inA(2)])
    apply (erule ok_set_concat [OF _ inA(1)])
    apply simp
    done
  moreover have "concat_cells n' (c(k := op)) (s(k := ssp)) a b (ps @ [rs]) (ms @ [op])"
  proof -
    have "mark ssp L_COMMA '',''" by (simp add: mark_def ssp_def)
    from chain_extend [OF ch(1) _ right op this] dist
    have "chain n' (c(k := op)) (s(k := ssp)) (n b) (c a) (ps @ [rs]) (ms @ [op])" by (simp add: k_def n'_def)
    moreover have "a \<noteq> k" "b \<noteq> k" "a \<noteq> last rs" "b \<noteq> last rs" using dist k right(2) by (auto dest: last_in_set)
    ultimately show ?thesis using cells dist by (auto simp: concat_cells_def n'_def)
  qed
  moreover have "set (a # b # List.concat (ps @ [rs]) @ ms @ [op]) = A" by (auto simp: A_def)
  moreover have "\<forall>x\<in>set (List.concat (ps @ [rs])). (s(k := ssp)) x = s x" using dist k by auto
  ultimately show ?thesis by (elim ok_with_mono) blast
qed

section \<open>Templates\<close>

text \<open>The template of one operand, with no buffer and no heap.\<close>

definition template :: "u32 \<Rightarrow> slax_string list \<Rightarrow> string" where
  "template flags segs =
     (if ss_ttype (hd segs) \<noteq> T_QUOTED \<and> \<not> has flags SSF_XPATH
      then ''{'' @ butlast (render (flags OR SSF_QUOTES) 0 [] segs) @ ''}''
      else butlast (render flags 0 [] segs))"

definition template_room :: "u32 \<Rightarrow> slax_string list \<Rightarrow> nat" where
  "template_room flags segs =
     (if ss_ttype (hd segs) \<noteq> T_QUOTED \<and> \<not> has flags SSF_XPATH then 2 + slaxStringLength segs (flags OR SSF_QUOTES)
      else slaxStringLength segs flags)"

lemma has_quotes: "has (flags OR SSF_QUOTES) SSF_NOPARENS = has flags SSF_NOPARENS"
  by (simp add: has_def ssf_defs bit.conj_disj_distrib2)

lemma string_copy_ok:
  assumes "slaxStringLength segs flags \<le> room" "\<forall>ssp \<in> set segs. token_front ssp" "\<not> has flags SSF_NOPARENS"
  shows "slaxStringCopy room segs flags = Some (let out = render flags 0 [] segs in
    (if out = [] then None else Some (butlast out), length out - 1))"
  using copy_marked_ok [OF assms(1,2), of None] assms(3)
  by (auto simp: slaxStringCopy_def bare_segments_keep Let_def)

lemma length_text: "length (butlast (render flags 0 [] segs)) < slaxStringLength segs flags"
  using length_render [of flags 0 "[]" segs] by (simp add: slaxStringLength_def slaxStringLengthCheck_def)

lemma length_template: "length (template flags segs) < template_room flags segs"
  using length_text [of flags segs] length_text [of "flags OR SSF_QUOTES" segs]
  by (simp add: template_def template_room_def del: length_butlast)

lemma part_length_ok:
  assumes "owns h A n c s" "path n a p 0" "p \<noteq> []" "set p \<subseteq> A"
  shows "vt_part_length flags h a = Some (template_room flags (map s p))"
  using assms segments_path [OF assms(1,2,4)]
  by (cases p) (auto simp: vt_part_length_def owns_cell template_room_def vt_braces_def vt_flags_def)

lemma part_copy_ok:
  assumes h: "owns h A n c s" "path n a p 0" "p \<noteq> []" "set p \<subseteq> A"
    and front: "\<forall>x \<in> set p. token_front (s x)" "\<not> has flags SSF_NOPARENS"
    and room: "length out + template_room flags (map s p) \<le> room"
  shows "vt_part_copy room flags h a out = Some (out @ template flags (map s p))"
proof -
  let ?segs = "map s p"
  obtain x xs where p: "p = a # xs" "a \<in> A" using h(2-4) by (cases p) auto
  note cl = owns_cell [OF h(1) p(2)] and sg = segments_path [OF h(1,2,4)]
  show ?thesis
  proof (cases "ss_ttype (s a) \<noteq> T_QUOTED \<and> \<not> has flags SSF_XPATH")
    case True
    let ?tx = "render (flags OR SSF_QUOTES) 0 [] ?segs"
    have r: "slaxStringLength ?segs (flags OR SSF_QUOTES) \<le> room - length (out @ ''{'')" "length out < room"
      "length out + length (butlast ?tx) < room"
      using room True length_text [of "flags OR SSF_QUOTES" ?segs] by (auto simp: template_room_def p(1))
    have "slaxStringCopy (room - length (out @ ''{'')) ?segs (flags OR SSF_QUOTES)
      = Some (let out = ?tx in (if out = [] then None else Some (butlast out), length out - 1))"
      by (rule string_copy_ok) (use r front has_quotes in auto)
    then show ?thesis using True r(2,3)
      by (auto simp: vt_part_copy_def cl sg vt_braces_def vt_flags_def template_def Let_def p(1) simp del: render.simps)
  next
    case False
    let ?tx = "render flags 0 [] ?segs"
    have "slaxStringLength ?segs flags \<le> room - length out"
      using room False by (auto simp: template_room_def p(1))
    from string_copy_ok [OF this] front False show ?thesis
      by (auto simp: vt_part_copy_def cl sg vt_braces_def vt_flags_def template_def Let_def p(1) simp del: render.simps)
  qed
qed

text \<open>Cutting a string off at its marker and linking it again leaves the heap as it was.\<close>

lemma set_next_restore:
  assumes "owns h A n c s" "a \<in> A" "n a = m"
  shows "\<exists>h'. set_next h a 0 = Some h' \<and> owns h' A (n(a := 0)) c s \<and> set_next h' a m = Some h"
proof -
  obtain h' where h': "set_next h a 0 = Some h'" "owns h' A (n(a := 0)) c s" using owns_set_next [OF assms(1,2)] by blast
  have "set_next h' a m = Some h"
    using h' owns_cell [OF assms(1,2)] owns_cell [OF h'(2) assms(2)] assms(3)
    by (cases h) (auto simp: set_next_def set_cell_def cell_def map_upd_triv split: if_splits)
  with h' show ?thesis by blast
qed

text \<open>The loops over the operands: the measured length is the sum of the rooms, and the templates follow each other.\<close>

lemma chain_first: "chain n c s a m ps ms \<Longrightarrow> \<exists>p qs. ps = p # qs \<and> p \<noteq> [] \<and> path n a p m \<and> m = hd ms \<and> ms \<noteq> []"
  by (induction n c s a m ps ms rule: chain.induct) auto

lemma path_last: "path n a p m \<Longrightarrow> p \<noteq> [] \<Longrightarrow> n (last p) = m \<and> a = hd p"
  by (induction p arbitrary: a) auto

lemma operand_cut:
  assumes "owns h A n c s" "path n a p m" "p \<noteq> []" "set p \<subseteq> A" "distinct p"
  shows "\<exists>h'. set_next h (last p) 0 = Some h' \<and> owns h' A (n(last p := 0)) c s \<and> path (n(last p := 0)) a p 0
    \<and> set_next h' (last p) m = Some h \<and> a \<noteq> 0 \<and> last p \<noteq> 0"
proof -
  have p: "last p \<in> A" "hd p \<in> A" using assms(3,4) by auto
  have "a \<noteq> 0" "last p \<noteq> 0" using p owns_pos [OF assms(1)] path_last [OF assms(2,3)] by auto
  with set_next_restore [OF assms(1) p(1)] path_last [OF assms(2,3)] path_redirect [OF assms(2,3,5)] show ?thesis by blast
qed

lemma next_operand:
  assumes "chain n c s a m ps ms" "owns h A n c s" "set (List.concat ps @ ms) \<subseteq> A" "distinct (List.concat ps @ ms)"
  shows "slaxStringSkipToMarker h a m = Some (last (hd ps))"
proof -
  obtain p qs where p: "ps = p # qs" "p \<noteq> []" "path n a p m" "m = hd ms" "ms \<noteq> []" using chain_first [OF assms(1)] by blast
  then have "m \<notin> set p" "set p \<subseteq> A" using assms(3,4) by (cases ms; auto)+
  from skip_path [OF assms(2) p(3,2) this(2,1)] p(1) show ?thesis by simp
qed

lemma length_loop_ok:
  assumes "chain n c s a m ps ms" "owns h A n c s" "set (List.concat ps @ ms) \<subseteq> A" "distinct (List.concat ps @ ms)"
  shows "vt_length_loop flags a m (last (hd ps)) len h = Some (len + sum_list (map (\<lambda>p. template_room flags (map s p)) ps), h)"
  using assms
proof (induction n c s a m ps ms arbitrary: len rule: chain.induct)
  case (1 n c s a m p x)
  then have p: "p \<noteq> []" "path n a p m" "m \<in> A" "set p \<subseteq> A" "distinct p" "mark (s m) L_CPAREN '')''" by auto
  from operand_cut [OF 1(2) p(2,1,4,5)] obtain h' where h': "set_next h (last p) 0 = Some h'"
    "owns h' A (n(last p := 0)) c s" "path (n(last p := 0)) a p 0" "set_next h' (last p) m = Some h" "a \<noteq> 0" "last p \<noteq> 0" by blast
  show ?case
    using p h' part_length_ok [OF h'(2,3) p(1,4)] owns_cell [OF 1(2) p(3)]
    by (subst vt_length_loop.simps) (simp add: mark_def)
next
  case (2 n c s a m p q ps x y ms)
  then have p: "p \<noteq> []" "path n a p m" "m \<in> A" "set p \<subseteq> A" "distinct p" "mark (s m) L_COMMA '',''"
    "chain n c s (n m) (c m) (q # ps) (y # ms)" "set (List.concat (q # ps) @ y # ms) \<subseteq> A"
    "distinct (List.concat (q # ps) @ y # ms)" by auto
  from operand_cut [OF 2(3) p(2,1,4,5)] obtain h' where h': "set_next h (last p) 0 = Some h'"
    "owns h' A (n(last p := 0)) c s" "path (n(last p := 0)) a p 0" "set_next h' (last p) m = Some h" "a \<noteq> 0" "last p \<noteq> 0" by blast
  show ?case
    using p(6) h' part_length_ok [OF h'(2,3) p(1,4), of flags] owns_cell [OF 2(3) p(3)]
      next_operand [OF p(7) 2(3) p(8,9)] 2(1) [OF p(7) 2(3) p(8,9)]
    by (subst vt_length_loop.simps) (simp add: mark_def ttypes)
qed auto

lemma copy_loop_parts_ok:
  assumes "chain n c s a m ps ms" "owns h A n c s" "set (List.concat ps @ ms) \<subseteq> A" "distinct (List.concat ps @ ms)"
    and "\<forall>x \<in> set (List.concat ps). token_front (s x)" "\<not> has flags SSF_NOPARENS"
    and "length out + sum_list (map (\<lambda>p. template_room flags (map s p)) ps) \<le> room"
  shows "vt_copy_loop room flags a m (last (hd ps)) out h
    = Some (out @ List.concat (map (\<lambda>p. template flags (map s p)) ps), h)"
  using assms
proof (induction n c s a m ps ms arbitrary: out rule: chain.induct)
  case (1 n c s a m p x)
  then have p: "p \<noteq> []" "path n a p m" "m \<in> A" "set p \<subseteq> A" "distinct p" "mark (s m) L_CPAREN '')''"
    "\<forall>x \<in> set p. token_front (s x)" "length out + template_room flags (map s p) \<le> room" by auto
  from operand_cut [OF 1(2) p(2,1,4,5)] obtain h' where h': "set_next h (last p) 0 = Some h'"
    "owns h' A (n(last p := 0)) c s" "path (n(last p := 0)) a p 0" "set_next h' (last p) m = Some h" "a \<noteq> 0" "last p \<noteq> 0" by blast
  show ?case
    using p(6) h' part_copy_ok [OF h'(2,3) p(1,4,7) 1(6) p(8)] owns_cell [OF 1(2) p(3)]
    by (subst vt_copy_loop.simps) (simp add: mark_def)
next
  case (2 n c s a m p q ps x y ms)
  then have p: "p \<noteq> []" "path n a p m" "m \<in> A" "set p \<subseteq> A" "distinct p" "mark (s m) L_COMMA '',''"
    "chain n c s (n m) (c m) (q # ps) (y # ms)" "set (List.concat (q # ps) @ y # ms) \<subseteq> A"
    "distinct (List.concat (q # ps) @ y # ms)" "\<forall>x \<in> set p. token_front (s x)"
    "\<forall>x \<in> set (List.concat (q # ps)). token_front (s x)" by auto
  have room: "length out + template_room flags (map s p) \<le> room"
    "length (out @ template flags (map s p)) + sum_list (map (\<lambda>p. template_room flags (map s p)) (q # ps)) \<le> room"
    using 2(8) length_template [of flags "map s p"] by simp_all
  from operand_cut [OF 2(3) p(2,1,4,5)] obtain h' where h': "set_next h (last p) 0 = Some h'"
    "owns h' A (n(last p := 0)) c s" "path (n(last p := 0)) a p 0" "set_next h' (last p) m = Some h" "a \<noteq> 0" "last p \<noteq> 0" by blast
  show ?case
    using p(6) h' part_copy_ok [OF h'(2,3) p(1,4,10) 2(7) room(1)] owns_cell [OF 2(3) p(3)]
      next_operand [OF p(7) 2(3) p(8,9)] 2(1) [OF p(7) 2(3) p(8,9,11) 2(7) room(2)]
    by (subst vt_copy_loop.simps) (simp add: mark_def ttypes)
qed auto

section \<open>Strings of the parser\<close>

text \<open>What the cells at an address hold.\<close>

definition nxt :: "slax_heap \<Rightarrow> nat \<Rightarrow> nat" where "nxt h a = (case h_cell h a of Some c \<Rightarrow> ss_next c | None \<Rightarrow> 0)"
definition con :: "slax_heap \<Rightarrow> nat \<Rightarrow> nat" where "con h a = (case h_cell h a of Some c \<Rightarrow> ss_concat c | None \<Rightarrow> 0)"
definition seg :: "slax_heap \<Rightarrow> nat \<Rightarrow> slax_string" where
  "seg h a = (case h_cell h a of Some c \<Rightarrow> ss_seg c | None \<Rightarrow> segment [] 0)"

definition live :: "slax_heap \<Rightarrow> nat set \<Rightarrow> bool" where
  "live h A \<longleftrightarrow> 0 < h_brk h \<and> h_mem h = (\<lambda>_. True) \<and> (\<forall>a\<in>A. 0 < a \<and> a < h_brk h \<and> h_cell h a \<noteq> None)"

lemma live_owns: "live h A \<longleftrightarrow> owns h A (nxt h) (con h) (seg h)"
  by (auto simp: live_def owns_def nxt_def con_def seg_def)

lemma owns_live: "owns h A n c s \<Longrightarrow> live h A \<and> (\<forall>a\<in>A. nxt h a = n a \<and> con h a = c a \<and> seg h a = s a)"
  by (auto simp: live_def owns_def nxt_def con_def seg_def)

text \<open>A string that is not a concatenation, in the cells \<open>xs\<close>; and the operands of a concatenation.\<close>

definition string_at :: "slax_heap \<Rightarrow> nat \<Rightarrow> nat list \<Rightarrow> slax_string list \<Rightarrow> bool" where
  "string_at h a xs segs \<longleftrightarrow> live h (set xs) \<and> path (nxt h) a xs 0 \<and> xs \<noteq> [] \<and> distinct xs \<and> segs = map (seg h) xs"

definition concat_at :: "slax_heap \<Rightarrow> nat \<Rightarrow> nat list \<Rightarrow> slax_string list list \<Rightarrow> bool" where
  "concat_at h a xs parts \<longleftrightarrow> (\<exists>b ps ms. xs = a # b # List.concat ps @ ms \<and> live h (set xs) \<and> 2 \<le> length ps
     \<and> concat_cells (nxt h) (con h) (seg h) a b ps ms \<and> parts = map (map (seg h)) ps)"

lemma chain_cong:
  "chain n c s a m ps ms \<Longrightarrow> (\<And>x. x \<in> set (List.concat ps @ ms) \<Longrightarrow> n' x = n x \<and> c' x = c x \<and> s' x = s x)
    \<Longrightarrow> chain n' c' s' a m ps ms"
proof (induction n c s a m ps ms rule: chain.induct)
  case (1 n c s a m p x)
  have "path n' a p m = path n a p m" by (rule path_cong) (use 1 in auto)
  with 1 show ?case by simp
next
  case (2 n c s a m p q ps x y ms)
  have "path n' a p m = path n a p m" by (rule path_cong) (use 2(3) in auto)
  moreover have "chain n' c' s' (n m) (c m) (q # ps) (y # ms)" by (rule 2(1)) (use 2(2,3) in auto)
  moreover have "n' m = n m \<and> c' m = c m \<and> s' m = s m" using 2(2,3) by simp
  ultimately show ?case using 2(2) by simp
qed auto

lemma concat_cells_cong:
  assumes "concat_cells n c s a b ps ms"
    and "\<And>x. x \<in> set (a # b # List.concat ps @ ms) \<Longrightarrow> n' x = n x \<and> c' x = c x \<and> s' x = s x"
  shows "concat_cells n' c' s' a b ps ms"
  using assms chain_cong [of n c s "n b" "c a" ps ms n' c' s'] by (simp add: concat_cells_def)

lemma concat_at_I:
  assumes "owns h (set (a # b # List.concat ps @ ms)) n c s" "concat_cells n c s a b ps ms" "2 \<le> length ps"
    "\<And>x. x \<in> set (List.concat ps) \<Longrightarrow> s x = s0 x"
  shows "concat_at h a (a # b # List.concat ps @ ms) (map (map s0) ps)"
proof -
  note l = owns_live [OF assms(1)]
  have "concat_cells (nxt h) (con h) (seg h) a b ps ms" by (rule concat_cells_cong [OF assms(2)]) (use l in blast)
  moreover have "map (map s0) ps = map (map (seg h)) ps"
  proof (intro map_cong refl)
    fix p x assume "p \<in> set ps" "x \<in> set p"
    then have "x \<in> set (List.concat ps)" by auto
    with l assms(4) [of x] show "s0 x = seg h x" by simp
  qed
  ultimately show ?thesis using l assms(3) unfolding concat_at_def by blast
qed

text \<open>Both kinds of left operand.\<close>

definition operand_at :: "slax_heap \<Rightarrow> nat \<Rightarrow> nat list \<Rightarrow> slax_string list list \<Rightarrow> bool" where
  "operand_at h a xs parts \<longleftrightarrow>
     concat_at h a xs parts \<or> (\<exists>segs. parts = [segs] \<and> string_at h a xs segs \<and> ss_ttype (hd segs) \<noteq> M_CONCAT)"

definition underscore :: "slax_heap \<Rightarrow> nat \<Rightarrow> bool" where
  "underscore h op \<longleftrightarrow> live h {op} \<and> nxt h op = 0 \<and> mark (seg h op) L_UNDERSCORE ''_''"

definition not_fused :: "slax_heap \<Rightarrow> nat \<Rightarrow> nat \<Rightarrow> bool" where
  "not_fused h a b \<longleftrightarrow> (case (h_cell h a, h_cell h b) of (Some l, Some r) \<Rightarrow> \<not> fusable l r | _ \<Rightarrow> True)"

lemma operand_live: "operand_at h a xs parts \<Longrightarrow> live h (set xs) \<and> a \<in> set xs"
  by (cases xs) (auto simp: operand_at_def concat_at_def string_at_def)

lemma concat_rewrite_ok:
  assumes left: "operand_at h a xs parts" and right: "string_at h r ys segs" and op: "underscore h op" "not_fused h a r"
    and dist: "distinct (xs @ ys @ [op])"
  shows "ok_with (slaxConcatRewrite h a op r)
    (\<lambda>(a', h'). \<exists>xs'. concat_at h' a' xs' (parts @ [segs]) \<and> set (xs @ ys @ [op]) \<subseteq> set xs')"
proof -
  define A where "A = set (xs @ ys @ [op])"
  define ssp where "ssp = (seg h op)\<lparr>ss_token := '')'', ss_ttype := L_CPAREN\<rparr>"
  define s where "s = (seg h)(op := ssp)"
  have r: "live h (set ys)" "path (nxt h) r ys 0" "ys \<noteq> []" "segs = map (seg h) ys" "r \<in> set ys"
    using right path_last [of "nxt h" r ys 0] by (auto simp: string_at_def)
  have o1: "owns h A (nxt h) (con h) (seg h)"
    using operand_live [OF left] r(1) op(1) by (auto simp: live_owns [symmetric] live_def A_def underscore_def)
  have inA: "a \<in> A" "r \<in> A" "op \<in> A" using operand_live [OF left] r(5) by (auto simp: A_def)
  have pos: "a \<noteq> 0" "r \<noteq> 0" "op \<noteq> 0" using inA owns_pos [OF o1] by blast+
  have sf: "set_first (seg h op) CHR '')'' L_CPAREN = Some ssp"
    using op(1) by (simp add: underscore_def mark_def set_first_def ssp_def)
  obtain h1 where h1: "set_seg h op ssp = Some h1" "owns h1 A (nxt h) (con h) s"
    using owns_set_seg [OF o1 inA(3), of ssp] unfolding s_def by blast
  have nf: "\<not> fusable \<lparr>ss_next = nxt h a, ss_concat = con h a, ss_seg = seg h a\<rparr> \<lparr>ss_next = nxt h r, ss_concat = con h r, ss_seg = seg h r\<rparr>"
    using op(2) owns_cell [OF o1 inA(1)] owns_cell [OF o1 inA(2)] pos by (simp add: not_fused_def cell_def)
  have rw: "slaxConcatRewrite h a op r = (if ss_ttype (seg h a) \<noteq> M_CONCAT then concat_first h1 a op r else concat_more h1 a op r)"
    using pos nf by (simp add: slaxConcatRewrite_def owns_cell [OF o1 inA(1)] owns_cell [OF o1 inA(2)] owns_cell [OF o1 inA(3)] sf h1(1))
  have o: "nxt h op = 0" "mark (s op) L_CPAREN '')''" using op(1) by (simp_all add: underscore_def s_def ssp_def mark_def)
  have same: "x \<in> set (xs @ ys) \<Longrightarrow> s x = seg h x" for x using dist by (auto simp: s_def)
  show ?thesis
  proof (cases "concat_at h a xs parts")
    case False
    then have l: "path (nxt h) a xs 0" "xs \<noteq> []" "parts = [map (seg h) xs]" "ss_ttype (seg h a) \<noteq> M_CONCAT"
      using left path_last [of "nxt h" a xs 0] by (auto simp: operand_at_def string_at_def hd_map)
    have "ok_with (concat_first h1 a op r) (\<lambda>(a, h'). \<exists>b m n' c' s'.
        owns h' (set (a # b # (xs @ ys) @ [m, op])) n' c' s' \<and> concat_cells n' c' s' a b [xs, ys] [m, op]
        \<and> (\<forall>x\<in>set (xs @ ys). s' x = s x))"
      using concat_first_ok [OF h1(2) [unfolded A_def] l(1,2) r(2,3) dist o] .
    then show ?thesis unfolding rw if_P [OF l(4)]
    proof (rule ok_with_mono, clarify)
      fix a' h' b m n' c' s'
      assume *: "owns h' (set (a' # b # (xs @ ys) @ [m, op])) n' c' s'" "concat_cells n' c' s' a' b [xs, ys] [m, op]"
        "\<forall>x\<in>set (xs @ ys). s' x = s x"
      have "concat_at h' a' (a' # b # List.concat [xs, ys] @ [m, op]) (map (map (seg h)) [xs, ys])"
        by (rule concat_at_I [of _ _ _ _ _ n' c' s']) (use * same in auto)
      then show "\<exists>xs'. concat_at h' a' xs' (parts @ [segs]) \<and> set (xs @ ys @ [op]) \<subseteq> set xs'"
        using l(3) r(4) by (intro exI [of _ "a' # b # List.concat [xs, ys] @ [m, op]"]) auto
    qed
  next
    case True
    then obtain b ps ms where l: "xs = a # b # List.concat ps @ ms" "2 \<le> length ps"
      "concat_cells (nxt h) (con h) (seg h) a b ps ms" "parts = map (map (seg h)) ps"
      unfolding concat_at_def by blast
    have cells: "concat_cells (nxt h) (con h) s a b ps ms"
      by (rule concat_cells_cong [OF l(3)]) (use same l(1) in auto)
    have "\<not> ss_ttype (seg h a) \<noteq> M_CONCAT" using l(3) by (simp add: concat_cells_def mark_def)
    note rw' = rw [unfolded if_not_P [OF this]]
    have own': "owns h1 (set (a # b # List.concat ps @ ms @ ys @ [op])) (nxt h) (con h) s"
      using h1(2) by (simp add: A_def l(1) Un_assoc)
    have dist': "distinct ((a # b # List.concat ps @ ms) @ ys @ [op])" using dist l(1) by simp
    show ?thesis unfolding rw'
    proof (rule ok_with_mono [OF concat_more_ok [OF own' cells r(2,3) dist' o]], clarify)
      fix h' n' c' s'
      assume *: "owns h' (set (a # b # List.concat (ps @ [ys]) @ ms @ [op])) n' c' s'"
        "concat_cells n' c' s' a b (ps @ [ys]) (ms @ [op])" "\<forall>x\<in>set (List.concat (ps @ [ys])). s' x = s x"
      have "concat_at h' a (a # b # List.concat (ps @ [ys]) @ ms @ [op]) (map (map (seg h)) (ps @ [ys]))"
        by (rule concat_at_I [OF *(1,2)]) (use l(1,2) *(3) same in auto)
      then show "\<exists>xs'. concat_at h' a xs' (parts @ [segs]) \<and> set (xs @ ys @ [op]) \<subseteq> set xs'"
        using l(1,4) r(4) by (intro exI [of _ "a # b # List.concat (ps @ [ys]) @ ms @ [op]"]) auto
    qed
  qed
qed

section \<open>The template of a concatenation\<close>

lemma value_template_ok:
  assumes "concat_at h a xs parts" "\<forall>p \<in> set parts. \<forall>ssp \<in> set p. token_front ssp" "\<not> has (flags OR SSF_BRACES) SSF_NOPARENS"
  shows "slaxStringAsValueTemplate h a flags
    = Some (Some (Some (List.concat (map (template (flags OR SSF_BRACES)) parts))), h)"
proof -
  obtain b ps ms where l: "xs = a # b # List.concat ps @ ms" "live h (set xs)"
    "concat_cells (nxt h) (con h) (seg h) a b ps ms" "parts = map (map (seg h)) ps"
    using assms(1) unfolding concat_at_def by blast
  let ?n = "nxt h" and ?c = "con h" and ?s = "seg h" and ?A = "set xs" and ?f = "flags OR SSF_BRACES"
  note own = l(2) [unfolded live_owns]
  have in_A: "a \<in> ?A" "b \<in> ?A" "set (List.concat ps @ ms) \<subseteq> ?A" using l(1) by auto
  have cc: "chain ?n ?c ?s (?n b) (?c a) ps ms" "distinct (List.concat ps @ ms)" "?n a = b" "ss_ttype (?s a) = M_CONCAT"
    using l(3) by (auto simp: concat_cells_def mark_def)
  note ca = owns_cell [OF own in_A(1)] and cb = owns_cell [OF own in_A(2)]
  have pos: "a \<noteq> 0" "b \<noteq> 0" using in_A owns_pos [OF own] by blast+
  have start: "vt_start h a = Some (?n b, ?c a, last (hd ps))"
    using next_operand [OF cc(1) own in_A(3) cc(2)] by (simp add: vt_start_def ca cb cc(3))
  define len where "len = sum_list (map (\<lambda>p. template_room ?f (map ?s p)) ps)"
  have 1: "slaxStringValueTemplateLength h a ?f = Some (len, h)"
    using length_loop_ok [OF cc(1) own in_A(3) cc(2), of ?f 0]
    by (simp add: slaxStringValueTemplateLength_def ca cc(4) start len_def)
  define out where "out = List.concat (map (\<lambda>p. template ?f (map ?s p)) ps)"
  have fr: "\<forall>x \<in> set (List.concat ps). token_front (?s x)" using assms(2) l(4) by auto
  have "length (List.concat (map (\<lambda>p. template ?f (map ?s p)) qs)) \<le> sum_list (map (\<lambda>p. template_room ?f (map ?s p)) qs)" for qs
  proof (induction qs)
    case (Cons q qs)
    with length_template [of ?f "map ?s q"] show ?case by simp
  qed simp
  then have room: "length out \<le> len" by (simp add: out_def len_def)
  have 2: "slaxStringValueTemplateCopy len h a ?f = Some (out, h)"
    using copy_loop_parts_ok [OF cc(1) own in_A(3) cc(2) fr assms(3), of "[]" len] room
    by (simp add: slaxStringValueTemplateCopy_def ca cc(4) start len_def out_def)
  have "slaxStringIsSimple2 h a T_QUOTED T_NUMBER = Some False"
    by (simp add: slaxStringIsSimple2_def pos ca cc(3,4) ttypes)
  moreover have "h_mem h (len + 1)" using own by (simp add: owns_def)
  ultimately show ?thesis
    using 1 2 l(4) by (simp add: slaxStringAsValueTemplate_def Let_def out_def comp_def)
qed

section \<open>Fusing\<close>

definition quoted_at :: "slax_heap \<Rightarrow> nat \<Rightarrow> slax_string \<Rightarrow> bool" where
  "quoted_at h a ssp \<longleftrightarrow> string_at h a [a] [ssp] \<and> ss_ttype ssp = T_QUOTED"

lemma template_quoted:
  "ss_ttype ssp = T_QUOTED \<Longrightarrow> \<not> has flags SSF_QUOTES \<Longrightarrow> has flags SSF_BRACES \<Longrightarrow> template flags [ssp] = double_braces (ss_token ssp)"
  by (simp add: template_def trimmed_def segment_text_def space_after_def Let_def ttypes)

lemma double_braces_append: "double_braces (x @ y) = double_braces x @ double_braces y"
  by (simp add: double_braces_def)

text \<open>Two quoted strings from the rewriting to the fusing; \<open>left\<close> is linked to \<open>right\<close> then.\<close>

lemma fuse_linked:
  assumes l: "quoted_at h a x" and r: "quoted_at h b y" and ab: "a \<noteq> b" and B: "live h B"
    and q: "ss_flags x AND SSF_QUOTE_MASK = ss_flags y AND SSF_QUOTE_MASK"
  shows "\<exists>h1. cell h a = Some \<lparr>ss_next = 0, ss_concat = con h a, ss_seg = x\<rparr>
    \<and> cell h b = Some \<lparr>ss_next = 0, ss_concat = con h b, ss_seg = y\<rparr>
    \<and> fusable \<lparr>ss_next = 0, ss_concat = con h a, ss_seg = x\<rparr> \<lparr>ss_next = 0, ss_concat = con h b, ss_seg = y\<rparr>
    \<and> set_next h a b = Some h1 \<and> owns h1 ({a, b} \<union> B) ((nxt h)(a := b)) (con h) (seg h)
    \<and> segments h1 a = Some [x, y] \<and> a \<noteq> 0 \<and> b \<noteq> 0 \<and> nxt h b = 0"
proof -
  have s: "live h ({a, b} \<union> B)" "nxt h a = 0" "nxt h b = 0" "seg h a = x" "seg h b = y" "ss_ttype x = T_QUOTED" "ss_ttype y = T_QUOTED"
    using l r B by (auto simp: quoted_at_def string_at_def live_def)
  note own = s(1) [unfolded live_owns]
  obtain h1 where h1: "set_next h a b = Some h1" "owns h1 ({a, b} \<union> B) ((nxt h)(a := b)) (con h) (seg h)"
    using owns_set_next [OF own, of a b] by blast
  have "segments h1 a = Some (map (seg h) [a, b])"
    by (rule segments_path [OF h1(2)]) (use s ab in auto)
  moreover have "a \<noteq> 0" "b \<noteq> 0" using owns_pos [OF own] by auto
  ultimately show ?thesis
    using h1 s q owns_cell [OF own, of a] owns_cell [OF own, of b] by (simp add: fusable_def)
qed

lemma fuse_ok:
  assumes l: "quoted_at h a x" and r: "quoted_at h b y" and op: "underscore h op" and ne: "a \<noteq> b" "op \<noteq> a" "op \<noteq> b"
    and q: "ss_flags x AND SSF_QUOTE_MASK = ss_flags y AND SSF_QUOTE_MASK"
    and tok: "ss_token x @ ss_token y \<noteq> []"
  shows "ok_with (slaxConcatRewrite h a op b) (\<lambda>(f, h'). quoted_at h' f (segment (ss_token x @ ss_token y) T_QUOTED))"
proof -
  have o: "live h {op}" "nxt h op = 0" using op by (simp_all add: underscore_def)
  obtain h1 where h1: "cell h a = Some \<lparr>ss_next = 0, ss_concat = con h a, ss_seg = x\<rparr>"
    "cell h b = Some \<lparr>ss_next = 0, ss_concat = con h b, ss_seg = y\<rparr>"
    "fusable \<lparr>ss_next = 0, ss_concat = con h a, ss_seg = x\<rparr> \<lparr>ss_next = 0, ss_concat = con h b, ss_seg = y\<rparr>"
    "set_next h a b = Some h1" "owns h1 ({a, b} \<union> {op}) ((nxt h)(a := b)) (con h) (seg h)"
    "segments h1 a = Some [x, y]" "a \<noteq> 0" "b \<noteq> 0" "nxt h b = 0"
    using fuse_linked [OF l r ne(1) o(1) q] by (elim exE conjE) (rule that)
  define f where "f = h_brk h1"
  define ssp where "ssp = segment (ss_token x @ ss_token y) T_QUOTED"
  define h2 where "h2 = snd (new_cell h1 ssp (h_fresh h1))"
  have f: "f \<noteq> 0" "f \<notin> {a, b, op}" using h1(5) by (auto simp: owns_def f_def)
  let ?n = "(nxt h)(a := b, f := 0)" and ?c = "(con h)(f := h_fresh h1)" and ?s = "(seg h)(f := ssp)"
  have o2: "owns h2 {f, a, b, op} ?n ?c ?s"
    using h1(5) f by (auto simp: owns_def h2_def new_cell_def f_def)
  have tx: "ss_ttype x = T_QUOTED" using l by (simp add: quoted_at_def)
  have mem: "h_mem h1 = (\<lambda>_. True)" using h1(5) by (simp add: owns_def)
  have "(ss_token x = [] \<and> ss_token y = []) = False" using tok by simp
  then have fuse: "slaxStringFuse h1 a = Some (f, h2)"
    by (simp del: de_Morgan_conj add: slaxStringFuse_def h1(6) mem tx ssp_def h2_def f_def new_cell_def Let_def)
  have "path ?n a [a, b] 0" using ne f h1(9) by simp
  then have "\<exists>h3. slaxStringFree h2 a = Some h3 \<and> owns h3 ({f, a, b, op} - set [a, b]) ?n ?c ?s"
    by (rule free_path [OF o2]) (use ne(1) in simp_all)
  then obtain h3 where h3: "slaxStringFree h2 a = Some h3" "owns h3 ({f, a, b, op} - set [a, b]) ?n ?c ?s" by blast
  have "path ?n op [op] 0" using ne f o(2) by simp
  then have "\<exists>h4. slaxStringFree h3 op = Some h4 \<and> owns h4 ({f, a, b, op} - set [a, b] - set [op]) ?n ?c ?s"
    by (rule free_path [OF h3(2)]) (use ne(2,3) in simp_all)
  then obtain h4 where h4: "slaxStringFree h3 op = Some h4" "owns h4 ({f, a, b, op} - set [a, b] - set [op]) ?n ?c ?s" by blast
  have "owns h4 {f} ?n ?c ?s" by (rule owns_mono [OF h4(2)]) (use f in auto)
  from owns_live [OF this] have "quoted_at h4 f ssp"
    by (simp add: quoted_at_def string_at_def) (simp add: ssp_def segment_def)
  moreover have "op \<noteq> 0" using o(1) by (auto simp: live_def)
  ultimately show ?thesis
    unfolding slaxConcatRewrite_def using h1(7,8) f by (simp add: h1(1-4) fuse h3(1) h4(1) ssp_def)
qed

text \<open>Walking a list whose links never leave a set of cells has no end.\<close>

lemma list_end_cycle:
  assumes "\<forall>x\<in>S. \<exists>c. cell h x = Some c \<and> ss_next c \<in> S \<and> ss_next c \<noteq> 0" "a \<in> S"
  shows "list_end h a = None"
proof -
  have "h' = h \<Longrightarrow> a \<in> S \<Longrightarrow> False" if "list_end h' a = Some e" for h' a e
    using that
  proof (induction h' a e rule: list_end.raw_induct [rotated, consumes 1])
    case (1 le h' a e)
    obtain c where c: "cell h a = Some c" "ss_next c \<in> S" "ss_next c \<noteq> 0"
      using bspec [OF assms(1) 1(4)] by (elim exE conjE) (rule that)
    have "le h' (ss_next c) = Some e" using 1(2) c(3) unfolding 1(3) c(1) by simp
    from 1(1) [OF this 1(3) c(2)] show False .
  qed
  from this [OF _ refl assms(2)] show ?thesis by (cases "list_end h a") simp_all
qed

text \<open>Building the call around a left operand that is linked to the right one already.\<close>

lemma concat_first_linked:
  assumes own: "owns h {a, r, op} n c s" and link: "n a = r" "n r = 0" "a \<noteq> r"
  shows "concat_first h a op r = None"
proof -
  obtain con h1 where 1: "string_literal h ''concat'' M_CONCAT = (con, h1)" "con \<notin> {a, r, op}" "con \<noteq> 0"
    "owns h1 (insert con {a, r, op}) (n(con := 0)) (c(con := 0)) (s(con := segment ''concat'' M_CONCAT))"
    using owns_literal [OF own] by blast
  obtain b h2 where 2: "string_literal h1 ''('' L_OPAREN = (b, h2)" "b \<notin> insert con {a, r, op}" "b \<noteq> 0"
    "owns h2 (insert b (insert con {a, r, op})) (n(con := 0, b := 0)) (c(con := 0, b := 0))
      (s(con := segment ''concat'' M_CONCAT, b := segment ''('' L_OPAREN))"
    using owns_literal [OF 1(4)] by blast
  define s3 where "s3 m = s(con := segment ''concat'' M_CONCAT, b := segment ''('' L_OPAREN, m := segment '','' L_COMMA)" for m
  obtain m h3 where 3: "string_literal h2 '','' L_COMMA = (m, h3)" "m \<notin> insert b (insert con {a, r, op})" "m \<noteq> 0"
    "owns h3 (insert m (insert b (insert con {a, r, op}))) (n(con := 0, b := 0, m := 0)) (c(con := 0, b := 0, m := 0)) (s3 m)"
    using owns_literal [OF 2(4)] unfolding s3_def by blast
  let ?A = "insert m (insert b (insert con {a, r, op}))"
  have inA: "con \<in> ?A" "b \<in> ?A" "m \<in> ?A" "r \<in> ?A" "set [a, r] \<subseteq> ?A" by auto
  obtain h4 where 4: "set_next h3 con b = Some h4" "owns h4 ?A (n(con := 0, b := 0, m := 0, con := b)) (c(con := 0, b := 0, m := 0)) (s3 m)"
    using owns_set_next [OF 3(4) inA(1), of b] by blast
  obtain h5 where 5: "set_next h4 b a = Some h5"
    "owns h5 ?A (n(con := 0, b := 0, m := 0, con := b, b := a)) (c(con := 0, b := 0, m := 0)) (s3 m)"
    using owns_set_next [OF 4(2) inA(2), of a] by blast
  have "list_end h5 a = Some (last [a, r])"
    by (rule list_end_path [OF 5(2) _ _ inA(5)]) (use link 1(2) 2(2) 3(2) in auto)
  then have e: "list_end h5 a = Some r" by simp
  obtain h6 where 6: "set_next h5 r m = Some h6"
    "owns h6 ?A (n(con := 0, b := 0, m := 0, con := b, b := a, r := m)) (c(con := 0, b := 0, m := 0)) (s3 m)"
    using owns_set_next [OF 5(2) inA(4), of m] by blast
  obtain h7 where 7: "set_concat h6 con m = Some h7"
    "owns h7 ?A (n(con := 0, b := 0, m := 0, con := b, b := a, r := m)) (c(con := 0, b := 0, m := 0, con := m)) (s3 m)"
    using owns_set_concat [OF 6(2) inA(1), of m] by blast
  obtain h8 where 8: "set_next h7 m r = Some h8"
    "owns h8 ?A (n(con := 0, b := 0, m := 0, con := b, b := a, r := m, m := r)) (c(con := 0, b := 0, m := 0, con := m)) (s3 m)"
    using owns_set_next [OF 7(2) inA(3), of r] by blast
  have "m \<noteq> r" "r \<noteq> 0" using 3(2) owns_pos [OF own, of r] by auto
  then have "list_end h8 r = None"
    using 3(3) by (intro list_end_cycle [of "{r, m}"]) (simp_all add: owns_cell [OF 8(2)])
  then show ?thesis
    unfolding concat_first_def 1(1) 2(1) 3(1) Let_def prod.case if_P [OF conjI [OF 1(3) conjI [OF 2(3) 3(3)]]]
      4(1) 5(1) 6(1) 7(1) 8(1) e bind.bind_lunit by simp
qed

lemma concat_empty:
  assumes l: "quoted_at h a x" and r: "quoted_at h b y" and op: "underscore h op" and ne: "a \<noteq> b" "op \<noteq> a" "op \<noteq> b"
    and q: "ss_flags x AND SSF_QUOTE_MASK = ss_flags y AND SSF_QUOTE_MASK"
    and tok: "ss_token x = []" "ss_token y = []"
  shows "slaxConcatRewrite h a op b = None"
proof -
  have o: "live h {op}" "nxt h op = 0" "mark (seg h op) L_UNDERSCORE ''_''" using op by (simp_all add: underscore_def)
  obtain h1 where h1: "cell h a = Some \<lparr>ss_next = 0, ss_concat = con h a, ss_seg = x\<rparr>"
    "cell h b = Some \<lparr>ss_next = 0, ss_concat = con h b, ss_seg = y\<rparr>"
    "fusable \<lparr>ss_next = 0, ss_concat = con h a, ss_seg = x\<rparr> \<lparr>ss_next = 0, ss_concat = con h b, ss_seg = y\<rparr>"
    "set_next h a b = Some h1" "owns h1 ({a, b} \<union> {op}) ((nxt h)(a := b)) (con h) (seg h)"
    "segments h1 a = Some [x, y]" "a \<noteq> 0" "b \<noteq> 0" "nxt h b = 0"
    using fuse_linked [OF l r ne(1) o(1) q] by (elim exE conjE) (rule that)
  have fuse: "slaxStringFuse h1 a = Some (0, h1)" by (simp add: slaxStringFuse_def h1(6) tok)
  define ssp where "ssp = (seg h op)\<lparr>ss_token := '')'', ss_ttype := L_CPAREN\<rparr>"
  have own1: "owns h1 {a, b, op} ((nxt h)(a := b)) (con h) (seg h)" using h1(5) by (simp add: insert_commute)
  have op1: "op \<in> {a, b, op}" by simp
  have co: "cell h1 op = Some \<lparr>ss_next = ((nxt h)(a := b)) op, ss_concat = con h op, ss_seg = seg h op\<rparr>"
    by (rule owns_cell [OF own1 op1])
  have sf: "set_first (seg h op) CHR '')'' L_CPAREN = Some ssp" using o(3) by (simp add: mark_def set_first_def ssp_def)
  obtain h2 where h2: "set_seg h1 op ssp = Some h2" "owns h2 {a, b, op} ((nxt h)(a := b)) (con h) ((seg h)(op := ssp))"
    using owns_set_seg [OF own1 op1, of ssp] by blast
  have "concat_first h2 a op b = None" by (rule concat_first_linked [OF h2(2)]) (use h1(9) ne in simp_all)
  moreover have "ss_ttype x \<noteq> M_CONCAT" using l by (simp add: quoted_at_def ttypes)
  moreover have "op \<noteq> 0" using o(1) by (auto simp: live_def)
  ultimately show ?thesis
    unfolding slaxConcatRewrite_def using h1(7,8) by (simp add: h1(1-4) fuse co sf h2(1))
qed

section \<open>Properties\<close>

definition heap_of :: "(nat \<times> slax_cell) list \<Rightarrow> slax_heap" where
  "heap_of cells = \<lparr>h_cell = map_of cells, h_brk = Suc (length cells), h_mem = (\<lambda>_. True), h_fresh = 0, h_varnumber = 0\<rparr>"

lemmas at_defs = string_at_def operand_at_def underscore_def not_fused_def quoted_at_def live_def nxt_def con_def seg_def
  heap_of_def fusable_def

text \<open>
  C37 (refinement): an underscore between a string or a concatenation and a further string, none of whose cells
  are shared, makes a concatenation in the heap whose operands are the old ones and the new one behind them, in order
  and each with its segments unchanged; the call of \<^verbatim>\<open>concat\<close> is built around the first two operands, and a later
  operand goes behind the last one.
\<close>

theorem slax_concat:
  assumes "operand_at h left xs parts" "string_at h right ys segs" "underscore h op" "not_fused h left right"
    and "distinct (xs @ ys @ [op])"
  shows "ok_with (slaxConcatRewrite h left op right)
    (\<lambda>(a, h'). \<exists>zs. concat_at h' a zs (parts @ [segs]) \<and> set (xs @ ys @ [op]) \<subseteq> set zs)"
  by (rule concat_rewrite_ok [OF assms])

lemma slax_concat_witness:
  "ok_with (slaxConcatRewrite (heap_of [(1, \<lparr>ss_next = 0, ss_concat = 0, ss_seg = segment ''a'' T_BARE\<rparr>),
      (2, \<lparr>ss_next = 0, ss_concat = 0, ss_seg = segment ''_'' L_UNDERSCORE\<rparr>),
      (3, \<lparr>ss_next = 0, ss_concat = 0, ss_seg = segment ''b'' T_QUOTED\<rparr>)]) 1 2 3)
    (\<lambda>(a, h'). \<exists>zs. concat_at h' a zs [[segment ''a'' T_BARE], [segment ''b'' T_QUOTED]] \<and> {1, 2, 3} \<subseteq> set zs)"
proof -
  let ?h = "heap_of [(1, \<lparr>ss_next = 0, ss_concat = 0, ss_seg = segment ''a'' T_BARE\<rparr>),
      (2, \<lparr>ss_next = 0, ss_concat = 0, ss_seg = segment ''_'' L_UNDERSCORE\<rparr>),
      (3, \<lparr>ss_next = 0, ss_concat = 0, ss_seg = segment ''b'' T_QUOTED\<rparr>)]"
  have t: "ss_ttype (segment ''a'' T_BARE) = T_BARE" "ss_ttype (segment ''b'' T_QUOTED) = T_QUOTED" by (simp_all add: segment_def)
  have 1: "operand_at ?h 1 [1] [[segment ''a'' T_BARE]]" by (simp add: at_defs t) (simp add: ttypes)
  have 2: "string_at ?h 3 [3] [segment ''b'' T_QUOTED]" by (simp add: at_defs)
  have 3: "underscore ?h 2" by (simp add: at_defs)
  have 4: "not_fused ?h 1 3" by (simp add: at_defs t) (simp add: ttypes)
  show ?thesis using slax_concat [OF 1 2 3 4] by (simp add: insert_commute)
qed

text \<open>
  C38 (functional): the attribute value template of a concatenation is the sequence of the templates of
  its operands, an expression between braces and a quoted text with its own braces doubled; the buffer measured beforehand
  is large enough for all of it, and the operands, cut off at their markers while they are measured and copied, are
  linked again as before.
\<close>

theorem slax_value_template:
  assumes "concat_at h a xs parts" "\<forall>p \<in> set parts. \<forall>ssp \<in> set p. token_front ssp" "\<not> has (flags OR SSF_BRACES) SSF_NOPARENS"
  shows "slaxStringAsValueTemplate h a flags
    = Some (Some (Some (List.concat (map (template (flags OR SSF_BRACES)) parts))), h)"
  by (rule value_template_ok [OF assms])

lemma slax_value_template_witness:
  "let h = heap_of [(1, \<lparr>ss_next = 2, ss_concat = 4, ss_seg = segment ''concat'' M_CONCAT\<rparr>),
      (2, \<lparr>ss_next = 3, ss_concat = 0, ss_seg = segment ''('' L_OPAREN\<rparr>),
      (3, \<lparr>ss_next = 4, ss_concat = 0, ss_seg = segment ''a'' T_BARE\<rparr>),
      (4, \<lparr>ss_next = 5, ss_concat = 6, ss_seg = segment '','' L_COMMA\<rparr>),
      (5, \<lparr>ss_next = 6, ss_concat = 0, ss_seg = segment ''b{'' T_QUOTED\<rparr>),
      (6, \<lparr>ss_next = 0, ss_concat = 0, ss_seg = segment '')'' L_CPAREN\<rparr>)]
   in slaxStringAsValueTemplate h 1 0 = Some (Some (Some ''{a}b{{''), h)"
proof -
  define h where "h = heap_of [(1, \<lparr>ss_next = 2, ss_concat = 4, ss_seg = segment ''concat'' M_CONCAT\<rparr>),
      (2, \<lparr>ss_next = 3, ss_concat = 0, ss_seg = segment ''('' L_OPAREN\<rparr>),
      (3, \<lparr>ss_next = 4, ss_concat = 0, ss_seg = segment ''a'' T_BARE\<rparr>),
      (4, \<lparr>ss_next = 5, ss_concat = 6, ss_seg = segment '','' L_COMMA\<rparr>),
      (5, \<lparr>ss_next = 6, ss_concat = 0, ss_seg = segment ''b{'' T_QUOTED\<rparr>),
      (6, \<lparr>ss_next = 0, ss_concat = 0, ss_seg = segment '')'' L_CPAREN\<rparr>)]"
  let ?parts = "[[segment ''a'' T_BARE], [segment ''b{'' T_QUOTED]]"
  have "concat_cells (nxt h) (con h) (seg h) 1 2 [[3], [5]] [4, 6]"
    by (simp add: concat_cells_def nxt_def con_def seg_def h_def heap_of_def)
  then have 1: "concat_at h 1 [1, 2, 3, 5, 4, 6] ?parts"
    unfolding concat_at_def
    by (intro exI [of _ 2] exI [of _ "[[3], [5]]"] exI [of _ "[4, 6]"]) (simp add: live_def seg_def h_def heap_of_def)
  have 2: "\<forall>p \<in> set ?parts. \<forall>ssp \<in> set p. token_front ssp" by (simp add: token_front_def segment_def c_string_def)
  have 3: "\<not> has (0 OR SSF_BRACES) SSF_NOPARENS" by code_simp
  have 4: "List.concat (map (template (0 OR SSF_BRACES)) ?parts) = ''{a}b{{''" by code_simp
  from slax_value_template [OF 1 2 3] show ?thesis unfolding 4 h_def Let_def .
qed

text \<open>
  C39 (equivalence): two quoted strings with the same quotes become one string of the joined text, on cells of
  its own, and in an attribute value template the fused string stands for the two: its template is the one of the first
  followed by the one of the second.
\<close>

theorem slax_concat_fuse:
  assumes "quoted_at h left x" "quoted_at h right y" "underscore h op" "left \<noteq> right" "op \<noteq> left" "op \<noteq> right"
    and "ss_flags x AND SSF_QUOTE_MASK = ss_flags y AND SSF_QUOTE_MASK"
    and "ss_token x @ ss_token y \<noteq> []" "NUL \<notin> set (ss_token x @ ss_token y)"
    and flags: "\<not> has flags SSF_QUOTES" "has flags SSF_BRACES"
  shows "ok_with (slaxConcatRewrite h left op right) (\<lambda>(a, h'). \<exists>ssp. quoted_at h' a ssp
    \<and> ss_token ssp = ss_token x @ ss_token y \<and> template flags [ssp] = template flags [x] @ template flags [y])"
proof -
  let ?f = "segment (ss_token x @ ss_token y) T_QUOTED"
  have tok: "ss_token ?f = ss_token x @ ss_token y" "ss_ttype ?f = T_QUOTED"
    using mark_segment [OF assms(9), of T_QUOTED] by (simp_all add: mark_def)
  have "ss_ttype x = T_QUOTED" "ss_ttype y = T_QUOTED" using assms(1,2) by (simp_all add: quoted_at_def)
  then have "template flags [?f] = template flags [x] @ template flags [y]"
    by (simp add: template_quoted [OF _ flags] tok double_braces_append)
  with tok(1) fuse_ok [OF assms(1-8)] show ?thesis by (elim ok_with_mono) auto
qed

lemma slax_concat_fuse_witness:
  "ok_with (slaxConcatRewrite (heap_of [(1, \<lparr>ss_next = 0, ss_concat = 0, ss_seg = segment ''a'' T_QUOTED\<rparr>),
      (2, \<lparr>ss_next = 0, ss_concat = 0, ss_seg = segment ''_'' L_UNDERSCORE\<rparr>),
      (3, \<lparr>ss_next = 0, ss_concat = 0, ss_seg = segment ''b'' T_QUOTED\<rparr>)]) 1 2 3)
    (\<lambda>(a, h'). \<exists>ssp. quoted_at h' a ssp \<and> ss_token ssp = ''ab'' \<and> template SSF_BRACES [ssp] = ''ab'')"
proof -
  let ?h = "heap_of [(1, \<lparr>ss_next = 0, ss_concat = 0, ss_seg = segment ''a'' T_QUOTED\<rparr>),
      (2, \<lparr>ss_next = 0, ss_concat = 0, ss_seg = segment ''_'' L_UNDERSCORE\<rparr>),
      (3, \<lparr>ss_next = 0, ss_concat = 0, ss_seg = segment ''b'' T_QUOTED\<rparr>)]"
  have t: "ss_token (segment ''a'' T_QUOTED) = ''a''" "ss_token (segment ''b'' T_QUOTED) = ''b''"
    "ss_ttype (segment ''a'' T_QUOTED) = T_QUOTED" "ss_ttype (segment ''b'' T_QUOTED) = T_QUOTED"
    by (simp_all add: segment_def c_string_def)
  have 1: "quoted_at ?h 1 (segment ''a'' T_QUOTED)" "quoted_at ?h 3 (segment ''b'' T_QUOTED)" "underscore ?h 2"
    by (simp_all add: at_defs t)
  have 2: "ss_flags (segment ''a'' T_QUOTED) AND SSF_QUOTE_MASK = ss_flags (segment ''b'' T_QUOTED) AND SSF_QUOTE_MASK" by code_simp
  have 3: "\<not> has SSF_BRACES SSF_QUOTES" "has SSF_BRACES SSF_BRACES" by code_simp+
  have 4: "template SSF_BRACES [segment ''a'' T_QUOTED] @ template SSF_BRACES [segment ''b'' T_QUOTED] = ''ab''" by code_simp
  show ?thesis using slax_concat_fuse [OF 1 _ _ _ 2 _ _ 3] unfolding t 4 by simp
qed

text \<open>
  C40 (error): for two empty quoted strings with the same quotes (\<^verbatim>\<open>"" _ ""\<close>) the rewriting does not return.
  Fusing answers a null pointer for the empty text, the left operand stays linked to the right one, and the call of
  \<^verbatim>\<open>concat\<close> then built around them closes the list in a circle, whose end is looked for.
\<close>

theorem slax_concat_empty:
  assumes "quoted_at h left x" "quoted_at h right y" "underscore h op" "left \<noteq> right" "op \<noteq> left" "op \<noteq> right"
    and "ss_flags x AND SSF_QUOTE_MASK = ss_flags y AND SSF_QUOTE_MASK" "ss_token x = []" "ss_token y = []"
  shows "slaxConcatRewrite h left op right = None"
  by (rule concat_empty [OF assms])

lemma slax_concat_empty_witness:
  "slaxConcatRewrite (heap_of [(1, \<lparr>ss_next = 0, ss_concat = 0, ss_seg = segment [] T_QUOTED\<rparr>),
      (2, \<lparr>ss_next = 0, ss_concat = 0, ss_seg = segment ''_'' L_UNDERSCORE\<rparr>),
      (3, \<lparr>ss_next = 0, ss_concat = 0, ss_seg = segment [] T_QUOTED\<rparr>)]) 1 2 3 = None"
proof -
  let ?h = "heap_of [(1, \<lparr>ss_next = 0, ss_concat = 0, ss_seg = segment [] T_QUOTED\<rparr>),
      (2, \<lparr>ss_next = 0, ss_concat = 0, ss_seg = segment ''_'' L_UNDERSCORE\<rparr>),
      (3, \<lparr>ss_next = 0, ss_concat = 0, ss_seg = segment [] T_QUOTED\<rparr>)]"
  have t: "ss_token (segment [] T_QUOTED) = []" "ss_ttype (segment [] T_QUOTED) = T_QUOTED"
    by (simp_all add: segment_def c_string_def)
  have 1: "quoted_at ?h 1 (segment [] T_QUOTED)" "quoted_at ?h 3 (segment [] T_QUOTED)" "underscore ?h 2"
    by (simp_all add: at_defs t)
  show ?thesis using slax_concat_empty [OF 1 _ _ _ refl t(1) t(1)] by simp
qed

end
