(* ===== verification/Slaxlexer.thy ===== *)
theory Slaxlexer
  imports Slaxstring
begin

text \<open>
  The lexer (\<^verbatim>\<open>libslax/slaxlexer.c\<close>): keywords, comments, and the tokens of SLAX, XPath and JSON. \<open>None\<close> is an
  access outside of the input buffer, or a loop that does not end. Logging is left out; the node a
  comment is added to is libxml2's (see \<open>sd_comments\<close>).
\<close>

section \<open>Keywords\<close>

definition slaxKeywordMatch :: "slax_data \<Rightarrow> string \<Rightarrow> bool option" where
  "slaxKeywordMatch sdp str =
     (if int (sd_len sdp) - int (sd_start sdp) < int (length str) then Some False
      else do {
        data \<leftarrow> rd_text sdp (sd_start sdp) (length str);
        if data \<noteq> str then Some False
        else do {
          ch \<leftarrow> rd sdp (sd_start sdp + length str);
          Some (\<not> slaxIsBareChar ch)
        }
      })"

text \<open>The look ahead behind a statement keyword: whether an operand follows. Behind an underscore, which may be the
  concatenation operator, another scan decides.\<close>

function look_after :: "slax_data \<Rightarrow> nat \<Rightarrow> bool option" where
  "look_after sdp look =
     (if sd_len sdp < look then Some True
      else do {
        ch \<leftarrow> rd sdp (look + 1);
        if ch = NUL \<or> ch = CHR ''('' \<or> ch = CHR '';'' then Some True
        else if \<not> c_isspace ch \<and> slaxIsBareChar ch then Some False
        else look_after sdp (look + 1)
      })"
  by pat_completeness auto
termination by (relation "measure (\<lambda>(sdp, look). sd_len sdp + 1 - look)") auto

definition look_underscore :: "slax_data \<Rightarrow> nat \<Rightarrow> bool option" where
  "look_underscore sdp look = do {
     ch \<leftarrow> rd sdp look;
     if slaxIsBareChar ch then Some True
     else if ch = NUL \<or> ch = CHR ''('' \<or> ch = CHR '';'' then Some True
     else if \<not> c_isspace ch then Some False
     else look_after sdp look
   }"

function look_operand :: "slax_data \<Rightarrow> nat \<Rightarrow> bool option" where
  "look_operand sdp look =
     (if look < sd_len sdp then do {
        ch \<leftarrow> rd sdp look;
        if ch = CHR ''_'' then look_underscore sdp (look + 1)
        else if slaxIsBareChar ch then Some True
        else if c_isspace ch then look_operand sdp (look + 1)
        else Some False
      }
      else Some False)"
  by pat_completeness auto
termination by (relation "measure (\<lambda>(sdp, look). sd_len sdp - look)") auto

text \<open>The look ahead behind a node test.\<close>

function look_paren :: "slax_data \<Rightarrow> nat \<Rightarrow> bool option" where
  "look_paren sdp look =
     (if look < sd_len sdp then do {
        ch \<leftarrow> rd sdp look;
        if ch = CHR ''('' then Some True
        else if ch = CHR '' '' \<or> ch = TAB then look_paren sdp (look + 1)
        else Some False
      }
      else Some False)"
  by pat_completeness auto
termination by (relation "measure (\<lambda>(sdp, look). sd_len sdp - look)") auto

declare look_after.simps [simp del] look_operand.simps [simp del] look_paren.simps [simp del]

definition keyword_found :: "slax_data \<Rightarrow> keyword_mapping \<Rightarrow> ttype option" where
  "keyword_found sdp kmp =
     (let flags = km_flags kmp; look = sd_cur sdp + length (km_string kmp) in
      if JSON_KEYWORDS_ALLOWED sdp \<and> flags AND KMF_JSON_KW \<noteq> 0 then Some (km_ttype kmp)
      else if SLAX_KEYWORDS_ALLOWED sdp \<and> flags AND KMF_SLAX_KW \<noteq> 0 then Some (km_ttype kmp)
      else if XPATH_KEYWORDS_ALLOWED sdp \<and> flags AND KMF_XPATH_KW \<noteq> 0 then Some (km_ttype kmp)
      else do {
        stmt \<leftarrow> (if (sd_last sdp = L_ASSIGN \<or> sd_last sdp = L_EQUALS) \<and> flags AND KMF_STMT_KW \<noteq> 0
          then look_operand sdp look else Some False);
        if stmt then Some (km_ttype kmp)
        else do {
          test \<leftarrow> (if flags AND KMF_NODE_TEST \<noteq> 0 then look_paren sdp look else Some False);
          Some (if test then km_ttype kmp else 0)
        }
      })"

fun keyword_scan :: "slax_data \<Rightarrow> keyword_mapping list \<Rightarrow> ttype option" where
  "keyword_scan sdp [] = Some 0"
| "keyword_scan sdp (kmp # kms) = do {
     m \<leftarrow> slaxKeywordMatch sdp (km_string kmp);
     if m then keyword_found sdp kmp else keyword_scan sdp kms
   }"

definition slaxKeyword :: "slax_data \<Rightarrow> ttype option" where
  "slaxKeyword sdp = keyword_scan sdp keywordMap"

section \<open>Comments\<close>

definition slaxIsCommentStart :: "slax_data \<Rightarrow> nat \<Rightarrow> (bool \<times> slax_data) option" where
  "slaxIsCommentStart sdp i = do {
     c0 \<leftarrow> rd sdp i;
     if c0 \<noteq> CHR ''/'' then Some (False, sdp)
     else do {
       c1 \<leftarrow> rd sdp (i + 1);
       Some (if sd_flag sdp SDF_SLSH_COMMENTS \<and> c1 = CHR ''/''
         then (True, sdp\<lparr>sd_flags := sd_flags sdp OR SDF_SLSH_OPEN\<rparr>)
         else (c1 = CHR ''*'', sdp))
     }
   }"

definition slaxIsCommentEnd :: "slax_data \<Rightarrow> nat \<Rightarrow> (bool \<times> slax_data) option" where
  "slaxIsCommentEnd sdp i = do {
     c0 \<leftarrow> rd sdp i;
     if sd_flag sdp SDF_SLSH_OPEN \<and> c0 = NEWLINE
     then Some (True, sdp\<lparr>sd_flags := sd_flags sdp AND NOT SDF_SLSH_OPEN\<rparr>)
     else if c0 \<noteq> CHR ''*'' then Some (False, sdp)
     else do { c1 \<leftarrow> rd sdp (i + 1); Some (c1 = CHR ''/'', sdp) }
   }"

definition COMMENT_MARKER_SIZE :: nat where "COMMENT_MARKER_SIZE = 2"

partial_function (option) drain_loop :: "u32 \<Rightarrow> slax_data \<Rightarrow> (bool \<times> slax_data) option" where
  "drain_loop flags sdp = do {
     (eof, sdp) \<leftarrow> (if sd_len sdp \<le> sd_cur sdp then slaxGetInput sdp True else Some (False, sdp));
     if eof then Some (True, sdp)
     else do {
       (finished, sdp) \<leftarrow> slaxIsCommentEnd sdp (sd_cur sdp);
       if finished then
         Some (False, sdp\<lparr>sd_cur := sd_cur sdp + (if flags AND SDF_SLSH_OPEN \<noteq> 0 then 1 else COMMENT_MARKER_SIZE)\<rparr>)
       else do {
         ch \<leftarrow> rd sdp (sd_cur sdp);
         let sdp = (if ch = NEWLINE then sdp\<lparr>sd_line := sd_line sdp + 1\<rparr> else sdp);
         drain_loop flags (sdp\<lparr>sd_cur := sd_cur sdp + 1\<rparr>)
       }
     }
   }"

definition slaxDrainComment :: "slax_data \<Rightarrow> (bool \<times> slax_data) option" where
  "slaxDrainComment sdp = drain_loop (sd_flags sdp) sdp"

text \<open>Two dashes in a row are not allowed in an XML comment: a dash behind a dash in the output is replaced.\<close>

definition dash_entity :: string where "dash_entity = ''&#2d;''"

fun comment_escape :: "char option \<Rightarrow> string \<Rightarrow> string" where
  "comment_escape before [] = []"
| "comment_escape before (c # cs) =
     (if c = CHR ''-'' \<and> before = Some (CHR ''-'') then dash_entity @ comment_escape (Some (last dash_entity)) cs
      else c # comment_escape (Some c) cs)"

definition slaxCommentMakeValue :: "(nat \<Rightarrow> bool) \<Rightarrow> string \<Rightarrow> string option" where
  "slaxCommentMakeValue mem input =
     (let dashes = length (filter (\<lambda>c. c = CHR ''-'') input) in
      if dashes = 0 then None
      else if \<not> mem (length input + dashes * length dash_entity + 1) then None
      else Some (comment_escape None input))"

text \<open>Spaces before and behind the text of a comment go, up to a newline.\<close>

partial_function (option) trim_front :: "slax_data \<Rightarrow> nat \<Rightarrow> nat option" where
  "trim_front sdp start = do {
     ch \<leftarrow> rd sdp start;
     if c_isspace ch \<and> ch \<noteq> NEWLINE then trim_front sdp (start + 1) else Some start
   }"

fun trim_back :: "slax_data \<Rightarrow> nat \<Rightarrow> nat \<Rightarrow> nat option" where
  "trim_back sdp start 0 = Some 0"
| "trim_back sdp start (Suc stop) =
     (if start < Suc stop then do {
        ch \<leftarrow> rd sdp stop;
        if c_isspace ch \<and> ch \<noteq> NEWLINE then trim_back sdp start stop else Some (Suc stop)
      }
      else Some (Suc stop))"

definition add_comment :: "slax_data \<Rightarrow> slax_data option" where
  "add_comment sdp = do {
     start \<leftarrow> trim_front sdp (sd_start sdp + COMMENT_MARKER_SIZE);
     stop \<leftarrow> trim_back sdp start (sd_cur sdp - COMMENT_MARKER_SIZE);
     if stop \<le> start then Some sdp
     else do {
       data \<leftarrow> rd_text sdp start (stop - start + 2);
       let buf = c_string ('' '' @ take (stop - start) data @ '' '');
       let contents = slaxCommentMakeValue (sd_mem sdp) buf;
       Some (sdp\<lparr>sd_comments := sd_comments sdp @ [(case contents of None \<Rightarrow> buf | Some s \<Rightarrow> s, sd_sort sdp)]\<rparr>)
     }
   }"

section \<open>Scanning\<close>

text \<open>Over the characters of a kind, as long as there are any in the buffer.\<close>

function scan_while :: "(char \<Rightarrow> bool) \<Rightarrow> slax_data \<Rightarrow> nat \<Rightarrow> nat option" where
  "scan_while P sdp i =
     (if i < sd_len sdp then do {
        ch \<leftarrow> rd sdp i;
        if P ch then scan_while P sdp (i + 1) else Some i
      }
      else Some i)"
  by pat_completeness auto
termination by (relation "measure (\<lambda>(P, sdp, i). sd_len sdp - i)") auto

declare scan_while.simps [simp del]

definition skip_chars :: "(char \<Rightarrow> bool) \<Rightarrow> slax_data \<Rightarrow> slax_data option" where
  "skip_chars P sdp = do { i \<leftarrow> scan_while P sdp (sd_cur sdp); Some (sdp\<lparr>sd_cur := i\<rparr>) }"

text \<open>Over white space, counting the lines.\<close>

function skip_space :: "slax_data \<Rightarrow> slax_data option" where
  "skip_space sdp =
     (if sd_cur sdp < sd_len sdp then do {
        ch \<leftarrow> rd sdp (sd_cur sdp);
        if \<not> c_isspace ch then Some sdp
        else if ch = NEWLINE then
          skip_space (sdp\<lparr>sd_line := sd_line sdp + 1,
            sd_input := map_option (\<lambda>_. sd_line sdp + 1) (sd_input sdp), sd_cur := sd_cur sdp + 1\<rparr>)
        else skip_space (sdp\<lparr>sd_cur := sd_cur sdp + 1\<rparr>)
      }
      else Some sdp)"
  by pat_completeness auto
termination by (relation "measure (\<lambda>sdp. sd_len sdp - sd_cur sdp)") auto

text \<open>Over the digits, dots, exponents and, behind an exponent, signs of a number.\<close>

function skip_number :: "bool \<Rightarrow> slax_data \<Rightarrow> slax_data option" where
  "skip_number seen_e sdp =
     (if sd_cur sdp < sd_len sdp then do {
        ch \<leftarrow> rd sdp (sd_cur sdp);
        if c_isdigit ch \<or> ch = CHR ''.'' then skip_number seen_e (sdp\<lparr>sd_cur := sd_cur sdp + 1\<rparr>)
        else if ch = CHR ''e'' \<or> ch = CHR ''E'' then skip_number True (sdp\<lparr>sd_cur := sd_cur sdp + 1\<rparr>)
        else if seen_e \<and> (ch = CHR ''+'' \<or> ch = CHR ''-'') then skip_number seen_e (sdp\<lparr>sd_cur := sd_cur sdp + 1\<rparr>)
        else Some sdp
      }
      else Some sdp)"
  by pat_completeness auto
termination by (relation "measure (\<lambda>(seen_e, sdp). sd_len sdp - sd_cur sdp)") auto

declare skip_space.simps [simp del] skip_number.simps [simp del]

text \<open>Whether a token follows behind white space.\<close>

partial_function (option) look_ahead :: "string \<Rightarrow> slax_data \<Rightarrow> nat \<Rightarrow> (bool \<times> slax_data) option" where
  "look_ahead token sdp cur = do {
     ch \<leftarrow> rd sdp cur;
     if c_isspace ch then
       if sd_len sdp \<le> cur + length token then do {
         (eof, sdp) \<leftarrow> slaxGetInput sdp False;
         if eof then Some (False, sdp) else look_ahead token sdp (cur + 1)
       }
       else look_ahead token sdp (cur + 1)
     else if cur + length token \<le> sd_len sdp then do {
       data \<leftarrow> rd_text sdp cur (length token);
       Some (data = token, sdp)
     }
     else Some (False, sdp)
   }"

definition slaxLexerLookAhead :: "slax_data \<Rightarrow> string \<Rightarrow> (bool \<times> slax_data) option" where
  "slaxLexerLookAhead sdp token = look_ahead token sdp (sd_cur sdp)"

section \<open>The kinds of tokens\<close>

text \<open>White space and comments; it answers whether the input ends in them.\<close>

partial_function (option) lexer_skip :: "slax_data \<Rightarrow> (bool \<times> slax_data) option" where
  "lexer_skip sdp = do {
     let sdp = sdp\<lparr>sd_start := sd_cur sdp\<rparr>;
     (eof, sdp) \<leftarrow> (if sd_cur sdp = sd_len sdp then slaxGetInput sdp True else Some (False, sdp));
     if eof then Some (True, sdp)
     else do {
       sdp \<leftarrow> skip_space sdp;
       if sd_cur sdp = sd_len sdp then lexer_skip sdp
       else do {
         (comment, sdp) \<leftarrow> (if SLAX_KEYWORDS_ALLOWED sdp then slaxIsCommentStart sdp (sd_cur sdp) else Some (False, sdp));
         if \<not> comment then Some (False, sdp)
         else do {
           (open, sdp) \<leftarrow> slaxDrainComment (sdp\<lparr>sd_start := sd_cur sdp\<rparr>);
           if open then Some (True, sdp\<lparr>sd_flags := sd_flags sdp OR SDF_OPEN_COMMENT\<rparr>)
           else do { sdp \<leftarrow> add_comment sdp; lexer_skip sdp }
         }
       }
     }
   }"

text \<open>A quoted string, from its first quote on; it answers whether the end is missing.\<close>

partial_function (option) quoted_loop :: "char \<Rightarrow> slax_data \<Rightarrow> (bool \<times> slax_data) option" where
  "quoted_loop quote sdp = do {
     (eof, sdp) \<leftarrow> (if sd_cur sdp = sd_len sdp then slaxGetInput sdp False else Some (False, sdp));
     if eof then Some (True, sdp)
     else do {
       ch \<leftarrow> rd sdp (sd_cur sdp);
       if ch = quote then Some (False, sdp)
       else do {
         (eof, sdp) \<leftarrow> slaxMoveCur sdp;
         if eof then Some (True, sdp)
         else quoted_loop quote
           (if ch = BSLASH \<and> \<not> slaxParseIsXpath sdp \<and> sd_cur sdp < sd_len sdp
            then sdp\<lparr>sd_cur := sd_cur sdp + 1\<rparr> else sdp)
       }
     }
   }"

definition lex_quoted :: "char \<Rightarrow> ttype \<Rightarrow> slax_data \<Rightarrow> (ttype \<times> slax_data) option" where
  "lex_quoted quote unterminated sdp = do {
     (eof, sdp) \<leftarrow> slaxMoveCur sdp;
     if eof then Some (-1, sdp)
     else do {
       (eof, sdp) \<leftarrow> quoted_loop quote sdp;
       if eof then Some (unterminated, sdp)
       else Some (T_QUOTED, if sd_cur sdp < sd_len sdp then sdp\<lparr>sd_cur := sd_cur sdp + 1\<rparr> else sdp)
     }
   }"

text \<open>A string argument of YANG.\<close>

definition lex_string :: "char \<Rightarrow> slax_data \<Rightarrow> (ttype \<times> slax_data) option" where
  "lex_string ch1 sdp =
     (if ch1 = SQUOTE \<or> ch1 = DQUOTE then lex_quoted ch1 (-1) sdp
      else do {
        sdp \<leftarrow> skip_chars (\<lambda>ch. \<not> (c_isspace ch \<or> ch = CHR '';'' \<or> ch = CHR ''{'' \<or> ch = CHR ''}''))
          (sdp\<lparr>sd_cur := sd_cur sdp + 1\<rparr>);
        ch \<leftarrow> rd sdp (sd_start sdp);
        Some (if ch = CHR ''$'' then T_VAR else T_BARE, sdp)
      })"

text \<open>A token of one character: the token, or none when a longer token starts with it, the position being
  behind the character.\<close>

definition lex_single :: "char \<Rightarrow> char \<Rightarrow> slax_data \<Rightarrow> (ttype option \<times> slax_data) option" where
  "lex_single ch1 ch2 sdp =
     (let lit1 = singleWide lexer_tables ch1; sdp = sdp\<lparr>sd_cur := sd_cur sdp + 1\<rparr> in
      if lit1 = L_STAR then
        Some (Some (if sd_last sdp > M_MULTIPLICATION_TEST_LAST then L_STAR else L_ASTERISK), sdp)
      else if ch1 = CHR ''.'' \<and> c_isdigit ch2 then Some (None, sdp)
      else if lit1 = L_UNDERSCORE then
        Some (if slaxIsBareChar ch2 then None else Some lit1, sdp)
      else if sd_parse sdp = M_JSON \<and> (lit1 = L_PLUS \<or> lit1 = L_MINUS) then do {
        sdp' \<leftarrow> skip_chars (\<lambda>ch. ch = NUL \<or> ch \<in> set ''0123456789.+-eE'') sdp;
        Some (Some (if sd_cur sdp < sd_cur sdp' then T_NUMBER else lit1), sdp')
      }
      else Some (Some lit1, sdp))"

text \<open>A bare word; it answers whether it is the name of an axis.\<close>

partial_function (option) bare_loop :: "slax_data \<Rightarrow> (bool \<times> slax_data) option" where
  "bare_loop sdp =
     (if sd_cur sdp < sd_len sdp then do {
        (axis, sdp) \<leftarrow> slaxLexerLookAhead sdp ''::'';
        if axis then Some (True, sdp)
        else do {
          ch \<leftarrow> rd sdp (sd_cur sdp);
          if slaxIsBareChar ch then bare_loop (sdp\<lparr>sd_cur := sd_cur sdp + 1\<rparr>)
          else do {
            star \<leftarrow> (if sd_start sdp < sd_cur sdp \<and> ch = CHR ''*''
              then do { before \<leftarrow> rd sdp (sd_cur sdp - 1); Some (before = CHR '':'') } else Some False);
            if star then bare_loop (sdp\<lparr>sd_cur := sd_cur sdp + 1\<rparr>) else Some (False, sdp)
          }
        }
      }
      else Some (False, sdp))"

text \<open>Whether an open parenthesis follows behind white space.\<close>

partial_function (option) look_function :: "slax_data \<Rightarrow> nat \<Rightarrow> (bool \<times> slax_data) option" where
  "look_function sdp look = do {
     look \<leftarrow> scan_while c_isspace sdp look;
     if look < sd_len sdp then do { ch \<leftarrow> rd sdp look; Some (ch = CHR ''('', sdp) }
     else do {
       let len = sd_len sdp;
       (eof, sdp) \<leftarrow> slaxGetInput sdp False;
       if eof \<or> len = sd_len sdp then Some (False, sdp) else look_function sdp look
     }
   }"

definition lex_bare :: "slax_data \<Rightarrow> (ttype \<times> slax_data) option" where
  "lex_bare sdp = do {
     (axis, sdp) \<leftarrow> bare_loop sdp;
     if axis then Some (T_AXIS_NAME, sdp)
     else do {
       (call, sdp) \<leftarrow> look_function sdp (sd_cur sdp);
       if call then Some (T_FUNCTION_NAME, sdp)
       else if sd_cur sdp = sd_start sdp then do {
         ch \<leftarrow> rd sdp (sd_cur sdp);
         if ch = CHR ''#'' \<and> int (sd_len sdp) - int (sd_cur sdp) > 8 then do {
           data \<leftarrow> rd_text sdp (sd_cur sdp) 8;
           after \<leftarrow> rd sdp (sd_cur sdp + 8);
           Some (T_BARE, if data = ''#default'' \<and> \<not> slaxIsBareChar after
             then sdp\<lparr>sd_cur := sd_cur sdp + 8\<rparr> else sdp)
         }
         else Some (T_BARE, sdp)
       }
       else Some (T_BARE, sdp)
     }
   }"

definition hex_digit :: "char \<Rightarrow> bool" where
  "hex_digit ch \<longleftrightarrow> c_isdigit ch \<or> ch \<in> set ''abcdefABCDEF''"

text \<open>The tokens that do not start with a token of one character, or with one that continues.\<close>

definition lex_word :: "char \<Rightarrow> char \<Rightarrow> slax_data \<Rightarrow> (ttype \<times> slax_data) option" where
  "lex_word ch1 ch2 sdp =
     (if sd_parse sdp = M_JSON then do {
        sdp \<leftarrow> skip_chars (\<lambda>ch. c_isalnum ch \<or> ch = CHR ''_'') sdp;
        Some (T_BARE, sdp)
      }
      else lex_bare sdp)"

definition lex_ascii :: "char \<Rightarrow> char \<Rightarrow> slax_data \<Rightarrow> (ttype \<times> slax_data) option" where
  "lex_ascii ch1 ch2 sdp =
     (if ch1 = SQUOTE \<or> ch1 = DQUOTE then lex_quoted ch1 T_UNTERMINATED_STRING sdp
      else if ch1 = CHR ''$'' then do {
        sdp \<leftarrow> skip_chars slaxIsVarChar (sdp\<lparr>sd_cur := sd_cur sdp + 1\<rparr>);
        Some (T_VAR, sdp)
      }
      else do {
        rc \<leftarrow> slaxKeyword sdp;
        if rc \<noteq> 0 then do {
          str \<leftarrow> slaxKeywordString lexer_tables rc;
          Some (rc, sdp\<lparr>sd_cur := sd_cur sdp + length str\<rparr>)
        }
        else if ch1 = CHR ''0'' \<and> ch2 = CHR ''x'' then do {
          sdp \<leftarrow> skip_chars hex_digit (sdp\<lparr>sd_cur := sd_cur sdp + 2\<rparr>);
          Some (T_NUMBER, sdp)
        }
        else if c_isdigit ch1 \<or> ch1 = CHR ''.'' \<and> c_isdigit ch2 then do {
          sdp \<leftarrow> skip_number False sdp;
          Some (T_NUMBER, sdp)
        }
        else lex_word ch1 ch2 sdp
      })"

section \<open>The lexer\<close>

definition lex_token :: "slax_data \<Rightarrow> (ttype \<times> slax_data) option" where
  "lex_token sdp = do {
     let sdp = sdp\<lparr>sd_start := sd_cur sdp\<rparr>;
     ch1 \<leftarrow> rd sdp (sd_cur sdp);
     ch2 \<leftarrow> (if sd_cur sdp + 1 < sd_len sdp then rd sdp (sd_cur sdp + 1) else Some NUL);
     ch3 \<leftarrow> (if sd_cur sdp + 2 < sd_len sdp then rd sdp (sd_cur sdp + 2) else Some NUL);
     if sd_flag sdp SDF_STRING \<and> ch1 \<notin> set ''{};+'' then lex_string ch1 sdp
     else if \<not> (of_char ch1 :: nat) < 128 then lex_word ch1 ch2 sdp
     else
       let rc3 = (if tripleWide lexer_tables ch1 \<noteq> 0 then slaxTripleWide ch1 ch2 ch3 else 0);
           rc2 = (if doubleWide lexer_tables ch1 \<noteq> 0 then slaxDoubleWide ch1 ch2 else 0) in
       if rc3 \<noteq> 0 then Some (rc3, sdp\<lparr>sd_cur := sd_cur sdp + 3\<rparr>)
       else if rc2 \<noteq> 0 then Some (rc2, sdp\<lparr>sd_cur := sd_cur sdp + 2\<rparr>)
       else if singleWide lexer_tables ch1 \<noteq> 0 then do {
         (rc, sdp) \<leftarrow> lex_single ch1 ch2 sdp;
         case rc of Some rc \<Rightarrow> Some (rc, sdp) | None \<Rightarrow> lex_ascii ch1 ch2 sdp
       }
       else lex_ascii ch1 ch2 sdp
   }"

definition slaxLexer :: "slax_data \<Rightarrow> (ttype \<times> slax_data) option" where
  "slaxLexer sdp = do {
     (eof, sdp) \<leftarrow> lexer_skip sdp;
     if eof then Some (-1, sdp) else lex_token sdp
   }"

text \<open>The keywords behind which keywords are no longer recognized, of SLAX only or of XPath as well.\<close>

definition slax_keywords_off :: "ttype list" where
  "slax_keywords_off = [K_APPLY_TEMPLATES, K_ATTRIBUTE, K_COMMENT, K_COPY_OF, K_COUNT, K_DECIMAL_FORMAT, K_DIE,
     K_ELEMENT, K_EXPR, K_FOR, K_FOR_EACH, K_FORMAT, K_FROM, K_GROUPING_SEPARATOR, K_GROUPING_SIZE, K_IF, K_KEY,
     K_LANGUAGE, K_LETTER_VALUE, K_MATCH, K_MAIN, K_MODE, K_MVAR, K_NS_TEMPLATE, K_MESSAGE, K_NUMBER, K_PARAM,
     K_PROCESSING_INSTRUCTION, K_SORT, K_TEMPLATE, K_TERMINATE, K_TRACE, K_UEXPR, K_VAR, K_VALUE, K_WHILE, K_WITH]"

definition all_keywords_off :: "ttype list" where
  "all_keywords_off = [K_ATTRIBUTE_SET, K_CALL, K_CDATA_SECTION_ELEMENTS, K_DOCTYPE_PUBLIC, K_DOCTYPE_SYSTEM,
     K_ENCODING, K_FUNCTION, K_INDENT, K_MEDIA_TYPE, K_NS, K_NS_ALIAS, K_OMIT_XML_DECLARATION, K_PRESERVE_SPACE,
     K_STANDALONE, K_STRIP_SPACE, K_USE_ATTRIBUTE_SETS, K_VERSION]"

definition keywords_off :: "ttype \<Rightarrow> slax_data \<Rightarrow> slax_data" where
  "keywords_off rc sdp =
     (let f = (if rc \<in> set slax_keywords_off then SDF_NO_SLAX_KEYWORDS
               else if rc \<in> set all_keywords_off then SDF_NO_KEYWORDS else 0)
      in sdp\<lparr>sd_flags := sd_flags sdp OR f, sd_flags_next := sd_flags_next sdp OR f\<rparr>)"

text \<open>The type of a token in its context: an operator where none is allowed is a word, a word before an open parenthesis
  is a function, except behind \<^verbatim>\<open>template\<close>.\<close>

definition context_type :: "ttype \<Rightarrow> slax_data \<Rightarrow> ttype option" where
  "context_type rc sdp = do {
     let rc = (if M_OPERATOR_FIRST < rc \<and> rc < M_OPERATOR_LAST \<and> sd_last sdp < M_MULTIPLICATION_TEST_LAST
       then T_BARE else rc);
     rc \<leftarrow> (if rc = T_BARE \<and> sd_parse sdp \<noteq> M_JSON then do {
         look \<leftarrow> scan_while c_isspace sdp (sd_cur sdp);
         if look < sd_len sdp then do {
           ch \<leftarrow> rd sdp look;
           Some (if ch = CHR ''('' then T_FUNCTION_NAME else rc)
         }
         else Some rc
       }
       else Some rc);
     Some (if rc = T_FUNCTION_NAME \<and> sd_last sdp = K_TEMPLATE then T_BARE else rc)
   }"

definition SLAX_PREFIX :: string where "SLAX_PREFIX = ''slax''"

definition slax_function_flag :: "slax_string \<Rightarrow> slax_string" where
  "slax_function_flag ssp =
     (let prefix = SLAX_PREFIX @ '':'' in
      if length (ss_token ssp) > length prefix + 1 \<and> take (length prefix) (ss_token ssp) = prefix
      then ssp\<lparr>ss_flags := ss_flags ssp OR SSF_SLAXNS\<rparr> else ssp)"

text \<open>The next token for the parser, with its text. \<open>yylval\<close> tells whether the parser takes the text.\<close>

definition slaxYylex :: "bool \<Rightarrow> slax_data \<Rightarrow> (ttype \<times> slax_string option \<times> slax_data) option" where
  "slaxYylex yylval sdp =
     (if sd_ttype sdp \<noteq> 0 then Some (sd_ttype sdp, None, sdp\<lparr>sd_ttype := 0\<rparr>)
      else do {
        let sdp = sdp\<lparr>sd_flags := sd_flags sdp OR sd_flags_next sdp, sd_flags_next := 0, sd_start := sd_cur sdp\<rparr>;
        (rc, sdp) \<leftarrow> slaxLexer sdp;
        rc \<leftarrow> context_type rc sdp;
        let sdp = sdp\<lparr>sd_last := rc\<rparr>;
        let zero = (rc > 0 \<and> sd_start sdp = sd_cur sdp);
        let rc = (if zero then M_ERROR else rc);
        let sdp = (if zero \<and> sd_cur sdp < sd_len sdp then sdp\<lparr>sd_cur := sd_cur sdp + 1\<rparr> else sdp);
        (ssp, sdp) \<leftarrow> (if yylval \<and> rc > 0 then slaxStringCreate sdp rc else Some (None, sdp));
        ssp \<leftarrow> (if rc = T_FUNCTION_NAME then
            (case ssp of None \<Rightarrow> None | Some ssp \<Rightarrow> Some (Some (slax_function_flag ssp)))
          else Some ssp);
        Some (rc, ssp, keywords_off rc sdp)
      })"

end
