(* ===== verification/Slaxlexer_Safe.thy ===== *)
theory Slaxlexer_Safe
  imports Slaxlexer
begin

text \<open>
  The lexer on a text in memory: an expression or a JSON text that the caller hands over as a whole. Every read stays
  within the text and its terminating NUL, every loop ends, and the position only moves forward. The
  proofs are total-correctness arguments (\<open>ok_with\<close>), by the number of characters left.
\<close>

section \<open>XML comments\<close>

text \<open>An XML comment has no two dashes in a row and does not end in a dash.\<close>

fun xml_comment :: "string \<Rightarrow> bool" where
  "xml_comment [] = True"
| "xml_comment [c] = (c \<noteq> CHR ''-'')"
| "xml_comment (c # d # cs) = (\<not> (c = CHR ''-'' \<and> d = CHR ''-'') \<and> xml_comment (d # cs))"

lemma xml_comment_Cons:
  "cs \<noteq> [] \<Longrightarrow> xml_comment (c # cs) \<longleftrightarrow> \<not> (c = CHR ''-'' \<and> hd cs = CHR ''-'') \<and> xml_comment cs"
  by (cases cs) auto

lemma comment_escape_Nil: "comment_escape b cs = [] \<longleftrightarrow> cs = []"
  by (cases cs) (auto simp: dash_entity_def)

lemma comment_escape_ok:
  "cs \<noteq> [] \<Longrightarrow> last cs \<noteq> CHR ''-'' \<Longrightarrow> xml_comment (comment_escape before cs)
    \<and> (before = Some CHR ''-'' \<longrightarrow> hd (comment_escape before cs) \<noteq> CHR ''-'')"
proof (induction before cs rule: comment_escape.induct)
  case (2 before c cs)
  show ?case
  proof (cases "cs = []")
    case True
    with 2 show ?thesis by simp
  next
    case False
    then have l: "last cs \<noteq> CHR ''-''" using 2(4) by simp
    show ?thesis
    proof (cases "c = CHR ''-'' \<and> before = Some (CHR ''-'')")
      case dash: True
      have "xml_comment (comment_escape (Some (last dash_entity)) cs)" using 2(1) [OF dash False l] by blast
      then show ?thesis
        using dash False by (simp add: dash_entity_def xml_comment_Cons comment_escape_Nil)
    next
      case plain: False
      have "comment_escape before (c # cs) = c # comment_escape (Some c) cs" using plain by auto
      then show ?thesis
        using 2(2) [OF plain False l] plain False by (auto simp: xml_comment_Cons comment_escape_Nil)
    qed
  qed
qed simp

lemma xml_comment_plain: "CHR ''-'' \<notin> set cs \<Longrightarrow> xml_comment cs"
  by (induction cs rule: xml_comment.induct) auto

text \<open>The text of a comment gets a space at both ends.\<close>

lemma comment_value:
  assumes "NUL \<notin> set data" "\<And>n. mem n"
  shows "xml_comment (case slaxCommentMakeValue mem (c_string ('' '' @ data @ '' '')) of
    None \<Rightarrow> c_string ('' '' @ data @ '' '') | Some s \<Rightarrow> s)"
proof -
  have str: "c_string (CHR '' '' # data @ '' '') = CHR '' '' # data @ '' ''"
    using assms(1) unfolding c_string_def by (intro takeWhile_eq_all_conv [THEN iffD2]) auto
  show ?thesis
  proof (cases "CHR ''-'' \<in> set data")
    case True
    then have "filter (\<lambda>c. c = CHR ''-'') data \<noteq> []" by (auto simp: filter_empty_conv)
    with comment_escape_ok [of "'' '' @ data @ '' ''" None] assms(2) show ?thesis
      by (simp add: str slaxCommentMakeValue_def Let_def)
  next
    case False
    then have "filter (\<lambda>c. c = CHR ''-'') data = []" by (auto simp: filter_empty_conv)
    with False show ?thesis
      by (simp add: str slaxCommentMakeValue_def Let_def xml_comment_plain)
  qed
qed

section \<open>A text in memory\<close>

definition text_ok :: "string \<Rightarrow> slax_data \<Rightarrow> bool" where
  "text_ok buf sdp \<longleftrightarrow> sd_file sdp = None \<and> sd_buf sdp = Some buf \<and> length buf = sd_len sdp + 1
     \<and> buf ! sd_len sdp = NUL \<and> sd_start sdp \<le> sd_cur sdp \<and> sd_cur sdp \<le> sd_len sdp \<and> sd_ttype sdp = 0
     \<and> NUL \<notin> set (take (sd_len sdp) buf) \<and> list_all (\<lambda>c. xml_comment (fst c)) (sd_comments sdp)
     \<and> sd_mem sdp = (\<lambda>_. True)"

text \<open>The text is read up to its end, or up to the last character of a string whose quote at the start of the
  token has no partner.\<close>

definition text_ends :: "string \<Rightarrow> slax_data \<Rightarrow> bool" where
  "text_ends buf sdp \<longleftrightarrow> sd_cur sdp = sd_len sdp
     \<or> sd_cur sdp + 1 = sd_len sdp \<and> (buf ! sd_start sdp = SQUOTE \<or> buf ! sd_start sdp = DQUOTE)"

text \<open>What the operations of one token keep.\<close>

definition moved :: "slax_data \<Rightarrow> slax_data \<Rightarrow> bool" where
  "moved sdp sdp' \<longleftrightarrow> sd_cur sdp \<le> sd_cur sdp' \<and> sd_start sdp' = sd_start sdp \<and> sd_len sdp' = sd_len sdp
     \<and> sd_parse sdp' = sd_parse sdp \<and> sd_last sdp' = sd_last sdp"

lemma moved_refl [simp]: "moved sdp sdp"
  by (simp add: moved_def)

lemma moved_trans: "moved s t \<Longrightarrow> moved t u \<Longrightarrow> moved s u"
  by (auto simp: moved_def)

lemma moved_advance: "sd_cur sdp \<le> i \<Longrightarrow> moved sdp (sdp\<lparr>sd_cur := i\<rparr>)"
  by (simp add: moved_def)

lemma text_ok_advance: "text_ok buf sdp \<Longrightarrow> sd_start sdp \<le> i \<Longrightarrow> i \<le> sd_len sdp \<Longrightarrow> text_ok buf (sdp\<lparr>sd_cur := i\<rparr>)"
  by (simp add: text_ok_def)

lemma text_okD:
  assumes "text_ok buf sdp"
  shows "sd_start sdp \<le> sd_cur sdp" "sd_cur sdp \<le> sd_len sdp" "buf ! sd_len sdp = NUL"
    "length buf = sd_len sdp + 1" "sd_mem sdp n" "sd_ttype sdp = 0"
  using assms by (auto simp: text_ok_def)

lemma rd_ok: "text_ok buf sdp \<Longrightarrow> i \<le> sd_len sdp \<Longrightarrow> rd sdp i = Some (buf ! i)"
  by (simp add: text_ok_def rd_def)

lemma rd_text_ok: "text_ok buf sdp \<Longrightarrow> i + n \<le> sd_len sdp + 1 \<Longrightarrow> rd_text sdp i n = Some (take n (drop i buf))"
  by (simp add: text_ok_def rd_text_def)

text \<open>A character other than the NUL is before the end.\<close>

lemma not_nul: "text_ok buf sdp \<Longrightarrow> i \<le> sd_len sdp \<Longrightarrow> buf ! i = c \<Longrightarrow> c \<noteq> NUL \<Longrightarrow> i < sd_len sdp"
  by (cases "i = sd_len sdp") (auto simp: text_ok_def)

lemma space_nul [simp]: "\<not> c_isspace NUL"
  by (simp add: c_isspace_def)

lemma bare_nul [simp]: "\<not> slaxIsBareChar NUL"
  by (simp add: slaxIsBareChar_def c_isalnum_def c_isalpha_def c_isdigit_def)

lemma get_input_ok: "text_ok buf sdp \<Longrightarrow> slaxGetInput sdp final = Some (True, sdp)"
  by (simp add: text_ok_def slaxGetInput_def)

lemma move_cur_ok:
  "text_ok buf sdp \<Longrightarrow> slaxMoveCur sdp =
     (if sd_cur sdp + 1 < sd_len sdp then Some (False, sdp\<lparr>sd_cur := sd_cur sdp + 1\<rparr>) else Some (True, sdp))"
  by (auto simp: slaxMoveCur_def Let_def get_input_ok [where buf = buf] text_ok_advance text_okD(2))
    (auto simp: text_ok_def slaxGetInput_def)

section \<open>Scanning\<close>

lemma scan_while_ok:
  "text_ok buf sdp \<Longrightarrow> ok_with (scan_while P sdp i) (\<lambda>j. i \<le> j \<and> (j \<le> sd_len sdp \<or> j = i)
     \<and> (\<forall>k. i \<le> k \<and> k < j \<longrightarrow> P (buf ! k)) \<and> (j < sd_len sdp \<longrightarrow> \<not> P (buf ! j)))"
proof (induction P sdp i rule: scan_while.induct)
  case (1 P sdp i)
  show ?case
  proof (cases "i < sd_len sdp \<and> P (buf ! i)")
    case True
    with 1 have "ok_with (scan_while P sdp (i + 1)) (\<lambda>j. i + 1 \<le> j \<and> (j \<le> sd_len sdp \<or> j = i + 1)
      \<and> (\<forall>k. i + 1 \<le> k \<and> k < j \<longrightarrow> P (buf ! k)) \<and> (j < sd_len sdp \<longrightarrow> \<not> P (buf ! j)))"
      using rd_ok [OF 1(2), of i] by simp
    then have "ok_with (scan_while P sdp (i + 1)) (\<lambda>j. i \<le> j \<and> (j \<le> sd_len sdp \<or> j = i)
      \<and> (\<forall>k. i \<le> k \<and> k < j \<longrightarrow> P (buf ! k)) \<and> (j < sd_len sdp \<longrightarrow> \<not> P (buf ! j)))"
      proof (rule ok_with_mono)
      fix j
      assume j: "i + 1 \<le> j \<and> (j \<le> sd_len sdp \<or> j = i + 1) \<and> (\<forall>k. i + 1 \<le> k \<and> k < j \<longrightarrow> P (buf ! k))
        \<and> (j < sd_len sdp \<longrightarrow> \<not> P (buf ! j))"
      then have "P (buf ! k)" if "i \<le> k" "k < j" for k
        using that True by (cases "k = i") auto
      with j True show "i \<le> j \<and> (j \<le> sd_len sdp \<or> j = i) \<and> (\<forall>k. i \<le> k \<and> k < j \<longrightarrow> P (buf ! k))
        \<and> (j < sd_len sdp \<longrightarrow> \<not> P (buf ! j))" by auto
    qed
    then show ?thesis
      using True rd_ok [OF 1(2), of i] by (subst scan_while.simps) simp
  next
    case False
    then show ?thesis
      using rd_ok [OF 1(2), of i] by (subst scan_while.simps) auto
  qed
qed

lemma skip_chars_ok:
  assumes "text_ok buf sdp"
  shows "ok_with (skip_chars P sdp) (\<lambda>sdp'. text_ok buf sdp' \<and> moved sdp sdp')"
proof -
  have "ok_with (scan_while P sdp (sd_cur sdp)) (\<lambda>i. text_ok buf (sdp\<lparr>sd_cur := i\<rparr>) \<and> moved sdp (sdp\<lparr>sd_cur := i\<rparr>))"
    by (rule ok_with_mono [OF scan_while_ok [OF assms]])
      (use text_okD [OF assms] in \<open>auto intro!: text_ok_advance [OF assms] moved_advance\<close>)
  then show ?thesis by (simp add: skip_chars_def)
qed

lemma skip_number_ok:
  "text_ok buf sdp \<Longrightarrow> ok_with (skip_number e sdp) (\<lambda>sdp'. text_ok buf sdp' \<and> moved sdp sdp')"
proof (induction e sdp rule: skip_number.induct)
  case (1 e sdp)
  let ?next = "sdp\<lparr>sd_cur := sd_cur sdp + 1\<rparr>"
  have step: "ok_with m (\<lambda>sdp'. text_ok buf sdp' \<and> moved ?next sdp')
    \<Longrightarrow> ok_with m (\<lambda>sdp'. text_ok buf sdp' \<and> moved sdp sdp')" for m
    by (erule ok_with_mono) (auto simp: moved_def)
  show ?case
  proof (cases "sd_cur sdp < sd_len sdp")
    case True
    then have rd: "rd sdp (sd_cur sdp) = Some (buf ! sd_cur sdp)" using 1(4) by (simp add: rd_ok)
    have t: "text_ok buf ?next" using 1(4) True by (auto intro!: text_ok_advance dest: text_okD)
    note IH = 1(1-3) [OF True rd, THEN step]
    show ?thesis
      using IH t True rd 1(4) by (subst skip_number.simps) (auto simp: Let_def)
  next
    case False
    then show ?thesis using 1(4) by (subst skip_number.simps) simp
  qed
qed

lemma skip_space_ok:
  "text_ok buf sdp \<Longrightarrow> ok_with (skip_space sdp) (\<lambda>sdp'. text_ok buf sdp' \<and> moved sdp sdp')"
proof (induction sdp rule: skip_space.induct)
  case (1 sdp)
  let ?next = "sdp\<lparr>sd_cur := sd_cur sdp + 1\<rparr>"
  let ?line = "sdp\<lparr>sd_line := sd_line sdp + 1, sd_input := map_option (\<lambda>_. sd_line sdp + 1) (sd_input sdp),
    sd_cur := sd_cur sdp + 1\<rparr>"
  have step: "ok_with m (\<lambda>sdp'. text_ok buf sdp' \<and> moved n sdp')
    \<Longrightarrow> moved sdp n \<Longrightarrow> ok_with m (\<lambda>sdp'. text_ok buf sdp' \<and> moved sdp sdp')" for m n
    by (erule ok_with_mono) (auto intro: moved_trans)
  show ?case
  proof (cases "sd_cur sdp < sd_len sdp")
    case True
    then have rd: "rd sdp (sd_cur sdp) = Some (buf ! sd_cur sdp)" using 1(3) by (simp add: rd_ok)
    have t: "text_ok buf ?next" "text_ok buf ?line" "moved sdp ?next" "moved sdp ?line"
      using 1(3) True by (auto simp: text_ok_def moved_def)
    note IH = 1(1,2) [OF True rd]
    show ?thesis
    proof (cases "c_isspace (buf ! sd_cur sdp)")
      case space: True
      show ?thesis
      proof (cases "buf ! sd_cur sdp = NEWLINE")
        case nl: True
        have "ok_with (skip_space ?line) (\<lambda>sdp'. text_ok buf sdp' \<and> moved sdp sdp')"
          by (rule step [OF _ t(4)]) (use IH(1) space nl t(2) in simp)
        then show ?thesis using True rd space nl by (subst skip_space.simps) simp
      next
        case False
        have "ok_with (skip_space ?next) (\<lambda>sdp'. text_ok buf sdp' \<and> moved sdp sdp')"
          by (rule step [OF _ t(3)]) (use IH(2) space False t(1) in simp)
        then show ?thesis using True rd space False by (subst skip_space.simps) simp
      qed
    next
      case False
      then show ?thesis using True rd 1(3) by (subst skip_space.simps) simp
    qed
  next
    case False
    then show ?thesis using 1(3) by (subst skip_space.simps) simp
  qed
qed

section \<open>Keywords\<close>

lemma look_after_ok:
  "text_ok buf sdp \<Longrightarrow> look < sd_len sdp \<Longrightarrow> ok_with (look_after sdp look) (\<lambda>_. True)"
proof (induction sdp look rule: look_after.induct)
  case (1 sdp look)
  have rd: "rd sdp (look + 1) = Some (buf ! (look + 1))" using 1(2,3) by (simp add: rd_ok)
  show ?case
  proof (cases "buf ! (look + 1) = NUL")
    case True
    then show ?thesis using rd 1(3) by (subst look_after.simps) simp
  next
    case False
    then have "look + 1 < sd_len sdp" using not_nul [OF 1(2), of "look + 1"] 1(3) by simp
    then show ?thesis
      using rd 1 False by (subst look_after.simps) simp
  qed
qed

lemma look_underscore_ok:
  assumes "text_ok buf sdp" "look \<le> sd_len sdp"
  shows "ok_with (look_underscore sdp look) (\<lambda>_. True)"
proof (cases "buf ! look = NUL")
  case True
  then show ?thesis using rd_ok [OF assms] by (simp add: look_underscore_def)
next
  case False
  then have "look < sd_len sdp" using not_nul [OF assms(1,2)] by simp
  then show ?thesis using rd_ok [OF assms] look_after_ok [OF assms(1)] by (simp add: look_underscore_def)
qed

lemma look_operand_ok: "text_ok buf sdp \<Longrightarrow> ok_with (look_operand sdp look) (\<lambda>_. True)"
proof (induction sdp look rule: look_operand.induct)
  case (1 sdp look)
  then show ?case
    using rd_ok [OF 1(2), of look] look_underscore_ok [OF 1(2), of "look + 1"]
    by (subst look_operand.simps) (auto simp: Suc_le_eq)
qed

lemma look_paren_ok: "text_ok buf sdp \<Longrightarrow> ok_with (look_paren sdp look) (\<lambda>_. True)"
proof (induction sdp look rule: look_paren.induct)
  case (1 sdp look)
  then show ?case
    using rd_ok [OF 1(2), of look] by (subst look_paren.simps) auto
qed

lemma keyword_match_ok:
  assumes "text_ok buf sdp"
  shows "ok_with (slaxKeywordMatch sdp str) (\<lambda>m. m \<longrightarrow> sd_start sdp + length str \<le> sd_len sdp
    \<and> take (length str) (drop (sd_start sdp) buf) = str)"
proof (cases "int (sd_len sdp) - int (sd_start sdp) < int (length str)")
  case True
  then show ?thesis by (simp add: slaxKeywordMatch_def)
next
  case False
  then have "sd_start sdp + length str \<le> sd_len sdp" using text_okD(1,2) [OF assms] by simp
  then show ?thesis
    using False rd_ok [OF assms, of "sd_start sdp + length str"] rd_text_ok [OF assms, of "sd_start sdp" "length str"]
    by (simp add: slaxKeywordMatch_def)
qed

lemma keyword_found_ok:
  assumes "text_ok buf sdp"
  shows "ok_with (keyword_found sdp km) (\<lambda>rc. rc = 0 \<or> rc = km_ttype km)"
proof -
  obtain a b where "look_operand sdp (sd_cur sdp + length (km_string km)) = Some a"
    "look_paren sdp (sd_cur sdp + length (km_string km)) = Some b"
    using look_operand_ok [OF assms] look_paren_ok [OF assms] by (fastforce simp: ok_with_iff)
  then show ?thesis by (simp add: keyword_found_def Let_def)
qed

lemma keyword_scan_ok:
  assumes "text_ok buf sdp"
  shows "ok_with (keyword_scan sdp kms) (\<lambda>rc. rc = 0 \<or> (\<exists>km\<in>set kms. rc = km_ttype km
    \<and> sd_start sdp + length (km_string km) \<le> sd_len sdp
    \<and> take (length (km_string km)) (drop (sd_start sdp) buf) = km_string km))"
proof (induction kms)
  case (Cons km kms)
  obtain m where m: "slaxKeywordMatch sdp (km_string km) = Some m"
    "m \<longrightarrow> sd_start sdp + length (km_string km) \<le> sd_len sdp
      \<and> take (length (km_string km)) (drop (sd_start sdp) buf) = km_string km"
    using keyword_match_ok [OF assms, of "km_string km"] by (auto simp: ok_with_iff)
  show ?case
  proof (cases m)
    case True
    with m keyword_found_ok [OF assms, of km] show ?thesis by (auto elim!: ok_with_mono)
  next
    case False
    with m Cons show ?thesis by (auto elim!: ok_with_mono)
  qed
qed simp

section \<open>Comments\<close>

lemma comment_start_ok:
  assumes "text_ok buf sdp" "i < sd_len sdp"
  shows "ok_with (slaxIsCommentStart sdp i) (\<lambda>(b, sdp'). text_ok buf sdp' \<and> moved sdp sdp'
    \<and> sd_cur sdp' = sd_cur sdp \<and> (b \<longrightarrow> buf ! i = CHR ''/'' \<and> i + 1 < sd_len sdp))"
proof -
  have rd: "rd sdp i = Some (buf ! i)" "rd sdp (Suc i) = Some (buf ! Suc i)"
    using assms by (simp_all add: rd_ok Suc_le_eq)
  have "buf ! Suc i = c \<Longrightarrow> c \<noteq> NUL \<Longrightarrow> Suc i < sd_len sdp" for c
    using assms by (intro not_nul) (simp_all add: Suc_le_eq)
  then show ?thesis
    using assms rd by (auto simp: slaxIsCommentStart_def text_ok_def moved_def)
qed

lemma comment_end_ok:
  assumes "text_ok buf sdp" "i < sd_len sdp"
  shows "ok_with (slaxIsCommentEnd sdp i) (\<lambda>(b, sdp'). text_ok buf sdp' \<and> moved sdp sdp'
    \<and> sd_cur sdp' = sd_cur sdp \<and> (\<not> b \<longrightarrow> sdp' = sdp)
    \<and> (b \<longrightarrow> buf ! i \<noteq> CHR ''/'') \<and> (b \<and> \<not> sd_flag sdp SDF_SLSH_OPEN \<longrightarrow> i + 1 < sd_len sdp))"
proof -
  have rd: "rd sdp i = Some (buf ! i)" "rd sdp (Suc i) = Some (buf ! Suc i)"
    using assms by (simp_all add: rd_ok Suc_le_eq)
  have "buf ! Suc i = c \<Longrightarrow> c \<noteq> NUL \<Longrightarrow> Suc i < sd_len sdp" for c
    using assms by (intro not_nul) (simp_all add: Suc_le_eq)
  then show ?thesis
    using assms rd by (auto simp: slaxIsCommentEnd_def text_ok_def moved_def)
qed

lemma drain_loop_ok:
  "text_ok buf sdp \<Longrightarrow> sd_flags sdp = flags \<Longrightarrow> ok_with (drain_loop flags sdp)
    (\<lambda>(open, sdp'). text_ok buf sdp' \<and> moved sdp sdp' \<and> (\<not> open \<longrightarrow> sd_cur sdp < sd_cur sdp')
      \<and> (\<not> open \<and> buf ! sd_cur sdp = CHR ''/'' \<longrightarrow> sd_cur sdp + 1 < sd_cur sdp') \<and> (open \<longrightarrow> sd_cur sdp' = sd_len sdp))"
proof (induction "sd_len sdp - sd_cur sdp" arbitrary: sdp rule: less_induct)
  case less
  show ?case
  proof (cases "sd_len sdp \<le> sd_cur sdp")
    case True
    then show ?thesis
      using less(2) text_okD(2) [OF less(2)] by (subst drain_loop.simps) (simp add: get_input_ok)
  next
    case False
    then have i: "sd_cur sdp < sd_len sdp" by simp
    obtain b sdp' where e: "slaxIsCommentEnd sdp (sd_cur sdp) = Some (b, sdp')" "text_ok buf sdp'" "moved sdp sdp'"
      "sd_cur sdp' = sd_cur sdp" "\<not> b \<longrightarrow> sdp' = sdp" "b \<longrightarrow> buf ! sd_cur sdp \<noteq> CHR ''/''" "b \<and> \<not> sd_flag sdp SDF_SLSH_OPEN \<longrightarrow> sd_cur sdp + 1 < sd_len sdp"
      using comment_end_ok [OF less(2) i] by (auto simp: ok_with_iff)
    show ?thesis
    proof (cases b)
      case True
      have "sd_len sdp' = sd_len sdp" "sd_start sdp' = sd_start sdp" using e(3) by (simp_all add: moved_def)
      with e True i less(3) show ?thesis
        by (subst drain_loop.simps) (auto simp: COMMENT_MARKER_SIZE_def sd_flag_def text_ok_def moved_def)
    next
      case False
      define next_sdp where "next_sdp = (if buf ! sd_cur sdp = NEWLINE then sdp\<lparr>sd_line := sd_line sdp + 1\<rparr> else sdp)
        \<lparr>sd_cur := sd_cur sdp + 1\<rparr>"
      have n: "text_ok buf next_sdp" "sd_flags next_sdp = flags" "moved sdp next_sdp" "sd_cur next_sdp = sd_cur sdp + 1"
        "sd_len next_sdp = sd_len sdp"
        using less(2,3) i by (auto simp: next_sdp_def text_ok_def moved_def)
      have "ok_with (drain_loop flags next_sdp)
          (\<lambda>(open, sdp'). text_ok buf sdp' \<and> moved sdp sdp' \<and> (\<not> open \<longrightarrow> sd_cur sdp < sd_cur sdp')
      \<and> (\<not> open \<and> buf ! sd_cur sdp = CHR ''/'' \<longrightarrow> sd_cur sdp + 1 < sd_cur sdp') \<and> (open \<longrightarrow> sd_cur sdp' = sd_len sdp))"
        by (rule ok_with_mono [OF less(1) [OF _ n(1,2)]]) (use n i in \<open>auto simp: moved_def\<close>)
      moreover have "drain_loop flags sdp = drain_loop flags next_sdp"
        using e False i rd_ok [OF less(2), of "sd_cur sdp"]
        by (subst drain_loop.simps) (simp add: next_sdp_def)
      ultimately show ?thesis by simp
    qed
  qed
qed

lemma trim_front_ok: "text_ok buf sdp \<Longrightarrow> i \<le> sd_len sdp \<Longrightarrow> ok_with (trim_front sdp i) (\<lambda>j. j \<le> sd_len sdp)"
proof (induction "sd_len sdp - i" arbitrary: i rule: less_induct)
  case less
  have rd: "rd sdp i = Some (buf ! i)" using less(2,3) by (simp add: rd_ok)
  show ?case
  proof (cases "c_isspace (buf ! i) \<and> buf ! i \<noteq> NEWLINE")
    case True
    then have "buf ! i \<noteq> NUL" by auto
    then have "i < sd_len sdp" using not_nul [OF less(2,3)] by blast
    then show ?thesis using less(1) [of "i + 1"] less(2) True rd by (subst trim_front.simps) simp
  next
    case False
    then show ?thesis using rd less(3) by (subst trim_front.simps) auto
  qed
qed

lemma trim_back_ok: "text_ok buf sdp \<Longrightarrow> j \<le> sd_len sdp \<Longrightarrow> ok_with (trim_back sdp i j) (\<lambda>k. k \<le> j)"
proof (induction sdp i j rule: trim_back.induct)
  case (2 sdp i j)
  then show ?case using rd_ok [OF 2(2), of j] by (auto elim!: ok_with_mono)
qed simp

lemma add_comment_ok:
  assumes "text_ok buf sdp" "sd_start sdp + 2 \<le> sd_len sdp" "2 \<le> sd_cur sdp"
  shows "ok_with (add_comment sdp) (\<lambda>sdp'. text_ok buf sdp' \<and> moved sdp sdp')"
proof -
  obtain i where i: "trim_front sdp (sd_start sdp + 2) = Some i"
    using trim_front_ok [OF assms(1,2)] by (auto simp: ok_with_iff)
  obtain j where j: "trim_back sdp i (sd_cur sdp - 2) = Some j" "j \<le> sd_cur sdp - 2"
    using trim_back_ok [OF assms(1), of "sd_cur sdp - 2" i] text_okD(2) [OF assms(1)] by (fastforce simp: ok_with_iff)
  show ?thesis
  proof (cases "j \<le> i")
    case True
    with i j assms(1) show ?thesis by (simp add: add_comment_def COMMENT_MARKER_SIZE_def)
  next
    case False
    then have le: "i + (j - i + 2) \<le> sd_len sdp + 1" using j(2) assms(3) text_okD(2) [OF assms(1)] by simp
    define data where "data = take (j - i) (drop i buf)"
    have "data = take (j - i) (drop i (take (sd_len sdp) buf))"
      using le by (simp add: data_def drop_take min_def)
    then have nul: "NUL \<notin> set data" using assms(1) by (auto simp: text_ok_def dest!: in_set_takeD in_set_dropD)
    have "xml_comment (case slaxCommentMakeValue (sd_mem sdp) (c_string ('' '' @ data @ '' '')) of
        None \<Rightarrow> c_string ('' '' @ data @ '' '') | Some s \<Rightarrow> s)"
      by (rule comment_value) (use nul text_okD(5) [OF assms(1)] in auto)
    with rd_text_ok [OF assms(1) le] False i j assms(1) show ?thesis
      by (simp add: add_comment_def COMMENT_MARKER_SIZE_def Let_def text_ok_def moved_def flip: data_def cong: option.case_cong)
  qed
qed

lemma lexer_skip_ok:
  "text_ok buf sdp \<Longrightarrow> ok_with (lexer_skip sdp) (\<lambda>(eof, sdp'). text_ok buf sdp' \<and> sd_cur sdp \<le> sd_cur sdp'
    \<and> sd_len sdp' = sd_len sdp \<and> sd_parse sdp' = sd_parse sdp \<and> sd_last sdp' = sd_last sdp
    \<and> (\<not> eof \<longrightarrow> sd_cur sdp' < sd_len sdp) \<and> (eof \<longrightarrow> sd_cur sdp' = sd_len sdp))"
proof (induction "sd_len sdp - sd_cur sdp" arbitrary: sdp rule: less_induct)
  case less
  let ?s = "sdp\<lparr>sd_start := sd_cur sdp\<rparr>"
  let ?Q = "\<lambda>(eof, sdp'). text_ok buf sdp' \<and> sd_cur sdp \<le> sd_cur sdp'
    \<and> sd_len sdp' = sd_len sdp \<and> sd_parse sdp' = sd_parse sdp \<and> sd_last sdp' = sd_last sdp
    \<and> (\<not> eof \<longrightarrow> sd_cur sdp' < sd_len sdp) \<and> (eof \<longrightarrow> sd_cur sdp' = sd_len sdp)"
  have s: "text_ok buf ?s" using less(2) by (simp add: text_ok_def)
  have again: "ok_with (lexer_skip t) ?Q"
    if "text_ok buf t" "sd_cur sdp < sd_cur t" "sd_len t = sd_len sdp" "sd_parse t = sd_parse sdp" "sd_last t = sd_last sdp" for t
    by (rule ok_with_mono [OF less(1) [OF _ that(1)]]) (use that text_okD(2) [OF that(1)] in auto)
  show ?case
  proof (cases "sd_cur sdp = sd_len sdp")
    case True
    then show ?thesis
      using s get_input_ok [OF s] by (subst lexer_skip.simps) simp
  next
    case False
    then have before: "sd_cur sdp < sd_len sdp" using text_okD(2) [OF less(2)] by simp
    obtain t where t: "skip_space ?s = Some t" "text_ok buf t" "moved ?s t"
      using skip_space_ok [OF s] by (auto simp: ok_with_iff)
    have tf: "sd_len t = sd_len sdp" "sd_start t = sd_cur sdp" "sd_cur sdp \<le> sd_cur t" "sd_parse t = sd_parse sdp"
      "sd_last t = sd_last sdp" using t(3) by (simp_all add: moved_def)
    show ?thesis
    proof (cases "sd_cur t = sd_len t")
      case True
      then have "ok_with (lexer_skip t) ?Q" using again [OF t(2)] tf before by simp
      then show ?thesis using False t(1) True by (subst lexer_skip.simps) simp
    next
      case nonspace: False
      then have i: "sd_cur t < sd_len t" using text_okD(2) [OF t(2)] by simp
      obtain b u where u: "(if SLAX_KEYWORDS_ALLOWED t then slaxIsCommentStart t (sd_cur t) else Some (False, t)) = Some (b, u)"
        "text_ok buf u" "moved t u" "sd_cur u = sd_cur t" "b \<longrightarrow> buf ! sd_cur t = CHR ''/'' \<and> sd_cur t + 1 < sd_len t"
        using comment_start_ok [OF t(2) i] t(2) by (cases "SLAX_KEYWORDS_ALLOWED t") (auto simp: ok_with_iff)
      have uf: "sd_len u = sd_len sdp" "sd_parse u = sd_parse sdp" "sd_last u = sd_last sdp"
        using u(3) tf by (simp_all add: moved_def)
      show ?thesis
      proof (cases b)
        case noc: False
        have "lexer_skip sdp = Some (False, u)"
          using False t(1) nonspace u(1) noc by (subst lexer_skip.simps) simp
        with u(2,4) uf tf i show ?thesis by simp
      next
        case True
        let ?u = "u\<lparr>sd_start := sd_cur u\<rparr>"
        have "text_ok buf ?u" using u(2) by (simp add: text_ok_def)
        then obtain op v where v: "slaxDrainComment ?u = Some (op, v)" "text_ok buf v" "moved ?u v" "\<not> op \<longrightarrow> sd_cur u < sd_cur v"
          "\<not> op \<and> buf ! sd_cur u = CHR ''/'' \<longrightarrow> sd_cur u + 1 < sd_cur v" "op \<longrightarrow> sd_cur v = sd_len u"
          using drain_loop_ok [of buf ?u "sd_flags ?u"] by (auto simp: ok_with_iff slaxDrainComment_def)
        have vf: "sd_len v = sd_len sdp" "sd_parse v = sd_parse sdp" "sd_last v = sd_last sdp" "sd_cur sdp \<le> sd_cur v"
          "sd_start v = sd_cur u" using v(3) uf tf u(4) by (simp_all add: moved_def)
        show ?thesis
        proof (cases op)
          case op: True
          have "lexer_skip sdp = Some (True, v\<lparr>sd_flags := sd_flags v OR SDF_OPEN_COMMENT\<rparr>)"
            using False t(1) nonspace u(1) True v(1) op by (subst lexer_skip.simps) simp
          with v(2,6) vf uf op show ?thesis by (simp add: text_ok_def)
        next
          case closed: False
          have "sd_start v + 2 \<le> sd_len v" using vf u(4,5) True tf by simp
          moreover have "2 \<le> sd_cur v" using v(5) closed u(4,5) True by simp
          ultimately obtain w where w: "add_comment v = Some w" "text_ok buf w" "moved v w"
            using add_comment_ok [OF v(2)] by (auto simp: ok_with_iff)
          have "ok_with (lexer_skip w) ?Q"
            by (rule again [OF w(2)]) (use w(3) vf closed v(4) u(4) tf in \<open>simp_all add: moved_def\<close>)
          moreover have "lexer_skip sdp = lexer_skip w"
            using False t(1) nonspace u(1) True v(1) closed w(1) by (subst lexer_skip.simps) simp
          ultimately show ?thesis by simp
        qed
      qed
    qed
  qed
qed

section \<open>The tables\<close>

lemma keyword_strings: "list_all (\<lambda>km. slaxKeywordString lexer_tables (km_ttype km) = Some (km_string km)) keywordMap"
  by code_simp

lemma keyword_letters:
  "list_all (\<lambda>km. 0 < km_ttype km \<and> km_ttype km \<noteq> T_QUOTED \<and> km_string km \<noteq> []
    \<and> 97 \<le> (of_char (hd (km_string km)) :: nat)) keywordMap"
  by code_simp

lemma keyword_table:
  assumes "km \<in> set keywordMap"
  shows "0 < km_ttype km" "km_ttype km \<noteq> T_QUOTED" "slaxKeywordString lexer_tables (km_ttype km) = Some (km_string km)"
    "km_string km \<noteq> []" "97 \<le> (of_char (hd (km_string km)) :: nat)"
  using assms keyword_strings keyword_letters by (simp_all add: list_all_iff)

lemma setup_single_range: "setup_single ds tab c = tab c \<or> setup_single ds tab c \<in> fst ` set ds"
proof (induction ds tab rule: setup_single.induct)
  case (2 t d ds tab)
  have "(tab(d := t)) c = tab c \<or> (tab(d := t)) c = t" by simp
  with 2 show ?case by (simp del: fun_upd_apply) metis
qed simp

lemma single_table: "singleWide lexer_tables c \<noteq> 0 \<Longrightarrow> 0 < singleWide lexer_tables c \<and> singleWide lexer_tables c \<noteq> T_QUOTED"
proof -
  assume "singleWide lexer_tables c \<noteq> 0"
  then have "singleWide lexer_tables c \<in> fst ` set singleWideData"
    using setup_single_range [of singleWideData "\<lambda>_. 0" c] by (simp add: lexer_tables_def slaxSetupLexer_def)
  moreover have "\<forall>t\<in>set singleWideData. 0 < fst t \<and> fst t \<noteq> T_QUOTED"
    unfolding list_all_iff [symmetric] by code_simp
  ultimately show ?thesis by auto
qed

lemma double_positive: "slaxDoubleWide c d \<noteq> 0 \<Longrightarrow> 0 < slaxDoubleWide c d \<and> d \<noteq> NUL \<and> slaxDoubleWide c d \<noteq> T_QUOTED"
  by (simp add: slaxDoubleWide_def ttypes split: if_splits)

lemma triple_positive: "slaxTripleWide c d e \<noteq> 0
    \<Longrightarrow> 0 < slaxTripleWide c d e \<and> d \<noteq> NUL \<and> e \<noteq> NUL \<and> slaxTripleWide c d e \<noteq> T_QUOTED"
  by (simp add: slaxTripleWide_def ttypes split: if_splits)

section \<open>The kinds of tokens\<close>

text \<open>A token type is positive, or the end of the input; a quoted string has its two quotes.\<close>

definition token_ok :: "string \<Rightarrow> slax_data \<Rightarrow> ttype \<times> slax_data \<Rightarrow> bool" where
  "token_ok buf sdp = (\<lambda>(rc, sdp'). text_ok buf sdp' \<and> moved sdp sdp' \<and> (rc = -1 \<or> 0 < rc)
     \<and> (rc = T_QUOTED \<longrightarrow> sd_start sdp + 2 \<le> sd_cur sdp') \<and> (rc = -1 \<longrightarrow> text_ends buf sdp'))"

lemma token_okI:
  "text_ok buf sdp' \<Longrightarrow> moved sdp sdp' \<Longrightarrow> 0 < rc \<Longrightarrow> rc \<noteq> T_QUOTED \<Longrightarrow> token_ok buf sdp (rc, sdp')"
  by (simp add: token_ok_def)

lemma token_ok_moved: "moved sdp t \<Longrightarrow> ok_with m (token_ok buf t) \<Longrightarrow> ok_with m (token_ok buf sdp)"
  by (erule ok_with_mono) (auto simp: token_ok_def moved_def)

lemma quoted_loop_ok:
  "text_ok buf sdp \<Longrightarrow> ok_with (quoted_loop quote sdp) (\<lambda>(eof, sdp'). text_ok buf sdp' \<and> moved sdp sdp'
    \<and> (\<not> eof \<longrightarrow> sd_cur sdp' < sd_len sdp) \<and> (eof \<longrightarrow> sd_len sdp \<le> sd_cur sdp' + 1))"
proof (induction "sd_len sdp - sd_cur sdp" arbitrary: sdp rule: less_induct)
  case less
  show ?case
  proof (cases "sd_cur sdp = sd_len sdp")
    case True
    then show ?thesis using less(2) get_input_ok [OF less(2)] by (subst quoted_loop.simps) simp
  next
    case False
    then have i: "sd_cur sdp < sd_len sdp" using text_okD(2) [OF less(2)] by simp
    then have rd: "rd sdp (sd_cur sdp) = Some (buf ! sd_cur sdp)" using less(2) by (simp add: rd_ok)
    show ?thesis
    proof (cases "buf ! sd_cur sdp = quote \<or> \<not> sd_cur sdp + 1 < sd_len sdp")
      case True
      then show ?thesis
        using i rd less(2) move_cur_ok [OF less(2)] by (subst quoted_loop.simps) auto
    next
      case more: False
      let ?n = "sdp\<lparr>sd_cur := sd_cur sdp + 1\<rparr>"
      define n where "n = (if buf ! sd_cur sdp = BSLASH \<and> \<not> slaxParseIsXpath ?n \<and> sd_cur ?n < sd_len ?n
        then ?n\<lparr>sd_cur := sd_cur ?n + 1\<rparr> else ?n)"
      have n: "text_ok buf n" "moved sdp n" "sd_cur sdp < sd_cur n" "sd_len n = sd_len sdp"
        using less(2) more by (auto simp: n_def text_ok_def moved_def)
      have "ok_with (quoted_loop quote n) (\<lambda>(eof, sdp'). text_ok buf sdp' \<and> moved sdp sdp'
          \<and> (\<not> eof \<longrightarrow> sd_cur sdp' < sd_len sdp) \<and> (eof \<longrightarrow> sd_len sdp \<le> sd_cur sdp' + 1))"
        by (rule ok_with_mono [OF less(1) [OF _ n(1)]]) (use n i in \<open>auto simp: moved_def\<close>)
      moreover have "quoted_loop quote sdp = quoted_loop quote n"
        using i more rd move_cur_ok [OF less(2)] by (subst quoted_loop.simps) (simp add: n_def)
      ultimately show ?thesis by simp
    qed
  qed
qed

lemma lex_quoted_ok:
  assumes "text_ok buf sdp" "sd_start sdp = sd_cur sdp" "rc = -1 \<or> 0 < rc \<and> rc \<noteq> T_QUOTED"
    and "buf ! sd_cur sdp = SQUOTE \<or> buf ! sd_cur sdp = DQUOTE"
  shows "ok_with (lex_quoted quote rc sdp) (token_ok buf sdp)"
proof (cases "sd_cur sdp + 1 < sd_len sdp")
  case False
  then show ?thesis using assms move_cur_ok [OF assms(1)] text_okD(2) [OF assms(1)]
    by (auto simp: lex_quoted_def token_ok_def text_ends_def ttypes)
next
  case True
  let ?n = "sdp\<lparr>sd_cur := sd_cur sdp + 1\<rparr>"
  have n: "text_ok buf ?n" using assms(1) True by (simp add: text_ok_def)
  obtain eof t where t: "quoted_loop quote ?n = Some (eof, t)" "text_ok buf t" "moved ?n t" "\<not> eof \<longrightarrow> sd_cur t < sd_len sdp"
    "eof \<longrightarrow> sd_len sdp \<le> sd_cur t + 1"
    using quoted_loop_ok [OF n, of quote] by (auto simp: ok_with_iff)
  show ?thesis
    using t True assms move_cur_ok [OF assms(1)]
    by (cases eof) (auto simp: lex_quoted_def token_ok_def moved_def text_ok_def text_ends_def ttypes)
qed

lemma look_ahead_ok:
  "text_ok buf sdp \<Longrightarrow> i \<le> sd_len sdp \<Longrightarrow> ok_with (look_ahead token sdp i) (\<lambda>(b, sdp'). sdp' = sdp)"
proof (induction "sd_len sdp - i" arbitrary: i rule: less_induct)
  case less
  have rd: "rd sdp i = Some (buf ! i)" using less(2,3) by (simp add: rd_ok)
  show ?case
  proof (cases "c_isspace (buf ! i)")
    case True
    then have "buf ! i \<noteq> NUL" by auto
    then have "i < sd_len sdp" using not_nul [OF less(2,3)] by blast
    then have "ok_with (look_ahead token sdp (i + 1)) (\<lambda>(b, sdp'). sdp' = sdp)"
      using less(1) [of "i + 1"] less(2) by simp
    then show ?thesis using rd True get_input_ok [OF less(2)] by (subst look_ahead.simps) simp
  next
    case False
    then show ?thesis
      using rd rd_text_ok [OF less(2), of i "length token"] by (subst look_ahead.simps) auto
  qed
qed

lemma bare_loop_ok:
  "text_ok buf sdp \<Longrightarrow> ok_with (bare_loop sdp) (\<lambda>(axis, sdp'). text_ok buf sdp' \<and> moved sdp sdp')"
proof (induction "sd_len sdp - sd_cur sdp" arbitrary: sdp rule: less_induct)
  case less
  show ?case
  proof (cases "sd_cur sdp < sd_len sdp")
    case False
    then show ?thesis using less(2) by (subst bare_loop.simps) simp
  next
    case True
    then obtain axis where ahead: "slaxLexerLookAhead sdp ''::'' = Some (axis, sdp)"
      using look_ahead_ok [OF less(2), of "sd_cur sdp" "''::''"] by (auto simp: slaxLexerLookAhead_def ok_with_iff)
    have rd: "rd sdp (sd_cur sdp) = Some (buf ! sd_cur sdp)" "rd sdp (sd_cur sdp - 1) = Some (buf ! (sd_cur sdp - 1))"
      using True less(2) by (simp_all add: rd_ok)
    let ?n = "sdp\<lparr>sd_cur := sd_cur sdp + 1\<rparr>"
    have n: "text_ok buf ?n" using less(2) True by (simp add: text_ok_def)
    have "ok_with (bare_loop ?n) (\<lambda>(axis, sdp'). text_ok buf sdp' \<and> moved sdp sdp')"
      by (rule ok_with_mono [OF less(1) [OF _ n]]) (use True in \<open>auto simp: moved_def\<close>)
    with True ahead rd less(2) show ?thesis
      by (subst bare_loop.simps) (auto simp: moved_def)
  qed
qed

lemma look_function_ok:
  assumes "text_ok buf sdp"
  shows "ok_with (look_function sdp i) (\<lambda>(b, sdp'). sdp' = sdp)"
proof -
  obtain j where j: "scan_while c_isspace sdp i = Some j" using scan_while_ok [OF assms, of c_isspace i] by (auto simp: ok_with_iff)
  show ?thesis
    using j rd_ok [OF assms, of j] get_input_ok [OF assms] by (subst look_function.simps) auto
qed

lemma lex_bare_ok:
  assumes "text_ok buf sdp"
  shows "ok_with (lex_bare sdp) (token_ok buf sdp)"
proof -
  obtain axis t where t: "bare_loop sdp = Some (axis, t)" "text_ok buf t" "moved sdp t"
    using bare_loop_ok [OF assms] by (auto simp: ok_with_iff)
  obtain call where call: "look_function t (sd_cur t) = Some (call, t)"
    using look_function_ok [OF t(2)] by (auto simp: ok_with_iff)
  have rd: "rd t (sd_cur t) = Some (buf ! sd_cur t)" using rd_ok [OF t(2)] text_okD(2) [OF t(2)] by simp
  show ?thesis
  proof (cases "axis \<or> call \<or> sd_cur t \<noteq> sd_start t \<or> buf ! sd_cur t \<noteq> CHR ''#''
      \<or> \<not> int (sd_len t) - int (sd_cur t) > 8")
    case True
    with t call rd show ?thesis by (auto simp: lex_bare_def token_ok_def ttypes)
  next
    case False
    then have "sd_cur t + 8 < sd_len t" by simp
    moreover from this have "rd t (sd_cur t + 8) = Some (buf ! (sd_cur t + 8))"
      "rd_text t (sd_cur t) 8 = Some (take 8 (drop (sd_cur t) buf))"
      using rd_ok [OF t(2)] rd_text_ok [OF t(2)] by simp_all
    moreover have "text_ok buf (t\<lparr>sd_cur := sd_cur t + 8\<rparr>)" "moved sdp (t\<lparr>sd_cur := sd_cur t + 8\<rparr>)"
      using t(2,3) calculation(1) by (auto simp: text_ok_def moved_def)
    ultimately show ?thesis
      using False t call rd by (auto simp: lex_bare_def token_ok_def ttypes)
  qed
qed

lemma lex_word_ok:
  assumes "text_ok buf sdp"
  shows "ok_with (lex_word c d sdp) (token_ok buf sdp)"
  using lex_bare_ok [OF assms] skip_chars_ok [OF assms, of "\<lambda>ch. c_isalnum ch \<or> ch = CHR ''_''"]
  by (auto simp: lex_word_def token_ok_def ttypes elim!: ok_with_mono)

text \<open>The position is at the start of the token, or behind a dot or an underscore that starts it.\<close>

definition at_word :: "string \<Rightarrow> slax_data \<Rightarrow> bool" where
  "at_word buf sdp \<longleftrightarrow> text_ok buf sdp \<and> sd_start sdp < sd_len sdp
     \<and> (sd_cur sdp = sd_start sdp
        \<or> sd_cur sdp = sd_start sdp + 1 \<and> (buf ! sd_start sdp = CHR ''.'' \<or> buf ! sd_start sdp = CHR ''_''))"

lemma at_wordD:
  "at_word buf sdp \<Longrightarrow> text_ok buf sdp"
  "at_word buf sdp \<Longrightarrow> buf ! sd_start sdp \<noteq> CHR ''.'' \<Longrightarrow> buf ! sd_start sdp \<noteq> CHR ''_'' \<Longrightarrow> sd_cur sdp = sd_start sdp"
  "at_word buf sdp \<Longrightarrow> sd_start sdp < sd_len sdp"
  by (auto simp: at_word_def)

lemma slaxKeyword_ok:
  assumes "at_word buf sdp"
  shows "ok_with (slaxKeyword sdp) (\<lambda>rc. rc = 0 \<or> 0 < rc \<and> rc \<noteq> T_QUOTED \<and> sd_cur sdp = sd_start sdp
    \<and> (\<exists>str. slaxKeywordString lexer_tables rc = Some str \<and> sd_cur sdp + length str \<le> sd_len sdp
      \<and> take (length str) (drop (sd_start sdp) buf) = str))"
proof -
  have t: "text_ok buf sdp" using assms by (rule at_wordD)
  have len: "sd_start sdp < length buf" using at_wordD(3) [OF assms] text_okD(4) [OF t] by simp
  have word: "sd_cur sdp = sd_start sdp"
    if "km \<in> set keywordMap" "take (length (km_string km)) (drop (sd_start sdp) buf) = km_string km" for km
  proof -
    have "hd (km_string km) = hd (take (length (km_string km)) (drop (sd_start sdp) buf))" using that(2) by simp
    also have "\<dots> = buf ! sd_start sdp" using keyword_table(4) [OF that(1)] len by (simp add: hd_drop_conv_nth hd_take)
    finally have "97 \<le> (of_char (buf ! sd_start sdp) :: nat)" using keyword_table(5) [OF that(1)] by simp
    then show ?thesis by (intro at_wordD(2) [OF assms]) auto
  qed
  show ?thesis
    unfolding slaxKeyword_def
  proof (rule ok_with_mono [OF keyword_scan_ok [OF t]], elim disjE bexE conjE)
    fix rc km
    assume km: "km \<in> set keywordMap" "rc = km_ttype km" "sd_start sdp + length (km_string km) \<le> sd_len sdp"
      "take (length (km_string km)) (drop (sd_start sdp) buf) = km_string km"
    then show "rc = 0 \<or> 0 < rc \<and> rc \<noteq> T_QUOTED \<and> sd_cur sdp = sd_start sdp
      \<and> (\<exists>str. slaxKeywordString lexer_tables rc = Some str \<and> sd_cur sdp + length str \<le> sd_len sdp
        \<and> take (length str) (drop (sd_start sdp) buf) = str)"
      using keyword_table(1-3) [OF km(1)] word [OF km(1,4)] by simp
  qed simp
qed

lemma lex_ascii_ok:
  assumes "at_word buf sdp" "ch1 = buf ! sd_start sdp"
    "ch2 = (if sd_start sdp + 1 < sd_len sdp then buf ! (sd_start sdp + 1) else NUL)"
  shows "ok_with (lex_ascii ch1 ch2 sdp) (token_ok buf sdp)"
proof -
  have t: "text_ok buf sdp" using assms(1) by (rule at_wordD)
  have before: "sd_start sdp < sd_len sdp" using assms(1) by (rule at_wordD)
  have here: "ch1 \<noteq> CHR ''.'' \<Longrightarrow> ch1 \<noteq> CHR ''_'' \<Longrightarrow> sd_cur sdp = sd_start sdp" using at_wordD(2) assms(1,2) by simp
  have chars: "ok_with (skip_chars P (sdp\<lparr>sd_cur := i\<rparr>)) (\<lambda>sdp'. token_ok buf sdp (rc, sdp'))"
    if "sd_cur sdp \<le> i" "i \<le> sd_len sdp" "0 < rc" "rc \<noteq> T_QUOTED" for P i rc
  proof -
    have "text_ok buf (sdp\<lparr>sd_cur := i\<rparr>)" using t that by (simp add: text_ok_def)
    from ok_with_mono [OF skip_chars_ok [OF this, of P]] that show ?thesis
      by (auto simp: token_ok_def moved_def elim!: ok_with_mono)
  qed
  consider "ch1 = SQUOTE \<or> ch1 = DQUOTE" | "ch1 = CHR ''$''" | "ch1 \<noteq> SQUOTE" "ch1 \<noteq> DQUOTE" "ch1 \<noteq> CHR ''$''" by blast
  then show ?thesis
  proof cases
    case 1
    then have "sd_start sdp = sd_cur sdp" using here by force
    with 1 show ?thesis using lex_quoted_ok [OF t] assms(2) by (auto simp: lex_ascii_def ttypes)
  next
    case 2
    then have "sd_cur sdp + 1 \<le> sd_len sdp" using here before by force
    from chars [OF _ this, of T_VAR slaxIsVarChar] 2 show ?thesis by (simp add: lex_ascii_def ttypes)
  next
    case 3
    obtain rc where rc: "slaxKeyword sdp = Some rc"
      "rc = 0 \<or> 0 < rc \<and> rc \<noteq> T_QUOTED \<and> sd_cur sdp = sd_start sdp
        \<and> (\<exists>str. slaxKeywordString lexer_tables rc = Some str \<and> sd_cur sdp + length str \<le> sd_len sdp
          \<and> take (length str) (drop (sd_start sdp) buf) = str)"
      using slaxKeyword_ok [OF assms(1)] by (auto simp: ok_with_iff)
    show ?thesis
    proof (cases "rc = 0")
      case False
      with rc t 3 show ?thesis by (auto simp: lex_ascii_def token_ok_def text_ok_def moved_def)
    next
      case plain: True
      show ?thesis
      proof (cases "ch1 = CHR ''0'' \<and> ch2 = CHR ''x''")
        case True
        then have "sd_start sdp + 1 < sd_len sdp" using assms(3) by (auto split: if_splits)
        then have "sd_cur sdp + 2 \<le> sd_len sdp" using here True by simp
        from chars [OF _ this, of T_NUMBER hex_digit] True plain rc(1) show ?thesis by (simp add: lex_ascii_def ttypes)
      next
        case False
        have "ok_with (skip_number False sdp) (\<lambda>sdp'. token_ok buf sdp (T_NUMBER, sdp'))"
          by (rule ok_with_mono [OF skip_number_ok [OF t]]) (auto simp: token_ok_def ttypes)
        with False 3 plain rc(1) lex_word_ok [OF t] show ?thesis by (auto simp: lex_ascii_def)
      qed
    qed
  qed
qed

lemma lex_string_ok:
  assumes "text_ok buf sdp" "sd_start sdp = sd_cur sdp" "sd_cur sdp < sd_len sdp" "ch1 = buf ! sd_cur sdp"
  shows "ok_with (lex_string ch1 sdp) (token_ok buf sdp)"
proof (cases "ch1 = SQUOTE \<or> ch1 = DQUOTE")
  case True
  then show ?thesis using lex_quoted_ok [OF assms(1,2)] assms(4) by (auto simp: lex_string_def)
next
  case False
  let ?P = "\<lambda>ch. \<not> (c_isspace ch \<or> ch = CHR '';'' \<or> ch = CHR ''{'' \<or> ch = CHR ''}'')"
  have "text_ok buf (sdp\<lparr>sd_cur := sd_cur sdp + 1\<rparr>)" using assms by (simp add: text_ok_def)
  then obtain t where t: "skip_chars ?P (sdp\<lparr>sd_cur := sd_cur sdp + 1\<rparr>) = Some t" "text_ok buf t"
    "moved (sdp\<lparr>sd_cur := sd_cur sdp + 1\<rparr>) t"
    using skip_chars_ok [of buf _ ?P] by (fastforce simp: ok_with_iff)
  have "rd t (sd_start t) = Some (buf ! sd_start t)"
    using rd_ok [OF t(2)] text_okD(1,2) [OF t(2)] by simp
  with False t show ?thesis by (auto simp: lex_string_def token_ok_def moved_def ttypes)
qed

lemma lex_single_ok:
  assumes "text_ok buf sdp" "sd_start sdp = sd_cur sdp" "sd_cur sdp < sd_len sdp" "ch1 = buf ! sd_cur sdp"
    "singleWide lexer_tables ch1 \<noteq> 0"
  shows "ok_with (lex_single ch1 ch2 sdp) (\<lambda>(rc, sdp'). case rc of Some rc \<Rightarrow> token_ok buf sdp (rc, sdp')
    | None \<Rightarrow> at_word buf sdp' \<and> moved sdp sdp')"
proof -
  let ?n = "sdp\<lparr>sd_cur := sd_cur sdp + 1\<rparr>"
  have n: "text_ok buf ?n" "moved sdp ?n" using assms by (simp_all add: text_ok_def moved_def)
  have lit: "0 < singleWide lexer_tables ch1" "singleWide lexer_tables ch1 \<noteq> T_QUOTED"
    using single_table [OF assms(5)] by simp_all
  have single: "singleWide lexer_tables ch1 = L_UNDERSCORE \<Longrightarrow> ch1 = CHR ''_''"
    by (simp add: lexer_tables_def slaxSetupLexer_def singleWideData_def ttypes split: if_split_asm)
  obtain m where m: "skip_chars (\<lambda>ch. ch = NUL \<or> ch \<in> set ''0123456789.+-eE'') ?n = Some m" "text_ok buf m" "moved ?n m"
    using skip_chars_ok [OF n(1), of "\<lambda>ch. ch = NUL \<or> ch \<in> set ''0123456789.+-eE''"] by (auto simp: ok_with_iff)
  have "moved sdp m" using n(2) m(3) by (rule moved_trans)
  then have tm: "0 < rc \<Longrightarrow> rc \<noteq> T_QUOTED \<Longrightarrow> token_ok buf sdp (rc, m)" for rc using m(2) by (intro token_okI) auto
  have tn: "0 < rc \<Longrightarrow> rc \<noteq> T_QUOTED \<Longrightarrow> token_ok buf sdp (rc, ?n)" for rc using n by (intro token_okI) auto
  have word: "ch1 = CHR ''.'' \<or> ch1 = CHR ''_'' \<Longrightarrow> at_word buf ?n"
    using n(1) assms by (auto simp: at_word_def)
  show ?thesis
    using lit m(1) tm tn word single n(2) unfolding lex_single_def Let_def
    by (auto simp: ttypes)
qed

lemma lex_token_ok:
  assumes "text_ok buf sdp" "sd_cur sdp < sd_len sdp"
  shows "ok_with (lex_token sdp) (token_ok buf (sdp\<lparr>sd_start := sd_cur sdp\<rparr>))"
proof -
  define s where "s = sdp\<lparr>sd_start := sd_cur sdp\<rparr>"
  define ch1 where "ch1 = buf ! sd_cur s"
  define ch2 where "ch2 = (if sd_cur s + 1 < sd_len s then buf ! (sd_cur s + 1) else NUL)"
  define ch3 where "ch3 = (if sd_cur s + 2 < sd_len s then buf ! (sd_cur s + 2) else NUL)"
  have s: "text_ok buf s" "sd_start s = sd_cur s" "sd_cur s < sd_len s"
    using assms by (simp_all add: s_def text_ok_def)
  have rd: "rd s (sd_cur s) = Some ch1"
    "(if sd_cur s + 1 < sd_len s then rd s (sd_cur s + 1) else Some NUL) = Some ch2"
    "(if sd_cur s + 2 < sd_len s then rd s (sd_cur s + 2) else Some NUL) = Some ch3"
    using rd_ok [OF s(1)] s(3) by (simp_all add: ch1_def ch2_def ch3_def)
  have word: "at_word buf s" using s by (simp add: at_word_def)
  have adv: "token_ok buf s (rc, s\<lparr>sd_cur := sd_cur s + k\<rparr>)" if "0 < rc" "rc \<noteq> T_QUOTED" "sd_cur s + k \<le> sd_len s" for rc k
    using that s(1) by (intro token_okI) (auto simp: text_ok_def moved_def)
  have two: "ch2 \<noteq> NUL \<Longrightarrow> sd_cur s + 2 \<le> sd_len s" "ch3 \<noteq> NUL \<Longrightarrow> sd_cur s + 3 \<le> sd_len s"
    by (auto simp: ch2_def ch3_def split: if_splits)
  have ascii: "ok_with (lex_ascii ch1 ch2 t) (token_ok buf s)" if "at_word buf t" "moved s t" for t
  proof -
    have "sd_start t = sd_start s" "sd_len t = sd_len s" using that(2) by (simp_all add: moved_def)
    then have "ok_with (lex_ascii ch1 ch2 t) (token_ok buf t)"
      by (intro lex_ascii_ok [OF that(1)]) (simp_all add: ch1_def ch2_def s(2))
    then show ?thesis by (rule token_ok_moved [OF that(2)])
  qed
  have single: "ok_with (lex_single ch1 ch2 s \<bind> (\<lambda>(rc, sdp). case rc of Some rc \<Rightarrow> Some (rc, sdp) | None \<Rightarrow> lex_ascii ch1 ch2 sdp))
      (token_ok buf s)" if "singleWide lexer_tables ch1 \<noteq> 0"
    using lex_single_ok [OF s, of ch1 ch2] that ascii
    by (auto simp: ch1_def elim!: ok_with_mono split: option.splits)
  define rc3 where "rc3 = (if tripleWide lexer_tables ch1 \<noteq> 0 then slaxTripleWide ch1 ch2 ch3 else 0)"
  define rc2 where "rc2 = (if doubleWide lexer_tables ch1 \<noteq> 0 then slaxDoubleWide ch1 ch2 else 0)"
  have "lex_token sdp =
      (if sd_flag s SDF_STRING \<and> ch1 \<notin> set ''{};+'' then lex_string ch1 s
       else if \<not> (of_char ch1 :: nat) < 128 then lex_word ch1 ch2 s
       else if rc3 \<noteq> 0 then Some (rc3, s\<lparr>sd_cur := sd_cur s + 3\<rparr>)
       else if rc2 \<noteq> 0 then Some (rc2, s\<lparr>sd_cur := sd_cur s + 2\<rparr>)
       else if singleWide lexer_tables ch1 \<noteq> 0 then
         lex_single ch1 ch2 s \<bind> (\<lambda>(rc, sdp). case rc of Some rc \<Rightarrow> Some (rc, sdp) | None \<Rightarrow> lex_ascii ch1 ch2 sdp)
       else lex_ascii ch1 ch2 s)"
    unfolding lex_token_def Let_def s_def [symmetric] rd rc3_def rc2_def Option.bind.bind_lunit ..
  moreover have "rc3 \<noteq> 0 \<Longrightarrow> token_ok buf s (rc3, s\<lparr>sd_cur := sd_cur s + 3\<rparr>)"
    using triple_positive [of ch1 ch2 ch3] two by (intro adv) (auto simp: rc3_def split: if_splits)
  moreover have "rc2 \<noteq> 0 \<Longrightarrow> token_ok buf s (rc2, s\<lparr>sd_cur := sd_cur s + 2\<rparr>)"
    using double_positive [of ch1 ch2] two by (intro adv) (auto simp: rc2_def split: if_splits)
  ultimately show ?thesis
    using lex_string_ok [OF s ch1_def] lex_word_ok [OF s(1)] ascii [OF word] single unfolding s_def [symmetric] by simp
qed

text \<open>The lexer: the end of the input, or a token at its start, which is before the end of the text.\<close>

lemma slaxLexer_ok:
  assumes "text_ok buf sdp"
  shows "ok_with (slaxLexer sdp) (\<lambda>(rc, sdp'). text_ok buf sdp' \<and> sd_cur sdp \<le> sd_cur sdp' \<and> sd_len sdp' = sd_len sdp
    \<and> sd_parse sdp' = sd_parse sdp \<and> sd_last sdp' = sd_last sdp \<and> (rc = -1 \<or> 0 < rc)
    \<and> (0 < rc \<longrightarrow> sd_start sdp' < sd_len sdp \<and> sd_cur sdp \<le> sd_start sdp')
    \<and> (rc = T_QUOTED \<longrightarrow> sd_start sdp' + 2 \<le> sd_cur sdp') \<and> (rc = -1 \<longrightarrow> text_ends buf sdp'))"
proof -
  obtain eof t where t: "lexer_skip sdp = Some (eof, t)" "text_ok buf t" "sd_cur sdp \<le> sd_cur t" "sd_len t = sd_len sdp"
    "sd_parse t = sd_parse sdp" "sd_last t = sd_last sdp" "\<not> eof \<longrightarrow> sd_cur t < sd_len sdp" "eof \<longrightarrow> sd_cur t = sd_len sdp"
    using lexer_skip_ok [OF assms] by (auto simp: ok_with_iff)
  show ?thesis
  proof (cases eof)
    case True
    with t show ?thesis by (simp add: slaxLexer_def text_ends_def ttypes)
  next
    case False
    then have "sd_cur t < sd_len t" using t by simp
    then obtain rc u where u: "lex_token t = Some (rc, u)" "token_ok buf (t\<lparr>sd_start := sd_cur t\<rparr>) (rc, u)"
      using lex_token_ok [OF t(2)] by (auto simp: ok_with_iff)
    have "text_ok buf u" "sd_cur t \<le> sd_cur u" "sd_start u = sd_cur t" "sd_len u = sd_len t" "sd_parse u = sd_parse t"
      "sd_last u = sd_last t" "rc = -1 \<or> 0 < rc" "rc = T_QUOTED \<longrightarrow> sd_cur t + 2 \<le> sd_cur u"
      "rc = -1 \<longrightarrow> text_ends buf u"
      using u(2) by (simp_all add: token_ok_def moved_def)
    moreover have "slaxLexer sdp = Some (rc, u)" using t(1) u(1) False by (simp add: slaxLexer_def)
    ultimately show ?thesis using t False by simp
  qed
qed

section \<open>The text of a token\<close>

lemma rd_hex_ok: "text_ok buf sdp \<Longrightarrow> i \<le> sd_len sdp \<Longrightarrow> rd_hex sdp i = Some (slaxHex (buf ! i))"
  by (simp add: rd_hex_def rd_ok)

lemma utf_word_ok:
  assumes "text_ok buf sdp" "i + width \<le> sd_len sdp" "width = 4 \<or> width = 6"
  shows "ok_with (slaxUtfWord sdp i width) (\<lambda>_. True)"
  using assms(2,3) by (auto simp: slaxUtfWord_def Let_def rd_hex_ok [OF assms(1)] SLAX_UTF_WIDTH6_def)

lemma create_escape_ok:
  assumes "text_ok buf sdp" "i < len" "start + len < sd_len sdp"
  shows "ok_with (create_escape sdp start len i ch) (\<lambda>_. True)"
proof -
  have near: "rd sdp (start + i + 1) = Some (buf ! (start + i + 1))" "rd_hex sdp (start + i + 1) = Some (slaxHex (buf ! (start + i + 1)))"
    "rd_hex sdp (start + i + 2) = Some (slaxHex (buf ! (start + i + 2)))"
    using assms by (simp_all add: rd_ok [OF assms(1)] rd_hex_ok [OF assms(1)])
  have utf: "ok_with (slaxUtfWord sdp (start + i + 2) w) (\<lambda>_. True)"
    if "w = 4 \<or> w = 6" "int w \<le> int len - int (i + 1)" for w
    by (rule utf_word_ok [OF assms(1) _ that(1)]) (use that(2) assms(3) in linarith)
  show ?thesis
    using near utf [of 4] utf [of 6]
    by (simp add: create_escape_def Let_def SLAX_UTF_WIDTH4_def SLAX_UTF_WIDTH6_def)
qed

lemma create_quoted_ok:
  "text_ok buf sdp \<Longrightarrow> start + len < sd_len sdp \<Longrightarrow> ok_with (create_quoted sdp start len i out) (\<lambda>_. True)"
proof (induction sdp start len i out rule: create_quoted.induct)
  case (1 sdp start len i out)
  show ?case
  proof (cases "i < len")
    case False
    then show ?thesis by (subst create_quoted.simps) simp
  next
    case True
    then have rd: "rd sdp (start + i) = Some (buf ! (start + i))" "rd sdp (start + i + 1) = Some (buf ! (start + i + 1))"
      using 1(3,4) by (simp_all add: rd_ok)
    show ?thesis
    proof (cases "buf ! (start + i) = BSLASH \<and> \<not> slaxParseIsXpath sdp")
      case False
      then have "create_quoted sdp start len i out = create_quoted sdp start len (i + 1) (out @ [buf ! (start + i)])"
        using create_quoted.simps [of sdp start len i out] True rd by auto
      then show ?thesis using 1(2) [OF True rd(1) False 1(3,4)] by simp
    next
      case esc: True
      show ?thesis
      proof (cases "i = len - 1")
        case False
        then have "i + 1 < len" using True by simp
        then obtain bytes j where e: "create_escape sdp start len (i + 1) (buf ! (start + i + 1)) = Some (bytes, j)"
          using create_escape_ok [OF 1(3) _ 1(4)] by (fastforce simp: ok_with_iff)
        show ?thesis
          using 1(1) [OF True rd(1) esc False rd(2) e refl 1(3,4)] True esc rd e False by (subst create_quoted.simps) simp
      qed (use True esc rd in \<open>subst create_quoted.simps, simp\<close>)
    qed
  qed
qed

lemma string_create_ok:
  assumes "text_ok buf sdp" "rc = T_QUOTED \<longrightarrow> sd_start sdp + 2 \<le> sd_cur sdp"
  shows "ok_with (slaxStringCreate sdp rc) (\<lambda>(ssp, sdp'). text_ok buf sdp' \<and> sd_cur sdp' = sd_cur sdp
    \<and> sd_len sdp' = sd_len sdp \<and> (rc \<noteq> L_EOS \<longrightarrow> ssp \<noteq> None))"
proof (cases "rc = T_QUOTED")
  case True
  define len where "len = sd_cur sdp - sd_start sdp - 2"
  have l: "sd_start sdp + 1 + len < sd_len sdp" "nat (int (sd_cur sdp) - int (sd_start sdp)) - 2 = len"
    "\<not> int (sd_cur sdp) - int (sd_start sdp) < 2"
    using assms(2) True text_okD(2) [OF assms(1)] by (auto simp: len_def)
  obtain r where "create_quoted sdp (sd_start sdp + 1) len 0 [] = Some r"
    using create_quoted_ok [OF assms(1) l(1)] by (fastforce simp: ok_with_iff)
  then show ?thesis
    using True l assms(1) by (cases r) (simp add: slaxStringCreate_def Let_def text_ok_def ttypes)
next
  case False
  have le: "sd_start sdp + (sd_cur sdp - sd_start sdp) \<le> sd_len sdp + 1" using text_okD(1,2) [OF assms(1)] by simp
  have len: "nat (int (sd_cur sdp) - int (sd_start sdp)) = sd_cur sdp - sd_start sdp" "\<not> int (sd_cur sdp) - int (sd_start sdp) < 0"
    using text_okD(1) [OF assms(1)] by simp_all
  show ?thesis
    using False len rd_text_ok [OF assms(1) le] text_okD(5) [OF assms(1)] assms(1)
    by (simp add: slaxStringCreate_def Let_def)
qed

section \<open>The parser's view\<close>

lemma context_type_ok:
  assumes "text_ok buf sdp"
  shows "ok_with (context_type rc sdp) (\<lambda>rc'. rc' = rc \<or> rc' = T_BARE \<and> 0 < rc \<or> rc' = T_FUNCTION_NAME \<and> 0 < rc)"
proof -
  obtain j where "scan_while c_isspace sdp (sd_cur sdp) = Some j"
    using scan_while_ok [OF assms, of c_isspace "sd_cur sdp"] by (auto simp: ok_with_iff)
  then show ?thesis
    using rd_ok [OF assms, of j] by (simp add: context_type_def Let_def ttypes)
qed

lemma keywords_off_ok: "text_ok buf (keywords_off rc sdp) = text_ok buf sdp"
  "sd_cur (keywords_off rc sdp) = sd_cur sdp" "sd_len (keywords_off rc sdp) = sd_len sdp"
  by (simp_all add: keywords_off_def Let_def text_ok_def)

text \<open>A token for the parser: the end of the input, or a token that takes at least one character.\<close>

lemma slaxYylex_ok:
  assumes "text_ok buf sdp"
  shows "ok_with (slaxYylex True sdp) (\<lambda>(rc, ssp, sdp'). text_ok buf sdp' \<and> sd_len sdp' = sd_len sdp
    \<and> sd_cur sdp \<le> sd_cur sdp' \<and> (rc \<noteq> -1 \<longrightarrow> 0 < rc \<and> sd_cur sdp < sd_cur sdp') \<and> (rc = -1 \<longrightarrow> text_ends buf sdp'))"
proof -
  define s where "s = sdp\<lparr>sd_flags := sd_flags sdp OR sd_flags_next sdp, sd_flags_next := 0, sd_start := sd_cur sdp\<rparr>"
  have s: "text_ok buf s" "sd_cur s = sd_cur sdp" "sd_len s = sd_len sdp" using assms by (simp_all add: s_def text_ok_def)
  obtain rc t where t: "slaxLexer s = Some (rc, t)" "text_ok buf t" "sd_cur sdp \<le> sd_cur t" "sd_len t = sd_len sdp"
    "rc = -1 \<or> 0 < rc" "0 < rc \<longrightarrow> sd_start t < sd_len sdp \<and> sd_cur sdp \<le> sd_start t"
    "rc = T_QUOTED \<longrightarrow> sd_start t + 2 \<le> sd_cur t" "rc = -1 \<longrightarrow> text_ends buf t"
    using slaxLexer_ok [OF s(1)] s(2,3) by (auto simp: ok_with_iff)
  obtain rc1 where rc1: "context_type rc t = Some rc1" "rc1 = rc \<or> rc1 = T_BARE \<and> 0 < rc \<or> rc1 = T_FUNCTION_NAME \<and> 0 < rc"
    using context_type_ok [OF t(2)] by (auto simp: ok_with_iff)
  define t1 where "t1 = t\<lparr>sd_last := rc1\<rparr>"
  define zero where "zero = (rc1 > 0 \<and> sd_start t1 = sd_cur t1)"
  define rc2 where "rc2 = (if zero then M_ERROR else rc1)"
  define u where "u = (if zero \<and> sd_cur t1 < sd_len t1 then t1\<lparr>sd_cur := sd_cur t1 + 1\<rparr> else t1)"
  have u: "text_ok buf u" "sd_cur sdp \<le> sd_cur u" "sd_len u = sd_len sdp" "0 < rc2 \<longrightarrow> sd_cur sdp < sd_cur u"
    "rc2 = -1 \<or> 0 < rc2" "rc2 = T_QUOTED \<longrightarrow> sd_start u + 2 \<le> sd_cur u" "rc2 = T_FUNCTION_NAME \<longrightarrow> rc2 \<noteq> L_EOS"
    using t rc1(2) text_okD(1,2) [OF t(2)]
    by (auto simp: u_def rc2_def zero_def t1_def text_ok_def ttypes split: if_splits)
  have ends: "rc2 = -1 \<longrightarrow> text_ends buf u"
    using t(8) rc1(2) by (auto simp: u_def rc2_def zero_def t1_def text_ends_def ttypes split: if_splits)
  obtain ssp v where v: "(if True \<and> rc2 > 0 then slaxStringCreate u rc2 else Some (None, u)) = Some (ssp, v)"
    "text_ok buf v" "sd_cur v = sd_cur u" "sd_len v = sd_len u" "0 < rc2 \<and> rc2 \<noteq> L_EOS \<longrightarrow> ssp \<noteq> None"
    "rc2 = -1 \<longrightarrow> v = u"
    using string_create_ok [OF u(1,6)] u(1) by (cases "0 < rc2") (auto simp: ok_with_iff)
  obtain ssp' where w: "(if rc2 = T_FUNCTION_NAME then (case ssp of None \<Rightarrow> None | Some ssp \<Rightarrow> Some (Some (slax_function_flag ssp)))
      else Some ssp) = Some ssp'"
    using v(5) u(5,7) by (cases "rc2 = T_FUNCTION_NAME"; cases ssp) (auto simp: ttypes)
  have "slaxYylex True sdp = Some (rc2, ssp', keywords_off rc2 v)"
    using text_okD(6) [OF assms]
    unfolding slaxYylex_def Let_def s_def [symmetric] t(1) Option.bind.bind_lunit prod.case rc1(1) t1_def [symmetric]
      zero_def [symmetric] rc2_def [symmetric] u_def [symmetric] v(1) w
    by simp
  moreover have "rc2 = -1 \<longrightarrow> text_ends buf (keywords_off rc2 v)"
    using ends v(6) by (simp add: text_ends_def keywords_off_def Let_def)
  ultimately show ?thesis using v u by (auto simp: keywords_off_ok)
qed

end
