(* ===== verification/Slaxlexer_Props.thy ===== *)
theory Slaxlexer_Props
  imports Slaxlexer_Safe
begin

text \<open>
  The properties of the lexer (\<^verbatim>\<open>libslax/slaxlexer.c\<close>): it stays within a text in memory and ends with it, an
  operator is the longest one of its tables, a keyword is recognized wherever it is allowed, and the comments it hands to libxml2
  are XML comments.
\<close>

section \<open>A text given by the caller\<close>

definition text_data :: "ttype \<Rightarrow> u32 \<Rightarrow> string \<Rightarrow> slax_data" where
  "text_data parse flags str = \<lparr>sd_errors = 0, sd_file = None, sd_flags = flags, sd_flags_next = 0, sd_parse = parse,
     sd_ttype = 0, sd_last = 0, sd_line = 0, sd_start = 0, sd_cur = 0, sd_len = length str, sd_size = 0,
     sd_buf = Some (str @ [NUL]), sd_input = Some 1, sd_sort = False, sd_comments = [], sd_mem = (\<lambda>_. True),
     sd_fresh = (\<lambda>_. NUL)\<rparr>"

lemma text_data_ok: "NUL \<notin> set str \<Longrightarrow> text_ok (str @ [NUL]) (text_data parse flags str)"
  by (simp add: text_ok_def text_data_def)

text \<open>
  C28 (safety): on a text in memory the lexer returns, whatever the text, the modes and the tokens
  before; it reads no character behind the terminating NUL, moves forward only, and takes at least
  one character for a token. The text stays as it is.
\<close>

theorem slax_lexer_safe:
  assumes "text_ok buf sdp"
  shows "\<exists>rc ssp sdp'. slaxYylex True sdp = Some (rc, ssp, sdp') \<and> text_ok buf sdp' \<and> sd_cur sdp \<le> sd_cur sdp'
    \<and> (rc = -1 \<or> 0 < rc \<and> sd_cur sdp < sd_cur sdp')"
  using slaxYylex_ok [OF assms] by (auto simp: ok_with_iff)

lemma slax_lexer_safe_witness:
  "\<exists>rc ssp sdp'. slaxYylex True (text_data M_PARSE_SLAX 0 ''a/b'') = Some (rc, ssp, sdp')
    \<and> text_ok (''a/b'' @ [NUL]) sdp' \<and> sd_cur (text_data M_PARSE_SLAX 0 ''a/b'') \<le> sd_cur sdp'
    \<and> (rc = -1 \<or> 0 < rc \<and> sd_cur (text_data M_PARSE_SLAX 0 ''a/b'') < sd_cur sdp')"
  by (rule slax_lexer_safe [OF text_data_ok]) simp

text \<open>The calls of the parser up to the end of the input, with the tokens and the state at the end. Between two
  calls the parser, which has a state of its own, takes the token and sets the flags.\<close>

fun lex_all :: "('p \<Rightarrow> ttype \<Rightarrow> slax_string option \<Rightarrow> u32 \<Rightarrow> 'p \<times> u32) \<Rightarrow> 'p \<Rightarrow> nat \<Rightarrow> slax_data
    \<Rightarrow> (ttype list \<times> slax_data) option" where
  "lex_all parser p 0 sdp = None"
| "lex_all parser p (Suc n) sdp = do {
     (rc, ssp, sdp) \<leftarrow> slaxYylex True sdp;
     if rc = -1 then Some ([], sdp)
     else do {
       let (p, flags) = parser p rc ssp (sd_flags sdp);
       (rest, sdp) \<leftarrow> lex_all parser p n (sdp\<lparr>sd_flags := flags\<rparr>);
       Some (rc # rest, sdp)
     }
   }"

lemma lex_all_ok:
  "text_ok buf sdp \<Longrightarrow> sd_len sdp - sd_cur sdp < n
   \<Longrightarrow> ok_with (lex_all parser p n sdp) (\<lambda>(toks, sdp'). text_ok buf sdp' \<and> sd_len sdp' = sd_len sdp \<and> text_ends buf sdp'
     \<and> length toks \<le> sd_cur sdp' - sd_cur sdp \<and> sd_cur sdp \<le> sd_cur sdp')"
proof (induction n arbitrary: p sdp)
  case (Suc n)
  obtain rc ssp s where s: "slaxYylex True sdp = Some (rc, ssp, s)" "text_ok buf s" "sd_len s = sd_len sdp"
    "sd_cur sdp \<le> sd_cur s" "rc \<noteq> -1 \<longrightarrow> sd_cur sdp < sd_cur s" "rc = -1 \<longrightarrow> text_ends buf s"
    using slaxYylex_ok [OF Suc(2)] by (auto simp: ok_with_iff)
  show ?case
  proof (cases "rc = -1")
    case False
    obtain q f where q: "parser p rc ssp (sd_flags s) = (q, f)" by (cases "parser p rc ssp (sd_flags s)")
    let ?t = "s\<lparr>sd_flags := f\<rparr>"
    have t: "text_ok buf ?t" using s(2) by (simp add: text_ok_def)
    have le: "sd_cur s \<le> sd_len s" using text_okD(2) [OF s(2)] .
    have less: "sd_len ?t - sd_cur ?t < n" using Suc(3) s(3,5) False le by simp
    obtain toks u where u: "lex_all parser q n ?t = Some (toks, u)" "text_ok buf u" "sd_len u = sd_len s" "text_ends buf u"
      "length toks \<le> sd_cur u - sd_cur s" "sd_cur s \<le> sd_cur u"
      using Suc(1) [OF t less, of q] by (auto simp: ok_with_iff)
    moreover have "Suc (length toks) \<le> sd_cur u - sd_cur sdp" using u(5,6) s(5) False by linarith
    ultimately show ?thesis using s(1,3,4) False q by simp
  qed (use s in simp)
qed simp

text \<open>
  C29 (termination): whatever the parser makes of the tokens and however it sets the flags between the
  calls, the lexer answers the end of the input after at most one token for each character left, and
  only when the text is read to its end, or to the last character of a string without a closing quote.
\<close>

theorem slax_lexer_ends:
  assumes "text_ok buf sdp"
  shows "\<exists>toks sdp'. lex_all parser p (Suc (sd_len sdp - sd_cur sdp)) sdp = Some (toks, sdp')
    \<and> length toks \<le> sd_cur sdp' - sd_cur sdp
    \<and> (sd_cur sdp' = sd_len sdp
       \<or> sd_cur sdp' + 1 = sd_len sdp \<and> (buf ! sd_start sdp' = SQUOTE \<or> buf ! sd_start sdp' = DQUOTE))"
  using lex_all_ok [OF assms, of "Suc (sd_len sdp - sd_cur sdp)" parser p] by (auto simp: ok_with_iff text_ends_def)

text \<open>A parser that allows no keywords behind the third token.\<close>

lemma slax_lexer_ends_witness:
  "\<exists>toks sdp'. lex_all (\<lambda>k _ _ f. (Suc k, if k < 3 then f else SDF_NO_KEYWORDS)) 0 10
      (text_data M_PARSE_XPATH 0 ''a and [1]'') = Some (toks, sdp') \<and> length toks \<le> sd_cur sdp' \<and> sd_cur sdp' = 9"
proof -
  let ?buf = "''a and [1]'' @ [NUL]" and ?sdp = "text_data M_PARSE_XPATH 0 ''a and [1]''"
  let ?parser = "\<lambda>k _ _ f. (Suc k, if k < 3 then f else SDF_NO_KEYWORDS)"
  have f: "sd_cur ?sdp = 0" "sd_len ?sdp = 9" by (simp_all add: text_data_def)
  have ok: "text_ok ?buf ?sdp" by (rule text_data_ok) simp
  from slax_lexer_ends [OF ok, of ?parser 0] obtain toks sdp' where
    t: "lex_all ?parser 0 10 ?sdp = Some (toks, sdp')" "length toks \<le> sd_cur sdp'"
      "sd_cur sdp' = 9 \<or> sd_cur sdp' + 1 = 9 \<and> (?buf ! sd_start sdp' = SQUOTE \<or> ?buf ! sd_start sdp' = DQUOTE)"
    unfolding f by auto
  have "sd_start sdp' < 10 \<Longrightarrow> ?buf ! sd_start sdp' \<in> set ?buf" by (intro nth_mem) simp
  moreover have "sd_start sdp' \<le> sd_cur sdp'"
    using lex_all_ok [OF ok, of 10 ?parser 0] t(1) f by (auto simp: text_ok_def)
  ultimately show ?thesis using t by auto
qed

section \<open>The tables\<close>

definition wide_entry :: "char \<Rightarrow> char \<Rightarrow> ttype" where
  "wide_entry c d = (case List.find (\<lambda>(_, a, b). c = a \<and> d = b) doubleWideData of None \<Rightarrow> 0 | Some (t, _, _) \<Rightarrow> t)"

lemma wide_entry_cases: "wide_entry c d = 0 \<or> (wide_entry c d, c, d) \<in> set doubleWideData"
  by (auto simp: wide_entry_def find_Some_iff split: option.splits) (metis nth_mem)

lemma wide_lookup: "list_all (\<lambda>(t, c, d). doubleWide lexer_tables c \<noteq> 0) doubleWideData"
  by code_simp

lemma wide_equal: "slaxDoubleWide c d = wide_entry c d"
  by (simp add: slaxDoubleWide_def wide_entry_def doubleWideData_def if_distrib [of "case_option _ _"] split del: if_split cong: if_cong)

text \<open>
  Every keyword is called by its own text in the messages of the parser, except for
  \<^verbatim>\<open>use-attribute-sets\<close>, whose name lacks its last letter; every token of one or two characters has
  a name except for the question mark.
\<close>

lemma slax_token_names:
  "map km_string (filter (\<lambda>km. slaxTokenNameFancy lexer_tables (km_ttype km) \<noteq> Some (fancy (''`'' @ km_string km @ ''`'')))
      keywordMap) = [''use-attribute-sets'']
    \<and> slaxTokenNameFancy lexer_tables K_USE_ATTRIBUTE_SETS = Some (fancy ''`use-attribute-set`'')
    \<and> filter (\<lambda>t. slaxTokenNameFancy lexer_tables t = None) (map fst singleWideData @ map fst doubleWideData) = [L_QUESTION]"
  by (intro conjI; code_simp)

section \<open>Comments\<close>

text \<open>
  C31 (invariant): the comments that reach libxml2 while a text is read are XML comments: no two dashes in
  a row and no dash at the end, whatever the text of the comment.
\<close>

theorem slax_comments:
  assumes "text_ok buf sdp"
  shows "\<exists>rc ssp sdp'. slaxYylex True sdp = Some (rc, ssp, sdp') \<and> list_all (\<lambda>c. xml_comment (fst c)) (sd_comments sdp')"
  using slaxYylex_ok [OF assms] by (auto simp: ok_with_iff text_ok_def)

lemma slax_comments_witness:
  "\<exists>rc ssp sdp'. slaxYylex True (text_data M_PARSE_FULL 0 ''/* a--b */'') = Some (rc, ssp, sdp')
    \<and> list_all (\<lambda>c. xml_comment (fst c)) (sd_comments sdp')"
  by (rule slax_comments [OF text_data_ok]) simp

section \<open>Keywords\<close>

lemma keyword_match_eq:
  assumes "text_ok buf sdp"
  shows "slaxKeywordMatch sdp str = Some (sd_start sdp + length str \<le> sd_len sdp
    \<and> take (length str) (drop (sd_start sdp) buf) = str \<and> \<not> slaxIsBareChar (buf ! (sd_start sdp + length str)))"
proof (cases "int (sd_len sdp) - int (sd_start sdp) < int (length str)")
  case True
  then show ?thesis by (simp add: slaxKeywordMatch_def)
next
  case False
  then have "sd_start sdp + length str \<le> sd_len sdp" using text_okD(1,2) [OF assms] by simp
  then show ?thesis
    using False rd_ok [OF assms, of "sd_start sdp + length str"] rd_text_ok [OF assms, of "sd_start sdp" "length str"]
    by (simp add: slaxKeywordMatch_def)
qed

text \<open>Two words that start a text and end in it are equal.\<close>

lemma word_unique:
  assumes "list_all slaxIsBareChar s" "list_all slaxIsBareChar t" "take (length s) xs = s" "take (length t) xs = t"
    "length s < length xs" "length t < length xs" "\<not> slaxIsBareChar (xs ! length s)" "\<not> slaxIsBareChar (xs ! length t)"
  shows "s = t"
proof -
  have "\<not> length a < length b" if "list_all slaxIsBareChar b" "take (length b) xs = b" "\<not> slaxIsBareChar (xs ! length a)" for a b
  proof
    assume l: "length a < length b"
    then have "xs ! length a = b ! length a" using that(2) by (metis nth_take)
    with that(1,3) l show False by (auto simp: list_all_length)
  qed
  from this [OF assms(2,4,7)] this [OF assms(1,3,8)] have "length s = length t" by linarith
  with assms(3,4) show ?thesis by metis
qed

lemma lexer_tables_simps:
  "singleWide lexer_tables = setup_single singleWideData (\<lambda>_. 0)"
  "doubleWide lexer_tables = setup_double 0 doubleWideData (\<lambda>_. 0)"
  "tripleWide lexer_tables = (\<lambda>_. 0)(CHR ''.'' := 1)"
  by (simp_all add: lexer_tables_def slaxSetupLexer_def)

lemma bare_letters: "list_all slaxIsBareChar ''abcdefghijklmnopqrstuvwxyz-''"
  by code_simp

lemma keyword_bare: "list_all (\<lambda>km. list_all slaxIsBareChar (km_string km)) keywordMap"
  using bare_letters by (simp add: keywordMap_def)

definition word_start :: "char \<Rightarrow> bool" where
  "word_start c \<longleftrightarrow> \<not> c_isspace c \<and> (of_char c :: nat) < 128 \<and> c \<noteq> CHR ''/'' \<and> c \<noteq> SQUOTE \<and> c \<noteq> DQUOTE \<and> c \<noteq> CHR ''$''"

lemma keyword_starts: "list_all (\<lambda>km. word_start (hd (km_string km))) keywordMap"
  by code_simp

lemma keyword_wide: "list_all (\<lambda>km. singleWide lexer_tables (hd (km_string km)) = 0
    \<and> doubleWide lexer_tables (hd (km_string km)) = 0 \<and> tripleWide lexer_tables (hd (km_string km)) = 0) keywordMap"
  unfolding lexer_tables_simps by code_simp

lemma keyword_scan_find:
  assumes "text_ok buf sdp" "\<forall>k\<in>set kms. list_all slaxIsBareChar (km_string k)" "list_all slaxIsBareChar str"
    "sd_start sdp + length str \<le> sd_len sdp" "take (length str) (drop (sd_start sdp) buf) = str"
    "\<not> slaxIsBareChar (buf ! (sd_start sdp + length str))" "List.find (\<lambda>k. km_string k = str) kms = Some km"
  shows "keyword_scan sdp kms = keyword_found sdp km"
  using assms(2,7)
proof (induction kms)
  case (Cons k kms)
  have len: "length s < length buf - sd_start sdp" if "sd_start sdp + length s \<le> sd_len sdp" for s :: string
    using that text_okD(4) [OF assms(1)] by simp
  show ?case
  proof (cases "km_string k = str")
    case True
    with Cons assms(4,5,6) show ?thesis by (simp add: keyword_match_eq [OF assms(1)])
  next
    case False
    have "slaxKeywordMatch sdp (km_string k) = Some False"
      using word_unique [of "km_string k" str "drop (sd_start sdp) buf"] False Cons(2) assms(3-6) len [of str] len [of "km_string k"]
      by (auto simp: keyword_match_eq [OF assms(1)])
    with Cons False show ?thesis by simp
  qed
qed simp

lemma find_keyword: "List.find (\<lambda>k. km_string k = str) keywordMap = Some km \<Longrightarrow> km \<in> set keywordMap \<and> km_string km = str"
  by (auto simp: find_Some_iff)

lemma skip_nothing:
  assumes "text_ok buf sdp" "sd_cur sdp < sd_len sdp" "word_start (buf ! sd_cur sdp)"
  shows "lexer_skip sdp = Some (False, sdp\<lparr>sd_start := sd_cur sdp\<rparr>)"
proof -
  let ?s = "sdp\<lparr>sd_start := sd_cur sdp\<rparr>"
  have s: "text_ok buf ?s" using assms(1) by (simp add: text_ok_def)
  have rd: "rd ?s (sd_cur sdp) = Some (buf ! sd_cur sdp)" using rd_ok [OF s] assms(2) by simp
  have "skip_space ?s = Some ?s" using rd assms(2,3) by (subst skip_space.simps) (simp add: word_start_def)
  moreover have "slaxIsCommentStart ?s (sd_cur sdp) = Some (False, ?s)"
    using rd assms(3) by (simp add: slaxIsCommentStart_def word_start_def)
  ultimately show ?thesis using assms(2) by (subst lexer_skip.simps) (simp add: Let_def)
qed

lemma keyword_types: "list_all (\<lambda>km. km_flags km AND KMF_SLAX_KW \<noteq> 0 \<longrightarrow> km_ttype km < M_OPERATOR_FIRST \<and> km_ttype km \<noteq> L_EOS) keywordMap"
  by code_simp

lemma and_or_zero: "(x :: 'a :: len word) AND (a OR b) = 0 \<longleftrightarrow> x AND a = 0 \<and> x AND b = 0"
  by (auto simp: bit_eq_iff bit_simps)

text \<open>A token that does not depend on its context reaches the parser as it is.\<close>

definition plain_token :: "ttype \<Rightarrow> bool" where
  "plain_token rc \<longleftrightarrow> 0 < rc \<and> \<not> (M_OPERATOR_FIRST < rc \<and> rc < M_OPERATOR_LAST) \<and> rc \<notin> {T_BARE, T_FUNCTION_NAME, T_QUOTED}"

lemma yylex_plain:
  assumes ok: "text_ok buf sdp" and rc: "plain_token rc" and k: "sd_cur sdp < k" "k \<le> sd_len sdp"
    and s: "s = sdp\<lparr>sd_flags := sd_flags sdp OR sd_flags_next sdp, sd_flags_next := 0, sd_start := sd_cur sdp\<rparr>"
    and lx: "slaxLexer s = Some (rc, s\<lparr>sd_cur := k\<rparr>)"
  shows "\<exists>ssp sdp'. slaxYylex True sdp = Some (rc, ssp, sdp') \<and> sd_cur sdp' = k"
proof -
  let ?t = "s\<lparr>sd_cur := k\<rparr>"
  have con: "context_type rc ?t = Some rc" using rc by (auto simp: context_type_def Let_def plain_token_def)
  have t: "text_ok buf (?t\<lparr>sd_last := rc\<rparr>)" using ok k unfolding s by (simp add: text_ok_def)
  obtain ssp v where v: "slaxStringCreate (?t\<lparr>sd_last := rc\<rparr>) rc = Some (ssp, v)" "sd_cur v = k"
    using string_create_ok [OF t] rc by (fastforce simp: ok_with_iff plain_token_def)
  have "slaxYylex True sdp = Some (rc, ssp, keywords_off rc v)"
    using text_okD(6) [OF ok] lx con v(1) rc k(1)
    unfolding slaxYylex_def Let_def s [symmetric] by (simp add: s plain_token_def)
  then show ?thesis using v(2) by (auto simp: keywords_off_ok)
qed

text \<open>
  C32 (functional): where SLAX keywords are allowed, the text of a keyword that is not part of a longer word is
  that keyword, whatever comes before and behind it, and the position moves behind it.
\<close>

theorem slax_keywords:
  assumes "text_ok buf sdp" "List.find (\<lambda>k. km_string k = str) keywordMap = Some km" "km_flags km AND KMF_SLAX_KW \<noteq> 0"
    "sd_cur sdp + length str \<le> sd_len sdp" "take (length str) (drop (sd_cur sdp) buf) = str"
    "\<not> slaxIsBareChar (buf ! (sd_cur sdp + length str))"
    "(sd_flags sdp OR sd_flags_next sdp) AND (SDF_NO_SLAX_KEYWORDS OR SDF_STRING) = 0"
  shows "\<exists>ssp sdp'. slaxYylex True sdp = Some (km_ttype km, ssp, sdp') \<and> sd_cur sdp' = sd_cur sdp + length str"
proof -
  have km: "km \<in> set keywordMap" "km_string km = str" using find_keyword [OF assms(2)] by simp_all
  note table = keyword_table [OF km(1), unfolded km(2)]
  define s where "s = sdp\<lparr>sd_flags := sd_flags sdp OR sd_flags_next sdp, sd_flags_next := 0, sd_start := sd_cur sdp\<rparr>"
  have s: "text_ok buf s" "sd_cur s = sd_cur sdp" "sd_start s = sd_cur sdp" "sd_len s = sd_len sdp"
    using assms(1) by (simp_all add: s_def text_ok_def)
  have flags: "SLAX_KEYWORDS_ALLOWED s" "\<not> sd_flag s SDF_STRING"
    using assms(7) by (simp_all add: SLAX_KEYWORDS_ALLOWED_def sd_flag_def s_def and_or_zero)
  obtain c cs where str: "str = c # cs" using table(4) by (cases str) auto
  have here: "sd_cur sdp < sd_len sdp" using assms(4) str by simp
  have c: "buf ! sd_cur sdp = c"
  proof -
    have "str ! 0 = buf ! sd_cur sdp" using assms(5) str here text_okD(4) [OF assms(1)]
      by (metis add.right_neutral length_greater_0_conv list.discI nth_drop nth_take less_imp_le_nat Suc_eq_plus1 less_SucI)
    with str show ?thesis by simp
  qed
  have start: "word_start c" "singleWide lexer_tables c = 0" "doubleWide lexer_tables c = 0" "tripleWide lexer_tables c = 0"
    using keyword_starts keyword_wide km str by (auto simp: list_all_iff)
  have ks: "s\<lparr>sd_start := sd_cur s\<rparr> = s" using s(2,3) by simp
  have skip: "lexer_skip s = Some (False, s)"
    using skip_nothing [OF s(1)] here s(2,4) c start(1) ks by simp
  have "keyword_found s km = Some (km_ttype km)"
    using flags(1) assms(3) by (simp add: keyword_found_def Let_def)
  then have word: "slaxKeyword s = Some (km_ttype km)"
    unfolding slaxKeyword_def using keyword_bare assms(4-6) s km
    by (subst keyword_scan_find [OF s(1) _ _ _ _ _ assms(2)]) (auto simp: list_all_iff)
  let ?t = "s\<lparr>sd_cur := sd_cur sdp + length str\<rparr>"
  have "lex_ascii c ch2 s = Some (km_ttype km, ?t)" for ch2
    using start(1) word table(1,3) s(2) by (simp add: lex_ascii_def word_start_def)
  moreover have "rd s (sd_cur s) = Some c" using rd_ok [OF s(1)] here s(2,4) c by simp
  moreover have "rd s i = Some (buf ! i)" if "i < sd_len s" for i using rd_ok [OF s(1)] that by simp
  ultimately have tok: "lex_token s = Some (km_ttype km, ?t)"
    using flags(2) start ks by (simp add: lex_token_def Let_def word_start_def)
  have ty: "km_ttype km < M_OPERATOR_FIRST" "km_ttype km \<noteq> L_EOS"
    using keyword_types km(1) assms(3) by (auto simp: list_all_iff)
  have "plain_token (km_ttype km)" using ty(1) table(1,2) by (simp add: plain_token_def ttypes)
  moreover have "slaxLexer s = Some (km_ttype km, ?t)" unfolding slaxLexer_def skip by (simp add: tok)
  ultimately show ?thesis
    using yylex_plain [OF assms(1) _ _ assms(4) s_def] str by simp
qed

lemma slax_keywords_witness:
  "\<exists>ssp sdp'. slaxYylex True (text_data M_PARSE_FULL 0 ''for-each(x)'') = Some (K_FOR_EACH, ssp, sdp')
    \<and> sd_cur sdp' = sd_cur (text_data M_PARSE_FULL 0 ''for-each(x)'') + length ''for-each''"
proof -
  have find: "List.find (\<lambda>k. km_string k = ''for-each'') keywordMap
      = Some \<lparr>km_ttype = K_FOR_EACH, km_string = ''for-each'', km_flags = KMF_SLAX_KW\<rparr>"
    by code_simp
  have "\<exists>ssp sdp'. slaxYylex True (text_data M_PARSE_FULL 0 ''for-each(x)'')
      = Some (km_ttype \<lparr>km_ttype = K_FOR_EACH, km_string = ''for-each'', km_flags = KMF_SLAX_KW\<rparr>, ssp, sdp')
    \<and> sd_cur sdp' = sd_cur (text_data M_PARSE_FULL 0 ''for-each(x)'') + length ''for-each''"
    by (rule slax_keywords [OF text_data_ok find])
      (simp_all add: text_data_def KMF_SLAX_KW_def slaxIsBareChar_def c_isalnum_def c_isalpha_def c_isdigit_def)
  then show ?thesis by simp
qed

section \<open>Operators\<close>

text \<open>The tokens of one, two and three characters that do not depend on the state, with their spelling.\<close>

definition operators :: "(ttype \<times> string) list" where
  "operators = (L_DOTDOTDOT, ''...'') # map (\<lambda>(t, c, d). (t, [c, d])) doubleWideData @ map (\<lambda>(t, c). (t, [c])) singleWideData"

text \<open>\<open>spelled buf i s\<close>: the text has \<open>s\<close> at \<open>i\<close>.\<close>

definition spelled :: "string \<Rightarrow> nat \<Rightarrow> string \<Rightarrow> bool" where
  "spelled buf i s \<longleftrightarrow> take (length s) (drop i buf) = s"

lemma spelled_simps [simp]:
  "spelled buf i []"
  "spelled buf i (c # s) \<longleftrightarrow> i < length buf \<and> buf ! i = c \<and> spelled buf (Suc i) s"
proof -
  show "spelled buf i (c # s) \<longleftrightarrow> i < length buf \<and> buf ! i = c \<and> spelled buf (Suc i) s"
  proof (cases "i < length buf")
    case True
    from Cons_nth_drop_Suc [OF this] have "drop i buf = buf ! i # drop (Suc i) buf" by simp
    with True show ?thesis by (simp add: spelled_def)
  qed (simp add: spelled_def)
qed (simp add: spelled_def)

definition op_start :: "char \<Rightarrow> bool" where
  "op_start c \<longleftrightarrow> c \<noteq> NUL \<and> \<not> c_isspace c \<and> (of_char c :: nat) < 128"

lemma operator_table:
  "list_all (\<lambda>(t, c, d). op_start c \<and> d \<noteq> NUL \<and> slaxDoubleWide c d = t \<and> t \<noteq> 0 \<and> doubleWide lexer_tables c \<noteq> 0) doubleWideData"
  "list_all (\<lambda>(t, c). op_start c \<and> singleWide lexer_tables c = t \<and> t \<noteq> 0) singleWideData"
  "list_all (\<lambda>(t, s). plain_token t) operators"
  "list_all (\<lambda>(t, c). (t = L_STAR \<longleftrightarrow> c = CHR ''*'') \<and> (t = L_UNDERSCORE \<longleftrightarrow> c = CHR ''_'')
      \<and> (t = L_PLUS \<longleftrightarrow> c = CHR ''+'') \<and> (t = L_MINUS \<longleftrightarrow> c = CHR ''-'')) singleWideData"
  unfolding lexer_tables_simps by code_simp+

lemma plain_asterisk: "plain_token L_ASTERISK"
  by code_simp

lemma operator_cases:
  assumes "(t, s) \<in> set operators"
  obtains "t = L_DOTDOTDOT" "s = ''...''"
  | c d where "(t, c, d) \<in> set doubleWideData" "s = [c, d]"
  | c where "(t, c) \<in> set singleWideData" "s = [c]"
  using assms by (auto simp: operators_def)

text \<open>What the lexer sees at an operator: the longest one.\<close>

lemma no_wide:
  assumes "spelled buf i [c, d]" and "\<And>t u. (t, u) \<in> set operators \<Longrightarrow> spelled buf i u \<Longrightarrow> length u < 2"
  shows "slaxDoubleWide c d = 0"
proof (rule ccontr)
  assume "slaxDoubleWide c d \<noteq> 0"
  then have "(wide_entry c d, c, d) \<in> set doubleWideData" using wide_entry_cases [of c d] by (simp add: wide_equal)
  then have "(wide_entry c d, [c, d]) \<in> set operators" unfolding operators_def by force
  from assms(2) [OF this assms(1)] show False by simp
qed

lemma skip_to_token:
  assumes "text_ok buf sdp" "sd_cur sdp < sd_len sdp" "\<not> c_isspace (buf ! sd_cur sdp)"
    and "SLAX_KEYWORDS_ALLOWED sdp \<Longrightarrow> \<not> spelled buf (sd_cur sdp) ''/*''
      \<and> \<not> (spelled buf (sd_cur sdp) ''//'' \<and> sd_flag sdp SDF_SLSH_COMMENTS)"
  shows "lexer_skip sdp = Some (False, sdp\<lparr>sd_start := sd_cur sdp\<rparr>)"
proof -
  let ?s = "sdp\<lparr>sd_start := sd_cur sdp\<rparr>"
  have s: "text_ok buf ?s" using assms(1) by (simp add: text_ok_def)
  have rd: "rd ?s (sd_cur sdp) = Some (buf ! sd_cur sdp)" "rd ?s (Suc (sd_cur sdp)) = Some (buf ! Suc (sd_cur sdp))"
    using rd_ok [OF s] assms(2) by simp_all
  have "skip_space ?s = Some ?s" using rd assms(2,3) by (subst skip_space.simps) simp
  moreover have "slaxIsCommentStart ?s (sd_cur sdp) = Some (False, ?s)" if "SLAX_KEYWORDS_ALLOWED sdp"
    using rd assms(2) assms(4) [OF that] text_okD(4) [OF s] by (auto simp: slaxIsCommentStart_def sd_flag_def)
  ultimately show ?thesis using assms(2)
    by (subst lexer_skip.simps) (simp add: Let_def SLAX_KEYWORDS_ALLOWED_def sd_flag_def)
qed

text \<open>An operator starts with one of its characters and ends within the text.\<close>

lemma operator_here:
  assumes "text_ok buf z" "(t, s) \<in> set operators" "spelled buf i s"
  shows "op_start (buf ! i)" "i < sd_len z" "i + length s \<le> sd_len z"
proof -
  have len: "length buf = Suc (sd_len z)" "buf ! sd_len z = NUL" using text_okD [OF assms(1)] by simp_all
  have nul: "j < sd_len z" if "j < length buf" "buf ! j \<noteq> NUL" for j
    using that len by (cases "j = sd_len z") auto
  show op: "op_start (buf ! i)"
    using assms(2,3) operator_table(1,2) by (elim operator_cases) (auto simp: list_all_iff op_start_def c_isspace_def)
  show i: "i < sd_len z" using assms(2,3) op by (elim operator_cases) (auto simp: op_start_def intro!: nul)
  show "i + length s \<le> sd_len z"
    using assms(2,3) operator_table(1) i nul [of "Suc i"] nul [of "Suc (Suc i)"]
    by (elim operator_cases) (auto simp: list_all_iff Suc_le_eq)
qed

text \<open>The third character the lexer looks at.\<close>

definition char3 :: "string \<Rightarrow> slax_data \<Rightarrow> char" where
  "char3 buf z = (if Suc (Suc (sd_cur z)) < sd_len z then buf ! Suc (Suc (sd_cur z)) else NUL)"

lemma lex_token_here:
  assumes "text_ok buf z" "sd_start z = i" "sd_cur z = i" "i < sd_len z" "buf ! i = c" "op_start c" "\<not> sd_flag z SDF_STRING"
    and rc3: "rc3 = (if tripleWide lexer_tables c \<noteq> 0 then slaxTripleWide c (buf ! Suc i) (char3 buf z) else 0)"
    and rc2: "rc2 = (if doubleWide lexer_tables c \<noteq> 0 then slaxDoubleWide c (buf ! Suc i) else 0)"
  shows "lex_token z = (if rc3 \<noteq> 0 then Some (rc3, z\<lparr>sd_cur := i + 3\<rparr>)
       else if rc2 \<noteq> 0 then Some (rc2, z\<lparr>sd_cur := i + 2\<rparr>)
       else if singleWide lexer_tables c \<noteq> 0 then do {
         (rc, sdp) \<leftarrow> lex_single c (buf ! Suc i) z;
         case rc of Some rc \<Rightarrow> Some (rc, sdp) | None \<Rightarrow> lex_ascii c (buf ! Suc i) sdp
       }
       else lex_ascii c (buf ! Suc i) z)"
proof -
  have rd: "rd z i = Some c" "rd z (Suc i) = Some (buf ! Suc i)" using rd_ok [OF assms(1)] assms(4,5) by simp_all
  have ch2: "(if i + 1 < sd_len z then rd z (i + 1) else Some NUL) = Some (buf ! Suc i)"
  proof (cases "Suc i < sd_len z")
    case False
    then have "Suc i = sd_len z" using assms(4) by simp
    then show ?thesis using text_okD(3) [OF assms(1)] by simp
  qed (simp add: rd(2))
  have ch3: "(if i + 2 < sd_len z then rd z (i + 2) else Some NUL) = Some (char3 buf z)"
    using rd_ok [OF assms(1)] assms(3) by (simp add: char3_def)
  have no: "\<not> (sd_flag z SDF_STRING \<and> c \<notin> set ''{};+'')" "\<not> \<not> (of_char c :: nat) < 128"
    using assms(6,7) by (simp_all add: op_start_def)
  have zz: "z\<lparr>sd_start := i\<rparr> = z" using assms(2) by simp
  show ?thesis
    unfolding lex_token_def Let_def assms(3) zz rd(1) ch2 ch3 Option.bind.bind_lunit if_not_P [OF no(1)] if_not_P [OF no(2)]
      rc3 rc2 by (rule refl)
qed

text \<open>The token at an operator with no longer one in its place.\<close>

lemma no_triple:
  assumes "text_ok buf z" "sd_cur z < sd_len z" "\<And>u r. (u, r) \<in> set operators \<Longrightarrow> spelled buf (sd_cur z) r \<Longrightarrow> length r < 3"
  shows "slaxTripleWide (buf ! sd_cur z) (buf ! Suc (sd_cur z)) (char3 buf z) = 0"
proof (rule ccontr)
  assume "slaxTripleWide (buf ! sd_cur z) (buf ! Suc (sd_cur z)) (char3 buf z) \<noteq> 0"
  then have "spelled buf (sd_cur z) ''...''"
    using text_okD(4) [OF assms(1)] by (auto simp: slaxTripleWide_def char3_def split: if_splits)
  moreover have "(L_DOTDOTDOT, ''...'') \<in> set operators" by (simp add: operators_def)
  ultimately show False using assms(3) by fastforce
qed

lemma lex_single_operator:
  assumes "(t, c) \<in> set singleWideData" "c = CHR ''.'' \<Longrightarrow> \<not> c_isdigit d" "c = CHR ''_'' \<Longrightarrow> \<not> slaxIsBareChar d"
    and "sd_parse z = M_JSON \<Longrightarrow> c \<noteq> CHR ''+'' \<and> c \<noteq> CHR ''-''"
  shows "singleWide lexer_tables c \<noteq> 0"
    and "lex_single c d z = Some (Some (if c = CHR ''*'' \<and> sd_last z \<le> M_MULTIPLICATION_TEST_LAST then L_ASTERISK else t),
      z\<lparr>sd_cur := sd_cur z + 1\<rparr>)"
proof -
  have tab: "singleWide lexer_tables c = t" "t \<noteq> 0" "t = L_STAR \<longleftrightarrow> c = CHR ''*''" "t = L_UNDERSCORE \<longleftrightarrow> c = CHR ''_''"
    "t = L_PLUS \<longleftrightarrow> c = CHR ''+''" "t = L_MINUS \<longleftrightarrow> c = CHR ''-''"
    using bspec [OF operator_table(2) [unfolded list_all_iff] assms(1)] bspec [OF operator_table(4) [unfolded list_all_iff] assms(1)]
    by simp_all
  then show "singleWide lexer_tables c \<noteq> 0" by simp
  have json: "\<not> (sd_parse z = M_JSON \<and> (t = L_PLUS \<or> t = L_MINUS))" using tab(5,6) assms(4) by auto
  show "lex_single c d z = Some (Some (if c = CHR ''*'' \<and> sd_last z \<le> M_MULTIPLICATION_TEST_LAST then L_ASTERISK else t),
      z\<lparr>sd_cur := sd_cur z + 1\<rparr>)"
    using tab(3,4) assms(2,3) unfolding lex_single_def Let_def tab(1)
    by (cases "t = L_STAR"; cases "t = L_UNDERSCORE") (use json in auto)
qed

lemma lex_operator:
  assumes ok: "text_ok buf z" and start: "sd_start z = sd_cur z" and str: "\<not> sd_flag z SDF_STRING"
    and op: "(t, s) \<in> set operators" "spelled buf (sd_cur z) s"
    and long: "\<And>u r. (u, r) \<in> set operators \<Longrightarrow> spelled buf (sd_cur z) r \<Longrightarrow> length r \<le> length s"
    and one: "s = ''.'' \<Longrightarrow> \<not> c_isdigit (buf ! Suc (sd_cur z))" "s = ''_'' \<Longrightarrow> \<not> slaxIsBareChar (buf ! Suc (sd_cur z))"
      "sd_parse z = M_JSON \<Longrightarrow> s \<noteq> ''+'' \<and> s \<noteq> ''-''"
  shows "lex_token z = Some (if s = ''*'' \<and> sd_last z \<le> M_MULTIPLICATION_TEST_LAST then L_ASTERISK else t,
    z\<lparr>sd_cur := sd_cur z + length s\<rparr>)"
  using op(1)
proof (cases rule: operator_cases)
  note here = operator_here [OF ok op]
  note lex = lex_token_here [OF ok start refl here(2) refl here(1) str refl refl]
  case 1
  then show ?thesis
    using op(2) here(3) unfolding lex by (simp add: slaxTripleWide_def char3_def lexer_tables_simps(3) ttypes)
next
  note here = operator_here [OF ok op]
  note lex = lex_token_here [OF ok start refl here(2) refl here(1) str refl refl]
  case (2 c d)
  have "slaxTripleWide c d (char3 buf z) = 0"
    using no_triple [OF ok here(2)] long 2(2) op(2) by (fastforce simp: numeral_3_eq_3)
  moreover have "slaxDoubleWide c d = t" "t \<noteq> 0" "doubleWide lexer_tables c \<noteq> 0"
    using operator_table(1) 2(1) by (auto simp: list_all_iff)
  ultimately show ?thesis using 2(2) op(2) unfolding lex by simp
next
  note here = operator_here [OF ok op]
  note lex = lex_token_here [OF ok start refl here(2) refl here(1) str refl refl]
  case (3 c)
  have c: "buf ! sd_cur z = c" using op(2) 3(2) by simp
  have short: "length u < 2" if "(v, u) \<in> set operators" "spelled buf (sd_cur z) u" for v u
    using long [OF that] 3(2) by simp
  have "spelled buf (sd_cur z) [c, buf ! Suc (sd_cur z)]" using here(2) c text_okD(4) [OF ok] by simp
  then have no2: "slaxDoubleWide c (buf ! Suc (sd_cur z)) = 0" by (rule no_wide [OF _ short])
  have no3: "slaxTripleWide c (buf ! Suc (sd_cur z)) (char3 buf z) = 0"
    using no_triple [OF ok here(2)] short c by fastforce
  note single = lex_single_operator [OF 3(1), of "buf ! Suc (sd_cur z)" z]
  have no: "\<not> (if tripleWide lexer_tables c \<noteq> 0 then slaxTripleWide c (buf ! Suc (sd_cur z)) (char3 buf z) else 0) \<noteq> 0"
    "\<not> (if doubleWide lexer_tables c \<noteq> 0 then slaxDoubleWide c (buf ! Suc (sd_cur z)) else 0) \<noteq> 0" "singleWide lexer_tables c \<noteq> 0"
    using no2 no3 single(1) one 3(2) by simp_all
  show ?thesis
    unfolding lex c if_not_P [OF no(1)] if_not_P [OF no(2)] if_P [OF no(3)] using single(2) one 3(2) by simp
qed

text \<open>
  C30 (equivalence): the operator tokens are those of the tables, the longest one first. Where the
  text goes on with the spelling of an operator and with no longer one, no string is being read and no
  comment starts, the next token is that operator and the position moves behind it. An asterisk is
  a multiplication or a name test by the token before it; a dot before a digit, an underscore before
  a word, and a sign in JSON belong to longer tokens.
\<close>

theorem slax_operators:
  assumes "text_ok buf sdp" and "(t, s) \<in> set operators" and "spelled buf (sd_cur sdp) s"
    and "\<And>u r. (u, r) \<in> set operators \<Longrightarrow> spelled buf (sd_cur sdp) r \<Longrightarrow> length r \<le> length s"
    and "(sd_flags sdp OR sd_flags_next sdp) AND SDF_STRING = 0"
    and "(sd_flags sdp OR sd_flags_next sdp) AND SDF_NO_SLAX_KEYWORDS = 0 \<Longrightarrow> \<not> spelled buf (sd_cur sdp) ''/*''
      \<and> \<not> (spelled buf (sd_cur sdp) ''//'' \<and> (sd_flags sdp OR sd_flags_next sdp) AND SDF_SLSH_COMMENTS \<noteq> 0)"
    and "s = ''.'' \<Longrightarrow> \<not> c_isdigit (buf ! Suc (sd_cur sdp))" "s = ''_'' \<Longrightarrow> \<not> slaxIsBareChar (buf ! Suc (sd_cur sdp))"
    and "sd_parse sdp = M_JSON \<Longrightarrow> s \<noteq> ''+'' \<and> s \<noteq> ''-''"
  shows "\<exists>ssp sdp'. slaxYylex True sdp = Some (if s = ''*'' \<and> sd_last sdp \<le> M_MULTIPLICATION_TEST_LAST then L_ASTERISK else t, ssp, sdp')
    \<and> sd_cur sdp' = sd_cur sdp + length s"
proof -
  define z where "z = sdp\<lparr>sd_flags := sd_flags sdp OR sd_flags_next sdp, sd_flags_next := 0, sd_start := sd_cur sdp\<rparr>"
  have z: "text_ok buf z" "sd_cur z = sd_cur sdp" "sd_start z = sd_cur sdp" "sd_len z = sd_len sdp"
    "sd_last z = sd_last sdp" "sd_parse z = sd_parse sdp" "z\<lparr>sd_start := sd_cur z\<rparr> = z"
    using assms(1) by (simp_all add: z_def text_ok_def)
  let ?i = "sd_cur sdp" and ?rc = "if s = ''*'' \<and> sd_last sdp \<le> M_MULTIPLICATION_TEST_LAST then L_ASTERISK else t"
  note here = operator_here [OF assms(1-3)]
  have "\<not> sd_flag z SDF_STRING" using assms(5) by (simp add: sd_flag_def z_def)
  then have "lex_token z = Some (?rc, z\<lparr>sd_cur := ?i + length s\<rparr>)"
    using lex_operator [OF z(1) _ _ assms(2)] assms(3,4,7-9) unfolding z(2,3,5,6) by simp
  moreover have "lexer_skip z = Some (False, z)"
    using skip_to_token [OF z(1)] here(1,2) assms(6) unfolding z(2,4,7)
    by (simp add: op_start_def SLAX_KEYWORDS_ALLOWED_def sd_flag_def z_def)
  ultimately have "slaxLexer z = Some (?rc, z\<lparr>sd_cur := ?i + length s\<rparr>)" by (simp add: slaxLexer_def)
  moreover have "plain_token ?rc" using assms(2) operator_table(3) plain_asterisk by (auto simp: list_all_iff)
  moreover have "0 < length s" using assms(2) by (elim operator_cases) auto
  ultimately show ?thesis using yylex_plain [OF assms(1) _ _ here(3) z_def] by simp
qed

lemma slax_operators_witness:
  "\<exists>ssp sdp'. slaxYylex True (text_data M_PARSE_XPATH 0 ''...'') = Some (L_DOTDOTDOT, ssp, sdp') \<and> sd_cur sdp' = 3"
proof -
  let ?sdp = "text_data M_PARSE_XPATH 0 ''...''"
  have mem: "(L_DOTDOTDOT, ''...'') \<in> set operators" and long: "list_all (\<lambda>(u, r). length r \<le> 3) operators"
    unfolding operators_def by (simp, code_simp)
  have "\<exists>ssp sdp'. slaxYylex True ?sdp = Some (if ''...'' = ''*'' \<and> sd_last ?sdp \<le> M_MULTIPLICATION_TEST_LAST then L_ASTERISK
      else L_DOTDOTDOT, ssp, sdp') \<and> sd_cur sdp' = sd_cur ?sdp + length ''...''"
    by (rule slax_operators [OF text_data_ok mem]) (use long in \<open>auto simp: text_data_def list_all_iff\<close>)
  then show ?thesis by (simp add: text_data_def eval_nat_numeral)
qed

end
