(* ===== verification/Slaxstring_Props.thy ===== *)
theory Slaxstring_Props
  imports Slaxcopy_Props Slaxlexer_Props
begin

text \<open>
  Quoted strings: what \<^verbatim>\<open>slaxStringAsChar\<close> writes the lexer reads back, wherever it stands in a text; and how an
  escaped character number is read.
\<close>

section \<open>A piece of the buffer\<close>

primrec text_at :: "slax_data \<Rightarrow> nat \<Rightarrow> string \<Rightarrow> bool" where
  "text_at sdp i [] = True"
| "text_at sdp i (c # cs) = (rd sdp i = Some c \<and> text_at sdp (Suc i) cs)"

lemma text_at_append [simp]: "text_at sdp i (s @ t) \<longleftrightarrow> text_at sdp i s \<and> text_at sdp (i + length s) t"
  by (induction s arbitrary: i) auto

lemma text_at_frame: "sd_buf sdp' = sd_buf sdp \<Longrightarrow> text_at sdp' i s = text_at sdp i s"
  by (induction s arbitrary: i) (simp_all add: rd_def)

lemma rd_cur [simp]: "rd (sdp\<lparr>sd_cur := j\<rparr>) i = rd sdp i"
  by (simp add: rd_def)

lemma text_at_cur [simp]: "text_at (sdp\<lparr>sd_cur := j\<rparr>) i s = text_at sdp i s"
  by (rule text_at_frame) simp

lemma text_at_take:
  assumes "text_ok buf sdp" "i + length s \<le> sd_len sdp" "take (length s) (drop i buf) = s"
  shows "text_at sdp i s"
  using assms(2,3)
proof (induction s arbitrary: i)
  case (Cons c s)
  have "i < length buf" using Cons.prems(1) text_okD(4) [OF assms(1)] by simp
  then have "drop i buf = buf ! i # drop (Suc i) buf" by (rule Cons_nth_drop_Suc [symmetric])
  with Cons.prems(2) have "buf ! i = c" "take (length s) (drop (Suc i) buf) = s" by simp_all
  with Cons.IH [of "Suc i"] Cons.prems(1) rd_ok [OF assms(1), of i] show ?case by simp
qed simp

section \<open>Reading a quoted string\<close>

text \<open>The body of a string between quotes \<open>q\<close>: no quote and no backslash but the escapes.\<close>

lemma quoted_loop_plain:
  assumes "text_ok buf sdp" "rd sdp (sd_cur sdp) = Some c" "sd_cur sdp + 1 < sd_len sdp" "c \<noteq> q" "c \<noteq> BSLASH"
  shows "quoted_loop q sdp = quoted_loop q (sdp\<lparr>sd_cur := sd_cur sdp + 1\<rparr>)"
  using assms move_cur_ok [OF assms(1)] by (subst quoted_loop.simps) simp

lemma quoted_loop_escape:
  assumes "text_ok buf sdp" "rd sdp (sd_cur sdp) = Some BSLASH" "sd_cur sdp + 2 < sd_len sdp" "q \<noteq> BSLASH"
    "\<not> slaxParseIsXpath sdp"
  shows "quoted_loop q sdp = quoted_loop q (sdp\<lparr>sd_cur := sd_cur sdp + 2\<rparr>)"
  using assms move_cur_ok [OF assms(1)] by (subst quoted_loop.simps) (simp add: slaxParseIsXpath_def numeral_2_eq_2)

lemma quoted_loop_end:
  assumes "text_ok buf sdp" "rd sdp (sd_cur sdp) = Some q" "sd_cur sdp < sd_len sdp"
  shows "quoted_loop q sdp = Some (False, sdp)"
  using assms by (subst quoted_loop.simps) simp

lemma escape_char_cases:
  assumes "escape_char c = Some e"
  shows "c = TAB \<and> e = CHR ''t'' \<or> c = NEWLINE \<and> e = CHR ''n'' \<or> c = CRETURN \<and> e = CHR ''r'' \<or> c = BSLASH \<and> e = BSLASH"
  using assms by (auto simp: escape_char_def slaxEscapedFrom_def slaxEscapedTo_def split: if_splits)

lemma escape_char_bslash: "escape_char c = None \<Longrightarrow> c \<noteq> BSLASH"
  by (auto simp: escape_char_def slaxEscapedFrom_def slaxEscapedTo_def)

lemma quoted_loop_text:
  assumes "text_ok buf sdp" "\<not> slaxParseIsXpath sdp" "q \<notin> set str" "q \<noteq> BSLASH"
    "text_at sdp (sd_cur sdp) (escape_text str @ [q])" "sd_cur sdp + length (escape_text str) < sd_len sdp"
  shows "quoted_loop q sdp = Some (False, sdp\<lparr>sd_cur := sd_cur sdp + length (escape_text str)\<rparr>)"
  using assms
proof (induction str arbitrary: sdp)
  case Nil
  then show ?case by (simp add: quoted_loop_end [where buf = buf])
next
  case (Cons c str)
  show ?case
  proof (cases "escape_char c")
    case None
    let ?n = "sdp\<lparr>sd_cur := sd_cur sdp + 1\<rparr>"
    have "quoted_loop q sdp = quoted_loop q ?n"
      by (rule quoted_loop_plain [of buf _ c]) (use Cons.prems None escape_char_bslash [OF None] in auto)
    also have "\<dots> = Some (False, ?n\<lparr>sd_cur := sd_cur ?n + length (escape_text str)\<rparr>)"
    proof (rule Cons.IH)
      show "text_ok buf ?n" using Cons.prems(1,6) None by (simp add: text_ok_def)
      show "text_at ?n (sd_cur ?n) (escape_text str @ [q])" using Cons.prems(5) None by simp
    qed (use Cons.prems None in \<open>auto simp: slaxParseIsXpath_def\<close>)
    finally show ?thesis using None by simp
  next
    case (Some e)
    let ?n = "sdp\<lparr>sd_cur := sd_cur sdp + 2\<rparr>"
    have "quoted_loop q sdp = quoted_loop q ?n"
      by (rule quoted_loop_escape [of buf]) (use Cons.prems Some in auto)
    also have "\<dots> = Some (False, ?n\<lparr>sd_cur := sd_cur ?n + length (escape_text str)\<rparr>)"
    proof (rule Cons.IH)
      show "text_ok buf ?n" using Cons.prems(1,6) Some by (simp add: text_ok_def)
      show "text_at ?n (sd_cur ?n) (escape_text str @ [q])" using Cons.prems(5) Some by simp
    qed (use Cons.prems Some in \<open>auto simp: slaxParseIsXpath_def\<close>)
    finally show ?thesis using Some by simp
  qed
qed

lemma create_quoted_plain:
  assumes "i < len" "rd sdp (start + i) = Some c" "c \<noteq> BSLASH"
  shows "create_quoted sdp start len i out = create_quoted sdp start len (i + 1) (out @ [c])"
  using assms by (subst create_quoted.simps) simp

lemma create_quoted_escape:
  assumes "i + 1 < len" "rd sdp (start + i) = Some BSLASH" "rd sdp (start + i + 1) = Some ch" "\<not> slaxParseIsXpath sdp"
    "create_escape sdp start len (i + 1) ch = Some (bytes, j)"
  shows "create_quoted sdp start len i out = create_quoted sdp start len (j + 1) (out @ bytes)"
  using assms by (subst create_quoted.simps) auto

lemma create_quoted_text:
  assumes "\<not> slaxParseIsXpath sdp" "text_at sdp (start + i) (escape_text str)" "i + length (escape_text str) = len"
  shows "create_quoted sdp start len i out = Some (out @ str, False)"
  using assms(2,3)
proof (induction str arbitrary: i out)
  case Nil
  then show ?case by (subst create_quoted.simps) simp
next
  case (Cons c str)
  show ?case
  proof (cases "escape_char c")
    case None
    have "create_quoted sdp start len i out = create_quoted sdp start len (i + 1) (out @ [c])"
      by (rule create_quoted_plain) (use Cons.prems None escape_char_bslash [OF None] in auto)
    also have "\<dots> = Some ((out @ [c]) @ str, False)"
      by (rule Cons.IH) (use Cons.prems None in auto)
    finally show ?thesis by simp
  next
    case (Some e)
    have "create_escape sdp start len (i + 1) e = Some ([c], i + 1)"
      using escape_char_cases [OF Some] by (auto simp: create_escape_def)
    then have "create_quoted sdp start len i out = create_quoted sdp start len (i + 1 + 1) (out @ [c])"
      by (intro create_quoted_escape [of _ _ _ _ e]) (use Cons.prems Some assms(1) in auto)
    also have "\<dots> = Some ((out @ [c]) @ str, False)"
      by (rule Cons.IH) (use Cons.prems Some in auto)
    finally show ?thesis by simp
  qed
qed

section \<open>The token of a quoted string\<close>

text \<open>A quote is at the start of no other token.\<close>

lemma quote_wide: "list_all (\<lambda>q. singleWide lexer_tables q = 0 \<and> doubleWide lexer_tables q = 0 \<and> tripleWide lexer_tables q = 0)
    [SQUOTE, DQUOTE]"
  unfolding lexer_tables_simps by code_simp

lemma skip_no_space:
  assumes "text_ok buf sdp" "rd sdp (sd_cur sdp) = Some c" "\<not> c_isspace c" "c \<noteq> CHR ''/''" "sd_cur sdp < sd_len sdp"
  shows "lexer_skip sdp = Some (False, sdp\<lparr>sd_start := sd_cur sdp\<rparr>)"
proof -
  let ?s = "sdp\<lparr>sd_start := sd_cur sdp\<rparr>"
  have rd: "rd ?s (sd_cur sdp) = Some c" using assms(2) by (simp add: rd_def)
  have "skip_space ?s = Some ?s" using rd assms(3) by (subst skip_space.simps) simp
  moreover have "slaxIsCommentStart ?s (sd_cur sdp) = Some (False, ?s)"
    using rd assms(4) by (simp add: slaxIsCommentStart_def)
  ultimately show ?thesis using assms(5) by (subst lexer_skip.simps) (simp add: Let_def)
qed

text \<open>The lexer on a quoted string, given where its loop ends and the text that is made of it.\<close>

lemma yylex_quoted:
  assumes ok: "text_ok buf sdp" and q: "q = SQUOTE \<or> q = DQUOTE" "rd sdp (sd_cur sdp) = Some q"
    and len: "sd_cur sdp + 1 + n < sd_len sdp"
    and loop: "\<And>s. text_ok buf s \<Longrightarrow> sd_parse s = sd_parse sdp \<Longrightarrow> sd_cur s = sd_cur sdp + 1 \<Longrightarrow> sd_len s = sd_len sdp
      \<Longrightarrow> quoted_loop q s = Some (False, s\<lparr>sd_cur := sd_cur sdp + 1 + n\<rparr>)"
    and create: "\<And>s. text_ok buf s \<Longrightarrow> sd_parse s = sd_parse sdp \<Longrightarrow> sd_len s = sd_len sdp
      \<Longrightarrow> create_quoted s (sd_cur sdp + 1) n 0 [] = Some (str, False)"
  shows "\<exists>sdp'. slaxYylex True sdp = Some (T_QUOTED, Some (segment str T_QUOTED), sdp') \<and> sd_cur sdp' = sd_cur sdp + n + 2"
proof -
  define s where "s = sdp\<lparr>sd_flags := sd_flags sdp OR sd_flags_next sdp, sd_flags_next := 0, sd_start := sd_cur sdp\<rparr>"
  have s: "text_ok buf s" "sd_cur s = sd_cur sdp" "sd_start s = sd_cur sdp" "sd_len s = sd_len sdp" "sd_parse s = sd_parse sdp"
    using ok by (simp_all add: s_def text_ok_def)
  have here: "sd_cur sdp < sd_len sdp" using len by simp
  have rd: "rd s (sd_cur s) = Some q" using q(2) by (simp add: s_def rd_def)
  have ks: "s\<lparr>sd_start := sd_cur s\<rparr> = s" using s(2,3) by simp
  have qs: "\<not> c_isspace q" "q \<noteq> CHR ''/''" "q \<notin> set ''{};+''" "(of_char q :: nat) < 128"
    using q(1) by (auto simp: c_isspace_def)
  have skip: "lexer_skip s = Some (False, s)"
    using skip_no_space [OF s(1) rd qs(1,2)] here s(2,4) ks by simp
  define t where "t = s\<lparr>sd_cur := sd_cur sdp + n + 2\<rparr>"
  have "slaxMoveCur s = Some (False, s\<lparr>sd_cur := sd_cur sdp + 1\<rparr>)"
    using move_cur_ok [OF s(1)] s(2,4) len by simp
  moreover have "quoted_loop q (s\<lparr>sd_cur := sd_cur sdp + 1\<rparr>) = Some (False, s\<lparr>sd_cur := sd_cur sdp + 1 + n\<rparr>)"
    by (subst loop) (use s len in \<open>auto simp: text_ok_def\<close>)
  ultimately have quoted: "lex_quoted q rc s = Some (T_QUOTED, t)" for rc
    using len s(4) by (simp add: lex_quoted_def t_def)
  have rds: "rd s i = Some (buf ! i)" if "i < sd_len s" for i using rd_ok [OF s(1)] that by simp
  have ascii: "lex_ascii q ch2 s = Some (T_QUOTED, t)" for ch2
    using quoted q(1) by (simp add: lex_ascii_def)
  have str: "lex_string q s = Some (T_QUOTED, t)" using quoted q(1) by (simp add: lex_string_def)
  have wide: "singleWide lexer_tables q = 0" "doubleWide lexer_tables q = 0" "tripleWide lexer_tables q = 0"
    using quote_wide q(1) by auto
  have tok: "lex_token s = Some (T_QUOTED, t)"
    unfolding lex_token_def Let_def ks rd bind.bind_lunit
    using rds qs(3,4) ascii str wide by (simp add: s(2))
  have nat_minus_2: "nat (2 + int n) - 2 = n" by (simp add: nat_add_distrib)
  have con: "context_type T_QUOTED t = Some T_QUOTED" by (simp add: context_type_def Let_def ttypes)
  let ?u = "t\<lparr>sd_last := T_QUOTED\<rparr>"
  have u: "text_ok buf ?u" "sd_parse ?u = sd_parse sdp" "sd_len ?u = sd_len sdp"
    using s len by (simp_all add: t_def text_ok_def)
  have "slaxStringCreate ?u T_QUOTED = Some (Some (segment str T_QUOTED), ?u)"
    using create [OF u] s(3) text_okD(5) [OF u(1)] nat_minus_2 by (simp add: slaxStringCreate_def Let_def ttypes t_def)
  then have "slaxYylex True sdp = Some (T_QUOTED, Some (segment str T_QUOTED), keywords_off T_QUOTED ?u)"
    using text_okD(6) [OF ok] skip tok con s(3)
    unfolding slaxYylex_def Let_def s_def [symmetric] slaxLexer_def by (simp add: ttypes t_def)
  then show ?thesis by (simp add: keywords_off_ok t_def)
qed

section \<open>Writing and reading\<close>

lemma quote_of_absent: "\<not> (SQUOTE \<in> set str \<and> DQUOTE \<in> set str) \<Longrightarrow> quote_of str \<notin> set str"
  by (auto simp: quote_of_def)

lemma quote_of_cases: "quote_of str = SQUOTE \<or> quote_of str = DQUOTE"
  by (simp add: quote_of_def)

lemma c_string_id: "NUL \<notin> set str \<Longrightarrow> c_string str = str"
  by (simp add: c_string_def) (metis takeWhile_eq_all_conv)

lemma segment_quoted_text:
  "NUL \<notin> set str \<Longrightarrow> render (SSF_QUOTES OR SSF_ESCAPE) 0 [] [segment str T_QUOTED]
     = [quote_of str] @ escape_text str @ [quote_of str] @ '' ''"
  by (simp add: segment_text_def Let_def trimmed_def space_after_def segment_def c_string_id has_def ssf_defs ttypes)

lemma escape_text_quote: "q = SQUOTE \<or> q = DQUOTE \<Longrightarrow> q \<notin> set str \<Longrightarrow> q \<notin> set (escape_text str)"
  by (induction str) (auto split: option.splits dest!: escape_char_cases)

text \<open>
  C34 (roundtrip): a string without a NUL and without both kinds of quotes is written between quotes
  with escapes, and the lexer, outside of plain XPath, reads that text back as the same quoted string, wherever it stands.
\<close>

theorem slax_quoted_roundtrip:
  assumes ok: "text_ok buf sdp" and parse: "\<not> slaxParseIsXpath sdp"
    and str: "NUL \<notin> set str" "\<not> (SQUOTE \<in> set str \<and> DQUOTE \<in> set str)"
    and out: "slaxStringAsChar (\<lambda>_. True) [segment str T_QUOTED] (SSF_QUOTES OR SSF_ESCAPE) = Some (Some (Some out))"
    and at: "sd_cur sdp + length out \<le> sd_len sdp" "take (length out) (drop (sd_cur sdp) buf) = out"
  shows "\<exists>sdp'. slaxYylex True sdp = Some (T_QUOTED, Some (segment str T_QUOTED), sdp') \<and> sd_cur sdp' = sd_cur sdp + length out"
proof -
  define q where "q = quote_of str"
  let ?body = "escape_text str"
  have "token_front (segment str T_QUOTED)" by (simp add: token_front_def segment_def)
  moreover have "\<not> has (SSF_QUOTES OR SSF_ESCAPE) SSF_NOPARENS" by (simp add: has_def ssf_defs)
  ultimately have "slaxStringAsChar (\<lambda>_. True) [segment str T_QUOTED] (SSF_QUOTES OR SSF_ESCAPE)
      = Some (Some (Some (butlast (render (SSF_QUOTES OR SSF_ESCAPE) 0 [] [segment str T_QUOTED]))))"
    using as_char_ok [of "\<lambda>_. True" "[segment str T_QUOTED]" "SSF_QUOTES OR SSF_ESCAPE"] segment_quoted_text [OF str(1)]
    by (simp del: render.simps)
  then have o: "out = [q] @ ?body @ [q]"
    using out unfolding segment_quoted_text [OF str(1)] by (simp add: q_def butlast_append)
  have t: "text_at sdp (sd_cur sdp) out" by (rule text_at_take [OF ok at])
  have q: "q = SQUOTE \<or> q = DQUOTE" "q \<notin> set str" using quote_of_cases quote_of_absent [OF str(2)] by (simp_all add: q_def)
  have same: "text_at s i u = text_at sdp i u" if "text_ok buf s" for s i u
    by (rule text_at_frame) (use that ok in \<open>simp add: text_ok_def\<close>)
  have same_rd: "rd s i = rd sdp i" if "text_ok buf s" for s i
    using that ok by (simp add: text_ok_def rd_def)
  have "\<exists>sdp'. slaxYylex True sdp = Some (T_QUOTED, Some (segment str T_QUOTED), sdp')
    \<and> sd_cur sdp' = sd_cur sdp + length ?body + 2"
  proof (rule yylex_quoted [OF ok q(1)])
    show "rd sdp (sd_cur sdp) = Some q" using t o by simp
    show "sd_cur sdp + 1 + length ?body < sd_len sdp" using at(1) o by simp
    fix s assume s: "text_ok buf s" "sd_parse s = sd_parse sdp" "sd_len s = sd_len sdp"
    then have p: "\<not> slaxParseIsXpath s" using parse by (simp add: slaxParseIsXpath_def)
    show "create_quoted s (sd_cur sdp + 1) (length ?body) 0 [] = Some (str, False)"
      by (subst create_quoted_text [OF p, where str = str]) (use t o same [OF s(1)] in auto)
    assume c: "sd_cur s = sd_cur sdp + 1"
    from quoted_loop_text [OF s(1) p q(2)]
    show "quoted_loop q s = Some (False, s\<lparr>sd_cur := sd_cur sdp + 1 + length ?body\<rparr>)"
      using t o c at(1) q(1) s(3) same [OF s(1)] same_rd [OF s(1)] by auto
  qed
  then show ?thesis using o by (simp add: eval_nat_numeral)
qed

lemma slax_quoted_roundtrip_witness:
  "\<exists>sdp'. slaxYylex True (text_data M_PARSE_FULL 0 ([SQUOTE, DQUOTE, CHR ''a'', BSLASH, CHR ''n'', SQUOTE] @ '';''))
    = Some (T_QUOTED, Some (segment [DQUOTE, CHR ''a'', NEWLINE] T_QUOTED), sdp') \<and> sd_cur sdp' = 0 + 6"
proof -
  let ?str = "[DQUOTE, CHR ''a'', NEWLINE]"
  let ?out = "[SQUOTE, DQUOTE, CHR ''a'', BSLASH, CHR ''n'', SQUOTE]"
  have 1: "slaxStringAsChar (\<lambda>_. True) [segment ?str T_QUOTED] (SSF_QUOTES OR SSF_ESCAPE) = Some (Some (Some ?out))"
    by code_simp
  have 2: "sd_cur (text_data M_PARSE_FULL 0 (?out @ '';'')) = 0" by (simp add: text_data_def)
  show ?thesis
    using slax_quoted_roundtrip [OF text_data_ok _ _ _ 1, of "?out @ '';''" M_PARSE_FULL 0] 2
    by (auto simp: text_data_def slaxParseIsXpath_def ttypes)
qed

section \<open>Character numbers\<close>

lemma quoted_loop_plains:
  assumes "text_ok buf sdp" "q \<notin> set str" "BSLASH \<notin> set str" "text_at sdp (sd_cur sdp) (str @ [q])"
    "sd_cur sdp + length str < sd_len sdp"
  shows "quoted_loop q sdp = Some (False, sdp\<lparr>sd_cur := sd_cur sdp + length str\<rparr>)"
  using assms
proof (induction str arbitrary: sdp)
  case Nil
  then show ?case by (simp add: quoted_loop_end [where buf = buf])
next
  case (Cons c str)
  let ?n = "sdp\<lparr>sd_cur := sd_cur sdp + 1\<rparr>"
  have "quoted_loop q sdp = quoted_loop q ?n"
    by (rule quoted_loop_plain [of buf _ c]) (use Cons.prems in auto)
  also have "\<dots> = Some (False, ?n\<lparr>sd_cur := sd_cur ?n + length str\<rparr>)"
    by (rule Cons.IH) (use Cons.prems in \<open>auto simp: text_ok_def\<close>)
  finally show ?case by simp
qed

lemma hex_not_special: "0 \<le> slaxHex h \<Longrightarrow> h \<noteq> DQUOTE \<and> h \<noteq> BSLASH"
  by (auto simp: slaxHex_def)

lemma create_number_escape:
  assumes "\<not> slaxParseIsXpath sdp" "text_at sdp start [BSLASH, CHR ''u'', CHR ''+'', h1, h2, h3, h4]"
    and "list_all (\<lambda>h. 0 \<le> slaxHex h) [h1, h2, h3, h4]"
  shows "create_quoted sdp start 8 0 []
    = Some (utf_bytes (nat (((slaxHex h1 * 16 + slaxHex h2) * 16 + slaxHex h3) * 16 + slaxHex h4)), False)"
proof -
  let ?w = "nat (((slaxHex h1 * 16 + slaxHex h2) * 16 + slaxHex h3) * 16 + slaxHex h4)"
  have "slaxUtfWord sdp (start + 3) 4 = Some ?w"
    using assms(2,3) by (simp add: slaxUtfWord_def rd_hex_def SLAX_UTF_WIDTH6_def eval_nat_numeral Let_def)
  then have "create_escape sdp start 8 1 CHR ''u'' = Some (utf_bytes ?w, 7)"
    using assms(2) by (simp add: create_escape_def SLAX_UTF_WIDTH4_def eval_nat_numeral)
  then have "create_quoted sdp start 8 0 [] = create_quoted sdp start 8 (7 + 1) ([] @ utf_bytes ?w)"
    by (intro create_quoted_escape [of _ _ _ _ "CHR ''u''"]) (use assms(1,2) in auto)
  then show ?thesis by (subst (asm) (2) create_quoted.simps) simp
qed

text \<open>
  C35 (error): behind an escaped character number of four digits the next character of the string is
  lost: the digits stand for the bytes of the character in UTF-8, and reading goes on one place too far.
\<close>

theorem slax_unicode_escape:
  assumes ok: "text_ok buf sdp" and parse: "\<not> slaxParseIsXpath sdp"
    and hex: "list_all (\<lambda>h. 0 \<le> slaxHex h) [h1, h2, h3, h4]" and c: "c \<noteq> DQUOTE" "c \<noteq> BSLASH"
    and at: "sd_cur sdp + 10 \<le> sd_len sdp"
      "take 10 (drop (sd_cur sdp) buf) = [DQUOTE, BSLASH, CHR ''u'', CHR ''+'', h1, h2, h3, h4, c, DQUOTE]"
  shows "\<exists>sdp'. slaxYylex True sdp = Some (T_QUOTED,
      Some (segment (utf_bytes (nat (((slaxHex h1 * 16 + slaxHex h2) * 16 + slaxHex h3) * 16 + slaxHex h4))) T_QUOTED), sdp')
    \<and> sd_cur sdp' = sd_cur sdp + 10"
proof -
  let ?w = "nat (((slaxHex h1 * 16 + slaxHex h2) * 16 + slaxHex h3) * 16 + slaxHex h4)"
  let ?tail = "[CHR ''+'', h1, h2, h3, h4, c]"
  have t: "text_at sdp (sd_cur sdp) ([DQUOTE, BSLASH, CHR ''u''] @ ?tail @ [DQUOTE])"
    using text_at_take [OF ok, of "sd_cur sdp" "[DQUOTE, BSLASH, CHR ''u''] @ ?tail @ [DQUOTE]"] at by (simp add: eval_nat_numeral)
  have same: "text_at s i u = text_at sdp i u" if "text_ok buf s" for s i u
    by (rule text_at_frame) (use that ok in \<open>simp add: text_ok_def\<close>)
  have "\<exists>sdp'. slaxYylex True sdp = Some (T_QUOTED, Some (segment (utf_bytes ?w) T_QUOTED), sdp')
    \<and> sd_cur sdp' = sd_cur sdp + 8 + 2"
  proof (rule yylex_quoted [OF ok, of DQUOTE])
    show "rd sdp (sd_cur sdp) = Some DQUOTE" "sd_cur sdp + 1 + 8 < sd_len sdp" using t at(1) by simp_all
    fix s assume s: "text_ok buf s" "sd_parse s = sd_parse sdp" "sd_len s = sd_len sdp"
    then have p: "\<not> slaxParseIsXpath s" using parse by (simp add: slaxParseIsXpath_def)
    show "create_quoted s (sd_cur sdp + 1) 8 0 [] = Some (utf_bytes ?w, False)"
      by (rule create_number_escape [OF p _ hex]) (use t in \<open>simp add: same [OF s(1)] del: text_at.simps\<close>, use t in simp)
    assume cur: "sd_cur s = sd_cur sdp + 1"
    let ?n = "s\<lparr>sd_cur := sd_cur s + 2\<rparr>"
    have ts: "text_at s (sd_cur s) ([BSLASH, CHR ''u''] @ ?tail @ [DQUOTE])" using t cur by (simp only: same [OF s(1)]) simp
    have "quoted_loop DQUOTE s = quoted_loop DQUOTE ?n"
      by (rule quoted_loop_escape [OF s(1)]) (use ts cur s(3) at(1) p in auto)
    also have "\<dots> = Some (False, ?n\<lparr>sd_cur := sd_cur ?n + length ?tail\<rparr>)"
    proof (rule quoted_loop_plains)
      show "text_ok buf ?n" using s(1,3) cur at(1) by (simp add: text_ok_def)
      show "DQUOTE \<notin> set ?tail" "BSLASH \<notin> set ?tail" using c hex hex_not_special by fastforce+
    qed (use ts cur s(3) at(1) in auto)
    finally show "quoted_loop DQUOTE s = Some (False, s\<lparr>sd_cur := sd_cur sdp + 1 + 8\<rparr>)" using cur by (simp add: eval_nat_numeral)
  qed simp
  then show ?thesis by (simp add: eval_nat_numeral)
qed

lemma slax_unicode_escape_witness:
  "\<exists>sdp'. slaxYylex True (text_data M_PARSE_FULL 0 ([DQUOTE, BSLASH] @ ''u+0041;'' @ [DQUOTE]))
    = Some (T_QUOTED, Some (segment ''A'' T_QUOTED), sdp') \<and> sd_cur sdp' = 0 + 10"
proof -
  let ?t = "[DQUOTE, BSLASH] @ ''u+0041;'' @ [DQUOTE]"
  have 1: "utf_bytes (nat (((slaxHex CHR ''0'' * 16 + slaxHex CHR ''0'') * 16 + slaxHex CHR ''4'') * 16 + slaxHex CHR ''1'')) = ''A''"
    by code_simp
  show ?thesis
    using slax_unicode_escape [OF text_data_ok, of ?t M_PARSE_FULL 0 "CHR ''0''" "CHR ''0''" "CHR ''4''" "CHR ''1''" "CHR '';''"]
    unfolding 1 by (simp add: text_data_def slaxParseIsXpath_def ttypes slaxHex_def)
qed

end
