(* ===== verification/Slaxinput_Props.thy ===== *)
theory Slaxinput_Props
  imports Slaxdata
begin

text \<open>
  Reading a file into the buffer (\<^verbatim>\<open>slaxGetInput\<close> of \<^verbatim>\<open>libslax/slaxlexer.c\<close>). The characters from the start of the token
  on, with those still in the file, are the same before and after, wherever the buffer is moved or grows, and as long as
  there are characters left a call brings some of them.
\<close>

section \<open>The state while a file is read\<close>

definition the_file :: "slax_data \<Rightarrow> string" where
  "the_file sdp = (case sd_file sdp of None \<Rightarrow> [] | Some file \<Rightarrow> file)"

definition the_buf :: "slax_data \<Rightarrow> string" where
  "the_buf sdp = (case sd_buf sdp of None \<Rightarrow> [] | Some buf \<Rightarrow> buf)"

text \<open>What is in the buffer from the start of the token on.\<close>

definition window :: "slax_data \<Rightarrow> string" where
  "window sdp = take (sd_len sdp - sd_start sdp) (drop (sd_start sdp) (the_buf sdp))"

definition file_ok :: "slax_data \<Rightarrow> bool" where
  "file_ok sdp \<longleftrightarrow> sd_file sdp \<noteq> None \<and> NUL \<notin> set (the_file sdp) \<and> length (the_buf sdp) = sd_size sdp
     \<and> sd_start sdp \<le> sd_cur sdp \<and> sd_cur sdp \<le> sd_len sdp \<and> sd_len sdp \<le> sd_size sdp
     \<and> (sd_buf sdp = None \<longrightarrow> sd_size sdp = 0) \<and> (sd_flag sdp SDF_EOF \<longrightarrow> the_file sdp = [])
     \<and> sd_parse sdp \<noteq> M_PARSE_XPATH \<and> sd_parse sdp \<noteq> M_PARSE_SLAX \<and> sd_mem sdp = (\<lambda>_. True)"

text \<open>What a call keeps.\<close>

definition same_input :: "slax_data \<Rightarrow> slax_data \<Rightarrow> bool" where
  "same_input sdp sdp' \<longleftrightarrow> window sdp' @ the_file sdp' = window sdp @ the_file sdp
     \<and> sd_cur sdp' - sd_start sdp' = sd_cur sdp - sd_start sdp"

lemma same_input_refl [simp]: "same_input sdp sdp"
  by (simp add: same_input_def)

lemma same_input_trans: "same_input s t \<Longrightarrow> same_input t u \<Longrightarrow> same_input s u"
  by (simp add: same_input_def)

lemma the_buf_Some: "sd_buf sdp = Some buf \<Longrightarrow> the_buf sdp = buf"
  by (simp add: the_buf_def)

lemma buf_store_length: "i + length s \<le> length buf \<Longrightarrow> length (buf_store buf i s) = length buf"
  by (simp add: buf_store_def)

section \<open>Room\<close>

lemma input_room_ok:
  assumes "file_ok sdp"
  shows "\<exists>sdp'. input_room sdp = Some (False, sdp') \<and> file_ok sdp' \<and> same_input sdp sdp' \<and> the_file sdp' = the_file sdp
    \<and> sd_len sdp' + SD_BUF_FUDGE \<le> sd_size sdp' \<and> sd_buf sdp' \<noteq> None
    \<and> (sd_buf sdp = None \<longrightarrow> sd_start sdp' = 0 \<and> sd_cur sdp' = 0 \<and> sd_len sdp' = 0)"
proof -
  consider (enough) "sd_len sdp + SD_BUF_FUDGE \<le> sd_size sdp"
    | (shift) "sd_len sdp + SD_BUF_FUDGE > sd_size sdp" "sd_start sdp > SD_BUF_FUDGE"
    | (grow) "sd_len sdp + SD_BUF_FUDGE > sd_size sdp" "\<not> sd_start sdp > SD_BUF_FUDGE" by linarith
  then show ?thesis
  proof cases
    case enough
    then have "sd_buf sdp \<noteq> None" using assms by (auto simp: file_ok_def SD_BUF_FUDGE_def BUFSIZ_def)
    with enough assms show ?thesis by (auto simp: input_room_def)
  next
    case shift
    let ?n = "sd_len sdp - sd_start sdp"
    have buf: "sd_buf sdp = Some (the_buf sdp)" using shift(2) assms by (auto simp: file_ok_def the_buf_def split: option.splits)
    have rd: "rd_text sdp (sd_start sdp) ?n = Some (window sdp)"
      using assms buf by (simp add: rd_text_def window_def file_ok_def)
    have len: "length (window sdp) = ?n" using assms by (auto simp: window_def file_ok_def min_def)
    define sdp' where "sdp' = sdp\<lparr>sd_buf := Some (buf_store (the_buf sdp) 0 (window sdp)), sd_len := ?n,
      sd_cur := sd_cur sdp - sd_start sdp, sd_start := 0\<rparr>"
    have "input_room sdp = Some (False, sdp')" using shift buf rd by (simp add: input_room_def sdp'_def)
    moreover have tb: "the_buf sdp' = buf_store (the_buf sdp) 0 (window sdp)" by (simp add: sdp'_def the_buf_Some)
    moreover have w: "window sdp' = window sdp"
      unfolding window_def [of sdp'] tb using len by (simp add: sdp'_def buf_store_def)
    moreover have "length (the_buf sdp') = length (the_buf sdp)"
      unfolding tb using len assms by (subst buf_store_length) (auto simp: file_ok_def)
    ultimately show ?thesis
      using assms shift buf by (auto simp: file_ok_def same_input_def sdp'_def the_file_def sd_flag_def)
  next
    case grow
    define old where "old = the_buf sdp"
    define sdp' where "sdp' = sdp\<lparr>sd_size := sd_size sdp + SD_BUF_INCR,
      sd_buf := Some (old @ map (sd_fresh sdp) [length old..<sd_size sdp + SD_BUF_INCR])\<rparr>"
    have "input_room sdp = Some (False, sdp')"
      using grow assms by (simp add: input_room_def sdp'_def old_def the_buf_def Let_def file_ok_def)
    moreover have tb: "the_buf sdp' = old @ map (sd_fresh sdp) [length old..<sd_size sdp + SD_BUF_INCR]"
      by (simp add: sdp'_def the_buf_Some)
    moreover have "window sdp' = window sdp"
      unfolding window_def tb using assms by (auto simp: sdp'_def file_ok_def old_def)
    ultimately show ?thesis
      using assms grow by (auto simp: file_ok_def same_input_def sdp'_def the_file_def the_buf_def old_def sd_flag_def
          SD_BUF_INCR_def SD_BUF_FUDGE_def BUFSIZ_def)
  qed
qed

section \<open>One line\<close>

definition read_line :: "slax_data \<Rightarrow> string \<Rightarrow> string \<Rightarrow> slax_data" where
  "read_line sdp line rest = sdp\<lparr>sd_file := Some rest,
     sd_buf := Some (buf_store (the_buf sdp) (sd_len sdp) (line @ [NUL])), sd_len := sd_len sdp + length line\<rparr>"

lemma fgets_ok:
  assumes "file \<noteq> []" "SD_BUF_FUDGE \<le> n"
  obtains line rest where "c_fgets n file = Some (line, rest)" "file = line @ rest" "line \<noteq> []" "length line < n"
proof -
  define k where "k = min (n - 1) (Suc (length (takeWhile (\<lambda>c. c \<noteq> CHR ''\<newline>'') file)))"
  have n: "1 < n" using assms(2) by (simp add: SD_BUF_FUDGE_def BUFSIZ_def)
  have "c_fgets n file = Some (take k file, drop k file)" using assms(1) by (simp add: c_fgets_def k_def Let_def)
  moreover have "take k file \<noteq> []" using n assms(1) by (simp add: k_def)
  moreover have "length (take k file) < n" using n by (auto simp: k_def min_def)
  ultimately show thesis using that by fastforce
qed

lemma read_line_ok:
  assumes ok: "file_ok sdp" and room: "sd_len sdp + SD_BUF_FUDGE \<le> sd_size sdp" and buf: "sd_buf sdp \<noteq> None"
    and line: "the_file sdp = line @ rest" "length line < sd_size sdp - sd_len sdp" and eof: "\<not> sd_flag sdp SDF_EOF"
  shows "file_ok (read_line sdp line rest)" "same_input sdp (read_line sdp line rest)"
    "the_file (read_line sdp line rest) = rest" "window (read_line sdp line rest) = window sdp @ line"
    "i \<le> length line \<Longrightarrow> rd (read_line sdp line rest) (sd_len sdp + i) = Some ((line @ [NUL]) ! i)"
proof -
  let ?s = "read_line sdp line rest"
  have tb: "the_buf ?s = buf_store (the_buf sdp) (sd_len sdp) (line @ [NUL])" by (simp add: read_line_def the_buf_Some)
  have len: "length (the_buf ?s) = length (the_buf sdp)"
    unfolding tb using line(2) ok by (subst buf_store_length) (auto simp: file_ok_def)
  show f: "the_file ?s = rest" by (simp add: the_file_def read_line_def)
  show "file_ok ?s"
    using ok len f line eof by (auto simp: file_ok_def read_line_def sd_flag_def the_file_def)
  have le: "sd_start sdp \<le> sd_len sdp" "sd_len sdp \<le> length (the_buf sdp)" using ok by (simp_all add: file_ok_def)
  then show w: "window ?s = window sdp @ line"
    unfolding window_def tb by (simp add: read_line_def buf_store_def drop_take)
  then show "same_input sdp ?s" using f line(1) by (simp add: same_input_def read_line_def)
  show "rd ?s (sd_len sdp + i) = Some ((line @ [NUL]) ! i)" if "i \<le> length line"
  proof -
    have "rd ?s (sd_len sdp + i) = (if sd_len sdp + i < length (the_buf ?s) then Some (the_buf ?s ! (sd_len sdp + i)) else None)"
      by (simp add: rd_def read_line_def the_buf_Some)
    moreover have "sd_len sdp + i < length (the_buf ?s)" using len that line(2) ok by (simp add: file_ok_def)
    moreover have "the_buf ?s ! (sd_len sdp + i) = (line @ [NUL]) ! i"
      unfolding tb using le that by (simp add: buf_store_def nth_append)
    ultimately show ?thesis by simp
  qed
qed

section \<open>The loop\<close>

text \<open>The start of a file that is taken as it is: neither a byte order mark nor a line of a script's interpreter.\<close>

definition plain_start :: "string \<Rightarrow> bool" where
  "plain_start file \<longleftrightarrow> take 2 file \<noteq> ''#!'' \<and> take 3 file \<noteq> [CHR 0xef, CHR 0xbb, CHR 0xbf]"

lemma input_first_plain:
  assumes "plain_start file" "file = line @ rest" "line \<noteq> []" "sd_cur sdp = 0" "NUL \<notin> set file"
    and "\<And>i. i \<le> length line \<Longrightarrow> rd sdp i = Some ((line @ [NUL]) ! i)"
  shows "input_first sdp = Some sdp"
proof -
  have rd: "rd sdp 0 = Some (line ! 0)" using assms(3) assms(6) [of 0] by (simp add: nth_append)
  obtain c cs where l: "line = c # cs" using assms(3) by (cases line) auto
  have 1: "rd sdp 1 = Some (case cs of [] \<Rightarrow> NUL | d # _ \<Rightarrow> d)" using assms(6) [of 1] by (cases cs) (simp_all add: l)
  have 2: "cs = d # ds \<Longrightarrow> rd sdp 2 = Some (case ds of [] \<Rightarrow> NUL | e # _ \<Rightarrow> e)" for d ds
    using assms(6) [of 2] by (cases ds) (simp_all add: l)
  show ?thesis
    using rd 1 2 assms(1,2,4) by (auto simp: input_first_def l plain_start_def Let_def split: list.splits)
qed

lemma input_loop_ok:
  assumes "file_ok sdp" "first_read \<longrightarrow> sd_buf sdp = None \<and> plain_start (the_file sdp)"
  shows "\<exists>eof sdp'. input_loop first_read final sdp = Some (eof, sdp') \<and> file_ok sdp' \<and> same_input sdp sdp'
    \<and> (if eof then sd_cur sdp' = sd_len sdp' \<and> the_file sdp' = [] else sd_cur sdp' < sd_len sdp')
    \<and> (final \<and> the_file sdp' \<noteq> [] \<longrightarrow> slaxIsFinalChar (last (window sdp')))"
  using assms
proof (induction "length (the_file sdp)" arbitrary: sdp first_read rule: less_induct)
  case less
  obtain s where s: "input_room sdp = Some (False, s)" "file_ok s" "same_input sdp s" "the_file s = the_file sdp"
    "sd_len s + SD_BUF_FUDGE \<le> sd_size s" "sd_buf s \<noteq> None" "sd_buf sdp = None \<longrightarrow> sd_start s = 0 \<and> sd_cur s = 0 \<and> sd_len s = 0"
    using input_room_ok [OF less(2)] by (elim exE conjE) (rule that)
  have contents: "(case sd_file s of None \<Rightarrow> [] | Some file \<Rightarrow> file) = the_file s" by (simp add: the_file_def)
  show ?case
  proof (cases "the_file s = []")
    case True
    let ?e = "s\<lparr>sd_flags := sd_flags s OR SDF_EOF\<rparr>"
    have "input_loop first_read final sdp = Some (\<not> sd_cur s < sd_len s, ?e)"
      using s(1) True by (subst input_loop.simps) (simp add: contents c_fgets_def Let_def)
    moreover have "file_ok ?e" "same_input sdp ?e" "the_file ?e = []"
      using s(2,3) True by (simp_all add: file_ok_def same_input_def window_def the_buf_def the_file_def)
    moreover have "sd_cur s \<le> sd_len s" using s(2) by (simp add: file_ok_def)
    ultimately show ?thesis
      by (intro exI [of _ "\<not> sd_cur s < sd_len s"] exI [of _ ?e]) simp
  next
    case False
    have "SD_BUF_FUDGE \<le> sd_size s - sd_len s" using s(5) by simp
    with False obtain line rest where get: "c_fgets (sd_size s - sd_len s) (the_file s) = Some (line, rest)"
      "the_file s = line @ rest" "line \<noteq> []" "length line < sd_size s - sd_len s" by (rule fgets_ok)
    have noeof: "\<not> sd_flag s SDF_EOF" using s(2) False by (auto simp: file_ok_def)
    define t where "t = read_line s line rest"
    note t = read_line_ok [OF s(2,5,6) get(2,4) noeof, folded t_def]
    have nul: "NUL \<notin> set line" using s(2) get(2) by (simp add: file_ok_def)
    have n: "length (takeWhile (\<lambda>c. c \<noteq> NUL) line) = length line"
      by (subst takeWhile_eq_all_conv [THEN iffD2]) (use nul in auto)
    obtain buf where "sd_buf s = Some buf" using s(6) by blast
    then have buf: "sd_buf s = Some buf" "the_buf s = buf" by (simp_all add: the_buf_Some)
    have size: "\<not> length buf < sd_len s + length line + 1" using get(4) s(2) buf by (simp add: file_ok_def)
    have read: "s\<lparr>sd_file := Some rest, sd_buf := Some (buf_store buf (sd_len s) (line @ [NUL])),
      sd_len := sd_len s + length (takeWhile (\<lambda>c. c \<noteq> NUL) line)\<rparr> = t"
      unfolding n by (simp add: t_def read_line_def buf(2))
    have "0 < length line" "sd_cur s \<le> sd_len s" using get(3) s(2) by (simp_all add: file_ok_def)
    moreover have "sd_len t = sd_len s + length line" "sd_cur t = sd_cur s" by (simp_all add: t_def read_line_def)
    ultimately have pos: "sd_len t \<noteq> 0" "sd_cur t < sd_len t" "sd_len t = sd_len s + length line" by linarith+
    have step: "input_loop first_read final sdp =
      (if first_read then do { u \<leftarrow> input_first t; input_loop False final u }
       else if \<not> final then Some (False, t)
       else do { ch \<leftarrow> rd t (sd_len t - 1);
         if slaxIsFinalChar ch then Some (False, t) else input_loop False final t })"
      by (subst input_loop.simps) (simp only: s(1) bind.bind_lunit prod.case if_False if_not_P [OF noeof] contents get(1)
          option.case buf(1) Let_def if_not_P [OF size] read if_not_P [OF pos(1)])
    have st: "same_input sdp t" using s(3) t(2) by (rule same_input_trans)
    have "length (the_file t) < length (the_file sdp)" using t(3) get(2,3) s(4) by simp
    from less(1) [OF this t(1), of False, simplified]
    obtain eof u where u: "input_loop False final t = Some (eof, u)" "file_ok u" "same_input t u"
      "if eof then sd_cur u = sd_len u \<and> the_file u = [] else sd_cur u < sd_len u"
      "final \<and> the_file u \<noteq> [] \<longrightarrow> slaxIsFinalChar (last (window u))" by (elim exE conjE) (rule that)
    note su = same_input_trans [OF st u(3)]
    show ?thesis
    proof (cases first_read)
      case True
      then have "input_first t = Some t"
        using less(3) s(4,7) get(2,3) t(5) s(2)
        by (intro input_first_plain [of "the_file s" line rest]) (auto simp: t_def read_line_def file_ok_def)
      show ?thesis unfolding step if_P [OF True] \<open>input_first t = Some t\<close> bind.bind_lunit using u su by blast
    next
      case notfirst: False
      have "window t \<noteq> []" "last (window t) = line ! (length line - 1)"
        using t(4) get(3) by (simp_all add: last_conv_nth [OF get(3)])
      moreover have "rd t (sd_len t - 1) = Some (line ! (length line - 1))"
        using t(5) [of "length line - 1"] pos(3) get(3) nth_append [of line "[NUL]" "length line - 1"] by (cases line) simp_all
      ultimately have ch: "rd t (sd_len t - 1) = Some (last (window t))" by simp
      consider "\<not> final \<or> slaxIsFinalChar (last (window t))" | "final" "\<not> slaxIsFinalChar (last (window t))" by blast
      then show ?thesis
      proof cases
        case 1
        then have "input_loop first_read final sdp = Some (False, t)"
          unfolding step if_not_P [OF notfirst] ch by auto
        with 1 t(1) st pos(2) show ?thesis by (intro exI [of _ False] exI [of _ t]) auto
      next
        case 2
        then have "input_loop first_read final sdp = Some (eof, u)"
          unfolding step if_not_P [OF notfirst] ch using u(1) by simp
        with u su show ?thesis by blast
      qed
    qed
  qed
qed

text \<open>
  C36 (liveness): a call for more input returns; it brings characters as long as there are any behind the
  current position, in the buffer or in the file, and only answers the end when there are none. No character
  from the start of the token on is lost or changed, and a final call ends where a token ends, or with the file.
  The file holds no NUL (\<open>file_ok\<close>), and a file that is read from its start has no byte order mark and no \<^verbatim>\<open>#!\<close>
  line there (\<open>plain_start\<close>).
\<close>

theorem slax_get_input:
  assumes "file_ok sdp" "sd_buf sdp = None \<longrightarrow> plain_start (the_file sdp)"
  shows "\<exists>eof sdp'. slaxGetInput sdp final = Some (eof, sdp') \<and> file_ok sdp'
    \<and> window sdp' @ the_file sdp' = window sdp @ the_file sdp
    \<and> sd_cur sdp' - sd_start sdp' = sd_cur sdp - sd_start sdp
    \<and> (if eof then sd_cur sdp' = sd_len sdp' \<and> the_file sdp' = [] else sd_cur sdp' < sd_len sdp')
    \<and> (final \<and> the_file sdp' \<noteq> [] \<longrightarrow> slaxIsFinalChar (last (window sdp')))"
proof -
  have "slaxGetInput sdp final = input_loop (sd_buf sdp = None) final sdp"
    using assms(1) by (auto simp: slaxGetInput_def file_ok_def)
  then show ?thesis
    using input_loop_ok [OF assms(1), of "sd_buf sdp = None" final] assms(2) unfolding same_input_def by simp
qed

definition file_data :: "string \<Rightarrow> slax_data" where
  "file_data file = \<lparr>sd_errors = 0, sd_file = Some file, sd_flags = 0, sd_flags_next = 0, sd_parse = M_PARSE_FULL,
     sd_ttype = 0, sd_last = 0, sd_line = 1, sd_start = 0, sd_cur = 0, sd_len = 0, sd_size = 0, sd_buf = None,
     sd_input = None, sd_sort = False, sd_comments = [], sd_mem = (\<lambda>_. True), sd_fresh = (\<lambda>_. NUL)\<rparr>"

lemma slax_get_input_witness:
  "\<exists>eof sdp'. slaxGetInput (file_data ''version 1.2; ns a;'') True = Some (eof, sdp') \<and> file_ok sdp'
    \<and> window sdp' @ the_file sdp' = ''version 1.2; ns a;''"
proof -
  let ?f = "''version 1.2; ns a;''"
  have "file_ok (file_data ?f)" "sd_buf (file_data ?f) = None \<longrightarrow> plain_start (the_file (file_data ?f))"
    "window (file_data ?f) @ the_file (file_data ?f) = ?f"
    by (simp_all add: file_ok_def file_data_def the_file_def the_buf_def sd_flag_def ttypes plain_start_def window_def)
  with slax_get_input [of "file_data ?f" True] show ?thesis by metis
qed

end
