(* ===== verification/Spec2Isabelle.thy ===== *)
theory Spec2Isabelle
  imports Paarb_Props Pabitmap_Props Papat_Props ExtBit_Props Psubase64_Props Slaxheap_Props Slaxstring_Props Slaxinput_Props
begin

text \<open>
  A verification of libslax: the storage library parrotdb, the lexer and the strings of the SLAX
  parser, the bit string extension and base64.

  \<^bold>\<open>The program and its parts.\<close> libslax reads SLAX, an alternate syntax for XSLT, and builds the tree of a
  stylesheet in libxml2. The parser is generated by bison from \<^verbatim>\<open>libslax/slaxparser.y\<close>; it calls
  \<^verbatim>\<open>slaxYylex\<close> of \<^verbatim>\<open>libslax/slaxlexer.c\<close> for the tokens, which fills its buffer from a file with
  \<^verbatim>\<open>slaxGetInput\<close>, turns the text of a token into a segment with \<^verbatim>\<open>slaxStringCreate\<close> of
  \<^verbatim>\<open>libslax/slaxstring.c\<close> and hands comments to libxml2. The actions of the parser link the segments of
  an expression, rewrite concatenations (\<^verbatim>\<open>slaxConcatRewrite\<close>) and build texts out of them
  (\<^verbatim>\<open>slaxStringAsChar\<close>, \<^verbatim>\<open>slaxStringAsValueTemplate\<close>). \<^verbatim>\<open>extensions/bit/ext_bit.c\<close> is a table of XPath functions
  that libxslt calls, \<^verbatim>\<open>libpsu/psubase64.c\<close> a helper. parrotdb keeps data structures in a memory
  mapped file: \<^verbatim>\<open>pammap.c\<close> hands out pages; \<^verbatim>\<open>pafixed.c\<close> divides pages into atoms of one size,
  \<^verbatim>\<open>paarb.c\<close> into chunks of powers of two; \<^verbatim>\<open>pabitmap.h\<close> and \<^verbatim>\<open>papat.c\<close> keep bitmaps and patricia trees in
  paged arrays.

  \<^bold>\<open>The theories.\<close> Those without a suffix translate the source, one definition for a function or for a
  loop of it, under the source's names; those with one prove what holds of the definitions.

  \<^item> \<^verbatim>\<open>Prelude\<close>, \<^verbatim>\<open>Clib\<close>: words of 8, 16, 32 and 64 bits; memory as a function from addresses to bytes with
    little-endian reads and writes; \<^verbatim>\<open>ok_with m P\<close>, that a computation returns a value that satisfies
    \<^verbatim>\<open>P\<close>; \<^verbatim>\<open>same_on A m m'\<close>, that two memories agree on \<^verbatim>\<open>A\<close>; \<^verbatim>\<open>strtoul\<close>, \<^verbatim>\<open>isspace\<close> and their like.
  \<^item> \<^verbatim>\<open>Pacommon\<close>, \<^verbatim>\<open>Paconfig\<close>, \<^verbatim>\<open>Pammap\<close>, \<^verbatim>\<open>Paopen\<close>: \<^verbatim>\<open>pacommon.h\<close>, \<^verbatim>\<open>paconfig.c\<close> and \<^verbatim>\<open>pammap.c\<close>. A segment is the
    record \<^verbatim>\<open>pa_mmap\<close> of its descriptor, its length and its bytes; addresses count from its start.
    \<^verbatim>\<open>Pasegment\<close> states what a program may do to a segment (\<^verbatim>\<open>mm_step\<close>) and proves by induction over the
    steps that the free list and the blocks in use tile the segment (\<^verbatim>\<open>mm_wf\<close>). \<^verbatim>\<open>Pasegment_Props\<close>: blocks
    never overlap, allocations return and change no byte in use, a freed block is available again,
    named headers are found again, a file reopens with its contents.
  \<^item> \<^verbatim>\<open>Paarb\<close>: \<^verbatim>\<open>paarb.c\<close>, \<^verbatim>\<open>paarb.h\<close>, \<^verbatim>\<open>palog2.h\<close>. \<^verbatim>\<open>Paarb_Pool\<close>: the invariant \<^verbatim>\<open>arb_ok\<close> (the blocks taken from the
    segment are tiled by pieces, each free one on the list of its size, each one in use with its
    header). \<^verbatim>\<open>Paarb_Alloc\<close>, \<^verbatim>\<open>Paarb_Page\<close>, \<^verbatim>\<open>Paarb_Large\<close>, \<^verbatim>\<open>Paarb_Ops\<close>: its preservation by taking and
    returning a chunk, dividing a page, and large requests. \<^verbatim>\<open>Paarb_Props\<close>: a program that allocates,
    writes and frees in any order reads back what it wrote.
  \<^item> \<^verbatim>\<open>Pafixed\<close>: \<^verbatim>\<open>pafixed.c\<close>, \<^verbatim>\<open>pafixed.h\<close>. \<^verbatim>\<open>Pafixed_Pool\<close>: the invariant \<^verbatim>\<open>fx_ok\<close> (the chain of free atoms ends at
    the first page without memory). \<^verbatim>\<open>Pafixed_Alloc\<close>, \<^verbatim>\<open>Pafixed_Props\<close>: atoms are fresh, a freed atom is the next
    one, the null atom means that all are used or that the segment gives no page.
  \<^item> \<^verbatim>\<open>Pabitmap\<close>: \<^verbatim>\<open>pabitmap.h\<close>. \<^verbatim>\<open>Pabitmap_Props\<close>: bitmaps as sets of numbers, the search as the least later element.
  \<^item> \<^verbatim>\<open>Papat\<close>: \<^verbatim>\<open>papat.c\<close>, \<^verbatim>\<open>papat.h\<close>, over nodes as a map from atoms to records and over the bytes they are
    kept in. \<^verbatim>\<open>Papat_Bits\<close>: bit numbers against positions in a key. \<^verbatim>\<open>Papat_Tree\<close>, \<^verbatim>\<open>Papat_Insert\<close>: the trees
    behind the nodes, as a datatype, and insertion into them. \<^verbatim>\<open>Papat_Ok\<close>, \<^verbatim>\<open>Papat_Add\<close>, \<^verbatim>\<open>Papat_Props\<close>: the nodes
    refine an ordered dictionary of keys none of which is a prefix of another; adding, looking up,
    neighbours and prefix search are those of the dictionary.
  \<^item> \<^verbatim>\<open>ExtBit\<close>: \<^verbatim>\<open>ext_bit.c\<close>. \<^verbatim>\<open>ExtBit_Props\<close>: the functions are the operations on the value of a bit string as a
    binary number.
  \<^item> \<^verbatim>\<open>Psubase64\<close>, \<^verbatim>\<open>Psubase64_Props\<close>: \<^verbatim>\<open>psubase64.c\<close>; decoding stays within its buffers and undoes encoding.
  \<^item> \<^verbatim>\<open>Slaxtoken\<close>, \<^verbatim>\<open>Slaxtables\<close>: the token numbers of \<^verbatim>\<open>slaxparser.y\<close> and the tables of \<^verbatim>\<open>slaxlexer.c\<close>. \<^verbatim>\<open>Slaxdata\<close>:
    \<^verbatim>\<open>struct slax_data_s\<close>, the buffer and \<^verbatim>\<open>slaxGetInput\<close>. \<^verbatim>\<open>Slaxlexer\<close>: keywords, comments, \<^verbatim>\<open>slaxLexer\<close> and
    \<^verbatim>\<open>slaxYylex\<close>. \<^verbatim>\<open>Slaxlexer_Safe\<close>: total correctness of each of them on a text in memory. \<^verbatim>\<open>Slaxlexer_Props\<close>: the
    lexer stays within the text, ends, and only when the text is read; operators are the longest ones of
    the tables, keywords are recognized, comments are XML comments. \<^verbatim>\<open>Slaxinput_Props\<close>: filling the
    buffer from a file loses nothing.
  \<^item> \<^verbatim>\<open>Slaxstring\<close>, \<^verbatim>\<open>Slaxcopy\<close>, \<^verbatim>\<open>Slaxheap\<close>: \<^verbatim>\<open>slaxstring.c\<close>, on one segment, on lists of segments, and on a heap of
    linked segments. \<^verbatim>\<open>Slaxcopy_Props\<close>: the computed length of a text suffices. \<^verbatim>\<open>Slaxstring_Props\<close>: the lexer
    reads back what is written. \<^verbatim>\<open>Slaxheap_Props\<close>: rewriting a concatenation appends an operand; value templates
    are those of the operands.

  \<^bold>\<open>Interfaces.\<close> The components are stacked through locales, each interpreted on the definitions of the
  code in the theory of its provider. \<^verbatim>\<open>page_alloc\<close> and its extension \<^verbatim>\<open>page_pool\<close> (allocating, writing and
  freeing pages; \<^verbatim>\<open>mm\<close>, \<^verbatim>\<open>mmp\<close> in \<^verbatim>\<open>Pasegment\<close>) carry the proofs of the paged arrays and of the arbitrary
  allocator; \<^verbatim>\<open>byte_pool\<close> (pieces of any size; \<^verbatim>\<open>arbp\<close> in \<^verbatim>\<open>Paarb_Iface\<close>) those about the runs of a client;
  \<^verbatim>\<open>atom_pool\<close> (atoms of one size; \<^verbatim>\<open>fxp\<close> in \<^verbatim>\<open>Pafixed_Iface\<close>) those of the patricia tree, and its extension
  \<^verbatim>\<open>zero_pool\<close> (atoms that are handed out cleared; \<^verbatim>\<open>zxp\<close> in \<^verbatim>\<open>Pabitmap_Props\<close>) those of the bitmaps.

  \<^bold>\<open>Errors, loops and bounds.\<close> A null pointer or an error return of the code is a value of its result. A result
  \<^verbatim>\<open>None\<close> of type \<^verbatim>\<open>option\<close>, the outer one where there are two, is what the code must not do: an access outside of
  a buffer or through a null pointer, a conversion or an \<^verbatim>\<open>int\<close> sum that is undefined in C, or a loop
  that does not end. Loops that may not end are partial functions over options, the others are functions
  with a measure, so no fuel is chosen anywhere except in \<^verbatim>\<open>lex_all\<close>, which calls the lexer once more than
  there are characters left; \<^verbatim>\<open>slax_lexer_ends\<close> shows that this is enough. Words wrap as in the
  source. Where the code computes in \<^verbatim>\<open>int\<close>, the base64 lengths and the bit numbers are modelled at their
  width; the positions and lengths of the lexer, of its buffer and of the strings are numbers without a
  bound, which is the same below 2 GB. The statements about segments hold below 4 GB, where the 32-bit
  shift of \<^verbatim>\<open>pa_pointer\<close> would wrap. Machines have little-endian bytes, pointers of 64 bits and signed
  \<^verbatim>\<open>char\<close>.

  \<^bold>\<open>Parameters.\<close> What is not in the source is an argument: \<^verbatim>\<open>pa_os\<close> and \<^verbatim>\<open>pa_file_env\<close> answer for the operating
  system (\<^verbatim>\<open>mmap\<close>, \<^verbatim>\<open>ftruncate\<close>, the file that is opened), \<^verbatim>\<open>mem\<close>, \<^verbatim>\<open>sd_mem\<close> and flags named \<^verbatim>\<open>calloc\<close> for memory,
  \<^verbatim>\<open>sd_fresh\<close> and \<^verbatim>\<open>h_fresh\<close> for what fresh memory holds, \<^verbatim>\<open>vars\<close> for the configuration variables, the record
  \<^verbatim>\<open>xpath\<close> for the objects of libxml2. The theorems hold for all of them, or name what they take: that memory
  is found, that \<^verbatim>\<open>xmlStrcmp\<close> has the sign of \<^verbatim>\<open>strcmp\<close>.

  \<^bold>\<open>Deviations of the code\<close> from what it means to do are part of the model. Theorems pin some of them: the
  walk over the named headers misses the last one (\<^verbatim>\<open>pa_mmap_next_header_walk\<close>), the character behind an
  escaped character number is lost (\<^verbatim>\<open>slax_unicode_escape\<close>), the concatenation of two empty strings does not
  return (\<^verbatim>\<open>slax_concat_empty\<close>). Others are excluded by hypotheses that the text before the theorem names.

  \<^bold>\<open>Not modelled.\<close> The grammar, whose parser bison generates. The tree, loader, writer, debugger, profiler and
  variable parts of \<^verbatim>\<open>libslax/\<close>, and the JSON and YAML writers: they build, walk and print trees of libxml2
  through its functions and callbacks, so their state is that library's. \<^verbatim>\<open>libslax/slaxext.c\<close> and the
  curl, db, exslt, os and xutil extensions: calls of other libraries and of the system. \<^verbatim>\<open>libxi/\<close>: an
  experimental parser that nothing uses. \<^verbatim>\<open>paistr.c\<close>: strings over patterns of storage that are modelled
  with the paged arrays and the arbitrary allocator. Within the components that are modelled, functions that only
  log, print or free a handle are left out, and the deletion of patricia nodes, which is compiled out.
\<close>

end
